(* ===== verification/Prelude.thy ===== *)
theory Prelude
  imports Main "HOL-Library.Word"
begin

text \<open>
  Shared vocabulary of the development.

  \<^item> \<open>fault\<close> and \<open>res\<close>: how a run of a C++ function ends. \<open>Inr\<close> is a normal return;
    \<open>Inl\<close> is a run that leaves the program: undefined behaviour (an access outside an array or
    through a null pointer), \<open>abort()\<close> after a FATAL log line, a loop that never ends, or a system
    call that the given script of kernel answers does not answer.
  \<^item> \<open>int32\<close>, \<open>size64\<close>: the conversions the code makes between \<open>size_t\<close> and \<open>int\<close>.
  \<^item> \<open>seg\<close>, \<open>blit\<close>: reading and overwriting a range of a byte array.
  \<^item> \<open>safe\<close>: runs without undefined behaviour.
  \<^item> C string functions (\<open>strncasecmp\<close>, reading a \<open>char*\<close> up to its NUL).
  \<^item> \<open>reach\<close> and the locale \<open>safety_machine\<close>: invariants of step relations.
  \<^item> the locale \<open>byte_sink\<close>: the contract of everything in the program bytes are appended to.
\<close>

subsection \<open>Outcomes\<close>

datatype fault =
    Undefined_Behaviour
  | Process_Abort
  | Endless_Loop
  | Script_Exhausted

type_synonym 'a res = "fault + 'a"

definition bind_res :: "'a res \<Rightarrow> ('a \<Rightarrow> 'b res) \<Rightarrow> 'b res" where
  "bind_res m f = (case m of Inl e \<Rightarrow> Inl e | Inr x \<Rightarrow> f x)"

lemma bind_res_simps [simp]:
  "bind_res (Inl e) f = Inl e"
  "bind_res (Inr x) f = f x"
  by (simp_all add: bind_res_def)

lemma bind_res_eq_Inr: "bind_res m f = Inr y \<longleftrightarrow> (\<exists>x. m = Inr x \<and> f x = Inr y)"
  by (cases m) auto

lemma bind_res_assoc: "bind_res (bind_res m f) g = bind_res m (\<lambda>x. bind_res (f x) g)"
  by (cases m) auto

text \<open>\<open>safe P r\<close>: the run \<open>r\<close> is not undefined behaviour, and what it returns, if it does, satisfies \<open>P\<close>. The rules
  follow the code: a sequence is safe when what comes first is and leaves what the rest needs.\<close>

definition safe :: "('a \<Rightarrow> bool) \<Rightarrow> 'a res \<Rightarrow> bool" where
  "safe P r \<longleftrightarrow> (case r of Inl e \<Rightarrow> e \<noteq> Undefined_Behaviour | Inr x \<Rightarrow> P x)"

lemma safe_simps [simp]: "safe P (Inr x) = P x" "safe P (Inl e) = (e \<noteq> Undefined_Behaviour)"
  by (simp_all add: safe_def)

lemma safe_bind: "safe Q m \<Longrightarrow> (\<And>x. m = Inr x \<Longrightarrow> Q x \<Longrightarrow> safe P (f x)) \<Longrightarrow> safe P (bind_res m f)"
  by (cases m) auto

lemma safe_then: "safe P (bind_res m (\<lambda>x. Inr (f x))) = safe (\<lambda>x. P (f x)) m"
  by (cases m) auto

lemma safe_mono: "safe P r \<Longrightarrow> (\<And>x. r = Inr x \<Longrightarrow> P x \<Longrightarrow> Q x) \<Longrightarrow> safe Q r"
  by (cases r) auto

lemma safe_defined: "safe P r \<Longrightarrow> r \<noteq> Inl Undefined_Behaviour"
  by auto

lemma safe_Inr: "safe P r \<Longrightarrow> r = Inr x \<Longrightarrow> P x"
  by simp

subsection \<open>Machine integers\<close>

text \<open>
  \<open>size_t\<close> values are natural numbers. Converting the difference of two of them to \<open>int\<close>
  reduces it modulo 2^64 and then keeps the low 32 bits as a two's complement number, which is
  reduction of the mathematical difference modulo 2^32. Converting an \<open>int\<close> to \<open>size_t\<close> reduces
  modulo 2^64.
\<close>

definition int32 :: "int \<Rightarrow> int" where
  "int32 x = (x + 2 ^ 31) mod 2 ^ 32 - 2 ^ 31"

definition size64 :: "int \<Rightarrow> nat" where
  "size64 x = nat (x mod 2 ^ 64)"

lemma int32_sint: "int32 x = sint (word_of_int x :: 32 word)"
  by (simp add: int32_def sint_sbintrunc' signed_take_bit_eq_take_bit_shift take_bit_eq_mod)

lemma int32_id [simp]: "- (2 ^ 31) \<le> x \<Longrightarrow> x < 2 ^ 31 \<Longrightarrow> int32 x = x"
  by (simp add: int32_def)

lemma int32_bounds: "- (2 ^ 31) \<le> int32 x \<and> int32 x < 2 ^ 31"
  by (simp add: int32_def)

lemma size64_nat [simp]: "0 \<le> x \<Longrightarrow> x < 2 ^ 31 \<Longrightarrow> size64 x = nat x"
  by (simp add: size64_def)

subsection \<open>Byte arrays\<close>

abbreviation NUL :: char where "NUL \<equiv> CHR 0x00"
abbreviation CR :: char where "CR \<equiv> CHR 0x0D"
abbreviation LF :: char where "LF \<equiv> CHR 0x0A"

definition seg :: "nat \<Rightarrow> nat \<Rightarrow> 'a list \<Rightarrow> 'a list" where
  "seg i j xs = take (j - i) (drop i xs)"

definition blit :: "'a list \<Rightarrow> nat \<Rightarrow> 'a list \<Rightarrow> 'a list" where
  "blit dst i xs = take i dst @ xs @ drop (i + length xs) dst"

definition resize :: "'a \<Rightarrow> nat \<Rightarrow> 'a list \<Rightarrow> 'a list" where
  "resize z n xs = take n xs @ replicate (n - length xs) z"

lemma length_seg: "j \<le> length xs \<Longrightarrow> length (seg i j xs) = j - i"
  by (simp add: seg_def)

lemma seg_empty [simp]: "seg i i xs = []"
  by (simp add: seg_def)

lemma seg_all: "seg 0 (length xs) xs = xs"
  by (simp add: seg_def)

lemma seg_split: "i \<le> j \<Longrightarrow> j \<le> k \<Longrightarrow> seg i k xs = seg i j xs @ seg j k xs"
proof -
  assume a: "i \<le> j" "j \<le> k"
  then have "k - i = (j - i) + (k - j)" by simp
  then have "seg i k xs = take (j - i) (drop i xs) @ take (k - j) (drop (j - i) (drop i xs))"
    by (simp only: seg_def take_add)
  with a show ?thesis by (simp add: seg_def)
qed

lemma take_seg: "n \<le> j - i \<Longrightarrow> take n (seg i j xs) = seg i (i + n) xs"
  by (simp add: seg_def min_absorb1)

lemma drop_seg: "drop n (seg i j xs) = seg (i + n) j xs"
  by (simp add: seg_def drop_take add.commute)

lemma nth_seg: "i + n < j \<Longrightarrow> j \<le> length xs \<Longrightarrow> seg i j xs ! n = xs ! (i + n)"
  by (simp add: seg_def)

lemma length_blit: "i + length xs \<le> length dst \<Longrightarrow> length (blit dst i xs) = length dst"
  by (simp add: blit_def)

lemma seg_blit_append:
  assumes "r \<le> i" "i + length xs \<le> length dst"
  shows "seg r (i + length xs) (blit dst i xs) = seg r i dst @ xs"
  using assms by (simp add: seg_def blit_def drop_take)

lemma seg_blit_0: "length xs \<le> length dst \<Longrightarrow> seg 0 (length xs) (blit dst 0 xs) = xs"
  by (simp add: seg_def blit_def)

lemma length_resize [simp]: "length (resize z n xs) = n"
  by (simp add: resize_def)

lemma seg_resize: "j \<le> length xs \<Longrightarrow> j \<le> n \<Longrightarrow> seg i j (resize z n xs) = seg i j xs"
  by (cases "i \<le> j") (auto simp: seg_def resize_def drop_take min_def)

subsection \<open>C strings\<close>

text \<open>
  A \<open>std::string\<close> is its list of bytes; the byte at its size is NUL. Reading it through a
  \<open>char*\<close> stops at the first NUL.
\<close>

definition c_at :: "string \<Rightarrow> nat \<Rightarrow> char" where
  "c_at s i = (if i < length s then s ! i else NUL)"

definition c_str :: "string \<Rightarrow> string" where
  "c_str s = takeWhile (\<lambda>c. c \<noteq> NUL) s"

definition tolower :: "char \<Rightarrow> char" where
  "tolower c =
     (let n = of_char c :: nat in if 65 \<le> n \<and> n \<le> 90 then char_of (n + 32) else c)"

fun strncasecmp_eq :: "nat \<Rightarrow> string \<Rightarrow> string \<Rightarrow> bool" where
  "strncasecmp_eq 0 s t = True"
| "strncasecmp_eq (Suc n) s t =
     (tolower (c_at s 0) = tolower (c_at t 0) \<and>
      (c_at s 0 = NUL \<or> strncasecmp_eq n (tl s) (tl t)))"

declare strncasecmp_eq.simps [simp del]

lemma tolower_NUL: "tolower c = NUL \<longleftrightarrow> c = NUL"
proof -
  have "(char_of (of_char c + 32 :: nat) :: char) \<noteq> NUL" if "of_char c \<le> (90 :: nat)"
  proof
    assume "(char_of (of_char c + 32 :: nat) :: char) = NUL"
    then have "(of_char c + 32 :: nat) mod 256 = 0"
      using of_char_of [where 'a = nat, of "of_char c + 32"] by simp
    with that show False by simp
  qed
  then show ?thesis by (auto simp: tolower_def Let_def)
qed

lemma tolower_of_NUL [simp]: "tolower NUL = NUL"
  by (simp add: tolower_NUL)

text \<open>A match of \<open>n\<close> characters against a pattern of \<open>n\<close> non-NUL characters has \<open>n\<close> characters.\<close>

lemma strncasecmp_eq_length:
  "strncasecmp_eq n s t \<Longrightarrow> n = length t \<Longrightarrow> NUL \<notin> set t \<Longrightarrow> n \<le> length s"
proof (induction n s t rule: strncasecmp_eq.induct)
  case (1 s t)
  then show ?case by simp
next
  case (2 n s t)
  then obtain c t' where t: "t = c # t'" by (cases t) auto
  with 2 show ?case
    by (cases s) (auto simp: strncasecmp_eq.simps c_at_def tolower_NUL eq_commute [of NUL] tolower_of_NUL)
qed

subsection \<open>Printing integers\<close>

text \<open>\<open>%d\<close> of \<open>snprintf\<close>.\<close>

fun decimal :: "nat \<Rightarrow> string" where
  "decimal n = (if n < 10 then [char_of (48 + n)] else decimal (n div 10) @ [char_of (48 + n mod 10)])"

declare decimal.simps [simp del]

definition printed_int :: "int \<Rightarrow> string" where
  "printed_int i = (if i < 0 then ''-'' @ decimal (nat (- i)) else decimal (nat i))"

definition read_decimal :: "string \<Rightarrow> nat" where
  "read_decimal s = foldl (\<lambda>n c. n * 10 + (of_char c - 48)) 0 s"

lemma read_decimal_decimal [simp]: "read_decimal (decimal n) = n"
proof (induction n rule: decimal.induct)
  case (1 n)
  have d: "of_char (char_of (48 + k :: nat) :: char) = 48 + k" if "k < 10" for k
    using that of_char_of [where 'a = nat, of "48 + k"] by simp
  show ?case
  proof (cases "n < 10")
    case True
    then show ?thesis using d [of n] by (simp add: decimal.simps [of n] read_decimal_def)
  next
    case False
    then have "read_decimal (decimal n) = read_decimal (decimal (n div 10)) * 10 + n mod 10"
      using d [of "n mod 10"] by (simp add: decimal.simps [of n] read_decimal_def)
    with 1 False show ?thesis by simp
  qed
qed

lemma decimal_inject [simp]: "decimal m = decimal n \<longleftrightarrow> m = n"
  by (metis read_decimal_decimal)

lemma length_decimal: "n < 10 ^ Suc k \<Longrightarrow> length (decimal n) \<le> Suc k"
proof (induction k arbitrary: n)
  case 0
  then show ?case by (simp add: decimal.simps [of n])
next
  case (Suc k)
  have "n div 10 < 10 ^ Suc k" using Suc.prems by (simp add: less_mult_imp_div_less)
  from Suc.IH [OF this] show ?case by (simp add: decimal.simps [of n])
qed

subsection \<open>Kernel answers\<close>

datatype errno =
    EINTR | EAGAIN | EWOULDBLOCK | ECONNABORTED | EPROTO | EPERM | EMFILE | EBADF
  | EOther nat

text \<open>\<open>read(2)\<close>: the bytes it stored (none at end of file) or its error.\<close>

datatype sys_read = Rd_Bytes string | Rd_Err errno

text \<open>\<open>write(2)\<close>: how many bytes it has room for (it takes as many of the bytes it is given), or its error.\<close>

datatype sys_write = Wr_Bytes nat | Wr_Err errno

subsection \<open>Step relations and invariants\<close>

inductive reach :: "('s \<Rightarrow> bool) \<Rightarrow> ('s \<Rightarrow> 's \<Rightarrow> bool) \<Rightarrow> 's \<Rightarrow> bool"
  for init step where
  reach_init: "init s \<Longrightarrow> reach init step s"
| reach_step: "reach init step s \<Longrightarrow> step s t \<Longrightarrow> reach init step t"

text \<open>The obligations of a safety argument, and what they give.\<close>

locale safety_machine =
  fixes init :: "'s \<Rightarrow> bool"
    and step :: "'s \<Rightarrow> 's \<Rightarrow> bool"
    and inv :: "'s \<Rightarrow> bool"
  assumes init_inv: "init s \<Longrightarrow> inv s"
    and step_inv: "step s t \<Longrightarrow> inv s \<Longrightarrow> inv t"
begin

lemma reach_inv: "reach init step s \<Longrightarrow> inv s"
  by (induction rule: reach.induct) (auto intro: init_inv step_inv)

end

subsection \<open>Byte sinks\<close>

text \<open>
  The socket buffers, the fixed log buffers and the log file all offer an append operation to
  their clients. The contract: given \<open>room n\<close> (the sink is well formed and can take \<open>n\<close> more
  bytes), appending at most \<open>n\<close> admissible bytes returns, adds exactly these bytes at the end and
  uses up their room.
\<close>

fun puts :: "(string \<Rightarrow> 's \<Rightarrow> 's res) \<Rightarrow> string list \<Rightarrow> 's \<Rightarrow> 's res" where
  "puts put [] s = Inr s"
| "puts put (x # xs) s = bind_res (put x s) (puts put xs)"

locale byte_sink =
  fixes put :: "string \<Rightarrow> 's \<Rightarrow> 's res"
    and room :: "nat \<Rightarrow> 's \<Rightarrow> bool"
    and content :: "'s \<Rightarrow> string"
    and admits :: "string \<Rightarrow> bool"
  assumes put_law: "room (length xs + n) s \<Longrightarrow> admits xs \<Longrightarrow>
      \<exists>s'. put xs s = Inr s' \<and> content s' = content s @ xs \<and> room n s'"
begin

lemma puts_law:
  "room (length (concat xss) + n) s \<Longrightarrow> \<forall>xs \<in> set xss. admits xs \<Longrightarrow>
    \<exists>s'. puts put xss s = Inr s' \<and> content s' = content s @ concat xss \<and> room n s'"
proof (induction xss arbitrary: s)
  case Nil
  then show ?case by simp
next
  case (Cons xs xss)
  from Cons.prems have "room (length xs + (length (concat xss) + n)) s" "admits xs"
    by (simp_all add: add.assoc)
  from put_law [OF this] obtain t where
    t: "put xs s = Inr t" "content t = content s @ xs" "room (length (concat xss) + n) t"
    by blast
  from Cons.IH [OF t(3)] Cons.prems(2) t show ?case by auto
qed

lemma put_content: "room (length xs) s \<Longrightarrow> admits xs \<Longrightarrow> put xs s = Inr t \<Longrightarrow>
    content t = content s @ xs"
  using put_law [of xs 0 s] by auto

end

end
