(* ===== verification/Buffer.thy ===== *)
theory Buffer
  imports Prelude
begin

text \<open>
  The socket buffer (Buffer.h, Buffer.cpp): a byte vector with a read and a write index between
  which the unread bytes lie. \<open>content\<close> is the abstract view, a queue of bytes; the theorems show
  that every operation acts on that queue and never touches a byte outside the vector.

  The C++ member \<open>m_fd\<close> is neither initialised nor read by the code and is left out. The capacity
  of the vector is not observable and is left out.
\<close>

record buffer =
  m_read_index :: nat
  m_write_index :: nat
  m_buffer :: string

definition INITTIAL_SIZE :: nat where
  "INITTIAL_SIZE = 1024"

definition new_buffer :: buffer where
  "new_buffer = \<lparr>m_read_index = 0, m_write_index = 0, m_buffer = replicate INITTIAL_SIZE NUL\<rparr>"

definition writableBytes :: "buffer \<Rightarrow> int" where
  "writableBytes b = int32 (int (length (m_buffer b)) - int (m_write_index b))"

definition preWritableBytes :: "buffer \<Rightarrow> int" where
  "preWritableBytes b = int32 (int (m_read_index b))"

definition readableBytes :: "buffer \<Rightarrow> int" where
  "readableBytes b = int32 (int (m_write_index b) - int (m_read_index b))"

subsection \<open>Operations\<close>

definition clearUselessData :: "buffer \<Rightarrow> buffer" where
  "clearUselessData b =
     b\<lparr>m_buffer := blit (m_buffer b) 0 (seg (m_read_index b) (m_write_index b) (m_buffer b)),
       m_write_index := m_write_index b - m_read_index b,
       m_read_index := 0\<rparr>"

text \<open>\<open>vector::reserve\<close> changes the capacity only.\<close>

definition reserve :: "nat \<Rightarrow> buffer \<Rightarrow> buffer" where
  "reserve cap b = clearUselessData b"

definition makeSpace :: "int \<Rightarrow> buffer \<Rightarrow> buffer" where
  "makeSpace len b =
     (if preWritableBytes b + writableBytes b \<ge> len then
        let readable_bytes = readableBytes b in
        b\<lparr>m_buffer := blit (m_buffer b) 0 (seg (m_read_index b) (m_write_index b) (m_buffer b)),
          m_read_index := 0,
          m_write_index := size64 readable_bytes\<rparr>
      else
        b\<lparr>m_buffer := resize NUL (m_write_index b + size64 len) (m_buffer b)\<rparr>)"

definition ensureEnoughSpace :: "int \<Rightarrow> buffer \<Rightarrow> buffer" where
  "ensureEnoughSpace len b = (if writableBytes b < len then makeSpace len b else b)"

text \<open>
  \<open>append(const char*, int)\<close>. The copy is undefined when the source range is not \<open>len\<close> bytes of
  \<open>msg\<close> or the target range leaves the vector.
\<close>

definition append_chars :: "string \<Rightarrow> int \<Rightarrow> buffer \<Rightarrow> buffer res" where
  "append_chars msg len b =
     (let b' = ensureEnoughSpace len b in
      if len < 0 \<or> int (length msg) < len \<or>
         length (m_buffer b') < m_write_index b' + nat len
      then Inl Undefined_Behaviour
      else Inr (b'\<lparr>m_buffer := blit (m_buffer b') (m_write_index b') (take (nat len) msg),
                   m_write_index := m_write_index b' + nat len\<rparr>))"

text \<open>\<open>append(const std::string&)\<close>: the size is narrowed to \<open>int\<close>.\<close>

definition append_string :: "string \<Rightarrow> buffer \<Rightarrow> buffer res" where
  "append_string msg b = append_chars msg (int32 (int (length msg))) b"

text \<open>
  The loop of \<open>getAnHTTPLine\<close> from index \<open>i\<close>. At the last unread byte it returns the bytes before
  that byte.
\<close>

function getAnHTTPLine_from :: "nat \<Rightarrow> buffer \<Rightarrow> string \<times> buffer" where
  "getAnHTTPLine_from i b =
     (if i < m_write_index b then
        if m_buffer b ! i = CR \<and> i + 1 < m_write_index b \<and> m_buffer b ! (i + 1) = LF then
          (seg (m_read_index b) (i + 2) (m_buffer b), b\<lparr>m_read_index := i + 2\<rparr>)
        else if i = m_write_index b - 1 then
          (seg (m_read_index b) i (m_buffer b), b)
        else getAnHTTPLine_from (i + 1) b
      else ([], b))"
  by pat_completeness auto
termination
  by (relation "measure (\<lambda>(i, b). m_write_index b - i)") auto

declare getAnHTTPLine_from.simps [simp del]

definition getAnHTTPLine :: "buffer \<Rightarrow> string \<times> buffer" where
  "getAnHTTPLine b = getAnHTTPLine_from (m_read_index b) b"

text \<open>\<open>setContent\<close> stores byte by byte without asking for space.\<close>

fun setContent :: "string \<Rightarrow> buffer \<Rightarrow> buffer res" where
  "setContent [] b = Inr b"
| "setContent (c # cs) b =
     (if m_write_index b < length (m_buffer b)
      then setContent cs (b\<lparr>m_buffer := (m_buffer b)[m_write_index b := c],
                             m_write_index := m_write_index b + 1\<rparr>)
      else Inl Undefined_Behaviour)"

definition retrieveAll :: "buffer \<Rightarrow> buffer" where
  "retrieveAll b = b\<lparr>m_read_index := 0, m_write_index := 0\<rparr>"

text \<open>
  \<open>readFromFd\<close>: the loop, with \<open>all_bytes\<close> so far, against the kernel's answers to \<open>read\<close>. The
  result is the return value, the buffer and the answers not yet used.
\<close>

fun readFromFd_loop ::
  "sys_read list \<Rightarrow> int \<Rightarrow> buffer \<Rightarrow> (int \<times> buffer \<times> sys_read list) res" where
  "readFromFd_loop [] all_bytes b = Inl Script_Exhausted"
| "readFromFd_loop (Rd_Err e # as) all_bytes b =
     (if e = EINTR then readFromFd_loop as all_bytes b
      else if e \<noteq> EAGAIN \<and> e \<noteq> EWOULDBLOCK then Inr (- 1, b, as)
      else Inr (all_bytes, b, as))"
| "readFromFd_loop (Rd_Bytes tmp # as) all_bytes b =
     (if length tmp = 0 then Inr (0, b, as)
      else bind_res (append_chars tmp (int (length tmp)) b)
             (readFromFd_loop as (all_bytes + int (length tmp))))"

definition readFromFd :: "sys_read list \<Rightarrow> buffer \<Rightarrow> (int \<times> buffer \<times> sys_read list) res" where
  "readFromFd as b = readFromFd_loop as 0 b"

text \<open>
  \<open>writeToFd\<close>: the loop against the kernel's answers to \<open>write\<close>. \<open>sent\<close> collects the bytes the
  kernel took, in order; the result is the return value, these bytes, the buffer and the answers
  not yet used.
\<close>

fun writeToFd_loop ::
  "sys_write list \<Rightarrow> int \<Rightarrow> string \<Rightarrow> buffer \<Rightarrow> (int \<times> string \<times> buffer \<times> sys_write list) res" where
  "writeToFd_loop [] all_bytes sent b = Inl Script_Exhausted"
| "writeToFd_loop (Wr_Err e # as) all_bytes sent b =
     (if e = EINTR then writeToFd_loop as all_bytes sent b
      else if e \<noteq> EAGAIN \<and> e \<noteq> EWOULDBLOCK then Inr (- 1, sent, b, as)
      else Inr (all_bytes, sent, b, as))"
| "writeToFd_loop (Wr_Bytes room # as) all_bytes sent b =
     (let bytes = min room (size64 (readableBytes b)) in
      if bytes > 0 then
        let r = m_read_index b + bytes;
            sent' = sent @ seg (m_read_index b) r (m_buffer b);
            b' = (if r = m_write_index b then b\<lparr>m_read_index := 0, m_write_index := 0\<rparr>
                  else b\<lparr>m_read_index := r\<rparr>)
        in writeToFd_loop as (all_bytes + int bytes) sent' b'
      else Inr (all_bytes, sent, b, as))"

definition writeToFd ::
  "sys_write list \<Rightarrow> buffer \<Rightarrow> (int \<times> string \<times> buffer \<times> sys_write list) res" where
  "writeToFd as b = writeToFd_loop as 0 [] b"

subsection \<open>Well-formed buffers and their content\<close>

definition buffer_inv :: "buffer \<Rightarrow> bool" where
  "buffer_inv b \<longleftrightarrow> m_read_index b \<le> m_write_index b \<and> m_write_index b \<le> length (m_buffer b)"

definition content :: "buffer \<Rightarrow> string" where
  "content b = seg (m_read_index b) (m_write_index b) (m_buffer b)"

text \<open>Room for \<open>n\<close> more bytes: after them the vector still has fewer than 2^31 bytes.\<close>

definition buffer_room :: "nat \<Rightarrow> buffer \<Rightarrow> bool" where
  "buffer_room n b \<longleftrightarrow> buffer_inv b \<and> int (length (m_buffer b) + n) < 2 ^ 31"

lemma buffer_room_inv: "buffer_room n b \<Longrightarrow> buffer_inv b"
  by (simp add: buffer_room_def)

lemma buffer_room_mono: "buffer_room n b \<Longrightarrow> m \<le> n \<Longrightarrow> buffer_room m b"
  by (simp add: buffer_room_def)

lemma new_buffer_inv: "buffer_inv new_buffer"
  by (simp add: buffer_inv_def new_buffer_def)

lemma new_buffer_content [simp]: "content new_buffer = []"
  by (simp add: content_def new_buffer_def)

lemma new_buffer_room: "int n < 2 ^ 31 - 1024 \<Longrightarrow> buffer_room n new_buffer"
  by (simp add: buffer_room_def new_buffer_inv) (simp add: new_buffer_def INITTIAL_SIZE_def)

lemma length_content: "buffer_inv b \<Longrightarrow> length (content b) = m_write_index b - m_read_index b"
  by (simp add: content_def buffer_inv_def length_seg)

lemma content_nth: "buffer_inv b \<Longrightarrow> i < length (content b) \<Longrightarrow>
    content b ! i = m_buffer b ! (m_read_index b + i)"
  unfolding length_content by (simp add: content_def buffer_inv_def nth_seg)

lemma byte_counts:
  assumes "buffer_room n b"
  shows "writableBytes b = int (length (m_buffer b)) - int (m_write_index b)"
    and "preWritableBytes b = int (m_read_index b)"
    and "readableBytes b = int (length (content b))"
  using assms length_content [OF buffer_room_inv [OF assms]]
  by (simp_all add: buffer_room_def buffer_inv_def writableBytes_def preWritableBytes_def
      readableBytes_def of_nat_diff)

text \<open>A buffer that holds exactly the bytes \<open>s\<close>, for concrete instances.\<close>

definition filled :: "string \<Rightarrow> buffer" where
  "filled s = \<lparr>m_read_index = 0, m_write_index = length s, m_buffer = s\<rparr>"

lemma filled_simps [simp]:
  "buffer_inv (filled s)" "content (filled s) = s"
  by (simp_all add: filled_def buffer_inv_def content_def seg_all)

lemma filled_room: "int (length s + n) < 2 ^ 31 \<Longrightarrow> buffer_room n (filled s)"
  by (simp add: buffer_room_def) (simp add: filled_def)

lemma retrieveAll_empty: "buffer_room n b \<Longrightarrow> content (retrieveAll b) = [] \<and> buffer_room n (retrieveAll b)"
  by (simp add: retrieveAll_def content_def buffer_room_def buffer_inv_def)

lemma clearUselessData_content:
  assumes "buffer_room n b"
  shows "content (clearUselessData b) = content b" and "buffer_room n (clearUselessData b)"
    and "m_read_index (clearUselessData b) = 0"
    and "length (m_buffer (clearUselessData b)) = length (m_buffer b)"
proof -
  let ?c = "seg (m_read_index b) (m_write_index b) (m_buffer b)"
  have len: "length ?c = m_write_index b - m_read_index b"
    using assms by (simp add: buffer_room_def buffer_inv_def length_seg)
  then have le: "length ?c \<le> length (m_buffer b)"
    using assms unfolding buffer_room_def buffer_inv_def by linarith
  have bl: "length (blit (m_buffer b) 0 ?c) = length (m_buffer b)"
    using le by (simp add: length_blit)
  have "seg 0 (length ?c) (blit (m_buffer b) 0 ?c) = ?c"
    using le by (rule seg_blit_0)
  then show "content (clearUselessData b) = content b"
    by (simp add: content_def clearUselessData_def len)
  show "buffer_room n (clearUselessData b)"
    using assms bl le len by (simp add: buffer_room_def buffer_inv_def clearUselessData_def)
  show "m_read_index (clearUselessData b) = 0"
    by (simp add: clearUselessData_def)
  show "length (m_buffer (clearUselessData b)) = length (m_buffer b)"
    using bl by (simp add: clearUselessData_def)
qed

lemma makeSpace_compact:
  assumes "buffer_room n b" "preWritableBytes b + writableBytes b \<ge> len"
  shows "makeSpace len b = clearUselessData b"
proof -
  have "size64 (readableBytes b) = m_write_index b - m_read_index b"
    using assms(1) byte_counts(3) [OF assms(1)] length_content [OF buffer_room_inv [OF assms(1)]]
    by (simp add: buffer_room_def buffer_inv_def)
  with assms(2) show ?thesis by (simp add: makeSpace_def clearUselessData_def Let_def)
qed

text \<open>After \<open>ensureEnoughSpace\<close> the bytes fit behind the write index, and nothing unread is lost.\<close>

lemma ensureEnoughSpace_law:
  assumes "buffer_room (k + n) b"
  shows "content (ensureEnoughSpace (int k) b) = content b"
    and "buffer_inv (ensureEnoughSpace (int k) b)"
    and "m_write_index (ensureEnoughSpace (int k) b) + k \<le> length (m_buffer (ensureEnoughSpace (int k) b))"
    and "length (m_buffer (ensureEnoughSpace (int k) b)) \<le> length (m_buffer b) + k"
proof -
  let ?b = "ensureEnoughSpace (int k) b"
  note c = byte_counts [OF assms]
  have room: "buffer_room (k + n) b" "m_read_index b \<le> m_write_index b"
    "m_write_index b \<le> length (m_buffer b)" "int (length (m_buffer b) + (k + n)) < 2 ^ 31"
    using assms by (auto simp: buffer_room_def buffer_inv_def)
  consider (fits) "\<not> writableBytes b < int k"
    | (compact) "writableBytes b < int k" "preWritableBytes b + writableBytes b \<ge> int k"
    | (grow) "writableBytes b < int k" "\<not> preWritableBytes b + writableBytes b \<ge> int k"
    by blast
  then have "content ?b = content b \<and> buffer_inv ?b \<and> m_write_index ?b + k \<le> length (m_buffer ?b)
    \<and> length (m_buffer ?b) \<le> length (m_buffer b) + k"
  proof cases
    case fits
    with room c show ?thesis by (simp add: ensureEnoughSpace_def buffer_inv_def)
  next
    case compact
    then have b: "?b = clearUselessData b"
      using makeSpace_compact [OF assms] by (simp add: ensureEnoughSpace_def)
    have "m_write_index ?b = m_write_index b - m_read_index b"
      by (simp add: b) (simp add: clearUselessData_def)
    moreover have "m_write_index b - m_read_index b + k \<le> length (m_buffer b)"
      using compact c room by linarith
    ultimately show ?thesis
      using clearUselessData_content [OF assms] by (simp add: b buffer_room_def)
  next
    case grow
    have "size64 (int k) = k" using room by simp
    with grow have b: "?b = b\<lparr>m_buffer := resize NUL (m_write_index b + k) (m_buffer b)\<rparr>"
      by (simp add: ensureEnoughSpace_def makeSpace_def)
    show ?thesis
      using room by (simp add: b content_def buffer_inv_def seg_resize)
  qed
  then show "content ?b = content b" "buffer_inv ?b"
    "m_write_index ?b + k \<le> length (m_buffer ?b)"
    "length (m_buffer ?b) \<le> length (m_buffer b) + k" by blast+
qed

lemma append_chars_law:
  assumes "buffer_room (k + n) b" "k \<le> length msg"
  shows "\<exists>b'. append_chars msg (int k) b = Inr b' \<and> content b' = content b @ take k msg \<and> buffer_room n b'"
proof -
  let ?b = "ensureEnoughSpace (int k) b"
  let ?b' = "?b\<lparr>m_buffer := blit (m_buffer ?b) (m_write_index ?b) (take k msg),
                m_write_index := m_write_index ?b + k\<rparr>"
  note e = ensureEnoughSpace_law [OF assms(1)]
  have len: "length (take k msg) = k" using assms(2) by simp
  have fit: "m_write_index ?b + length (take k msg) \<le> length (m_buffer ?b)"
    using e(3) len by simp
  have "append_chars msg (int k) b = Inr ?b'"
    using e(3) assms(2) by (simp add: append_chars_def Let_def)
  moreover have "content ?b' = content b @ take k msg"
    using seg_blit_append [OF _ fit, of "m_read_index ?b"] e(1,2) len
    by (simp add: content_def buffer_inv_def)
  moreover have "buffer_room n ?b'"
    using e assms(1) length_blit [OF fit] by (simp add: buffer_room_def buffer_inv_def)
  ultimately show ?thesis by blast
qed

interpretation socket_buffer: byte_sink append_string buffer_room content "\<lambda>_. True"
proof unfold_locales
  fix xs :: string and n b
  assume a: "buffer_room (length xs + n) b"
  then have "int32 (int (length xs)) = int (length xs)"
    by (simp add: buffer_room_def)
  with append_chars_law [OF a, of xs]
  show "\<exists>b'. append_string xs b = Inr b' \<and> content b' = content b @ xs \<and> buffer_room n b'"
    by (simp add: append_string_def)
qed

subsection \<open>Reading a line\<close>

text \<open>
  What the line scanner computes on the queue: the bytes up to and including the first CR LF, and
  what follows them.
\<close>

fun split_crlf :: "string \<Rightarrow> (string \<times> string) option" where
  "split_crlf (c # d # cs) =
     (if c = CR \<and> d = LF then Some ([c, d], cs)
      else map_option (\<lambda>(l, r). (c # l, r)) (split_crlf (d # cs)))"
| "split_crlf cs = None"

lemma split_crlf_append: "split_crlf xs = Some (l, r) \<Longrightarrow> xs = l @ r"
  by (induction xs arbitrary: l r rule: split_crlf.induct) (auto split: if_splits)

lemma split_crlf_line: "split_crlf xs = Some (l, r) \<Longrightarrow> \<exists>p. l = p @ [CR, LF] \<and> split_crlf (p @ [CR]) = None"
proof (induction xs arbitrary: l r rule: split_crlf.induct)
  case (1 c d cs)
  show ?case
  proof (cases "c = CR \<and> d = LF")
    case True
    with "1.prems" show ?thesis by (intro exI [of _ "[]"]) auto
  next
    case False
    with "1.prems" obtain l' where l: "l = c # l'" "split_crlf (d # cs) = Some (l', r)"
      by (auto split: if_splits)
    from "1.IH" [OF False l(2)] obtain p where p: "l' = p @ [CR, LF]" "split_crlf (p @ [CR]) = None"
      by blast
    from l(2) p(1) have hd: "hd (p @ [CR]) = d"
      using split_crlf_append [OF l(2)] by (cases p) auto
    have "split_crlf ((c # p) @ [CR]) = None"
      using p(2) hd False by (cases p) auto
    with l(1) p(1) show ?thesis by (intro exI [of _ "c # p"]) simp
  qed
qed auto

lemma split_crlf_extend: "split_crlf xs = Some (l, r) \<Longrightarrow> split_crlf (xs @ ys) = Some (l, r @ ys)"
  by (induction xs arbitrary: l r rule: split_crlf.induct) (auto split: if_splits)

lemma split_crlf_make: "split_crlf (p @ [CR]) = None \<Longrightarrow> split_crlf (p @ CR # LF # r) = Some (p @ [CR, LF], r)"
proof (induction p)
  case Nil
  then show ?case by simp
next
  case (Cons c p)
  then show ?case by (cases p) (auto split: if_splits)
qed

lemma split_crlf_no_CR: "CR \<notin> set p \<Longrightarrow> split_crlf (p @ [CR]) = None"
proof (induction p)
  case Nil
  then show ?case by simp
next
  case (Cons c p)
  then show ?case by (cases p) auto
qed

lemma seg_Cons: "i < j \<Longrightarrow> j \<le> length xs \<Longrightarrow> seg i j xs = xs ! i # seg (Suc i) j xs"
  by (simp add: seg_def Cons_nth_drop_Suc [symmetric] take_Cons')

lemma getAnHTTPLine_from_spec:
  assumes "m_read_index b \<le> i" "i \<le> m_write_index b" "m_write_index b \<le> length (m_buffer b)"
  shows "getAnHTTPLine_from i b =
    (case split_crlf (seg i (m_write_index b) (m_buffer b)) of
       Some (l, r) \<Rightarrow> (seg (m_read_index b) i (m_buffer b) @ l, b\<lparr>m_read_index := i + length l\<rparr>)
     | None \<Rightarrow> (if i < m_write_index b then seg (m_read_index b) (m_write_index b - 1) (m_buffer b) else [], b))"
  using assms
proof (induction i b rule: getAnHTTPLine_from.induct)
  case (1 i b)
  let ?w = "m_write_index b" and ?v = "m_buffer b" and ?r = "m_read_index b"
  show ?case
  proof (cases "i < ?w")
    case False
    then show ?thesis using "1.prems" by (subst getAnHTTPLine_from.simps) simp
  next
    case lt: True
    have seg1: "seg i ?w ?v = ?v ! i # seg (Suc i) ?w ?v"
      using lt "1.prems" by (simp add: seg_Cons)
    consider (found) "?v ! i = CR" "i + 1 < ?w" "?v ! (i + 1) = LF"
      | (last) "i = ?w - 1" | (go) "i + 1 < ?w" "\<not> (?v ! i = CR \<and> ?v ! (i + 1) = LF)"
      using lt by linarith
    then show ?thesis
    proof cases
      case found
      have "seg i ?w ?v = CR # LF # seg (i + 2) ?w ?v"
        using found seg1 "1.prems" seg_Cons [of "Suc i" ?w ?v] by simp
      moreover have "seg ?r (i + 2) ?v = seg ?r i ?v @ [CR, LF]"
        using found "1.prems" seg_split [of ?r i "i + 2" ?v] seg_Cons [of i "i + 2" ?v]
          seg_Cons [of "Suc i" "i + 2" ?v] by simp
      ultimately show ?thesis using found lt by (simp add: getAnHTTPLine_from.simps [of i b])
    next
      case last
      then have "seg i ?w ?v = [?v ! i]" using seg1 lt by simp
      moreover have "getAnHTTPLine_from i b = (seg ?r (?w - 1) ?v, b)"
        using last lt by (subst getAnHTTPLine_from.simps) auto
      ultimately show ?thesis using lt by simp
    next
      case go
      have step: "getAnHTTPLine_from i b = getAnHTTPLine_from (i + 1) b"
        using go lt by (subst getAnHTTPLine_from.simps) auto
      have seg2: "seg (i + 1) ?w ?v = ?v ! (i + 1) # seg (i + 2) ?w ?v"
        using go "1.prems" seg_Cons [of "i + 1" ?w ?v] by simp
      have sp: "split_crlf (seg i ?w ?v) = map_option (\<lambda>(l, r). (?v ! i # l, r)) (split_crlf (seg (i + 1) ?w ?v))"
        using go seg1 seg2 by auto
      have pre: "seg ?r (i + 1) ?v = seg ?r i ?v @ [?v ! i]"
        using "1.prems" lt seg_split [of ?r i "i + 1" ?v] seg_Cons [of i "i + 1" ?v] by simp
      have neq: "i \<noteq> ?w - 1" using go by linarith
      have "getAnHTTPLine_from (i + 1) b =
        (case split_crlf (seg (i + 1) ?w ?v) of
           Some (l, r) \<Rightarrow> (seg ?r (i + 1) ?v @ l, b\<lparr>m_read_index := i + 1 + length l\<rparr>)
         | None \<Rightarrow> (seg ?r (?w - 1) ?v, b))"
        using "1.IH" [OF lt _ neq] go "1.prems" by auto
      with step sp pre lt show ?thesis by (auto split: option.splits)
    qed
  qed
qed

lemma getAnHTTPLine_content:
  assumes "buffer_inv b"
  shows "split_crlf (content b) = Some (l, r) \<Longrightarrow>
      \<exists>b'. getAnHTTPLine b = (l, b') \<and> content b' = r \<and> buffer_inv b' \<and> m_buffer b' = m_buffer b"
    and "split_crlf (content b) = None \<Longrightarrow> getAnHTTPLine b = (butlast (content b), b)"
proof -
  have spec: "getAnHTTPLine b =
    (case split_crlf (content b) of
       Some (l, r) \<Rightarrow> (l, b\<lparr>m_read_index := m_read_index b + length l\<rparr>)
     | None \<Rightarrow> (if m_read_index b < m_write_index b
                then seg (m_read_index b) (m_write_index b - 1) (m_buffer b) else [], b))"
    using assms getAnHTTPLine_from_spec [of b "m_read_index b"]
    by (simp add: getAnHTTPLine_def buffer_inv_def content_def split: option.splits)
  {
    assume s: "split_crlf (content b) = Some (l, r)"
    have eq: "content b = l @ r" using split_crlf_append [OF s] .
    then have len: "m_read_index b + length l \<le> m_write_index b"
      using length_content [OF assms] assms unfolding buffer_inv_def by simp linarith
    have "seg (m_read_index b + length l) (m_write_index b) (m_buffer b) = drop (length l) (content b)"
      by (simp add: content_def drop_seg)
    with eq len spec s assms show "\<exists>b'. getAnHTTPLine b = (l, b') \<and> content b' = r \<and> buffer_inv b' \<and> m_buffer b' = m_buffer b"
      by (simp add: content_def buffer_inv_def)
  }
  {
    assume s: "split_crlf (content b) = None"
    have "butlast (content b) = take (length (content b) - 1) (content b)"
      by (simp add: butlast_conv_take)
    also have "\<dots> = (if m_read_index b < m_write_index b
                then seg (m_read_index b) (m_write_index b - 1) (m_buffer b) else [])"
      using length_content [OF assms] assms
      by (simp add: content_def take_seg buffer_inv_def)
    finally show "getAnHTTPLine b = (butlast (content b), b)"
      using spec s by simp
  }
qed

subsection \<open>Socket reads and writes\<close>

text \<open>Answers after which \<open>readFromFd\<close> goes on, and the bytes they carry.\<close>

fun rd_goes_on :: "sys_read \<Rightarrow> bool" where
  "rd_goes_on (Rd_Bytes bs) = (bs \<noteq> [])"
| "rd_goes_on (Rd_Err e) = (e = EINTR)"

fun rd_data :: "sys_read list \<Rightarrow> string" where
  "rd_data [] = []"
| "rd_data (Rd_Bytes bs # as) = bs @ rd_data as"
| "rd_data (Rd_Err e # as) = rd_data as"

lemma readFromFd_loop_prefix:
  assumes "\<forall>a \<in> set ds. rd_goes_on a" "buffer_room (length (rd_data ds) + n) b"
  shows "\<exists>b'. (\<forall>as. readFromFd_loop (ds @ as) k b = readFromFd_loop as (k + int (length (rd_data ds))) b') \<and>
              content b' = content b @ rd_data ds \<and> buffer_room n b'"
  using assms
proof (induction ds arbitrary: k b)
  case Nil
  then show ?case by auto
next
  case (Cons d ds)
  show ?case
  proof (cases d)
    case (Rd_Err e)
    with Cons.prems Cons.IH [of b k] show ?thesis by auto
  next
    case (Rd_Bytes bs)
    with Cons.prems have ne: "bs \<noteq> []"
      and room: "buffer_room (length bs + (length (rd_data ds) + n)) b" by (auto simp: add.assoc)
    from append_chars_law [OF room, of bs] obtain b1 where
      b1: "append_chars bs (int (length bs)) b = Inr b1" "content b1 = content b @ bs"
        "buffer_room (length (rd_data ds) + n) b1" by auto
    from Cons.IH [OF _ b1(3), of "k + int (length bs)"] Cons.prems(1) obtain b2 where
      b2: "\<forall>as. readFromFd_loop (ds @ as) (k + int (length bs)) b1 =
            readFromFd_loop as (k + int (length bs) + int (length (rd_data ds))) b2"
        "content b2 = content b1 @ rd_data ds" "buffer_room n b2" by auto
    with Rd_Bytes ne b1 show ?thesis by (intro exI [of _ b2]) (simp add: add.assoc)
  qed
qed

definition take_front :: "nat \<Rightarrow> buffer \<Rightarrow> buffer" where
  "take_front k b = (if m_read_index b + k = m_write_index b then b\<lparr>m_read_index := 0, m_write_index := 0\<rparr>
                     else b\<lparr>m_read_index := m_read_index b + k\<rparr>)"

lemma take_front_law:
  assumes "buffer_inv b" "k \<le> length (content b)"
  shows "content (take_front k b) = drop k (content b)" and "buffer_inv (take_front k b)"
    and "m_buffer (take_front k b) = m_buffer b"
    and "seg (m_read_index b) (m_read_index b + k) (m_buffer b) = take k (content b)"
proof -
  have le: "k \<le> m_write_index b - m_read_index b" using assms by (simp add: length_content)
  show "content (take_front k b) = drop k (content b)"
    using drop_seg [of k "m_read_index b" "m_write_index b" "m_buffer b"]
    by (auto simp: take_front_def content_def)
  show "buffer_inv (take_front k b)"
    using assms(1) le by (auto simp: take_front_def buffer_inv_def)
  show "m_buffer (take_front k b) = m_buffer b" by (simp add: take_front_def)
  show "seg (m_read_index b) (m_read_index b + k) (m_buffer b) = take k (content b)"
    using le by (simp add: content_def take_seg)
qed

lemma bytes_offered: "buffer_room n b \<Longrightarrow> size64 (readableBytes b) = length (content b)"
proof -
  assume room: "buffer_room n b"
  then have "int (length (content b)) < 2 ^ 31" by (auto simp: buffer_room_def buffer_inv_def length_content)
  with byte_counts(3) [OF room] show ?thesis by simp
qed

lemma take_front_room: "buffer_room n b \<Longrightarrow> k \<le> length (content b) \<Longrightarrow> buffer_room n (take_front k b)"
  using take_front_law(2,3) [of b k] by (simp add: buffer_room_def)

lemma writeToFd_loop_Bytes:
  assumes "n > 0" "n \<le> length (content b)" "buffer_room m b"
  shows "writeToFd_loop (Wr_Bytes n # as) k sent b = writeToFd_loop as (k + int n) (sent @ take n (content b)) (take_front n b)"
  using assms take_front_law(4) [OF buffer_room_inv [OF assms(3)] assms(2)] bytes_offered [OF assms(3)]
  by (simp add: take_front_def Let_def)

text \<open>What a write does is decided by what is left to send.\<close>

lemma writeToFd_loop_offered:
  "buffer_room m b \<Longrightarrow> writeToFd_loop (Wr_Bytes n # as) k sent b =
    (let q = min n (length (content b)) in
     if q > 0 then writeToFd_loop as (k + int q) (sent @ take q (content b)) (take_front q b) else Inr (k, sent, b, as))"
  using writeToFd_loop_Bytes [of "min n (length (content b))" b m as k sent] bytes_offered [of m b]
  by (auto simp: Let_def min_def)

declare writeToFd_loop.simps(3) [simp del]

lemma writeToFd_loop_conserves:
  assumes "writeToFd_loop as k sent b = Inr (n, sent', b', rest)" "buffer_room m b" "0 \<le> k" "int (length sent) = k"
  shows "sent' @ content b' = sent @ content b \<and> buffer_room m b' \<and> (n = - 1 \<or> n = int (length sent'))"
  using assms
proof (induction as arbitrary: k sent b)
  case Nil
  then show ?case by simp
next
  case (Cons a as)
  show ?case
  proof (cases a)
    case (Wr_Err e)
    with Cons.prems Cons.IH [of k sent b] show ?thesis by (auto split: if_splits)
  next
    case (Wr_Bytes room)
    let ?q = "min room (length (content b))"
    have le: "?q \<le> length (content b)" by simp
    note t = take_front_law(1) [OF buffer_room_inv [OF Cons.prems(2)] le] take_front_room [OF Cons.prems(2) le]
    show ?thesis
    proof (cases "?q > 0")
      case False
      with Cons.prems Wr_Bytes writeToFd_loop_offered [OF Cons.prems(2)] show ?thesis by (auto simp: Let_def)
    next
      case True
      then have "writeToFd_loop as (k + int ?q) (sent @ take ?q (content b)) (take_front ?q b) = Inr (n, sent', b', rest)"
        using Cons.prems(1) Wr_Bytes writeToFd_loop_offered [OF Cons.prems(2)] by (simp add: Let_def)
      then have "sent' @ content b' = (sent @ take ?q (content b)) @ drop ?q (content b) \<and> buffer_room m b' \<and>
          (n = - 1 \<or> n = int (length sent'))"
        using Cons.IH [of "k + int ?q" "sent @ take ?q (content b)" "take_front ?q b"] t Cons.prems(3,4) by simp
      then show ?thesis by simp
    qed
  qed
qed

lemma writeToFd_loop_returns:
  assumes "buffer_room m b" "length (content b) + count_list as (Wr_Err EINTR) < length as"
  shows "\<exists>r. writeToFd_loop as k sent b = Inr r"
  using assms
proof (induction as arbitrary: k sent b)
  case Nil
  then show ?case by simp
next
  case (Cons a as)
  show ?case
  proof (cases a)
    case (Wr_Err e)
    with Cons show ?thesis by (cases "e = EINTR") auto
  next
    case (Wr_Bytes room)
    let ?q = "min room (length (content b))"
    have le: "?q \<le> length (content b)" by simp
    note t = take_front_law(1) [OF buffer_room_inv [OF Cons.prems(1)] le] take_front_room [OF Cons.prems(1) le]
    have "\<exists>r. writeToFd_loop as k' sent' (take_front ?q b) = Inr r" if "?q > 0" for k' sent'
    proof (rule Cons.IH [OF t(2)])
      have "count_list (a # as) (Wr_Err EINTR) = count_list as (Wr_Err EINTR)" using Wr_Bytes by simp
      with Cons.prems(2) that le show "length (content (take_front ?q b)) + count_list as (Wr_Err EINTR) < length as"
        unfolding t(1) length_drop list.size by linarith
    qed
    then show ?thesis using Wr_Bytes writeToFd_loop_offered [OF Cons.prems(1)] by (simp add: Let_def)
  qed
qed

text \<open>Reads and writes of any script stay within the vector, as long as it has room for the bytes of the script; what
  is left of the script after them is shorter.\<close>

lemma readFromFd_loop_safe:
  "buffer_room (length (rd_data as) + n) b \<Longrightarrow>
   safe (\<lambda>(_, b', rest). buffer_room (length (rd_data rest) + n) b' \<and> length rest < length as) (readFromFd_loop as k b)"
proof (induction as k b rule: readFromFd_loop.induct)
  case (2 e as k b)
  show ?case
  proof (cases "e = EINTR")
    case True
    from 2(1) [OF this] 2(2) have "safe (\<lambda>(_, b', rest). buffer_room (length (rd_data rest) + n) b' \<and> length rest < length as)
      (readFromFd_loop as k b)" by simp
    then show ?thesis using True by (auto intro: safe_mono)
  next
    case False
    with 2(2) show ?thesis by simp
  qed
next
  case (3 tmp as k b)
  have room: "buffer_room (length tmp + (length (rd_data as) + n)) b" using 3(2) by (simp add: add.assoc)
  show ?case
  proof (cases "tmp = []")
    case True
    with room show ?thesis by simp
  next
    case False
    from append_chars_law [OF room, of tmp] obtain b1 where
      b1: "append_chars tmp (int (length tmp)) b = Inr b1" "buffer_room (length (rd_data as) + n) b1" by auto
    with 3(1) [of b1] False have "safe (\<lambda>(_, b', rest). buffer_room (length (rd_data rest) + n) b' \<and> length rest < length as)
      (readFromFd_loop as (k + int (length tmp)) b1)" by simp
    then show ?thesis using b1(1) False by (auto intro: safe_mono)
  qed
qed simp

lemma writeToFd_loop_safe:
  "buffer_room n b \<Longrightarrow> safe (\<lambda>(_, _, b', _). buffer_room n b') (writeToFd_loop as k sent b)"
proof (induction as arbitrary: k sent b)
  case (Cons a as)
  show ?case
  proof (cases a)
    case (Wr_Err e)
    with Cons show ?thesis by auto
  next
    case (Wr_Bytes room)
    let ?q = "min room (length (content b))"
    have "safe (\<lambda>(_, _, b', _). buffer_room n b') (writeToFd_loop as k' sent' (take_front ?q b))" for k' sent'
      using Cons.IH take_front_room [OF Cons.prems, of ?q] by simp
    with Cons.prems show ?thesis unfolding Wr_Bytes writeToFd_loop_offered [OF Cons.prems] by (simp add: Let_def)
  qed
qed simp

lemma setContent_law:
  assumes "buffer_inv b"
  shows "setContent cs b =
    (if length cs \<le> length (m_buffer b) - m_write_index b
     then Inr (b\<lparr>m_buffer := blit (m_buffer b) (m_write_index b) cs, m_write_index := m_write_index b + length cs\<rparr>)
     else Inl Undefined_Behaviour)"
  using assms
proof (induction cs arbitrary: b)
  case Nil
  then show ?case by (simp add: blit_def)
next
  case (Cons c cs)
  show ?case
  proof (cases "m_write_index b < length (m_buffer b)")
    case False
    then show ?thesis by simp
  next
    case True
    let ?w = "m_write_index b" and ?v = "m_buffer b"
    have bl: "blit (?v[?w := c]) (Suc ?w) cs = blit ?v ?w (c # cs)"
      using True by (simp add: blit_def take_Suc_conv_app_nth upd_conv_take_nth_drop add.commute)
    have inv: "buffer_inv (b\<lparr>m_buffer := ?v[?w := c], m_write_index := ?w + 1\<rparr>)"
      using True Cons.prems by (simp add: buffer_inv_def)
    show ?thesis using True bl Cons.IH [OF inv] by auto
  qed
qed

subsection \<open>Properties\<close>

text \<open>Appending to a socket buffer is memory safe and acts on the unread bytes as a queue. On a
  well-formed buffer that stays below 2^31 bytes, \<open>append\<close> of any string returns, every byte it
  copies lands inside the vector (it is never undefined), the unread bytes become the old ones
  followed by the new ones, whether the space came from the free tail, from compaction or from a
  resize, and the buffer stays well formed.\<close>

theorem append_string_queue:
  assumes "buffer_inv b" "int (length (m_buffer b) + length msg) < 2 ^ 31"
  shows "\<exists>b'. append_string msg b = Inr b' \<and> content b' = content b @ msg \<and> buffer_inv b'"
  using socket_buffer.put_law [of msg 0 b] assms by (auto simp: buffer_room_def)

theorem append_string_queue_witness:
  "\<exists>b'. append_string ''GET /'' new_buffer = Inr b' \<and> content b' = ''GET /'' \<and> buffer_inv b'"
  using append_string_queue [OF new_buffer_inv, of "''GET /''"]
  by (simp add: new_buffer_def INITTIAL_SIZE_def content_def)

text \<open>\<open>getAnHTTPLine\<close> takes exactly one line off the queue. When the unread bytes hold a CR LF,
  it returns the bytes up to and including the first one and leaves the rest unread; when they do
  not, it leaves the buffer as it is and returns the unread bytes without the last one.\<close>

theorem getAnHTTPLine_first_line:
  assumes "buffer_inv b"
  shows "case split_crlf (content b) of
      Some (l, r) \<Rightarrow> fst (getAnHTTPLine b) = l \<and> content (snd (getAnHTTPLine b)) = r \<and> content b = l @ r \<and>
        buffer_inv (snd (getAnHTTPLine b))
    | None \<Rightarrow> getAnHTTPLine b = (butlast (content b), b)"
  using getAnHTTPLine_content [OF assms] split_crlf_append
  by (force split: option.splits)

theorem getAnHTTPLine_first_line_witness:
  "fst (getAnHTTPLine \<lparr>m_read_index = 1, m_write_index = 5, m_buffer = [NUL, CHR ''A'', CR, LF, CHR ''B'', NUL]\<rparr>)
    = [CHR ''A'', CR, LF]"
proof -
  let ?b = "\<lparr>m_read_index = 1, m_write_index = 5, m_buffer = [NUL, CHR ''A'', CR, LF, CHR ''B'', NUL]\<rparr>"
  have inv: "buffer_inv ?b" by (simp add: buffer_inv_def)
  have "split_crlf (content ?b) = Some ([CHR ''A'', CR, LF], ''B'')"
    by (simp add: content_def seg_def)
  with getAnHTTPLine_first_line [OF inv] show ?thesis by simp
qed

text \<open>C33: \<open>readFromFd\<close> drains the socket. After any interrupted and successful reads it appends all
  their bytes in order; it returns their number when the socket would block, -1 when the last read
  failed, and 0 when the last read met the end of the stream. In this last case the bytes just read
  are in the buffer and the caller is not told of them.\<close>

theorem readFromFd_drains:
  assumes "\<forall>a \<in> set ds. rd_goes_on a" "buffer_room (length (rd_data ds)) b"
  shows "\<exists>b'. content b' = content b @ rd_data ds \<and> buffer_inv b' \<and>
    readFromFd (ds @ Rd_Err EAGAIN # as) b = Inr (int (length (rd_data ds)), b', as) \<and>
    readFromFd (ds @ Rd_Bytes [] # as) b = Inr (0, b', as) \<and>
    readFromFd (ds @ Rd_Err (EOther e) # as) b = Inr (- 1, b', as)"
  using readFromFd_loop_prefix [of ds 0 b 0] assms buffer_room_inv
  by (fastforce simp: readFromFd_def)

theorem readFromFd_drains_witness:
  "\<exists>b'. content b' = ''GET /'' \<and> buffer_inv b' \<and>
    readFromFd [Rd_Bytes ''GE'', Rd_Err EINTR, Rd_Bytes ''T /'', Rd_Err EAGAIN] new_buffer = Inr (5, b', []) \<and>
    readFromFd [Rd_Bytes ''GE'', Rd_Err EINTR, Rd_Bytes ''T /'', Rd_Bytes []] new_buffer = Inr (0, b', [])"
proof -
  let ?ds = "[Rd_Bytes ''GE'', Rd_Err EINTR, Rd_Bytes ''T /'']"
  have h: "\<forall>a \<in> set ?ds. rd_goes_on a" by simp
  have room: "buffer_room (length (rd_data ?ds)) new_buffer" by (simp add: new_buffer_room)
  from readFromFd_drains [OF h room, of "[]"] show ?thesis by auto
qed

text \<open>C32: \<open>writeToFd\<close> neither loses nor duplicates nor reorders a byte. Whatever the kernel answers, the bytes
  it took followed by the bytes still unread are exactly the bytes that were unread before, the buffer stays well
  formed, and a result other than -1 is the number of bytes taken.\<close>

theorem writeToFd_conserves:
  assumes "writeToFd as b = Inr (n, sent, b', rest)" "buffer_room m b"
  shows "sent @ content b' = content b \<and> buffer_room m b' \<and> (n = - 1 \<or> n = int (length sent))"
  using writeToFd_loop_conserves [OF assms(1) [unfolded writeToFd_def] assms(2)] by simp

theorem writeToFd_conserves_witness:
  "\<exists>b'. writeToFd [Wr_Bytes 2, Wr_Err EINTR, Wr_Err EAGAIN] \<lparr>m_read_index = 1, m_write_index = 4, m_buffer = ''xABCy''\<rparr>
      = Inr (2, ''AB'', b', []) \<and> ''AB'' @ content b' = ''ABC''"
proof -
  let ?b = "\<lparr>m_read_index = 1, m_write_index = 4, m_buffer = ''xABCy''\<rparr>"
  let ?as = "[Wr_Bytes 2, Wr_Err EINTR, Wr_Err EAGAIN]"
  have room: "buffer_room 0 ?b" by (simp add: buffer_room_def buffer_inv_def)
  have c: "content ?b = ''ABC''" by (simp add: content_def seg_def)
  have run: "writeToFd ?as ?b = Inr (2, ''AB'', take_front 2 ?b, [])"
    using writeToFd_loop_Bytes [OF _ _ room, of 2, unfolded c] by (simp add: writeToFd_def)
  from writeToFd_conserves [OF run room] c show ?thesis using run by auto
qed

text \<open>\<open>writeToFd\<close> returns: the loop ends after at most one successful call per unread byte, one call per
  interruption and one more.\<close>

theorem writeToFd_returns:
  assumes "buffer_room m b" "length (content b) + count_list as (Wr_Err EINTR) < length as"
  shows "\<exists>r. writeToFd as b = Inr r"
  using writeToFd_loop_returns [OF assms] by (simp add: writeToFd_def)

theorem writeToFd_returns_witness:
  "\<exists>r. writeToFd [Wr_Bytes 1, Wr_Err EINTR, Wr_Bytes 1, Wr_Bytes 0]
      \<lparr>m_read_index = 0, m_write_index = 2, m_buffer = ''AB''\<rparr> = Inr r"
  by (rule writeToFd_returns [of 0]) (simp_all add: buffer_room_def buffer_inv_def content_def seg_def)

text \<open>\<open>setContent\<close> has no bounds check. It is undefined exactly when the request is longer than the
  free tail of the vector; otherwise it appends the request to the unread bytes.\<close>

theorem setContent_overflow:
  assumes "buffer_inv b"
  shows "(setContent req b = Inl Undefined_Behaviour \<longleftrightarrow> length (m_buffer b) - m_write_index b < length req) \<and>
    (length req \<le> length (m_buffer b) - m_write_index b \<longrightarrow>
      (\<exists>b'. setContent req b = Inr b' \<and> content b' = content b @ req))"
  using assms setContent_law [OF assms, of req] seg_blit_append [of "m_read_index b" "m_write_index b" req "m_buffer b"]
  by (auto simp: buffer_inv_def content_def)

theorem setContent_overflow_witness:
  "setContent (replicate 1025 CR) new_buffer = Inl Undefined_Behaviour"
  using setContent_overflow [OF new_buffer_inv, of "replicate 1025 CR"]
  by (simp add: new_buffer_def INITTIAL_SIZE_def)

end
