(* ===== verification/HttpContext.thy ===== *)
theory HttpContext
  imports Buffer
begin

text \<open>
  The HTTP context of a connection (HttpContext.h, HttpContext.cpp): the finite state machine that
  parses a request out of the input buffer line by line, and the response it writes.

  The two \<open>Buffer*\<close> members are passed as arguments. The member \<open>m_status_code\<close> is not initialised by
  the constructor; the model takes its start value as a parameter. The loop of \<open>handleHttpRequest\<close>
  is a \<open>partial_function\<close>: \<open>None\<close> is a run that never returns.
\<close>

datatype METHOD = GET | HEAD
datatype CHECK_STATE =
  CHECK_STATE_REQUEST_LINE | CHECK_STATE_HEADER | CHECK_STATE_BODY | CHECK_STATE_END
datatype LINE_STATE = LINE_OK | LINE_BAD | LINE_OPEN
datatype REQUEST_STATE =
  NO_REQUEST | GET_REQUEST | BAD_REQUEST | FORBIDDEN_REQUEST | INTERNAL_ERROR | CLOSED_CONNECTION
datatype HTTP_VERSION = HTTP_1_0 | HTTP_1_1
datatype CONNECTION = CLOSE | KEEP_ALIVE
datatype HttpStatusCode =
  kUnKnown | k200OK | k301MovedPermanently | k400BadRequest | k404NotFound

record http_context =
  m_method :: METHOD
  m_version :: HTTP_VERSION
  m_connection :: CONNECTION
  m_status_code :: HttpStatusCode
  m_status_message :: string
  m_request_state :: REQUEST_STATE
  m_check_state :: CHECK_STATE
  m_uri :: string
  m_new_line :: string

definition new_context :: "HttpStatusCode \<Rightarrow> http_context" where
  "new_context uninitialised =
     \<lparr>m_method = GET, m_version = HTTP_1_0, m_connection = CLOSE,
      m_status_code = uninitialised, m_status_message = [],
      m_request_state = NO_REQUEST, m_check_state = CHECK_STATE_REQUEST_LINE,
      m_uri = [], m_new_line = []\<rparr>"

definition isKeepAlive :: "http_context \<Rightarrow> bool" where
  "isKeepAlive c = (m_connection c = KEEP_ALIVE)"

definition reset :: "http_context \<Rightarrow> buffer \<Rightarrow> http_context \<times> buffer" where
  "reset c ib =
     (c\<lparr>m_method := GET, m_version := HTTP_1_0, m_connection := KEEP_ALIVE,
        m_request_state := NO_REQUEST, m_check_state := CHECK_STATE_REQUEST_LINE,
        m_uri := [], m_new_line := []\<rparr>,
      retrieveAll ib)"

subsection \<open>Lines\<close>

text \<open>The loop of \<open>parseLine\<close> over the new line, from index \<open>i\<close>.\<close>

function parseLine_from :: "string \<Rightarrow> nat \<Rightarrow> LINE_STATE \<times> string" where
  "parseLine_from nl i =
     (if i < length nl then
        if nl ! i = CR \<and> i + 1 < length nl then
          if nl ! (i + 1) = LF then (LINE_OK, nl[i := NUL, i + 1 := NUL])
          else (LINE_BAD, nl)
        else parseLine_from nl (i + 1)
      else (LINE_OPEN, nl))"
  by pat_completeness auto
termination
  by (relation "measure (\<lambda>(nl, i). length nl - i)") auto

declare parseLine_from.simps [simp del]

definition parseLine :: "http_context \<Rightarrow> buffer \<Rightarrow> LINE_STATE \<times> http_context \<times> buffer" where
  "parseLine c ib =
     (let (line, ib') = getAnHTTPLine ib;
          (st, line') = parseLine_from line 0
      in (st, c\<lparr>m_new_line := line'\<rparr>, ib'))"

subsection \<open>The request line and the headers\<close>

text \<open>The two scanning loops of \<open>parseRequestLine\<close>.\<close>

function skip_word :: "string \<Rightarrow> nat \<Rightarrow> nat" where
  "skip_word s e = (if c_at s e \<noteq> CHR '' '' \<and> c_at s e \<noteq> NUL then skip_word s (e + 1) else e)"
  by pat_completeness auto
termination
  by (relation "measure (\<lambda>(s, e). length s - e)") (auto simp: c_at_def split: if_splits)

function skip_blanks :: "string \<Rightarrow> nat \<Rightarrow> nat" where
  "skip_blanks s e = (if c_at s e = CHR '' '' \<and> c_at s e \<noteq> NUL then skip_blanks s (e + 1) else e)"
  by pat_completeness auto
termination
  by (relation "measure (\<lambda>(s, e). length s - e)") (auto simp: c_at_def split: if_splits)

declare skip_word.simps [simp del] skip_blanks.simps [simp del]

definition substr :: "string \<Rightarrow> nat \<Rightarrow> nat \<Rightarrow> string" where
  "substr s pos n = take n (drop pos s)"

definition parseRequestLine :: "http_context \<Rightarrow> http_context" where
  "parseRequestLine c =
     (let nl = m_new_line c;
          e1 = skip_word nl 0;
          method = substr nl 0 e1
      in if method \<noteq> ''GET'' \<and> method \<noteq> ''HEAD'' then c\<lparr>m_request_state := BAD_REQUEST\<rparr>
         else
           let c1 = c\<lparr>m_method := (if method = ''GET'' then GET else HEAD)\<rparr>;
               s2 = skip_blanks nl e1;
               e2 = skip_word nl s2;
               c2 = c1\<lparr>m_uri := substr nl s2 (e2 - s2)\<rparr>;
               s3 = skip_blanks nl e2;
               e3 = skip_word nl s3;
               version = substr nl s3 (e3 - s3)
           in if version = ''HTTP/1.0'' then
                c2\<lparr>m_version := HTTP_1_0, m_check_state := CHECK_STATE_HEADER,
                   m_request_state := NO_REQUEST\<rparr>
              else if version = ''HTTP/1.1'' then
                c2\<lparr>m_version := HTTP_1_1, m_check_state := CHECK_STATE_HEADER,
                   m_request_state := NO_REQUEST\<rparr>
              else c2\<lparr>m_request_state := BAD_REQUEST\<rparr>)"

text \<open>The loop over \<open>m_new_line[start] == ' '\<close> of \<open>parseMessageHeader\<close> is \<open>skip_blanks\<close>: a blank is not
  NUL.\<close>

definition parseMessageHeader :: "http_context \<Rightarrow> http_context" where
  "parseMessageHeader c =
     (let nl = m_new_line c in
      if nl \<noteq> [] \<and> nl ! 0 = NUL then
        c\<lparr>m_check_state := CHECK_STATE_BODY, m_request_state := NO_REQUEST\<rparr>
      else if strncasecmp_eq 11 nl ''Connection:'' then
        let start = skip_blanks nl 11 in
        if strncasecmp_eq 10 (drop start nl) ''Keep-Alive'' then
          c\<lparr>m_connection := KEEP_ALIVE, m_request_state := NO_REQUEST\<rparr>
        else c\<lparr>m_request_state := BAD_REQUEST\<rparr>
      else c\<lparr>m_request_state := NO_REQUEST\<rparr>)"

definition parseMessageBody :: "http_context \<Rightarrow> http_context" where
  "parseMessageBody c =
     c\<lparr>m_check_state := CHECK_STATE_END, m_request_state := GET_REQUEST\<rparr>"

subsection \<open>The parsing loop\<close>

definition line_verdict :: "LINE_STATE \<Rightarrow> http_context \<Rightarrow> http_context" where
  "line_verdict st c =
     (if st = LINE_OPEN then c\<lparr>m_request_state := NO_REQUEST\<rparr>
      else if st = LINE_BAD then c\<lparr>m_request_state := BAD_REQUEST\<rparr>
      else c)"

partial_function (option) handle_loop ::
  "LINE_STATE \<Rightarrow> http_context \<Rightarrow> buffer \<Rightarrow> (http_context \<times> buffer) option" where
  "handle_loop line_status c ib =
     (if line_status = LINE_OK then
        if m_check_state c = CHECK_STATE_REQUEST_LINE then
          let c1 = parseRequestLine c in
          if m_request_state c1 = BAD_REQUEST then Some (c1, ib)
          else (case parseLine c1 ib of (st, c2, ib') \<Rightarrow> handle_loop st c2 ib')
        else if m_check_state c = CHECK_STATE_HEADER then
          let c1 = parseMessageHeader c in
          if m_request_state c1 = BAD_REQUEST then Some (c1, ib)
          else if m_check_state c1 \<noteq> CHECK_STATE_BODY then
            (case parseLine c1 ib of (st, c2, ib') \<Rightarrow> handle_loop st c2 ib')
          else handle_loop line_status c1 ib
        else if m_check_state c = CHECK_STATE_BODY then
          let c1 = parseMessageBody c in
          if m_request_state c1 = BAD_REQUEST then Some (c1, ib)
          else Some (line_verdict line_status c1, ib)
        else handle_loop line_status c ib
      else Some (line_verdict line_status c, ib))"

definition handleHttpRequest :: "http_context \<Rightarrow> buffer \<Rightarrow> (http_context \<times> buffer) option" where
  "handleHttpRequest c ib = (case parseLine c ib of (st, c1, ib1) \<Rightarrow> handle_loop st c1 ib1)"

subsection \<open>The response\<close>

definition favicon :: string where
  "favicon = map char_of
    [137 :: nat, 80, 78, 71, 13, 10, 26, 10, 0, 0, 0, 13, 73, 72, 68, 82,
     0, 0, 0, 16, 0, 0, 0, 16, 8, 6, 0, 0, 0, 31, 243, 255,
     97, 0, 0, 0, 25, 116, 69, 88, 116, 83, 111, 102, 116, 119, 97, 114,
     101, 0, 65, 100, 111, 98, 101, 32, 73, 109, 97, 103, 101, 82, 101, 97,
     100, 121, 113, 201, 101, 60, 0, 0, 1, 205, 73, 68, 65, 84, 120, 218,
     148, 147, 57, 72, 3, 65, 20, 134, 255, 93, 98, 167, 4, 82, 196, 109,
     34, 30, 160, 70, 36, 8, 22, 22, 118, 10, 54, 186, 74, 154, 128, 8,
     65, 180, 113, 133, 88, 137, 71, 176, 73, 169, 81, 36, 205, 166, 8, 164,
     72, 99, 145, 66, 11, 175, 86, 193, 70, 180, 21, 207, 34, 88, 152, 11,
     84, 72, 138, 100, 147, 141, 251, 70, 103, 201, 26, 20, 125, 240, 102, 118,
     102, 223, 124, 239, 231, 103, 70, 168, 213, 106, 72, 36, 18, 42, 0, 5,
     191, 71, 212, 239, 247, 47, 54, 236, 18, 32, 30, 143, 215, 170, 213, 234,
     175, 73, 53, 70, 170, 84, 95, 159, 34, 65, 42, 149, 10, 131, 229, 114,
     57, 100, 179, 89, 150, 153, 76, 6, 233, 116, 154, 37, 133, 44, 203, 84,
     167, 196, 98, 49, 181, 94, 0, 3, 104, 154, 198, 22, 130, 32, 88, 82,
     20, 69, 54, 83, 148, 203, 101, 120, 189, 94, 170, 85, 84, 35, 76, 192,
     224, 226, 193, 143, 0, 158, 188, 9, 65, 124, 62, 31, 131, 68, 34, 17,
     213, 84, 64, 63, 56, 128, 119, 229, 51, 7, 184, 92, 46, 72, 146, 4,
     135, 195, 129, 64, 32, 64, 103, 152, 233, 54, 26, 166, 103, 21, 4, 227,
     215, 200, 189, 21, 225, 105, 183, 67, 171, 234, 120, 47, 106, 88, 146, 187,
     24, 32, 159, 207, 51, 195, 184, 233, 78, 167, 211, 108, 74, 0, 105, 54,
     124, 142, 225, 254, 86, 132, 231, 60, 159, 114, 43, 58, 66, 123, 55, 102,
     119, 174, 142, 14, 243, 189, 82, 169, 100, 2, 66, 175, 133, 50, 102, 70,
     186, 12, 217, 159, 29, 154, 108, 34, 230, 199, 58, 44, 128, 239, 193, 21,
     144, 7, 147, 162, 40, 160, 83, 106, 177, 184, 223, 41, 53, 67, 14, 63,
     88, 252, 152, 218, 121, 106, 80, 64, 0, 135, 174, 27, 23, 66, 180, 58,
     63, 190, 121, 199, 10, 38, 182, 238, 217, 154, 96, 20, 147, 219, 143, 13,
     10, 46, 233, 35, 149, 41, 88, 0, 39, 235, 110, 86, 112, 188, 214, 203,
     214, 71, 171, 61, 108, 125, 184, 210, 221, 160, 96, 131, 186, 239, 95, 164,
     234, 204, 2, 78, 174, 94, 112, 26, 236, 179, 64, 57, 172, 254, 242, 145,
     137, 103, 145, 133, 33, 168, 135, 183, 88, 126, 126, 133, 187, 205, 78, 78,
     98, 116, 64, 250, 147, 137, 236, 30, 236, 134, 2, 72, 38, 147, 208, 117,
     29, 127, 9, 50, 149, 191, 31, 219, 215, 99, 138, 26, 247, 92, 193, 255,
     34, 74, 195, 135, 0, 3, 0, 75, 187, 248, 214, 42, 118, 152, 73, 0,
     0, 0, 0, 73, 69, 78, 68, 174, 66, 96, 130]"

text \<open>\<open>std::string(favicon)\<close> copies the array up to its first NUL.\<close>

definition http_response :: "string \<Rightarrow> http_context \<Rightarrow> string" where
  "http_response now c =
     (if m_version c = HTTP_1_0 then ''HTTP/1.0 '' else ''HTTP/1.1 '') @
     (if m_request_state c = GET_REQUEST then
        if m_uri c = ''/'' then
          ''200 OK'' @ [CR, LF] @
          ''Content-Type: text/html'' @ [CR, LF] @
          ''Header: QWQ-SERVER'' @ [CR, LF] @
          ''Connection: close'' @ [CR, LF] @
          [CR, LF] @
          ''<html><head><title>This is title</title></head><body><h1>Hello</h1>Now is '' @
          now @
          ''</body></html>''
        else if m_uri c = ''/favicon.ico'' then
          ''200 OK'' @ [CR, LF] @
          ''Content-Type: image/png'' @ [CR, LF] @
          ''Connection: close'' @ [CR, LF] @
          ''Header: QWQ-SERVER'' @ [CR, LF] @
          [CR, LF] @
          c_str favicon
        else if m_uri c = ''/hello'' then
          ''200 OK'' @ [CR, LF] @
          ''Content-Type: text/plain'' @ [CR, LF] @
          ''Connection: close'' @ [CR, LF] @
          ''Header: QWQ-SERVER'' @ [CR, LF] @
          [CR, LF] @
          ''<html><head>'' @
          ''hello, world!'' @ [LF] @
          ''</head></html>''
        else
          ''404 Not Found'' @ [CR, LF] @
          [CR, LF]
      else if m_request_state c = BAD_REQUEST \<or> m_request_state c = NO_REQUEST then
        ''400 Bad Request'' @ [CR, LF] @
        ''Connection: close'' @ [CR, LF] @
        [CR, LF]
      else if m_request_state c = FORBIDDEN_REQUEST then
        ''403 Forbidden Error'' @ [CR, LF] @
        [CR, LF]
      else if m_request_state c = INTERNAL_ERROR then
        ''500 Internal Server Error'' @ [CR, LF] @
        [CR, LF]
      else [])"

text \<open>\<open>now\<close> is the value of \<open>timeStamp()\<close>; the response goes out through \<open>append(const char*, int)\<close>.\<close>

definition getHttpResponse :: "string \<Rightarrow> http_context \<Rightarrow> buffer \<Rightarrow> buffer res" where
  "getHttpResponse now c ob =
     (let response = http_response now c
      in append_chars response (int32 (int (length response))) ob)"

text \<open>\<open>work()\<close>. A parse that never returns makes the whole call never return.\<close>

definition work :: "string \<Rightarrow> http_context \<Rightarrow> buffer \<Rightarrow> buffer \<Rightarrow>
    (http_context \<times> buffer \<times> buffer) res" where
  "work now c ib ob =
     (case handleHttpRequest c ib of
        None \<Rightarrow> Inl Endless_Loop
      | Some (c', ib') \<Rightarrow> bind_res (getHttpResponse now c' ob) (\<lambda>ob'. Inr (c', ib', ob')))"

end
