(* ===== verification/HttpSpec.thy ===== *)
theory HttpSpec
  imports HttpContext
begin

text \<open>
  What the HTTP context computes, over the bytes of the input rather than over the buffer.

  \<open>line_of\<close> says what one call of \<open>parseLine\<close> finds at the front of the unread bytes;
  \<open>handle_text\<close> is the parser as a function of these bytes. The refinement lemma
  \<open>handleHttpRequest_refines\<close> shows that \<open>handleHttpRequest\<close> implements it, and that the only way
  not to return is to be called on a context that has already reached \<open>CHECK_STATE_END\<close>. The
  properties follow: a round trip from well-formed requests, chunked input, rejected requests,
  the responses.
\<close>

subsection \<open>One line\<close>

lemma parseLine_from_ok:
  "CR \<notin> set p \<Longrightarrow> i \<le> length p \<Longrightarrow>
    parseLine_from (p @ [CR, LF]) i = (LINE_OK, p @ [NUL, NUL])"
proof (induction "length p - i" arbitrary: i)
  case 0
  then show ?case
    by (subst parseLine_from.simps) (simp add: nth_append list_update_append)
next
  case (Suc n)
  then have "i < length p" by simp
  with Suc.prems have "(p @ [CR, LF]) ! i \<noteq> CR" by (auto simp: nth_append dest: nth_mem)
  then have "parseLine_from (p @ [CR, LF]) i = parseLine_from (p @ [CR, LF]) (i + 1)"
    using \<open>i < length p\<close> by (subst parseLine_from.simps) auto
  then show ?case using Suc by simp
qed

lemma parseLine_from_bad:
  "CR \<notin> set p \<Longrightarrow> d \<noteq> LF \<Longrightarrow> i \<le> length p \<Longrightarrow>
    parseLine_from (p @ CR # d # q) i = (LINE_BAD, p @ CR # d # q)"
proof (induction "length p - i" arbitrary: i)
  case 0
  then show ?case
    by (subst parseLine_from.simps) (simp add: nth_append)
next
  case (Suc n)
  then have "i < length p" by simp
  with Suc.prems have "(p @ CR # d # q) ! i \<noteq> CR" by (auto simp: nth_append dest: nth_mem)
  then have "parseLine_from (p @ CR # d # q) i = parseLine_from (p @ CR # d # q) (i + 1)"
    using \<open>i < length p\<close> by (subst parseLine_from.simps) auto
  then show ?case using Suc by simp
qed

lemma parseLine_from_open:
  "CR \<notin> set (butlast nl) \<Longrightarrow> i \<le> length nl \<Longrightarrow> parseLine_from nl i = (LINE_OPEN, nl)"
proof (induction "length nl - i" arbitrary: i)
  case 0
  then show ?case by (subst parseLine_from.simps) simp
next
  case (Suc n)
  have "\<not> (nl ! i = CR \<and> i + 1 < length nl)"
  proof
    assume a: "nl ! i = CR \<and> i + 1 < length nl"
    then have "butlast nl ! i = CR" by (simp add: nth_butlast less_diff_conv)
    then show False using a Suc.prems(1) nth_mem [of i "butlast nl"] by (simp add: less_diff_conv)
  qed
  then have "parseLine_from nl i = parseLine_from nl (i + 1)"
    using Suc.hyps(2) by (subst parseLine_from.simps) auto
  then show ?case using Suc by simp
qed

text \<open>Verdict, new line, and what stays unread.\<close>

definition line_of :: "string \<Rightarrow> LINE_STATE \<times> string \<times> string" where
  "line_of xs =
     (case split_crlf xs of
        Some (l, r) \<Rightarrow>
          (let p = butlast (butlast l) in
           if CR \<in> set p then (LINE_BAD, l, r) else (LINE_OK, p @ [NUL, NUL], r))
      | None \<Rightarrow>
          (if CR \<in> set (butlast (butlast xs)) then LINE_BAD else LINE_OPEN, butlast xs, xs))"

lemma split_crlf_None_CR:
  "split_crlf xs = None \<Longrightarrow> CR \<in> set (butlast xs) \<Longrightarrow>
    \<exists>p d q. xs = p @ CR # d # q \<and> CR \<notin> set p \<and> d \<noteq> LF"
proof (induction xs rule: split_crlf.induct)
  case (1 c d cs)
  show ?case
  proof (cases "c = CR")
    case True
    with "1.prems"(1) have "d \<noteq> LF" by (auto split: if_splits)
    with True show ?thesis by (intro exI [of _ "[]"] exI [of _ d] exI [of _ cs]) simp
  next
    case False
    with "1.prems" have "split_crlf (d # cs) = None" "CR \<in> set (butlast (d # cs))"
      by (auto split: if_splits)
    with False "1.IH" obtain p e q where "d # cs = p @ CR # e # q" "CR \<notin> set p" "e \<noteq> LF" by auto
    with False show ?thesis by (intro exI [of _ "c # p"]) auto
  qed
qed auto

lemma split_crlf_None_cases:
  assumes "split_crlf (p @ [CR]) = None" "CR \<in> set p"
  shows "\<exists>a d q. p @ [CR, LF] = a @ CR # d # q \<and> CR \<notin> set a \<and> d \<noteq> LF"
proof -
  have "CR \<in> set (butlast (p @ [CR]))" using assms(2) by simp
  from split_crlf_None_CR [OF assms(1) this] obtain a d q
    where "p @ [CR] = a @ CR # d # q" "CR \<notin> set a" "d \<noteq> LF" by blast
  then have "p @ [CR, LF] = a @ CR # d # (q @ [LF])" by (metis append.assoc append_Cons append_Nil)
  with \<open>CR \<notin> set a\<close> \<open>d \<noteq> LF\<close> show ?thesis by blast
qed

lemma parseLine_spec:
  assumes "buffer_inv ib" "line_of (content ib) = (st, nl, r)"
  shows "\<exists>ib'. parseLine c ib = (st, c\<lparr>m_new_line := nl\<rparr>, ib') \<and> content ib' = r \<and>
    buffer_inv ib' \<and> m_buffer ib' = m_buffer ib"
proof (cases "split_crlf (content ib)")
  case (Some lr)
  obtain l r' where lr: "lr = (l, r')" by (cases lr)
  from split_crlf_line [OF Some [unfolded lr]] obtain p where
    p: "l = p @ [CR, LF]" "split_crlf (p @ [CR]) = None" by blast
  from getAnHTTPLine_content(1) [OF assms(1) Some [unfolded lr]] obtain ib' where
    ib': "getAnHTTPLine ib = (l, ib')" "content ib' = r'" "buffer_inv ib'" "m_buffer ib' = m_buffer ib"
    by blast
  have bb: "butlast (butlast l) = p" by (simp add: p butlast_append)
  show ?thesis
  proof (cases "CR \<in> set p")
    case True
    from split_crlf_None_cases [OF p(2) True] obtain a d q where
      "l = a @ CR # d # q" "CR \<notin> set a" "d \<noteq> LF" using p(1) by blast
    then have "parseLine_from l 0 = (LINE_BAD, l)" using parseLine_from_bad [of a d 0 q] by simp
    then show ?thesis using assms(2) Some lr True bb ib'
      by (simp add: parseLine_def line_of_def Let_def)
  next
    case False
    then have "parseLine_from l 0 = (LINE_OK, p @ [NUL, NUL])" using parseLine_from_ok [of p 0] p by simp
    then show ?thesis using assms(2) Some lr False bb ib'
      by (simp add: parseLine_def line_of_def Let_def)
  qed
next
  case None
  let ?l = "butlast (content ib)"
  have g: "getAnHTTPLine ib = (?l, ib)" using getAnHTTPLine_content(2) [OF assms(1) None] .
  show ?thesis
  proof (cases "CR \<in> set (butlast ?l)")
    case False
    then have "parseLine_from ?l 0 = (LINE_OPEN, ?l)" using parseLine_from_open by simp
    then show ?thesis using assms g None False by (auto simp: parseLine_def line_of_def)
  next
    case True
    then have ne: "content ib \<noteq> []" by auto
    then have sn: "content ib = ?l @ [last (content ib)]" by simp
    have "split_crlf ?l = None"
    proof (rule ccontr)
      assume "split_crlf ?l \<noteq> None"
      then obtain l r where "split_crlf ?l = Some (l, r)" by auto
      from split_crlf_extend [OF this, of "[last (content ib)]"] None sn show False by simp
    qed
    from split_crlf_None_CR [OF this True] obtain p d q where
      "?l = p @ CR # d # q" "CR \<notin> set p" "d \<noteq> LF" by blast
    then have "parseLine_from ?l 0 = (LINE_BAD, ?l)" using parseLine_from_bad [of p d 0 q] by simp
    then show ?thesis using assms g None True by (auto simp: parseLine_def line_of_def)
  qed
qed

lemma line_of_shrinks: "line_of xs = (LINE_OK, nl, r) \<Longrightarrow> length r < length xs"
proof -
  assume a: "line_of xs = (LINE_OK, nl, r)"
  then obtain l where s: "split_crlf xs = Some (l, r)"
    by (auto simp: line_of_def Let_def split: option.splits if_splits)
  obtain p where "l = p @ [CR, LF]" using split_crlf_line [OF s] by blast
  with split_crlf_append [OF s] show ?thesis by simp
qed

subsection \<open>The parser on the bytes\<close>

function handle_text :: "http_context \<Rightarrow> string \<Rightarrow> http_context \<times> string" where
  "handle_text c xs =
     (case line_of xs of (st, nl, r) \<Rightarrow>
        (let c0 = c\<lparr>m_new_line := nl\<rparr> in
         if st \<noteq> LINE_OK then (line_verdict st c0, r)
         else (case m_check_state c of
             CHECK_STATE_REQUEST_LINE \<Rightarrow>
               (let c1 = parseRequestLine c0 in
                if m_request_state c1 = BAD_REQUEST then (c1, r) else handle_text c1 r)
           | CHECK_STATE_HEADER \<Rightarrow>
               (let c1 = parseMessageHeader c0 in
                if m_request_state c1 = BAD_REQUEST then (c1, r)
                else if m_check_state c1 = CHECK_STATE_BODY then (parseMessageBody c1, r)
                else handle_text c1 r)
           | CHECK_STATE_BODY \<Rightarrow> (parseMessageBody c0, r)
           | CHECK_STATE_END \<Rightarrow> (c0, r))))"
  by pat_completeness auto
termination
  by (relation "measure (\<lambda>(c, xs). length xs)") (auto dest!: line_of_shrinks [OF sym])

declare handle_text.simps [simp del]

lemma handle_text_stop: "line_of xs = (st, nl, r) \<Longrightarrow> st \<noteq> LINE_OK \<Longrightarrow>
    handle_text c xs = (line_verdict st (c\<lparr>m_new_line := nl\<rparr>), r)"
  by (simp add: handle_text.simps [of c xs])

lemma handle_text_request_line:
  assumes "line_of xs = (LINE_OK, nl, r)" "m_check_state c = CHECK_STATE_REQUEST_LINE"
  shows "handle_text c xs =
    (let c1 = parseRequestLine (c\<lparr>m_new_line := nl\<rparr>) in
     if m_request_state c1 = BAD_REQUEST then (c1, r) else handle_text c1 r)"
  by (subst handle_text.simps) (simp add: assms)

lemma handle_text_header:
  assumes "line_of xs = (LINE_OK, nl, r)" "m_check_state c = CHECK_STATE_HEADER"
  shows "handle_text c xs =
    (let c1 = parseMessageHeader (c\<lparr>m_new_line := nl\<rparr>) in
     if m_request_state c1 = BAD_REQUEST then (c1, r)
     else if m_check_state c1 = CHECK_STATE_BODY then (parseMessageBody c1, r)
     else handle_text c1 r)"
  by (subst handle_text.simps) (simp add: assms)

lemma handle_text_body:
  assumes "line_of xs = (LINE_OK, nl, r)" "m_check_state c = CHECK_STATE_BODY"
  shows "handle_text c xs = (parseMessageBody (c\<lparr>m_new_line := nl\<rparr>), r)"
  by (subst handle_text.simps) (simp add: assms)

text \<open>What the line handlers do to the state.\<close>

lemma parseRequestLine_states:
  "m_request_state (parseRequestLine c) = BAD_REQUEST \<and> m_check_state (parseRequestLine c) = m_check_state c \<or>
   m_request_state (parseRequestLine c) = NO_REQUEST \<and> m_check_state (parseRequestLine c) = CHECK_STATE_HEADER"
  by (simp add: parseRequestLine_def Let_def)

lemma parseMessageHeader_states:
  "m_request_state (parseMessageHeader c) = BAD_REQUEST \<and> m_check_state (parseMessageHeader c) = m_check_state c \<or>
   m_request_state (parseMessageHeader c) = NO_REQUEST \<and>
     m_check_state (parseMessageHeader c) \<in> {m_check_state c, CHECK_STATE_BODY}"
  by (simp add: parseMessageHeader_def Let_def)

lemma parseMessageBody_states [simp]:
  "m_request_state (parseMessageBody c) = GET_REQUEST" "m_check_state (parseMessageBody c) = CHECK_STATE_END"
  by (simp_all add: parseMessageBody_def)

lemma line_verdict_states:
  "m_check_state (line_verdict st c) = m_check_state c"
  "st = LINE_OPEN \<Longrightarrow> m_request_state (line_verdict st c) = NO_REQUEST"
  "st = LINE_BAD \<Longrightarrow> m_request_state (line_verdict st c) = BAD_REQUEST"
  by (simp_all add: line_verdict_def)

subsection \<open>Refinement and termination\<close>

definition loop_result :: "http_context \<Rightarrow> buffer \<Rightarrow> (http_context \<times> buffer) option \<Rightarrow> bool" where
  "loop_result c ib res \<longleftrightarrow>
     (\<exists>ib'. res = Some (fst (handle_text c (content ib)), ib') \<and>
        content ib' = snd (handle_text c (content ib)) \<and> buffer_inv ib' \<and> m_buffer ib' = m_buffer ib)"

lemma parse_then_loop:
  "buffer_inv ib \<Longrightarrow> m_check_state c \<noteq> CHECK_STATE_END \<Longrightarrow>
    loop_result c ib (case parseLine c ib of (st, c1, ib1) \<Rightarrow> handle_loop st c1 ib1)"
proof (induction "length (content ib)" arbitrary: c ib rule: less_induct)
  case less
  obtain st nl r where l: "line_of (content ib) = (st, nl, r)" by (cases "line_of (content ib)")
  let ?c = "c\<lparr>m_new_line := nl\<rparr>"
  from parseLine_spec [OF less.prems(1) l, of c] obtain ib1 where
    ib1: "parseLine c ib = (st, ?c, ib1)" "content ib1 = r" "buffer_inv ib1" "m_buffer ib1 = m_buffer ib"
    by blast
  show ?case
  proof (cases "st = LINE_OK")
    case False
    then have "handle_loop st ?c ib1 = Some (line_verdict st ?c, ib1)"
      by (subst handle_loop.simps) simp
    with ib1 handle_text_stop [OF l False] show ?thesis by (simp add: loop_result_def)
  next
    case ok: True
    then have l: "line_of (content ib) = (LINE_OK, nl, r)" using l by simp
    have shrink: "length (content ib1) < length (content ib)" using line_of_shrinks [OF l] ib1(2) by simp
    have next_line: "loop_result c1 ib1 (case parseLine c1 ib1 of (st, c2, ib2) \<Rightarrow> handle_loop st c2 ib2)"
      if "m_check_state c1 \<noteq> CHECK_STATE_END" for c1
      using less.hyps [OF shrink ib1(3) that] .
    show ?thesis
    proof (cases "m_check_state c")
      case CHECK_STATE_REQUEST_LINE
      let ?c1 = "parseRequestLine ?c"
      have h: "handle_loop st ?c ib1 = (if m_request_state ?c1 = BAD_REQUEST then Some (?c1, ib1)
          else (case parseLine ?c1 ib1 of (st, c2, ib') \<Rightarrow> handle_loop st c2 ib'))"
        by (subst handle_loop.simps) (simp add: ok CHECK_STATE_REQUEST_LINE)
      show ?thesis
        using h next_line [of ?c1] handle_text_request_line [OF l CHECK_STATE_REQUEST_LINE] ib1
          parseRequestLine_states [of ?c] CHECK_STATE_REQUEST_LINE
        by (auto simp: loop_result_def)
    next
      case CHECK_STATE_HEADER
      let ?c1 = "parseMessageHeader ?c"
      have h: "handle_loop st ?c ib1 = (if m_request_state ?c1 = BAD_REQUEST then Some (?c1, ib1)
          else if m_check_state ?c1 \<noteq> CHECK_STATE_BODY then
            (case parseLine ?c1 ib1 of (st, c2, ib') \<Rightarrow> handle_loop st c2 ib')
          else handle_loop LINE_OK ?c1 ib1)"
        by (subst handle_loop.simps) (simp add: ok CHECK_STATE_HEADER)
      have b: "handle_loop LINE_OK ?c1 ib1 = Some (parseMessageBody ?c1, ib1)"
        if "m_check_state ?c1 = CHECK_STATE_BODY"
        by (subst handle_loop.simps) (simp add: that line_verdict_def)
      show ?thesis
        using h b next_line [of ?c1] handle_text_header [OF l CHECK_STATE_HEADER] ib1
          parseMessageHeader_states [of ?c] CHECK_STATE_HEADER
        by (auto simp: loop_result_def)
    next
      case CHECK_STATE_BODY
      have "handle_loop st ?c ib1 = Some (parseMessageBody ?c, ib1)"
        by (subst handle_loop.simps) (simp add: ok CHECK_STATE_BODY line_verdict_def)
      with ib1 handle_text_body [OF l CHECK_STATE_BODY] show ?thesis by (simp add: loop_result_def)
    next
      case CHECK_STATE_END
      with less.prems show ?thesis by simp
    qed
  qed
qed

lemma handleHttpRequest_refines:
  assumes "buffer_inv ib" "m_check_state c \<noteq> CHECK_STATE_END"
  shows "\<exists>ib'. handleHttpRequest c ib = Some (fst (handle_text c (content ib)), ib') \<and>
    content ib' = snd (handle_text c (content ib)) \<and> buffer_inv ib' \<and> m_buffer ib' = m_buffer ib"
  using parse_then_loop [OF assms] by (simp add: handleHttpRequest_def loop_result_def)

lemma handle_loop_END:
  assumes "m_check_state c = CHECK_STATE_END"
  shows "handle_loop LINE_OK c ib = None"
proof (rule ccontr)
  assume "handle_loop LINE_OK c ib \<noteq> None"
  then obtain r where ret: "handle_loop LINE_OK c ib = Some r" by auto
  have "\<not> (LINE_OK = LINE_OK \<and> m_check_state c = CHECK_STATE_END)"
  proof (rule handle_loop.raw_induct
      [where P = "\<lambda>st c ib r. \<not> (st = LINE_OK \<and> m_check_state c = CHECK_STATE_END)", OF _ ret])
    fix f st c ib r
    assume IH: "\<And>st c ib r. f st c ib = Some r \<Longrightarrow> \<not> (st = LINE_OK \<and> m_check_state c = CHECK_STATE_END)"
      and eq: "(if st = LINE_OK then
        if m_check_state c = CHECK_STATE_REQUEST_LINE then
          let c1 = parseRequestLine c in
          if m_request_state c1 = BAD_REQUEST then Some (c1, ib)
          else (case parseLine c1 ib of (st, c2, ib') \<Rightarrow> f st c2 ib')
        else if m_check_state c = CHECK_STATE_HEADER then
          let c1 = parseMessageHeader c in
          if m_request_state c1 = BAD_REQUEST then Some (c1, ib)
          else if m_check_state c1 \<noteq> CHECK_STATE_BODY then
            (case parseLine c1 ib of (st, c2, ib') \<Rightarrow> f st c2 ib')
          else f st c1 ib
        else if m_check_state c = CHECK_STATE_BODY then
          let c1 = parseMessageBody c in
          if m_request_state c1 = BAD_REQUEST then Some (c1, ib)
          else Some (line_verdict st c1, ib)
        else f st c ib
      else Some (line_verdict st c, ib)) = Some r"
    show "\<not> (st = LINE_OK \<and> m_check_state c = CHECK_STATE_END)"
    proof
      assume a: "st = LINE_OK \<and> m_check_state c = CHECK_STATE_END"
      with eq have "f st c ib = Some r" by simp
      from IH [OF this] a show False by blast
    qed
  qed
  with assms show False by simp
qed

lemma handleHttpRequest_diverges_iff:
  assumes "buffer_inv ib"
  shows "handleHttpRequest c ib = None \<longleftrightarrow>
    m_check_state c = CHECK_STATE_END \<and> fst (line_of (content ib)) = LINE_OK"
proof (cases "m_check_state c = CHECK_STATE_END")
  case False
  with handleHttpRequest_refines [OF assms, of c] show ?thesis by auto
next
  case True
  obtain st nl r where l: "line_of (content ib) = (st, nl, r)" by (cases "line_of (content ib)")
  from parseLine_spec [OF assms l, of c] obtain ib1 where
    p: "parseLine c ib = (st, c\<lparr>m_new_line := nl\<rparr>, ib1)" by blast
  show ?thesis
  proof (cases "st = LINE_OK")
    case ok: True
    with p l True handle_loop_END [of "c\<lparr>m_new_line := nl\<rparr>" ib1] show ?thesis
      by (simp add: handleHttpRequest_def)
  next
    case False
    then have "handle_loop st (c\<lparr>m_new_line := nl\<rparr>) ib1 \<noteq> None"
      by (subst handle_loop.simps) simp
    with p l False show ?thesis by (simp add: handleHttpRequest_def)
  qed
qed

subsection \<open>Well-formed requests\<close>

definition is_word :: "string \<Rightarrow> bool" where
  "is_word w = (\<forall>c \<in> set w. c \<noteq> CHR '' '' \<and> c \<noteq> NUL \<and> c \<noteq> CR)"

definition method_text :: "METHOD \<Rightarrow> string" where
  "method_text m = (case m of GET \<Rightarrow> ''GET'' | HEAD \<Rightarrow> ''HEAD'')"

definition version_text :: "HTTP_VERSION \<Rightarrow> string" where
  "version_text v = (case v of HTTP_1_0 \<Rightarrow> ''HTTP/1.0'' | HTTP_1_1 \<Rightarrow> ''HTTP/1.1'')"

text \<open>A header line the parser accepts: it does not start with NUL, and if it is a \<open>Connection:\<close>
  header it names \<open>Keep-Alive\<close>.\<close>

definition is_connection :: "string \<Rightarrow> bool" where
  "is_connection h = strncasecmp_eq 11 (h @ [NUL, NUL]) ''Connection:''"

definition names_keep_alive :: "string \<Rightarrow> bool" where
  "names_keep_alive h =
     strncasecmp_eq 10 (dropWhile (\<lambda>c. c = CHR '' '') (drop 11 (h @ [NUL, NUL]))) ''Keep-Alive''"

definition header_line :: "string \<Rightarrow> bool" where
  "header_line h \<longleftrightarrow> h \<noteq> [] \<and> hd h \<noteq> NUL \<and> CR \<notin> set h"

definition render_headers :: "string list \<Rightarrow> string" where
  "render_headers hs = concat (map (\<lambda>h. h @ [CR, LF]) hs)"

definition render_request :: "METHOD \<Rightarrow> string \<Rightarrow> HTTP_VERSION \<Rightarrow> string list \<Rightarrow> string" where
  "render_request m uri v hs =
     method_text m @ '' '' @ uri @ '' '' @ version_text v @ [CR, LF] @ render_headers hs @ [CR, LF]"

lemma line_of_line: "CR \<notin> set p \<Longrightarrow> line_of (p @ CR # LF # r) = (LINE_OK, p @ [NUL, NUL], r)"
  using split_crlf_make [OF split_crlf_no_CR, of p r] by (simp add: line_of_def butlast_append)

lemma skip_word_spec:
  assumes "\<forall>x \<in> set w. x \<noteq> CHR '' '' \<and> x \<noteq> NUL" "c = CHR '' '' \<or> c = NUL"
  shows "skip_word (pre @ w @ c # q) (length pre) = length pre + length w"
  using assms(1)
proof (induction w arbitrary: pre)
  case Nil
  then show ?case using assms(2) by (subst skip_word.simps) (auto simp: c_at_def nth_append)
next
  case (Cons x w)
  have "skip_word (pre @ (x # w) @ c # q) (length pre) = skip_word (pre @ (x # w) @ c # q) (length pre + 1)"
    using Cons.prems by (subst skip_word.simps) (simp add: c_at_def nth_append)
  also have "\<dots> = length (pre @ [x]) + length w"
    using Cons.IH [of "pre @ [x]"] Cons.prems by simp
  finally show ?case by simp
qed

lemma skip_blanks_stop: "x \<noteq> CHR '' '' \<Longrightarrow> skip_blanks (pre @ x # q) (length pre) = length pre"
  by (subst skip_blanks.simps) (simp add: c_at_def nth_append)

lemma skip_blanks_one: "x \<noteq> CHR '' '' \<Longrightarrow> skip_blanks (pre @ CHR '' '' # x # q) (length pre) = length pre + 1"
  using skip_blanks_stop [of x "pre @ ['' '' ! 0]" q]
  by (subst skip_blanks.simps) (simp add: c_at_def nth_append)

lemma skip_blanks_dropWhile: "i \<le> length s \<Longrightarrow>
    drop (skip_blanks s i) s = dropWhile (\<lambda>c. c = CHR '' '') (drop i s)"
proof (induction s i rule: skip_blanks.induct)
  case (1 s i)
  show ?case
  proof (cases "i < length s")
    case False
    then have "skip_blanks s i = i" by (subst skip_blanks.simps) (simp add: c_at_def)
    then show ?thesis using False by simp
  next
    case True
    show ?thesis
    proof (cases "s ! i = CHR '' ''")
      case blank: True
      have "skip_blanks s i = skip_blanks s (i + 1)"
        using True blank by (subst skip_blanks.simps) (simp add: c_at_def)
      then show ?thesis
        using "1.IH" True blank by (simp add: c_at_def Cons_nth_drop_Suc [symmetric])
    next
      case False
      then have "skip_blanks s i = i" using True by (subst skip_blanks.simps) (simp add: c_at_def)
      then show ?thesis using True False by (simp add: Cons_nth_drop_Suc [symmetric])
    qed
  qed
qed

lemma parseRequestLine_render:
  assumes "is_word uri" "uri \<noteq> []"
    and "m_new_line c = (method_text m @ '' '' @ uri @ '' '' @ version_text v) @ [NUL, NUL]"
  shows "parseRequestLine c = c\<lparr>m_method := m, m_uri := uri, m_version := v,
    m_check_state := CHECK_STATE_HEADER, m_request_state := NO_REQUEST\<rparr>"
proof -
  let ?nl = "m_new_line c" and ?m = "method_text m" and ?v = "version_text v" and ?b = "CHR '' ''"
  have words: "\<forall>x \<in> set ?m. x \<noteq> ?b \<and> x \<noteq> NUL" "\<forall>x \<in> set ?v. x \<noteq> ?b \<and> x \<noteq> NUL"
    "\<forall>x \<in> set uri. x \<noteq> ?b \<and> x \<noteq> NUL"
    using assms(1) by (auto simp: method_text_def version_text_def is_word_def split: METHOD.splits HTTP_VERSION.splits)
  obtain u us where uri: "uri = u # us" "u \<noteq> ?b" using assms(2) words(3) by (cases uri) auto
  obtain h vs where ver: "?v = h # vs" "h \<noteq> ?b"
    by (cases v) (auto simp: version_text_def)
  have e1: "skip_word ?nl 0 = length ?m"
    using skip_word_spec [OF words(1), of ?b "[]" "uri @ '' '' @ ?v @ [NUL, NUL]"] assms(3) by simp
  have s2: "skip_blanks ?nl (length ?m) = length ?m + 1"
    using skip_blanks_one [OF uri(2), of ?m "us @ '' '' @ ?v @ [NUL, NUL]"] assms(3) uri by simp
  have e2: "skip_word ?nl (length ?m + 1) = length ?m + 1 + length uri"
    using skip_word_spec [OF words(3), of ?b "?m @ '' ''" "?v @ [NUL, NUL]"] assms(3) by simp
  have s3: "skip_blanks ?nl (length ?m + 1 + length uri) = length ?m + 1 + length uri + 1"
    using skip_blanks_one [OF ver(2), of "?m @ '' '' @ uri" "vs @ [NUL, NUL]"] assms(3) ver by simp
  have e3: "skip_word ?nl (length ?m + 1 + length uri + 1) = length ?m + 1 + length uri + 1 + length ?v"
    using skip_word_spec [OF words(2), of NUL "?m @ '' '' @ uri @ '' ''" "[NUL]"] assms(3) by simp
  have fields: "substr ?nl 0 (length ?m) = ?m" "substr ?nl (length ?m + 1) (length uri) = uri"
    "substr ?nl (length ?m + 1 + length uri + 1) (length ?v) = ?v"
    using assms(3) by (simp_all add: substr_def)
  show ?thesis
    unfolding parseRequestLine_def Let_def e1 fields s2 e2 s3 e3 diff_add_inverse
    by (cases m; cases v) (simp_all add: method_text_def version_text_def)
qed

lemma parseMessageHeader_line:
  assumes "header_line h" "m_new_line c = h @ [NUL, NUL]"
  shows "parseMessageHeader c =
    (if is_connection h then
       if names_keep_alive h then c\<lparr>m_connection := KEEP_ALIVE, m_request_state := NO_REQUEST\<rparr>
       else c\<lparr>m_request_state := BAD_REQUEST\<rparr>
     else c\<lparr>m_request_state := NO_REQUEST\<rparr>)"
proof -
  have nl0: "m_new_line c ! 0 = hd h" "m_new_line c \<noteq> []"
    using assms by (cases h; simp add: header_line_def)+
  have "strncasecmp_eq 11 (h @ [NUL, NUL]) ''Connection:'' \<Longrightarrow> 11 \<le> length (h @ [NUL, NUL])"
    by (drule strncasecmp_eq_length) simp_all
  then show ?thesis
    using assms nl0 skip_blanks_dropWhile [of 11 "h @ [NUL, NUL]"]
    by (auto simp: parseMessageHeader_def Let_def is_connection_def names_keep_alive_def header_line_def)
qed

definition accepted_header :: "string \<Rightarrow> bool" where
  "accepted_header h \<longleftrightarrow> header_line h \<and> (is_connection h \<longrightarrow> names_keep_alive h)"

lemma parseMessageHeader_empty:
  "m_new_line c = NUL # q \<Longrightarrow>
    parseMessageHeader c = c\<lparr>m_check_state := CHECK_STATE_BODY, m_request_state := NO_REQUEST\<rparr>"
  by (simp add: parseMessageHeader_def)

lemma handle_text_no_header:
  assumes "m_check_state c = CHECK_STATE_HEADER"
  shows "handle_text c (CR # LF # rest) =
    (c\<lparr>m_new_line := [NUL, NUL], m_check_state := CHECK_STATE_END, m_request_state := GET_REQUEST\<rparr>, rest)"
  using handle_text_header [OF line_of_line [of "[]"] assms]
    parseMessageHeader_empty [of "c\<lparr>m_new_line := [NUL, NUL]\<rparr>" "[NUL]"]
  by (simp add: parseMessageBody_def)

lemma handle_text_one_header:
  assumes "m_check_state c = CHECK_STATE_HEADER" "accepted_header h"
  shows "handle_text c (h @ CR # LF # rest) = handle_text
    (c\<lparr>m_new_line := h @ [NUL, NUL],
       m_connection := (if is_connection h then KEEP_ALIVE else m_connection c),
       m_request_state := NO_REQUEST\<rparr>) rest"
proof -
  have same: "c\<lparr>m_new_line := h @ [NUL, NUL], m_connection := m_connection c, m_request_state := NO_REQUEST\<rparr> =
      c\<lparr>m_new_line := h @ [NUL, NUL], m_request_state := NO_REQUEST\<rparr>" by simp
  have "line_of (h @ CR # LF # rest) = (LINE_OK, h @ [NUL, NUL], rest)"
    using assms(2) by (simp add: line_of_line accepted_header_def header_line_def)
  from handle_text_header [OF this assms(1)] assms parseMessageHeader_line [of h "c\<lparr>m_new_line := h @ [NUL, NUL]\<rparr>"]
  show ?thesis by (simp add: accepted_header_def same)
qed

lemma handle_text_indep:
  assumes "m_check_state c \<noteq> CHECK_STATE_END"
  shows "handle_text (c\<lparr>m_new_line := a, m_request_state := s\<rparr>) xs = handle_text c xs"
proof -
  obtain st nl r where l: "line_of xs = (st, nl, r)" by (cases "line_of xs")
  let ?d = "c\<lparr>m_new_line := a, m_request_state := s\<rparr>"
  have q: "parseRequestLine (c\<lparr>m_request_state := s, m_new_line := nl\<rparr>) = parseRequestLine (c\<lparr>m_new_line := nl\<rparr>)"
    by (simp add: parseRequestLine_def Let_def)
  have h: "parseMessageHeader (c\<lparr>m_request_state := s, m_new_line := nl\<rparr>) = parseMessageHeader (c\<lparr>m_new_line := nl\<rparr>)"
    by (simp add: parseMessageHeader_def Let_def)
  have b: "parseMessageBody (c\<lparr>m_request_state := s, m_new_line := nl\<rparr>) = parseMessageBody (c\<lparr>m_new_line := nl\<rparr>)"
    by (simp add: parseMessageBody_def)
  have chk: "m_check_state ?d = m_check_state c" by simp
  show ?thesis
    by (subst (1 2) handle_text.simps)
       (use assms in \<open>cases st; cases "m_check_state c"; simp add: l q h b line_verdict_def chk Let_def\<close>)
qed

lemma handle_text_headers:
  assumes "m_check_state c = CHECK_STATE_HEADER" "\<forall>h \<in> set hs. accepted_header h"
  shows "\<exists>nl. handle_text c (render_headers hs @ rest) = handle_text
    (c\<lparr>m_new_line := nl,
       m_connection := (if \<exists>h \<in> set hs. is_connection h then KEEP_ALIVE else m_connection c),
       m_request_state := NO_REQUEST\<rparr>) rest"
  using assms
proof (induction hs arbitrary: c)
  case Nil
  have "handle_text (c\<lparr>m_new_line := [], m_request_state := NO_REQUEST\<rparr>) rest = handle_text c rest"
    using Nil by (intro handle_text_indep) simp
  moreover have "c\<lparr>m_new_line := [], m_connection := m_connection c, m_request_state := NO_REQUEST\<rparr> =
      c\<lparr>m_new_line := [], m_request_state := NO_REQUEST\<rparr>" by simp
  ultimately show ?case by (intro exI [of _ "[]"]) (simp add: render_headers_def)
next
  case (Cons h hs)
  let ?c = "c\<lparr>m_new_line := h @ [NUL, NUL],
       m_connection := (if is_connection h then KEEP_ALIVE else m_connection c),
       m_request_state := NO_REQUEST\<rparr>"
  have "handle_text c (render_headers (h # hs) @ rest) = handle_text ?c (render_headers hs @ rest)"
    using handle_text_one_header [of c h "render_headers hs @ rest"] Cons.prems by (simp add: render_headers_def)
  moreover have "m_check_state ?c = CHECK_STATE_HEADER" "\<forall>h \<in> set hs. accepted_header h"
    using Cons.prems by simp_all
  note Cons.IH [OF this]
  ultimately show ?case by auto
qed

lemma handle_text_first_line:
  assumes "is_word uri" "uri \<noteq> []" "m_check_state c = CHECK_STATE_REQUEST_LINE"
  shows "\<exists>nl. handle_text c (method_text m @ '' '' @ uri @ '' '' @ version_text v @ CR # LF # rest) =
    handle_text (c\<lparr>m_new_line := nl, m_method := m, m_uri := uri, m_version := v,
      m_check_state := CHECK_STATE_HEADER, m_request_state := NO_REQUEST\<rparr>) rest"
proof -
  let ?p = "method_text m @ '' '' @ uri @ '' '' @ version_text v"
  have "CR \<notin> set ?p"
    using assms(1) by (auto simp: is_word_def method_text_def version_text_def split: METHOD.splits HTTP_VERSION.splits)
  from line_of_line [OF this, of rest] have l: "line_of (?p @ CR # LF # rest) = (LINE_OK, ?p @ [NUL, NUL], rest)" .
  have "parseRequestLine (c\<lparr>m_new_line := ?p @ [NUL, NUL]\<rparr>) = c\<lparr>m_new_line := ?p @ [NUL, NUL], m_method := m,
      m_uri := uri, m_version := v, m_check_state := CHECK_STATE_HEADER, m_request_state := NO_REQUEST\<rparr>"
    using parseRequestLine_render [OF assms(1,2), of "c\<lparr>m_new_line := ?p @ [NUL, NUL]\<rparr>" m v] by simp
  with handle_text_request_line [OF l assms(3)] show ?thesis by (intro exI) simp
qed

lemma handle_text_request:
  assumes "is_word uri" "uri \<noteq> []" "m_check_state c = CHECK_STATE_REQUEST_LINE" "\<forall>h \<in> set hs. accepted_header h"
  shows "handle_text c (render_request m uri v hs @ rest) =
    (c\<lparr>m_new_line := [NUL, NUL], m_method := m, m_uri := uri, m_version := v,
       m_connection := (if \<exists>h \<in> set hs. is_connection h then KEEP_ALIVE else m_connection c),
       m_check_state := CHECK_STATE_END, m_request_state := GET_REQUEST\<rparr>, rest)"
proof -
  obtain nl where 1: "handle_text c (render_request m uri v hs @ rest) =
    handle_text (c\<lparr>m_new_line := nl, m_method := m, m_uri := uri, m_version := v,
      m_check_state := CHECK_STATE_HEADER, m_request_state := NO_REQUEST\<rparr>) (render_headers hs @ CR # LF # rest)"
    using handle_text_first_line [OF assms(1-3), of m v "render_headers hs @ CR # LF # rest"]
    by (auto simp: render_request_def)
  let ?c = "c\<lparr>m_new_line := nl, m_method := m, m_uri := uri, m_version := v,
      m_check_state := CHECK_STATE_HEADER, m_request_state := NO_REQUEST\<rparr>"
  have "m_check_state ?c = CHECK_STATE_HEADER" by simp
  from handle_text_headers [OF this assms(4), of "CR # LF # rest"] 1
  show ?thesis by (auto simp: handle_text_no_header)
qed

lemma handle_text_bad_connection:
  assumes "is_word uri" "uri \<noteq> []" "m_check_state c = CHECK_STATE_REQUEST_LINE" "\<forall>h \<in> set hs. accepted_header h"
    and "header_line h" "is_connection h" "\<not> names_keep_alive h"
  shows "m_request_state (fst (handle_text c (render_request m uri v (hs @ h # hs') @ rest))) = BAD_REQUEST"
proof -
  let ?t = "h @ CR # LF # render_headers hs' @ CR # LF # rest"
  obtain nl where 1: "handle_text c (render_request m uri v (hs @ h # hs') @ rest) =
    handle_text (c\<lparr>m_new_line := nl, m_method := m, m_uri := uri, m_version := v,
      m_check_state := CHECK_STATE_HEADER, m_request_state := NO_REQUEST\<rparr>) (render_headers hs @ ?t)"
    using handle_text_first_line [OF assms(1-3), of m v "render_headers hs @ ?t"]
    by (auto simp: render_request_def render_headers_def)
  let ?c = "c\<lparr>m_new_line := nl, m_method := m, m_uri := uri, m_version := v,
      m_check_state := CHECK_STATE_HEADER, m_request_state := NO_REQUEST\<rparr>"
  have "m_check_state ?c = CHECK_STATE_HEADER" by simp
  from handle_text_headers [OF this assms(4), of ?t] 1 obtain d where
    d: "handle_text c (render_request m uri v (hs @ h # hs') @ rest) = handle_text d ?t"
      "m_check_state d = CHECK_STATE_HEADER" by auto
  have "line_of ?t = (LINE_OK, h @ [NUL, NUL], render_headers hs' @ CR # LF # rest)"
    using assms(5) by (simp add: line_of_line header_line_def)
  from handle_text_header [OF this d(2)] parseMessageHeader_line [OF assms(5), of "d\<lparr>m_new_line := h @ [NUL, NUL]\<rparr>"]
    assms(6,7) d(1) show ?thesis by simp
qed

subsection \<open>The states a parse ends in\<close>

lemma handle_text_states:
  assumes "m_check_state c \<noteq> CHECK_STATE_END"
  shows "m_request_state (fst (handle_text c xs)) \<in> {NO_REQUEST, GET_REQUEST, BAD_REQUEST} \<and>
    (m_request_state (fst (handle_text c xs)) = GET_REQUEST \<longleftrightarrow>
     m_check_state (fst (handle_text c xs)) = CHECK_STATE_END)"
  using assms
proof (induction "length xs" arbitrary: c xs rule: less_induct)
  case less
  obtain st nl r where l: "line_of xs = (st, nl, r)" by (cases "line_of xs")
  let ?c = "c\<lparr>m_new_line := nl\<rparr>"
  show ?case
  proof (cases "st = LINE_OK")
    case False
    then show ?thesis
      using handle_text_stop [OF l False, of c] less.prems line_verdict_states [of st ?c] by (cases st) auto
  next
    case True
    then have l: "line_of xs = (LINE_OK, nl, r)" using l by simp
    note IH = less.hyps [OF line_of_shrinks [OF l]]
    show ?thesis
      using IH [of "parseRequestLine ?c"] IH [of "parseMessageHeader ?c"] less.prems
        parseRequestLine_states [of ?c] parseMessageHeader_states [of ?c]
        handle_text_request_line [OF l] handle_text_header [OF l] handle_text_body [OF l]
      by (cases "m_check_state c") (auto simp: Let_def)
  qed
qed

lemma handle_text_append:
  "m_check_state c \<noteq> CHECK_STATE_END \<Longrightarrow> m_request_state (fst (handle_text c xs)) = NO_REQUEST \<Longrightarrow>
    handle_text c (xs @ ys) = handle_text (fst (handle_text c xs)) (snd (handle_text c xs) @ ys)"
proof (induction "length xs" arbitrary: c xs rule: less_induct)
  case less
  obtain st nl r where l: "line_of xs = (st, nl, r)" by (cases "line_of xs")
  let ?c = "c\<lparr>m_new_line := nl\<rparr>"
  show ?case
  proof (cases "st = LINE_OK")
    case False
    note s = handle_text_stop [OF l False, of c]
    with less.prems have "st = LINE_OPEN" using False by (cases st) (auto simp: line_verdict_def)
    moreover from this l have "r = xs" by (auto simp: line_of_def Let_def split: option.splits if_splits)
    ultimately show ?thesis using s less.prems handle_text_indep [of c NO_REQUEST nl "xs @ ys"]
      by (simp add: line_verdict_def)
  next
    case True
    then have l: "line_of xs = (LINE_OK, nl, r)" using l by simp
    then have l': "line_of (xs @ ys) = (LINE_OK, nl, r @ ys)"
      by (auto simp: line_of_def Let_def split_crlf_extend split: option.splits if_splits)
    note IH = less.hyps [OF line_of_shrinks [OF l]]
    show ?thesis
      using IH [of "parseRequestLine ?c"] IH [of "parseMessageHeader ?c"] less.prems
        parseRequestLine_states [of ?c] parseMessageHeader_states [of ?c]
        handle_text_request_line [OF l] handle_text_header [OF l] handle_text_body [OF l]
        handle_text_request_line [OF l'] handle_text_header [OF l'] handle_text_body [OF l']
      by (cases "m_check_state c") (auto simp: Let_def split: if_splits)
  qed
qed

subsection \<open>The response\<close>

lemma c_str_map_Cons: "c_str (map char_of (n # ns)) =
    (if n mod 256 = (0::nat) then [] else char_of n # c_str (map char_of ns))"
proof -
  have "(char_of n :: char) = NUL \<longleftrightarrow> n mod 256 = 0"
    using char_of_eq_iff [of n NUL] by (simp add: take_bit_eq_mod)
  then show ?thesis by (simp add: c_str_def)
qed

lemma favicon_c_str: "c_str favicon = map char_of [137 :: nat, 80, 78, 71, 13, 10, 26, 10]"
proof -
  have "c_str favicon = [char_of (137 :: nat), char_of (80 :: nat), char_of (78 :: nat), char_of (71 :: nat),
     char_of (13 :: nat), char_of (10 :: nat), char_of (26 :: nat), char_of (10 :: nat)]"
    unfolding favicon_def by (simp add: c_str_map_Cons del: list.map char_of_eq_iff)
  then show ?thesis by simp
qed

lemma favicon_length: "length favicon = 555"
  unfolding favicon_def by simp

lemma http_response_length: "length (http_response now c) \<le> 250 + length now"
proof -
  consider (root) "m_uri c = ''/''" | (icon) "m_uri c = ''/favicon.ico''" | (hello) "m_uri c = ''/hello''"
    | (other) "m_uri c \<noteq> ''/''" "m_uri c \<noteq> ''/favicon.ico''" "m_uri c \<noteq> ''/hello''" by blast
  then show ?thesis
    by cases (cases "m_request_state c"; cases "m_version c"; simp add: http_response_def favicon_c_str)+
qed

lemma getHttpResponse_law:
  assumes "buffer_room (length (http_response now c) + n) ob"
  shows "\<exists>ob'. getHttpResponse now c ob = Inr ob' \<and> content ob' = content ob @ http_response now c \<and> buffer_room n ob'"
  using socket_buffer.put_law [OF assms] by (simp add: getHttpResponse_def append_string_def Let_def)

definition reason :: "http_context \<Rightarrow> string" where
  "reason c =
     (if m_request_state c = GET_REQUEST then
        if m_uri c \<in> {''/'', ''/favicon.ico'', ''/hello''} then ''200 OK'' else ''404 Not Found''
      else ''400 Bad Request'')"

lemma work_refines:
  assumes "buffer_inv ib" "m_check_state c \<noteq> CHECK_STATE_END"
    and "buffer_room (250 + length now + n) ob"
  shows "\<exists>ib' ob'. work now c ib ob = Inr (fst (handle_text c (content ib)), ib', ob') \<and>
    content ib' = snd (handle_text c (content ib)) \<and> buffer_inv ib' \<and> m_buffer ib' = m_buffer ib \<and>
    content ob' = content ob @ http_response now (fst (handle_text c (content ib))) \<and> buffer_room n ob'"
proof -
  let ?c = "fst (handle_text c (content ib))"
  obtain ib' where ib': "handleHttpRequest c ib = Some (?c, ib')" "content ib' = snd (handle_text c (content ib))"
    "buffer_inv ib'" "m_buffer ib' = m_buffer ib"
    using handleHttpRequest_refines [OF assms(1,2)] by blast
  have "buffer_room (length (http_response now ?c) + n) ob"
    using http_response_length [of now ?c] by (intro buffer_room_mono [OF assms(3)]) simp
  from getHttpResponse_law [OF this] ib' show ?thesis by (auto simp: work_def)
qed

text \<open>Whatever the state of the parser and the bytes it is given, it stays within its buffers.\<close>

lemma handleHttpRequest_room:
  assumes "buffer_room n ib" "handleHttpRequest c ib = Some (c', ib')"
  shows "buffer_room n ib'"
proof -
  have inv: "buffer_inv ib" using assms(1) by (rule buffer_room_inv)
  have "buffer_inv ib' \<and> m_buffer ib' = m_buffer ib"
  proof (cases "m_check_state c = CHECK_STATE_END")
    case False
    with handleHttpRequest_refines [OF inv, of c] assms(2) show ?thesis by auto
  next
    case True
    obtain st nl r where l: "line_of (content ib) = (st, nl, r)" by (cases "line_of (content ib)")
    from parseLine_spec [OF inv l, of c] obtain ib1 where
      p: "parseLine c ib = (st, c\<lparr>m_new_line := nl\<rparr>, ib1)" "buffer_inv ib1" "m_buffer ib1 = m_buffer ib" by blast
    with assms(2) have h: "handle_loop st (c\<lparr>m_new_line := nl\<rparr>) ib1 = Some (c', ib')" by (simp add: handleHttpRequest_def)
    with handle_loop_END [of "c\<lparr>m_new_line := nl\<rparr>" ib1] True have "st \<noteq> LINE_OK" by auto
    with h have "ib' = ib1" by (subst (asm) handle_loop.simps) simp
    with p(2,3) show ?thesis by simp
  qed
  with assms(1) show ?thesis by (simp add: buffer_room_def)
qed

lemma work_safe:
  assumes "buffer_room n ib" "buffer_room (250 + length now + k) ob"
  shows "safe (\<lambda>(_, ib', ob'). buffer_room n ib' \<and> buffer_room k ob') (work now c ib ob)"
proof (cases "handleHttpRequest c ib")
  case None
  then show ?thesis by (simp add: work_def)
next
  case (Some r)
  obtain c' ib' where r: "r = (c', ib')" by fastforce
  have "buffer_room (length (http_response now c') + k) ob"
    using http_response_length [of now c'] by (intro buffer_room_mono [OF assms(2)]) simp
  from getHttpResponse_law [OF this] handleHttpRequest_room [OF assms(1) Some [unfolded r]] Some r show ?thesis
    by (auto simp: work_def)
qed

subsection \<open>Properties\<close>

text \<open>C27: parsing inverts rendering. A fresh or reset context that is given any well-formed request
  (GET or HEAD, a URI without blanks, HTTP/1.0 or 1.1, any number of header lines, of which the
  \<open>Connection:\<close> ones name \<open>Keep-Alive\<close>) followed by any further bytes returns with
  \<open>GET_REQUEST\<close>, holds the method, URI and version of the request, is keep-alive when a header asked
  for it, and leaves the further bytes unread.\<close>

theorem handleHttpRequest_request:
  assumes "buffer_inv ib" "content ib = render_request m uri v hs @ rest"
    and "is_word uri" "uri \<noteq> []" "\<forall>h \<in> set hs. accepted_header h" "m_check_state c = CHECK_STATE_REQUEST_LINE"
  shows "\<exists>c' ib'. handleHttpRequest c ib = Some (c', ib') \<and> m_request_state c' = GET_REQUEST \<and>
    m_check_state c' = CHECK_STATE_END \<and> m_method c' = m \<and> m_uri c' = uri \<and> m_version c' = v \<and>
    (isKeepAlive c' \<longleftrightarrow> isKeepAlive c \<or> (\<exists>h \<in> set hs. is_connection h)) \<and> content ib' = rest \<and> buffer_inv ib'"
  using handleHttpRequest_refines [OF assms(1), of c] assms(2,6) handle_text_request [OF assms(3,4,6,5), of m v rest]
  by (auto simp: isKeepAlive_def)

lemma example_headers:
  "accepted_header ''Host: a''" "\<not> is_connection ''Host: a''"
  "accepted_header ''connection:  keep-alive''" "is_connection ''connection:  keep-alive''"
  "header_line ''Connection: close''" "is_connection ''Connection: close''" "\<not> names_keep_alive ''Connection: close''"
  by code_simp+

theorem handleHttpRequest_request_witness:
  "\<exists>c' ib'. handleHttpRequest (new_context k200OK)
      (filled (render_request HEAD ''/hello'' HTTP_1_1 [''Host: a'', ''connection:  keep-alive''] @ ''GET'')) = Some (c', ib') \<and>
    m_request_state c' = GET_REQUEST \<and> m_uri c' = ''/hello'' \<and> isKeepAlive c' \<and> content ib' = ''GET''"
proof -
  let ?hs = "[''Host: a'', ''connection:  keep-alive'']"
  have w: "is_word ''/hello''" by (simp add: is_word_def)
  have h: "\<forall>h \<in> set ?hs. accepted_header h" using example_headers by simp
  have c: "m_check_state (new_context k200OK) = CHECK_STATE_REQUEST_LINE" by (simp add: new_context_def)
  from handleHttpRequest_request [OF filled_simps(1) filled_simps(2) w _ h c, of HEAD HTTP_1_1 "''GET''"]
  show ?thesis using example_headers(4) by auto
qed

text \<open>C31: the exact condition for a hang. \<open>handleHttpRequest\<close> returns on every well-formed buffer
  except when the context has already reached \<open>CHECK_STATE_END\<close> (a request was parsed and the context
  not reset) and a complete line is waiting: then its loop never ends.\<close>

theorem handleHttpRequest_hang_iff:
  assumes "buffer_inv ib"
  shows "handleHttpRequest c ib = None \<longleftrightarrow>
    m_check_state c = CHECK_STATE_END \<and> fst (line_of (content ib)) = LINE_OK"
  using handleHttpRequest_diverges_iff [OF assms] .

theorem handleHttpRequest_hang_iff_witness:
  "handleHttpRequest ((new_context k200OK)\<lparr>m_check_state := CHECK_STATE_END\<rparr>) (filled [CR, LF]) = None"
  using handleHttpRequest_hang_iff [OF filled_simps(1)] line_of_line [of "[]" "[]"] by simp

text \<open>C30: requests may arrive in pieces, cut at any byte. If the parser stops for want of a complete line, and more
  bytes arrive, it ends in the same state with the same unread bytes as if all bytes had been there
  from the start.\<close>

theorem handleHttpRequest_pieces:
  assumes "handleHttpRequest c ib = Some (c1, ib1)" "m_request_state c1 = NO_REQUEST"
    and "m_check_state c \<noteq> CHECK_STATE_END" "buffer_inv ib"
    and "buffer_inv later" "content later = content ib1 @ ys"
    and "buffer_inv whole" "content whole = content ib @ ys"
  shows "\<exists>c' later' whole'. handleHttpRequest c1 later = Some (c', later') \<and>
    handleHttpRequest c whole = Some (c', whole') \<and> content later' = content whole'"
proof -
  let ?xs = "content ib"
  from handleHttpRequest_refines [OF assms(4,3)] assms(1)
  have c1: "c1 = fst (handle_text c ?xs)" "content ib1 = snd (handle_text c ?xs)" by auto
  have "m_check_state c1 \<noteq> CHECK_STATE_END"
    using handle_text_states [OF assms(3), of ?xs] assms(2) c1 by auto
  from handleHttpRequest_refines [OF assms(5) this] handleHttpRequest_refines [OF assms(7,3)]
    handle_text_append [OF assms(3), of ?xs ys] assms(2,6,8) c1
  show ?thesis by auto
qed

theorem handleHttpRequest_pieces_witness:
  "\<exists>c' later' whole'.
     handleHttpRequest ((new_context k200OK)\<lparr>m_new_line := ''GET / HTTP/1.''\<rparr>) (filled (''GET / HTTP/1.0'' @ [CR, LF])) = Some (c', later') \<and>
     handleHttpRequest (new_context k200OK) (filled (''GET / HTTP/1.0'' @ [CR, LF])) = Some (c', whole') \<and>
     content later' = content whole'"
proof -
  let ?c = "new_context k200OK" and ?xs = "''GET / HTTP/1.0''"
  let ?c1 = "?c\<lparr>m_new_line := ''GET / HTTP/1.''\<rparr>"
  have chk: "m_check_state ?c \<noteq> CHECK_STATE_END" by (simp add: new_context_def)
  have "line_of ?xs = (LINE_OPEN, ''GET / HTTP/1.'', ?xs)" by (simp add: line_of_def)
  from handle_text_stop [OF this, of ?c]
  have h: "handle_text ?c ?xs = (?c1, ?xs)" by (simp add: line_verdict_def new_context_def)
  from handleHttpRequest_refines [OF filled_simps(1) chk, of ?xs] obtain ib1 where
    run: "handleHttpRequest ?c (filled ?xs) = Some (?c1, ib1)" "content ib1 = ?xs" by (auto simp: h)
  have no: "m_request_state ?c1 = NO_REQUEST" by (simp add: new_context_def)
  from handleHttpRequest_pieces [OF run(1) no chk filled_simps(1) filled_simps(1) _ filled_simps(1),
      of "?xs @ [CR, LF]" "[CR, LF]" "?xs @ [CR, LF]"] run(2)
  show ?thesis by simp
qed

text \<open>The parser only ever ends in three of the six request states, and it reaches
  \<open>CHECK_STATE_END\<close> exactly with \<open>GET_REQUEST\<close>. The branches of the response for forbidden requests
  and internal errors are dead.\<close>

theorem handleHttpRequest_states:
  assumes "handleHttpRequest c ib = Some (c', ib')" "buffer_inv ib" "m_check_state c \<noteq> CHECK_STATE_END"
  shows "m_request_state c' \<in> {NO_REQUEST, GET_REQUEST, BAD_REQUEST} \<and>
    (m_request_state c' = GET_REQUEST \<longleftrightarrow> m_check_state c' = CHECK_STATE_END)"
  using handleHttpRequest_refines [OF assms(2,3)] handle_text_states [OF assms(3), of "content ib"] assms(1)
  by auto

theorem handleHttpRequest_states_witness:
  "\<exists>c' ib'. handleHttpRequest (new_context k200OK) (filled ''POST'') = Some (c', ib') \<and>
     m_request_state c' \<in> {NO_REQUEST, GET_REQUEST, BAD_REQUEST}"
proof -
  have chk: "m_check_state (new_context k200OK) \<noteq> CHECK_STATE_END" by (simp add: new_context_def)
  from handleHttpRequest_refines [OF filled_simps(1) chk, of "''POST''"] obtain c' ib' where
    run: "handleHttpRequest (new_context k200OK) (filled ''POST'') = Some (c', ib')" by blast
  from handleHttpRequest_states [OF run filled_simps(1) chk] run show ?thesis by blast
qed

text \<open>The status line. For every state the parser can end in, the response starts with the
  request's version and 200 for the three known URIs, 404 for any other URI of a parsed request, and
  400 for a bad request; an incomplete request is answered with 400 as well.\<close>

theorem http_response_status:
  assumes "m_request_state c \<in> {NO_REQUEST, GET_REQUEST, BAD_REQUEST}"
  shows "\<exists>tail. http_response now c = version_text (m_version c) @ '' '' @ reason c @ [CR, LF] @ tail"
  using assms by (cases "m_version c") (auto simp: http_response_def version_text_def reason_def)

theorem http_response_status_witness:
  "\<exists>tail. http_response ''now'' (new_context k200OK) = ''HTTP/1.0 400 Bad Request'' @ [CR, LF] @ tail"
  using http_response_status [of "new_context k200OK" "''now''"]
  by (simp add: new_context_def version_text_def reason_def)

text \<open>An incomplete request is answered. When only part of a request has arrived (no CR at all
  yet), \<open>work\<close> does not wait for the rest: it appends a complete 400 response to the output buffer,
  though \<open>NO_REQUEST\<close> is documented as "please read more request data".\<close>

theorem work_answers_incomplete_request:
  assumes "buffer_inv ib" "CR \<notin> set (content ib)" "m_check_state c = CHECK_STATE_REQUEST_LINE"
    and "buffer_room (250 + length now) ob"
  shows "\<exists>c' ib' ob'. work now c ib ob = Inr (c', ib', ob') \<and> m_request_state c' = NO_REQUEST \<and>
    content ob' = content ob @ version_text (m_version c) @ '' 400 Bad Request'' @ [CR, LF] @
      ''Connection: close'' @ [CR, LF, CR, LF]"
proof -
  have "split_crlf (content ib) = None"
  proof (rule ccontr)
    assume "split_crlf (content ib) \<noteq> None"
    then obtain l r where s: "split_crlf (content ib) = Some (l, r)" by auto
    from split_crlf_line [OF s] split_crlf_append [OF s] assms(2) show False by auto
  qed
  moreover have "CR \<notin> set (butlast (butlast (content ib)))"
    using assms(2) by (meson in_set_butlastD)
  ultimately have l: "line_of (content ib) = (LINE_OPEN, butlast (content ib), content ib)"
    by (simp add: line_of_def)
  from handle_text_stop [OF this, of c]
  have h: "handle_text c (content ib) = (c\<lparr>m_new_line := butlast (content ib), m_request_state := NO_REQUEST\<rparr>, content ib)"
    by (simp add: line_verdict_def)
  have "http_response now (c\<lparr>m_new_line := butlast (content ib), m_request_state := NO_REQUEST\<rparr>) =
      version_text (m_version c) @ '' 400 Bad Request'' @ [CR, LF] @ ''Connection: close'' @ [CR, LF, CR, LF]"
    by (cases "m_version c") (simp_all add: http_response_def version_text_def)
  with work_refines [OF assms(1), of c now 0 ob] assms(3,4) h show ?thesis by auto
qed

theorem work_answers_incomplete_request_witness:
  "\<exists>c' ib' ob'. work ''now'' (new_context k200OK) (filled ''GET / HTT'') new_buffer = Inr (c', ib', ob') \<and>
     m_request_state c' = NO_REQUEST \<and>
     content ob' = ''HTTP/1.0 400 Bad Request'' @ [CR, LF] @ ''Connection: close'' @ [CR, LF, CR, LF]"
proof -
  have room: "buffer_room (250 + length ''now'') new_buffer" by (simp add: new_buffer_room)
  have c: "m_check_state (new_context k200OK) = CHECK_STATE_REQUEST_LINE" by (simp add: new_context_def)
  have n: "CR \<notin> set (content (filled ''GET / HTT''))" by simp
  have v: "m_version (new_context k200OK) = HTTP_1_0" by (simp add: new_context_def)
  from work_answers_incomplete_request [OF filled_simps(1) n c room] v
  show ?thesis by (simp add: version_text_def)
qed

text \<open>A request with a \<open>Connection:\<close> header that does not name \<open>Keep-Alive\<close>, such as
  \<open>Connection: close\<close>, is rejected as a bad request wherever the header stands and whatever follows it.\<close>

theorem handleHttpRequest_rejects_connection_header:
  assumes "buffer_inv ib" "content ib = render_request m uri v (hs @ h # hs') @ rest"
    and "is_word uri" "uri \<noteq> []" "\<forall>h \<in> set hs. accepted_header h" "m_check_state c = CHECK_STATE_REQUEST_LINE"
    and "header_line h" "is_connection h" "\<not> names_keep_alive h"
  shows "\<exists>c' ib'. handleHttpRequest c ib = Some (c', ib') \<and> m_request_state c' = BAD_REQUEST \<and> reason c' = ''400 Bad Request''"
proof -
  have "m_request_state (fst (handle_text c (content ib))) = BAD_REQUEST"
    using handle_text_bad_connection [OF assms(3,4,6,5,7-9), of m v hs' rest] assms(2) by simp
  moreover from this have "reason (fst (handle_text c (content ib))) = ''400 Bad Request''"
    by (simp add: reason_def)
  moreover have "m_check_state c \<noteq> CHECK_STATE_END" using assms(6) by simp
  ultimately show ?thesis using handleHttpRequest_refines [OF assms(1), of c] by blast
qed

theorem handleHttpRequest_rejects_connection_header_witness:
  "\<exists>c' ib'. handleHttpRequest (new_context k200OK)
      (filled (render_request GET ''/'' HTTP_1_1 [''Host: a'', ''Connection: close''])) = Some (c', ib') \<and>
    m_request_state c' = BAD_REQUEST"
proof -
  have w: "is_word ''/''" by (simp add: is_word_def)
  have h: "\<forall>h \<in> set [''Host: a'']. accepted_header h" using example_headers by simp
  have c: "m_check_state (new_context k200OK) = CHECK_STATE_REQUEST_LINE" by (simp add: new_context_def)
  have t: "content (filled (render_request GET ''/'' HTTP_1_1 [''Host: a'', ''Connection: close''])) =
    render_request GET ''/'' HTTP_1_1 ([''Host: a''] @ ''Connection: close'' # []) @ []" by simp
  from handleHttpRequest_rejects_connection_header [OF filled_simps(1) t w _ h c example_headers(5-7)]
  show ?thesis by auto
qed

text \<open>The response depends neither on the method nor on the keep-alive state: a HEAD request gets
  the body of the GET response, and a kept-alive connection is told \<open>Connection: close\<close>. The body for
  \<open>/favicon.ico\<close> is the first 8 of the 555 bytes of the image, because the array is read as a C
  string.\<close>

theorem http_response_ignores_method:
  "http_response now (c\<lparr>m_method := m, m_connection := k\<rparr>) = http_response now c \<and>
   http_response now (c\<lparr>m_version := HTTP_1_1, m_request_state := GET_REQUEST, m_uri := ''/favicon.ico''\<rparr>) =
     ''HTTP/1.1 200 OK'' @ [CR, LF] @ ''Content-Type: image/png'' @ [CR, LF] @ ''Connection: close'' @ [CR, LF] @
     ''Header: QWQ-SERVER'' @ [CR, LF, CR, LF] @ take 8 favicon \<and> length favicon = 555"
proof -
  have "take 8 favicon = c_str favicon" unfolding favicon_c_str by (simp add: favicon_def)
  then show ?thesis by (simp add: http_response_def favicon_length)
qed

end
