(* ===== verification/TimerHeap.thy ===== *)
theory TimerHeap
  imports Prelude "HOL-Library.Multiset"
begin

text \<open>
  Timers and the timer heap (Timer.h, TimerHeap.h, TimerHeap.cpp): a binary min-heap of timers by
  expiry time, kept in a vector, and the one timerfd that wakes the loop. A call back is a value of
  an arbitrary type; \<open>handleTimeoutEvents\<close> returns the call backs it runs, in order. Time is the
  value of \<open>time(NULL)\<close>, an argument.

  The state records the calls of \<open>timerfd_settime\<close> (when, and the relative delay), from which
  \<open>armed_at\<close> reads the documented state of the timerfd: a call replaces the previous setting, a
  delay of 0 disarms.
\<close>

subsection \<open>Timers\<close>

datatype 'c timer = Timer (m_expire_time: int) (m_cb: 'c)

definition new_timer :: "int \<Rightarrow> int \<Rightarrow> 'c \<Rightarrow> 'c timer" where
  "new_timer now delay cb = Timer (now + delay) cb"

text \<open>\<open>operator<\<close>, and the derived \<open>\<le>\<close>.\<close>

instantiation timer :: (type) preorder
begin

definition less_timer :: "'a timer \<Rightarrow> 'a timer \<Rightarrow> bool" where
  "less_timer t u = (m_expire_time t < m_expire_time u)"

definition less_eq_timer :: "'a timer \<Rightarrow> 'a timer \<Rightarrow> bool" where
  "less_eq_timer t u = (m_expire_time t \<le> m_expire_time u)"

instance
  by standard (auto simp: less_timer_def less_eq_timer_def)

end

definition less_than :: "'c timer \<Rightarrow> 'c timer \<Rightarrow> bool" where
  "less_than t u = (m_expire_time t < m_expire_time u)"

subsection \<open>The heap in the vector\<close>

definition swap :: "'a list \<Rightarrow> nat \<Rightarrow> nat \<Rightarrow> 'a list" where
  "swap xs i j = xs[i := xs ! j, j := xs ! i]"

function percolateDown :: "nat \<Rightarrow> 'c timer list \<Rightarrow> 'c timer list" where
  "percolateDown index h =
     (let heap_size = length h in
      if index \<ge> heap_size then h
      else
        let left = 2 * index + 1;
            right = left + 1;
            next1 = (if left < heap_size \<and> less_than (h ! left) (h ! index) then left else index);
            next2 = (if right < heap_size \<and> less_than (h ! right) (h ! next1) then right else next1)
        in if next2 \<noteq> index then percolateDown next2 (swap h index next2) else h)"
  by pat_completeness auto
termination
  by (relation "measure (\<lambda>(i, h). length h - i)") (auto simp: swap_def Let_def split: if_splits)

function percolateUp :: "nat \<Rightarrow> 'c timer list \<Rightarrow> 'c timer list" where
  "percolateUp index h =
     (if index = 0 then h
      else
        let parent = (index - 1) div 2 in
        if less_than (h ! index) (h ! parent) then percolateUp parent (swap h index parent) else h)"
  by pat_completeness auto
termination
  by (relation "measure (\<lambda>(i, h). i)") auto

declare percolateDown.simps [simp del] percolateUp.simps [simp del]

text \<open>\<open>pop\<close>: release the first element, swap it with the last, drop the last, sift down.\<close>

definition pop :: "'c timer list \<Rightarrow> 'c timer list" where
  "pop h =
     (let last = length h - 1;
          h' = swap h 0 last
      in percolateDown 0 (butlast h'))"

definition top :: "'c timer list \<Rightarrow> 'c timer" where
  "top h = hd h"

definition push :: "'c timer \<Rightarrow> 'c timer list \<Rightarrow> 'c timer list" where
  "push t h = percolateUp (length h) (h @ [t])"

subsection \<open>The component\<close>

definition defaultTimeDelay :: int where
  "defaultTimeDelay = 300"

record 'c timer_heap =
  m_min_heap :: "'c timer list"
  settime_calls :: "(int \<times> int) list"

definition new_timer_heap :: "'c timer_heap" where
  "new_timer_heap = \<lparr>m_min_heap = [], settime_calls = []\<rparr>"

definition setTimer :: "int \<Rightarrow> int \<Rightarrow> 'c timer_heap \<Rightarrow> 'c timer_heap" where
  "setTimer now delay th = th\<lparr>settime_calls := settime_calls th @ [(now, delay)]\<rparr>"

definition addTimerInLoop :: "int \<Rightarrow> 'c \<Rightarrow> int \<Rightarrow> 'c timer_heap \<Rightarrow> 'c timer_heap" where
  "addTimerInLoop now cb delay th =
     (let timer = new_timer now delay cb;
          th1 = setTimer now delay th
      in th1\<lparr>m_min_heap := push timer (m_min_heap th1)\<rparr>)"

lemma length_swap [simp]: "length (swap xs i j) = length xs"
  by (simp add: swap_def)

lemma length_percolateDown [simp]: "length (percolateDown i h) = length h"
proof (induction i h rule: percolateDown.induct)
  case (1 i h)
  then show ?case by (subst percolateDown.simps) (auto simp: Let_def)
qed

lemma length_percolateUp [simp]: "length (percolateUp i h) = length h"
proof (induction i h rule: percolateUp.induct)
  case (1 i h)
  then show ?case by (subst percolateUp.simps) (auto simp: Let_def)
qed

lemma length_pop: "length (pop h) = length h - 1"
  by (simp add: pop_def Let_def)

text \<open>The loop of \<open>handleTimeoutEvents\<close> at time \<open>now\<close>: the call backs run, and the heap left.\<close>

function handleTimeoutEvents_heap :: "int \<Rightarrow> 'c timer list \<Rightarrow> 'c list \<times> 'c timer list" where
  "handleTimeoutEvents_heap now h =
     (if h \<noteq> [] then
        let timer = top h in
        if m_expire_time timer > now then ([], h)
        else (case handleTimeoutEvents_heap now (pop h) of (cbs, h') \<Rightarrow> (m_cb timer # cbs, h'))
      else ([], h))"
  by pat_completeness auto
termination
  by (relation "measure (\<lambda>(now, h). length h)") (auto simp: length_pop)

declare handleTimeoutEvents_heap.simps [simp del]

definition handleTimeoutEvents :: "int \<Rightarrow> 'c timer_heap \<Rightarrow> 'c list \<times> 'c timer_heap" where
  "handleTimeoutEvents now th =
     (case handleTimeoutEvents_heap now (m_min_heap th) of
        (cbs, h) \<Rightarrow> (cbs, th\<lparr>m_min_heap := h\<rparr>))"

text \<open>When the timerfd is due, by the documented meaning of the recorded calls.\<close>

definition armed_at :: "'c timer_heap \<Rightarrow> int option" where
  "armed_at th =
     (if settime_calls th = [] \<or> snd (last (settime_calls th)) = 0 then None
      else Some (fst (last (settime_calls th)) + snd (last (settime_calls th))))"

subsection \<open>The heap order\<close>

text \<open>
  \<open>heap_order h\<close>: no element is smaller than its parent. While an element sinks or rises at \<open>i\<close>, the
  order holds except at \<open>i\<close>, and across it (\<open>heap_down\<close>, \<open>heap_up\<close>).
\<close>

definition key :: "'c timer list \<Rightarrow> nat \<Rightarrow> int" where
  "key h i = m_expire_time (h ! i)"

definition heap_order :: "'c timer list \<Rightarrow> bool" where
  "heap_order h \<longleftrightarrow> (\<forall>j. 0 < j \<and> j < length h \<longrightarrow> key h ((j - 1) div 2) \<le> key h j)"

definition heap_down :: "nat \<Rightarrow> 'c timer list \<Rightarrow> bool" where
  "heap_down i h \<longleftrightarrow> (\<forall>j. 0 < j \<and> j < length h \<longrightarrow>
     ((j - 1) div 2 \<noteq> i \<longrightarrow> key h ((j - 1) div 2) \<le> key h j) \<and>
     ((j - 1) div 2 = i \<and> 0 < i \<longrightarrow> key h ((i - 1) div 2) \<le> key h j))"

definition heap_up :: "nat \<Rightarrow> 'c timer list \<Rightarrow> bool" where
  "heap_up i h \<longleftrightarrow> (\<forall>j. 0 < j \<and> j < length h \<longrightarrow>
     (j \<noteq> i \<longrightarrow> key h ((j - 1) div 2) \<le> key h j) \<and>
     ((j - 1) div 2 = i \<and> 0 < i \<longrightarrow> key h ((i - 1) div 2) \<le> key h j))"

lemma key_swap: "i < length h \<Longrightarrow> j < length h \<Longrightarrow>
    key (swap h i j) k = (if k = i then key h j else if k = j then key h i else key h k)"
  by (auto simp: key_def swap_def nth_list_update)

lemma mset_swap: "i < length h \<Longrightarrow> j < length h \<Longrightarrow> mset (swap h i j) = mset h"
  by (simp add: swap_def mset_swap)

lemma less_than_key: "less_than (h ! i) (h ! j) \<longleftrightarrow> key h i < key h j"
  by (simp add: less_than_def key_def)

lemma child_parent: "(j - 1) div 2 = i \<and> 0 < j \<longleftrightarrow> j = 2 * i + 1 \<or> j = 2 * i + 2" for i j :: nat
  by arith

lemma heap_order_down_iff:
  "heap_down i h \<Longrightarrow> (2 * i + 1 < length h \<longrightarrow> key h i \<le> key h (2 * i + 1)) \<Longrightarrow>
   (2 * i + 2 < length h \<longrightarrow> key h i \<le> key h (2 * i + 2)) \<Longrightarrow> heap_order h"
  unfolding heap_order_def heap_down_def using child_parent by metis

text \<open>Swapping with the smaller child moves the defect down.\<close>

lemma heap_down_swap:
  assumes "heap_down i h" "c = 2 * i + 1 \<or> c = 2 * i + 2" "c < length h"
    and "\<forall>d. (d = 2 * i + 1 \<or> d = 2 * i + 2) \<and> d < length h \<longrightarrow> key h c \<le> key h d"
    and "key h c \<le> key h i"
  shows "heap_down c (swap h i c)"
proof -
  have i: "i < length h" "i \<noteq> c" "i < c" using assms(2,3) by auto
  have pc: "(c - 1) div 2 = i" using assms(2) by auto
  note k = key_swap [OF i(1) assms(3)]
  have old: "\<And>j. 0 < j \<Longrightarrow> j < length h \<Longrightarrow> (j - 1) div 2 \<noteq> i \<Longrightarrow> key h ((j - 1) div 2) \<le> key h j"
    "\<And>j. 0 < j \<Longrightarrow> j < length h \<Longrightarrow> (j - 1) div 2 = i \<Longrightarrow> 0 < i \<Longrightarrow> key h ((i - 1) div 2) \<le> key h j"
    using assms(1) by (auto simp: heap_down_def)
  show ?thesis unfolding heap_down_def
  proof (intro allI impI conjI)
    fix j assume j: "0 < j \<and> j < length (swap h i c)"
    {
      assume ne: "(j - 1) div 2 \<noteq> c"
      show "key (swap h i c) ((j - 1) div 2) \<le> key (swap h i c) j"
      proof (cases "(j - 1) div 2 = i")
        case True
        then have "j = 2 * i + 1 \<or> j = 2 * i + 2" using j child_parent by auto
        then show ?thesis using k True assms(4,5) j i by auto
      next
        case False
        have "j \<noteq> c" using False pc by auto
        show ?thesis
        proof (cases "j = i")
          case True
          then have "key h ((i - 1) div 2) \<le> key h c" using old(2) [of c] pc assms(3) j i by auto
          then show ?thesis using k True False ne by auto
        next
          case False
          then show ?thesis using k \<open>(j - 1) div 2 \<noteq> i\<close> ne \<open>j \<noteq> c\<close> old(1) [of j] j by auto
        qed
      qed
    }
    {
      assume a: "(j - 1) div 2 = c \<and> 0 < c"
      then have "j \<noteq> c" "j \<noteq> i" using i j by auto
      moreover have "key h c \<le> key h j" using old(1) [of j] a i j by auto
      ultimately show "key (swap h i c) ((c - 1) div 2) \<le> key (swap h i c) j" using k pc by auto
    }
  qed
qed

lemma percolateDown_heap:
  "heap_down i h \<Longrightarrow> heap_order (percolateDown i h) \<and> mset (percolateDown i h) = mset h"
proof (induction i h rule: percolateDown.induct)
  case (1 i h)
  let ?l = "2 * i + 1" and ?r = "2 * i + 2"
  define n1 where "n1 = (if ?l < length h \<and> less_than (h ! ?l) (h ! i) then ?l else i)"
  define n2 where "n2 = (if ?r < length h \<and> less_than (h ! ?r) (h ! n1) then ?r else n1)"
  have unfold: "percolateDown i h =
      (if length h \<le> i then h else if n2 \<noteq> i then percolateDown n2 (swap h i n2) else h)"
    by (subst percolateDown.simps) (simp add: Let_def n1_def n2_def)
  show ?case
  proof (cases "length h \<le> i \<or> n2 = i")
    case True
    have "(?l < length h \<longrightarrow> key h i \<le> key h ?l) \<and> (?r < length h \<longrightarrow> key h i \<le> key h ?r)"
      using True by (auto simp: n1_def n2_def less_than_key split: if_splits)
    with "1.prems" have "heap_order h" using heap_order_down_iff by blast
    with True unfold show ?thesis by auto
  next
    case False
    then have c: "n2 = ?l \<or> n2 = ?r" "n2 < length h" "i < length h"
      by (auto simp: n1_def n2_def split: if_splits)
    have small: "\<forall>d. (d = ?l \<or> d = ?r) \<and> d < length h \<longrightarrow> key h n2 \<le> key h d" "key h n2 \<le> key h i"
      using False by (auto simp: n1_def n2_def less_than_key split: if_splits)
    have IH: "heap_down n2 (swap h i n2) \<Longrightarrow> heap_order (percolateDown n2 (swap h i n2)) \<and>
        mset (percolateDown n2 (swap h i n2)) = mset (swap h i n2)"
      using "1.IH" [of "length h" ?l ?r n1 n2] False by (simp add: n1_def n2_def)
    from heap_down_swap [OF "1.prems" c(1,2) small] IH unfold False mset_swap [OF c(3,2)]
    show ?thesis by simp
  qed
qed

lemma heap_up_swap:
  assumes "heap_up i h" "0 < i" "i < length h" "key h i \<le> key h ((i - 1) div 2)"
  shows "heap_up ((i - 1) div 2) (swap h i ((i - 1) div 2))"
proof -
  let ?p = "(i - 1) div 2"
  have p: "?p < length h" "?p \<noteq> i" "?p < i" using assms(2,3) by auto
  note k = key_swap [OF assms(3) p(1)]
  have old: "\<And>j. 0 < j \<Longrightarrow> j < length h \<Longrightarrow> j \<noteq> i \<Longrightarrow> key h ((j - 1) div 2) \<le> key h j"
    "\<And>j. 0 < j \<Longrightarrow> j < length h \<Longrightarrow> (j - 1) div 2 = i \<Longrightarrow> key h ?p \<le> key h j"
    using assms(1,2) by (auto simp: heap_up_def)
  show ?thesis unfolding heap_up_def
  proof (intro allI impI conjI)
    fix j assume j: "0 < j \<and> j < length (swap h i ?p)"
    {
      assume ne: "j \<noteq> ?p"
      show "key (swap h i ?p) ((j - 1) div 2) \<le> key (swap h i ?p) j"
      proof (cases "j = i")
        case True
        then show ?thesis using k assms(4) p by auto
      next
        case False
        consider "(j - 1) div 2 = i" | "(j - 1) div 2 = ?p" "(j - 1) div 2 \<noteq> i"
          | "(j - 1) div 2 \<noteq> ?p" "(j - 1) div 2 \<noteq> i" by blast
        then show ?thesis
          using k False ne old(1) [of j] old(2) [of j] j assms(4) p by cases auto
      qed
    }
    {
      assume a: "(j - 1) div 2 = ?p \<and> 0 < ?p"
      have "(j - 1) div 2 < j" using j by linarith
      with a have jp: "j \<noteq> ?p" by linarith
      have "(?p - 1) div 2 < ?p" using a by linarith
      have "key h ((?p - 1) div 2) \<le> key h ?p" using old(1) [of ?p] a p by auto
      moreover have "key h ?p \<le> key h j" if "j \<noteq> i" using old(1) [of j] a j that by auto
      moreover have "(?p - 1) div 2 \<noteq> i" "(?p - 1) div 2 \<noteq> ?p" using \<open>(?p - 1) div 2 < ?p\<close> p by linarith+
      ultimately have "key h ((?p - 1) div 2) \<le> (if j = i then key h ?p else key h j)"
        by simp linarith
      moreover have "key (swap h i ?p) j = (if j = i then key h ?p else key h j)" using k jp by simp
      moreover have "key (swap h i ?p) ((?p - 1) div 2) = key h ((?p - 1) div 2)"
        using k \<open>(?p - 1) div 2 < ?p\<close> p by simp
      ultimately show "key (swap h i ?p) ((?p - 1) div 2) \<le> key (swap h i ?p) j" by simp
    }
  qed
qed

lemma percolateUp_heap:
  "heap_up i h \<Longrightarrow> i < length h \<Longrightarrow> heap_order (percolateUp i h) \<and> mset (percolateUp i h) = mset h"
proof (induction i h rule: percolateUp.induct)
  case (1 i h)
  let ?p = "(i - 1) div 2"
  have unfold: "percolateUp i h =
      (if i = 0 then h else if less_than (h ! i) (h ! ?p) then percolateUp ?p (swap h i ?p) else h)"
    by (subst percolateUp.simps) (simp add: Let_def)
  show ?case
  proof (cases "i = 0 \<or> \<not> less_than (h ! i) (h ! ?p)")
    case True
    then have "heap_order h"
      using "1.prems" by (auto simp: heap_up_def heap_order_def less_than_key not_less)
    with True unfold show ?thesis by auto
  next
    case False
    then have lt: "key h i \<le> key h ?p" "0 < i" by (auto simp: less_than_key)
    have p: "?p < length h" using "1.prems"(2) lt(2) by linarith
    have "heap_order (percolateUp ?p (swap h i ?p)) \<and> mset (percolateUp ?p (swap h i ?p)) = mset (swap h i ?p)"
      using "1.IH" [of ?p] False heap_up_swap [OF "1.prems"(1) lt(2) "1.prems"(2) lt(1)] p by simp
    with unfold False mset_swap [OF "1.prems"(2) p] show ?thesis by simp
  qed
qed

lemma push_heap: "heap_order h \<Longrightarrow> heap_order (push t h) \<and> mset (push t h) = mset h + {#t#}"
proof -
  assume h: "heap_order h"
  have "heap_up (length h) (h @ [t])"
    using h by (auto simp: heap_up_def heap_order_def key_def nth_append)
  from percolateUp_heap [OF this] show ?thesis by (simp add: push_def)
qed

lemma heap_order_top: "heap_order h \<Longrightarrow> j < length h \<Longrightarrow> key h 0 \<le> key h j"
proof (induction j rule: less_induct)
  case (less j)
  show ?case
  proof (cases "j = 0")
    case False
    then have "(j - 1) div 2 < j" by linarith
    with less False have "key h 0 \<le> key h ((j - 1) div 2)" by simp
    also have "\<dots> \<le> key h j" using less.prems False by (simp add: heap_order_def)
    finally show ?thesis .
  qed simp
qed

lemma top_least: "heap_order h \<Longrightarrow> t \<in># mset h \<Longrightarrow> top h \<le> t"
proof -
  assume h: "heap_order h" "t \<in># mset h"
  then obtain j where j: "j < length h" "t = h ! j" by (auto simp: in_set_conv_nth)
  then have "h \<noteq> []" by auto
  with heap_order_top [OF h(1) j(1)] j(2) show ?thesis
    by (simp add: key_def top_def less_eq_timer_def hd_conv_nth)
qed

lemma pop_heap:
  assumes "heap_order h" "h \<noteq> []"
  shows "heap_order (pop h) \<and> mset (pop h) + {#top h#} = mset h"
proof -
  let ?n = "length h - 1"
  let ?h = "butlast (swap h 0 ?n)"
  have n: "?n < length h" "0 < length h" using assms(2) by auto
  have key: "key ?h j = (if j = 0 then key h ?n else key h j)" if "j < ?n" for j
    using that n key_swap [OF n(2,1), of j] by (simp add: key_def nth_butlast)
  have "heap_down 0 ?h"
    unfolding heap_down_def
  proof (intro allI impI conjI)
    fix j assume j: "0 < j \<and> j < length ?h"
    then have lt: "j < ?n" "(j - 1) div 2 < ?n" "0 < j \<and> j < length h" by auto
    then have "key h ((j - 1) div 2) \<le> key h j" using assms(1) unfolding heap_order_def by blast
    then show "(j - 1) div 2 \<noteq> 0 \<Longrightarrow> key ?h ((j - 1) div 2) \<le> key ?h j"
      using key [OF lt(1)] key [OF lt(2)] lt(3) by simp
  qed auto
  from percolateDown_heap [OF this] have p: "heap_order (pop h)" "mset (pop h) = mset ?h"
    by (simp_all add: pop_def Let_def)
  have "last (swap h 0 ?n) = top h"
    using assms(2) by (simp add: last_conv_nth top_def hd_conv_nth swap_def)
  moreover have "swap h 0 ?n \<noteq> []" using assms(2) by (simp flip: length_greater_0_conv)
  ultimately have "swap h 0 ?n = ?h @ [top h]" by (metis append_butlast_last_id)
  then have "mset (swap h 0 ?n) = mset ?h + {#top h#}"
    by (metis mset.simps mset_append add_mset_add_single)
  with p mset_swap [OF n(2,1)] show ?thesis by simp
qed

subsection \<open>The timer queue interface\<close>

text \<open>
  What \<open>handleTimeoutEvents\<close> relies on: \<open>front\<close> is a least element and \<open>pop\<close> removes it. \<open>drains\<close> is
  its loop over any such queue, with the timers it fires.
\<close>

inductive drains :: "('q \<Rightarrow> bool) \<Rightarrow> ('q \<Rightarrow> 'c timer) \<Rightarrow> ('q \<Rightarrow> 'q) \<Rightarrow> int \<Rightarrow> 'q \<Rightarrow> 'c timer list \<Rightarrow> 'q \<Rightarrow> bool"
  for is_empty first remove now where
  drains_empty: "is_empty q \<Longrightarrow> drains is_empty first remove now q [] q"
| drains_late: "\<not> is_empty q \<Longrightarrow> m_expire_time (first q) > now \<Longrightarrow> drains is_empty first remove now q [] q"
| drains_fire: "\<not> is_empty q \<Longrightarrow> \<not> m_expire_time (first q) > now \<Longrightarrow>
    drains is_empty first remove now (remove q) ts q' \<Longrightarrow>
    drains is_empty first remove now q (first q # ts) q'"

locale timer_queue =
  fixes is_empty :: "'q \<Rightarrow> bool"
    and first :: "'q \<Rightarrow> 'c timer"
    and remove :: "'q \<Rightarrow> 'q"
    and insert_timer :: "'c timer \<Rightarrow> 'q \<Rightarrow> 'q"
    and invar :: "'q \<Rightarrow> bool"
    and elems :: "'q \<Rightarrow> 'c timer multiset"
  assumes empty_law: "invar q \<Longrightarrow> is_empty q \<longleftrightarrow> elems q = {#}"
    and first_law: "invar q \<Longrightarrow> t \<in># elems q \<Longrightarrow> first q \<le> t"
    and remove_law: "invar q \<Longrightarrow> \<not> is_empty q \<Longrightarrow> invar (remove q) \<and> elems (remove q) + {#first q#} = elems q"
    and insert_law: "invar q \<Longrightarrow> invar (insert_timer t q) \<and> elems (insert_timer t q) = elems q + {#t#}"
begin

text \<open>The loop fires exactly the due timers, earliest first.\<close>

lemma drains_due:
  "drains is_empty first remove now q ts q' \<Longrightarrow> invar q \<Longrightarrow>
    invar q' \<and> elems q = mset ts + elems q' \<and> sorted (map m_expire_time ts) \<and>
    (\<forall>t \<in> set ts. m_expire_time t \<le> now) \<and> (\<forall>t \<in># elems q'. now < m_expire_time t)"
proof (induction rule: drains.induct)
  case (drains_empty q)
  then show ?case using empty_law by auto
next
  case (drains_late q)
  then show ?case using first_law by (force simp: less_eq_timer_def)
next
  case (drains_fire q ts q')
  note r = remove_law [OF drains_fire.prems drains_fire.hyps(1)]
  note ih = drains_fire.IH [OF conjunct1 [OF r]]
  have "m_expire_time (first q) \<le> m_expire_time t" if "t \<in> set ts" for t
  proof -
    have "t \<in># elems q" using that ih r by (metis mset_subset_eqD mset_subset_eq_add_left set_mset_mset union_iff)
    from first_law [OF drains_fire.prems this] show ?thesis by (simp add: less_eq_timer_def)
  qed
  moreover have "elems q = mset (first q # ts) + elems q'"
    using ih r by (metis add_mset_add_single mset.simps(2) union_mset_add_mset_left)
  ultimately show ?case using ih drains_fire.hyps(2) by auto
qed

end

interpretation min_heap: timer_queue "\<lambda>h. h = []" top pop push heap_order mset
proof unfold_locales
  fix h :: "'a timer list" and t
  show "heap_order h \<Longrightarrow> (h = []) = (mset h = {#})" by simp
  show "heap_order h \<Longrightarrow> t \<in># mset h \<Longrightarrow> top h \<le> t" by (rule top_least)
  show "heap_order h \<Longrightarrow> h \<noteq> [] \<Longrightarrow> heap_order (pop h) \<and> mset (pop h) + {#top h#} = mset h"
    by (rule pop_heap)
  show "heap_order h \<Longrightarrow> heap_order (push t h) \<and> mset (push t h) = mset h + {#t#}" by (rule push_heap)
qed

lemma handleTimeoutEvents_heap_drains:
  "\<exists>ts. drains (\<lambda>h. h = []) top pop now h ts (snd (handleTimeoutEvents_heap now h)) \<and>
        fst (handleTimeoutEvents_heap now h) = map m_cb ts"
proof (induction now h rule: handleTimeoutEvents_heap.induct)
  case (1 now h)
  consider (empty) "h = []" | (late) "h \<noteq> []" "m_expire_time (top h) > now"
    | (fire) "h \<noteq> []" "\<not> m_expire_time (top h) > now" by blast
  then show ?case
  proof cases
    case empty
    then show ?thesis by (subst (1 2) handleTimeoutEvents_heap.simps) (auto intro: drains_empty)
  next
    case late
    then show ?thesis by (subst (1 2) handleTimeoutEvents_heap.simps) (auto simp: Let_def intro!: drains_late)
  next
    case fire
    from "1.IH" [OF fire(1) refl fire(2)] obtain ts where
      "drains (\<lambda>h. h = []) top pop now (pop h) ts (snd (handleTimeoutEvents_heap now (pop h)))"
      "fst (handleTimeoutEvents_heap now (pop h)) = map m_cb ts" by blast
    with fire drains_fire [where is_empty = "\<lambda>h. h = []" and first = top and remove = pop, OF fire] show ?thesis
      by (subst (1 2) handleTimeoutEvents_heap.simps) (force simp: Let_def split: prod.splits)
  qed
qed

lemma handleTimeoutEvents_due:
  assumes "heap_order (m_min_heap th)" "handleTimeoutEvents now th = (cbs, th')"
  shows "\<exists>ts. cbs = map m_cb ts \<and> mset (m_min_heap th) = mset ts + mset (m_min_heap th') \<and>
    sorted (map m_expire_time ts) \<and> (\<forall>t \<in> set ts. m_expire_time t \<le> now) \<and>
    (\<forall>t \<in> set (m_min_heap th'). now < m_expire_time t) \<and> heap_order (m_min_heap th') \<and>
    settime_calls th' = settime_calls th"
  using handleTimeoutEvents_heap_drains [of now "m_min_heap th"] min_heap.drains_due assms
  by (fastforce simp: handleTimeoutEvents_def split: prod.splits)

lemma addTimerInLoop_law:
  "heap_order (m_min_heap th) \<Longrightarrow>
    heap_order (m_min_heap (addTimerInLoop now cb delay th)) \<and>
    mset (m_min_heap (addTimerInLoop now cb delay th)) = mset (m_min_heap th) + {#Timer (now + delay) cb#}"
  using min_heap.insert_law by (simp add: addTimerInLoop_def setTimer_def new_timer_def Let_def)

lemma addTimerInLoop_armed:
  "armed_at (addTimerInLoop now cb delay th) = (if delay = 0 then None else Some (now + delay))"
  by (simp add: addTimerInLoop_def setTimer_def armed_at_def Let_def)

subsection \<open>The server's use of the heap\<close>

text \<open>
  The server only adds timers with \<open>defaultTimeDelay\<close>, at times that do not go back, and handles
  time outs. The state is the heap and the time of the last step.
\<close>

inductive timer_step :: "'c timer_heap \<times> int \<Rightarrow> 'c timer_heap \<times> int \<Rightarrow> bool" where
  timer_add: "clock \<le> now \<Longrightarrow> timer_step (th, clock) (addTimerInLoop now cb defaultTimeDelay th, now)"
| timer_expire: "clock \<le> now \<Longrightarrow> timer_step (th, clock) (snd (handleTimeoutEvents now th), now)"

definition timer_init :: "'c timer_heap \<times> int \<Rightarrow> bool" where
  "timer_init s \<longleftrightarrow> fst s = new_timer_heap"

definition timer_inv :: "'c timer_heap \<times> int \<Rightarrow> bool" where
  "timer_inv s \<longleftrightarrow> heap_order (m_min_heap (fst s)) \<and>
     (\<forall>t \<in> set (m_min_heap (fst s)). m_expire_time t \<le> snd s + defaultTimeDelay \<and>
        (\<exists>a. armed_at (fst s) = Some a \<and> m_expire_time t \<le> a))"

interpretation server_timers: safety_machine timer_init timer_step timer_inv
proof unfold_locales
  fix s :: "'a timer_heap \<times> int"
  assume "timer_init s"
  then show "timer_inv s" by (simp add: timer_init_def timer_inv_def new_timer_heap_def heap_order_def)
next
  fix s t :: "'a timer_heap \<times> int"
  assume "timer_step s t" "timer_inv s"
  then show "timer_inv t"
  proof (induction rule: timer_step.induct)
    case (timer_add clock now th cb)
    then have ho: "heap_order (m_min_heap th)" by (simp add: timer_inv_def)
    from addTimerInLoop_law [OF ho, of now cb defaultTimeDelay]
    have "set (m_min_heap (addTimerInLoop now cb defaultTimeDelay th)) =
        insert (Timer (now + defaultTimeDelay) cb) (set (m_min_heap th))"
      by (metis add_mset_add_single set_mset_add_mset_insert set_mset_mset)
    with timer_add addTimerInLoop_law [OF ho, of now cb defaultTimeDelay] show ?case
      by (force simp: timer_inv_def addTimerInLoop_armed defaultTimeDelay_def)
  next
    case (timer_expire clock now th)
    then have ho: "heap_order (m_min_heap th)" by (simp add: timer_inv_def)
    obtain cbs th' where h: "handleTimeoutEvents now th = (cbs, th')" by (cases "handleTimeoutEvents now th")
    from handleTimeoutEvents_due [OF ho h] obtain ts where
      d: "mset (m_min_heap th) = mset ts + mset (m_min_heap th')" "heap_order (m_min_heap th')"
        "settime_calls th' = settime_calls th" by blast
    from d(1) have "set (m_min_heap th') \<subseteq> set (m_min_heap th)"
      by (metis set_mset_mset set_mset_union sup_ge2)
    with timer_expire d h show ?case by (fastforce simp: timer_inv_def armed_at_def)
  qed
qed

subsection \<open>Properties\<close>

text \<open>C29: \<open>handleTimeoutEvents\<close> runs the call backs of exactly the timers that are due, each once and
  in order of expiry, leaves exactly the others, and keeps the heap a heap.\<close>

theorem handleTimeoutEvents_exact:
  assumes "heap_order (m_min_heap th)" "handleTimeoutEvents now th = (cbs, th')"
  shows "\<exists>ts. cbs = map m_cb ts \<and> mset (m_min_heap th) = mset ts + mset (m_min_heap th') \<and>
    sorted (map m_expire_time ts) \<and> (\<forall>t \<in> set ts. m_expire_time t \<le> now) \<and>
    (\<forall>t \<in> set (m_min_heap th'). now < m_expire_time t) \<and> heap_order (m_min_heap th')"
  using handleTimeoutEvents_due [OF assms] by blast

theorem handleTimeoutEvents_exact_witness:
  "\<exists>ts. [''a'', ''b''] = map m_cb ts \<and> mset [Timer 3 ''a'', Timer 9 ''c'', Timer 5 ''b''] = mset ts + mset [Timer 9 ''c'']"
proof -
  let ?th = "\<lparr>m_min_heap = [Timer 3 ''a'', Timer 9 ''c'', Timer 5 ''b''], settime_calls = []\<rparr>"
  have "heap_order (m_min_heap ?th)"
    by (auto simp: heap_order_def key_def less_Suc_eq numeral_3_eq_3)
  moreover have "handleTimeoutEvents 5 ?th = ([''a'', ''b''], \<lparr>m_min_heap = [Timer 9 ''c''], settime_calls = []\<rparr>)"
    by code_simp
  ultimately show ?thesis using handleTimeoutEvents_exact [of ?th 5] by fastforce
qed

text \<open>\<open>addTimerInLoop\<close> keeps the heap order and adds exactly the new timer, due \<open>delay\<close> seconds from
  now; the front of the heap is again a timer that expires no later than any other.\<close>

theorem addTimerInLoop_heap:
  assumes "heap_order (m_min_heap th)"
  shows "heap_order (m_min_heap (addTimerInLoop now cb delay th)) \<and>
    mset (m_min_heap (addTimerInLoop now cb delay th)) = mset (m_min_heap th) + {#Timer (now + delay) cb#} \<and>
    (\<forall>t \<in> set (m_min_heap (addTimerInLoop now cb delay th)).
       m_expire_time (top (m_min_heap (addTimerInLoop now cb delay th))) \<le> m_expire_time t)"
  using addTimerInLoop_law [OF assms] top_least unfolding less_eq_timer_def set_mset_mset by blast

theorem addTimerInLoop_heap_witness:
  "heap_order (m_min_heap (addTimerInLoop 0 ''b'' 4 \<lparr>m_min_heap = [Timer 9 ''a''], settime_calls = []\<rparr>)) \<and>
   m_min_heap (addTimerInLoop 0 ''b'' 4 \<lparr>m_min_heap = [Timer 9 ''a''], settime_calls = []\<rparr>) = [Timer 4 ''b'', Timer 9 ''a'']"
proof -
  let ?th = "\<lparr>m_min_heap = [Timer 9 ''a''], settime_calls = []\<rparr>"
  have h: "heap_order (m_min_heap ?th)" by (simp add: heap_order_def)
  have "m_min_heap (addTimerInLoop 0 ''b'' 4 ?th) = [Timer 4 ''b'', Timer 9 ''a'']" by code_simp
  with addTimerInLoop_heap [OF h, of 0 "''b''" 4] show ?thesis by blast
qed

text \<open>C34: no timer is left without a wake up, for the server's constant delay. In every state reachable by adding
  timers with \<open>defaultTimeDelay\<close> at non-decreasing times and handling time outs, the timerfd has been armed when
  there is a timer, for a time at which every timer in the heap is due; and whenever time outs are handled
  and a timer stays in the heap, the timerfd is armed for a time still to come. So the wake up that handles
  the last timer has not been used up by an earlier one.\<close>

theorem no_timer_without_wakeup:
  assumes "reach timer_init timer_step (th, clock)"
  shows "(m_min_heap th \<noteq> [] \<longrightarrow> (\<exists>a. armed_at th = Some a \<and> (\<forall>t \<in> set (m_min_heap th). m_expire_time t \<le> a))) \<and>
    (\<forall>now cbs th'. handleTimeoutEvents now th = (cbs, th') \<longrightarrow> m_min_heap th' \<noteq> [] \<longrightarrow>
       (\<exists>a. armed_at th' = Some a \<and> now < a \<and> (\<forall>t \<in> set (m_min_heap th'). m_expire_time t \<le> a)))"
proof -
  have inv: "timer_inv (th, clock)" using server_timers.reach_inv [OF assms] .
  have armed: "\<exists>a. armed_at th = Some a \<and> (\<forall>t \<in> set (m_min_heap th). m_expire_time t \<le> a)" if "m_min_heap th \<noteq> []"
  proof -
    from that obtain t where "t \<in> set (m_min_heap th)" by (cases "m_min_heap th") auto
    with inv obtain a where "armed_at th = Some a" by (auto simp: timer_inv_def)
    with inv show ?thesis by (auto simp: timer_inv_def)
  qed
  have "\<exists>a. armed_at th' = Some a \<and> now < a \<and> (\<forall>t \<in> set (m_min_heap th'). m_expire_time t \<le> a)"
    if h: "handleTimeoutEvents now th = (cbs, th')" "m_min_heap th' \<noteq> []" for now cbs th'
  proof -
    from handleTimeoutEvents_due [OF _ h(1)] inv obtain ts where
      d: "mset (m_min_heap th) = mset ts + mset (m_min_heap th')" "\<forall>t \<in> set (m_min_heap th'). now < m_expire_time t"
        "settime_calls th' = settime_calls th"
      by (auto simp: timer_inv_def)
    have sub: "set (m_min_heap th') \<subseteq> set (m_min_heap th)" using d(1) by (metis set_mset_mset set_mset_union sup_ge2)
    have ne: "m_min_heap th \<noteq> []" using sub h(2) by auto
    from armed [OF ne] obtain a where a: "armed_at th = Some a" "\<forall>t \<in> set (m_min_heap th). m_expire_time t \<le> a" by blast
    obtain t where t: "t \<in> set (m_min_heap th')" using h(2) by (cases "m_min_heap th'") auto
    with d(2) a(2) sub have "now < a" by fastforce
    with a sub d(3) show ?thesis by (auto simp: armed_at_def)
  qed
  with armed show ?thesis by blast
qed

theorem no_timer_without_wakeup_witness:
  "\<exists>th' a. handleTimeoutEvents 306 (addTimerInLoop 10 ''b'' defaultTimeDelay (addTimerInLoop 5 ''a'' defaultTimeDelay new_timer_heap)) =
      ([''a''], th') \<and> m_min_heap th' = [Timer 310 ''b''] \<and> armed_at th' = Some a \<and> 306 < a"
proof -
  let ?th = "addTimerInLoop 10 ''b'' defaultTimeDelay (addTimerInLoop 5 ''a'' defaultTimeDelay new_timer_heap)"
  let ?th' = "\<lparr>m_min_heap = [Timer 310 ''b''], settime_calls = [(5, 300), (10, 300)]\<rparr>"
  have "reach timer_init timer_step (new_timer_heap :: string timer_heap, 0)"
    by (rule reach_init) (simp add: timer_init_def)
  then have "reach timer_init timer_step (addTimerInLoop 5 ''a'' defaultTimeDelay new_timer_heap, 5)"
    by (rule reach_step) (rule timer_add, simp)
  then have r: "reach timer_init timer_step (?th, 10)" by (rule reach_step) (rule timer_add, simp)
  have h: "handleTimeoutEvents 306 ?th = ([''a''], ?th')" by code_simp
  have "m_min_heap ?th' \<noteq> []" by simp
  with no_timer_without_wakeup [OF r] h have "\<exists>a. armed_at ?th' = Some a \<and> 306 < a" by blast
  with h show ?thesis by auto
qed

text \<open>One keep-alive connection every \<open>d\<close> seconds.\<close>

fun arrivals :: "int \<Rightarrow> nat \<Rightarrow> nat timer_heap" where
  "arrivals d 0 = new_timer_heap"
| "arrivals d (Suc n) = addTimerInLoop (int n * d) n defaultTimeDelay (arrivals d n)"

lemma arrivals_heap: "heap_order (m_min_heap (arrivals d n)) \<and>
    (0 < n \<longrightarrow> Timer defaultTimeDelay 0 \<in># mset (m_min_heap (arrivals d n)))"
proof (induction n)
  case 0
  then show ?case by (simp add: new_timer_heap_def heap_order_def)
next
  case (Suc n)
  then show ?case
    using addTimerInLoop_law [of "arrivals d n" "int n * d" n defaultTimeDelay] by (cases n) auto
qed

text \<open>C35: each new timer pushes the wake up of all earlier ones back. When a keep-alive connection
  arrives every \<open>d\<close> seconds, \<open>d\<close> less than \<open>defaultTimeDelay\<close>, then after any number of arrivals the
  timerfd is armed for a moment after the next arrival, so it is re-armed before it is due, while the
  timer of the very first connection, due at 300, is still in the heap.\<close>

theorem timerfd_starves:
  assumes "d < defaultTimeDelay"
  shows "\<exists>a. armed_at (arrivals d (Suc n)) = Some a \<and> int (Suc n) * d < a \<and>
    Timer defaultTimeDelay 0 \<in> set (m_min_heap (arrivals d (Suc n)))"
  using assms arrivals_heap [of d "Suc n"]
  by (simp add: addTimerInLoop_armed defaultTimeDelay_def distrib_right del: set_mset_mset flip: set_mset_mset)

theorem timerfd_starves_witness:
  "\<exists>a. armed_at (arrivals 299 (Suc 9)) = Some a \<and> 2990 < a \<and>
    Timer defaultTimeDelay 0 \<in> set (m_min_heap (arrivals 299 (Suc 9)))"
  using timerfd_starves [of 299 9] by (simp add: defaultTimeDelay_def)

end
