(* ===== verification/Channel.thy ===== *)
theory Channel
  imports Prelude
begin

unbundle bit_operations_syntax

text \<open>
  A channel (Channel.h, Channel.cpp): the event mask and the call backs of one file descriptor. The
  mask is a 32-bit word with the bits of \<open><sys/epoll.h>\<close>. A call back is a value of an arbitrary
  type; \<open>handleEvent\<close> takes the function that runs one.

  The operations that go through the owner loop (\<open>update\<close>, \<open>enableReading\<close>, \<open>remove\<close>, ...) are in the
  theory EventLoop, after the loop they call. \<open>m_id\<close> is the address of the object. \<open>m_event_handling\<close> is
  not initialised by the constructor; the model takes its start value as a parameter.
\<close>

definition EPOLLIN :: "32 word" where "EPOLLIN = 0x001"
definition EPOLLPRI :: "32 word" where "EPOLLPRI = 0x002"
definition EPOLLOUT :: "32 word" where "EPOLLOUT = 0x004"
definition EPOLLERR :: "32 word" where "EPOLLERR = 0x008"
definition EPOLLHUP :: "32 word" where "EPOLLHUP = 0x010"
definition EPOLLRDHUP :: "32 word" where "EPOLLRDHUP = 0x2000"
definition EPOLLET :: "32 word" where "EPOLLET = 0x80000000"

lemmas epoll_bits = EPOLLIN_def EPOLLPRI_def EPOLLOUT_def EPOLLERR_def EPOLLHUP_def
  EPOLLRDHUP_def EPOLLET_def

definition kNew :: int where "kNew = - 1"
definition kAdded :: int where "kAdded = 1"
definition kDeleted :: int where "kDeleted = 2"

lemmas index_defs = kNew_def kAdded_def kDeleted_def

definition kNoneEvent :: "32 word" where "kNoneEvent = 0"
definition kReadEvent :: "32 word" where "kReadEvent = EPOLLIN OR EPOLLPRI OR EPOLLET"
definition kWriteEvent :: "32 word" where "kWriteEvent = EPOLLOUT OR EPOLLET"

record 'h channel =
  m_id :: nat
  m_loop :: nat
  m_fd :: int
  m_events :: "32 word"
  m_revents :: "32 word"
  m_index :: int
  m_event_handling :: bool
  m_read_handler :: "'h option"
  m_write_handler :: "'h option"
  m_conn_handler :: "'h option"
  m_error_handler :: "'h option"
  m_close_callback :: "'h option"

definition new_channel :: "bool \<Rightarrow> nat \<Rightarrow> nat \<Rightarrow> int \<Rightarrow> 'h channel" where
  "new_channel uninitialised addr loop fd =
     \<lparr>m_id = addr, m_loop = loop, m_fd = fd, m_events = 0, m_revents = 0, m_index = - 1,
      m_event_handling = uninitialised,
      m_read_handler = None, m_write_handler = None, m_conn_handler = None,
      m_error_handler = None, m_close_callback = None\<rparr>"

definition isNoneEvent :: "'h channel \<Rightarrow> bool" where
  "isNoneEvent ch = (m_events ch = kNoneEvent)"

definition isWriting :: "'h channel \<Rightarrow> bool" where
  "isWriting ch = (m_events ch AND kWriteEvent \<noteq> 0)"

definition isETMode :: "'h channel \<Rightarrow> bool" where
  "isETMode ch = (m_events ch AND EPOLLET \<noteq> 0)"

definition setReadHandler :: "'h \<Rightarrow> 'h channel \<Rightarrow> 'h channel" where
  [simp]: "setReadHandler read_handler ch = ch\<lparr>m_read_handler := Some read_handler\<rparr>"

definition setWriteHandler :: "'h \<Rightarrow> 'h channel \<Rightarrow> 'h channel" where
  [simp]: "setWriteHandler write_handler ch = ch\<lparr>m_write_handler := Some write_handler\<rparr>"

definition setConnHandler :: "'h \<Rightarrow> 'h channel \<Rightarrow> 'h channel" where
  [simp]: "setConnHandler conn_handler ch = ch\<lparr>m_conn_handler := Some conn_handler\<rparr>"

definition setErrorHandler :: "'h \<Rightarrow> 'h channel \<Rightarrow> 'h channel" where
  [simp]: "setErrorHandler error_handler ch = ch\<lparr>m_error_handler := Some error_handler\<rparr>"

definition setCloseHandler :: "'h \<Rightarrow> 'h channel \<Rightarrow> 'h channel" where
  [simp]: "setCloseHandler close_handler ch = ch\<lparr>m_close_callback := Some close_handler\<rparr>"

subsection \<open>Dispatch\<close>

text \<open>
  \<open>call run h\<close>: run the call back if it is set. \<open>mark\<close> stores \<open>m_event_handling\<close> into the channel
  object, wherever the state keeps it (and fails when the object is gone). The handlers and \<open>m_revents\<close> of a channel do not change while it
  is handled.
\<close>

definition call :: "('h \<Rightarrow> 's \<Rightarrow> 's res) \<Rightarrow> 'h option \<Rightarrow> 's \<Rightarrow> 's res" where
  "call run h s = (case h of None \<Rightarrow> Inr s | Some f \<Rightarrow> run f s)"

definition handleReadEvent :: "('h \<Rightarrow> 's \<Rightarrow> 's res) \<Rightarrow> 'h channel \<Rightarrow> 's \<Rightarrow> 's res" where
  "handleReadEvent run ch = call run (m_read_handler ch)"

definition handleWriteEvent :: "('h \<Rightarrow> 's \<Rightarrow> 's res) \<Rightarrow> 'h channel \<Rightarrow> 's \<Rightarrow> 's res" where
  "handleWriteEvent run ch = call run (m_write_handler ch)"

definition handleConnectionEvent :: "('h \<Rightarrow> 's \<Rightarrow> 's res) \<Rightarrow> 'h channel \<Rightarrow> 's \<Rightarrow> 's res" where
  "handleConnectionEvent run ch = call run (m_conn_handler ch)"

definition handleErrorEvent :: "('h \<Rightarrow> 's \<Rightarrow> 's res) \<Rightarrow> 'h channel \<Rightarrow> 's \<Rightarrow> 's res" where
  "handleErrorEvent run ch = call run (m_error_handler ch)"

definition handleCloseEvent :: "('h \<Rightarrow> 's \<Rightarrow> 's res) \<Rightarrow> 'h channel \<Rightarrow> 's \<Rightarrow> 's res" where
  "handleCloseEvent run ch = call run (m_close_callback ch)"

definition handleEvent ::
  "('h \<Rightarrow> 's \<Rightarrow> 's res) \<Rightarrow> (bool \<Rightarrow> 's \<Rightarrow> 's res) \<Rightarrow> 'h channel \<Rightarrow> 's \<Rightarrow> 's res" where
  "handleEvent run mark ch s0 =
     bind_res (mark True s0) (\<lambda>s.
     bind_res (if m_revents ch AND EPOLLHUP \<noteq> 0 \<and> \<not> (m_revents ch AND EPOLLIN \<noteq> 0)
               then handleCloseEvent run ch s else Inr s) (\<lambda>s.
     bind_res (if m_revents ch AND EPOLLERR \<noteq> 0 then handleErrorEvent run ch s else Inr s) (\<lambda>s.
     bind_res (if m_revents ch AND (EPOLLIN OR EPOLLPRI OR EPOLLRDHUP) \<noteq> 0
               then handleReadEvent run ch s else Inr s) (\<lambda>s.
     bind_res (if m_revents ch AND EPOLLOUT \<noteq> 0 then handleWriteEvent run ch s else Inr s) (\<lambda>s.
     mark False s)))))"

text \<open>The handlers a set of events calls for, in order.\<close>

definition due_handlers :: "'h channel \<Rightarrow> 'h option list" where
  "due_handlers ch =
     (if m_revents ch AND EPOLLHUP \<noteq> 0 \<and> m_revents ch AND EPOLLIN = 0 then [m_close_callback ch] else []) @
     (if m_revents ch AND EPOLLERR \<noteq> 0 then [m_error_handler ch] else []) @
     (if m_revents ch AND (EPOLLIN OR EPOLLPRI OR EPOLLRDHUP) \<noteq> 0 then [m_read_handler ch] else []) @
     (if m_revents ch AND EPOLLOUT \<noteq> 0 then [m_write_handler ch] else [])"

fun call_all :: "('h \<Rightarrow> 's \<Rightarrow> 's res) \<Rightarrow> 'h option list \<Rightarrow> 's \<Rightarrow> 's res" where
  "call_all run [] s = Inr s"
| "call_all run (h # hs) s = bind_res (call run h s) (call_all run hs)"

lemma call_all_append: "call_all run (hs @ hs') s = bind_res (call_all run hs s) (call_all run hs')"
  by (induction hs arbitrary: s) (simp_all add: bind_res_def split: sum.splits)

lemma bind_Inr_right [simp]: "bind_res m Inr = m"
  by (cases m) auto

lemma handleEvent_due:
  "handleEvent run mark ch s =
     bind_res (mark True s) (\<lambda>s1. bind_res (call_all run (due_handlers ch) s1) (mark False))"
  by (simp add: handleEvent_def due_handlers_def Let_def handleCloseEvent_def handleErrorEvent_def
      handleReadEvent_def handleWriteEvent_def bind_res_assoc)

text \<open>The masks share \<open>EPOLLET\<close>.\<close>

lemma mask_values: "kReadEvent = 0x80000003" "kWriteEvent = 0x80000004"
  by (simp_all add: kReadEvent_def kWriteEvent_def epoll_bits)

lemma mask_facts [simp]:
  "kReadEvent AND kWriteEvent \<noteq> 0" "kReadEvent \<noteq> kNoneEvent" "kWriteEvent \<noteq> kNoneEvent"
  by (simp_all add: mask_values kNoneEvent_def)

end
