(* ===== verification/Epoll.thy ===== *)
theory Epoll
  imports Channel
begin

text \<open>
  The poller (Epoll.h, Epoll.cpp): the map from file descriptors to channels and the calls of
  \<open>epoll_ctl\<close> it makes. Channels live in a store, addressed by \<open>m_id\<close>.

  The kernel is a parameter: \<open>kctl calls c\<close> says whether the call \<open>c\<close> succeeds after the calls
  \<open>calls\<close>. \<open>interest\<close> is the documented interest list after a sequence of calls, \<open>ctl_legal\<close> the
  documented condition for a call to be accepted, and \<open>kernel_obeys\<close> the hypothesis that the kernel
  accepts legal calls.
\<close>

datatype ctl_op = EPOLL_CTL_ADD | EPOLL_CTL_DEL | EPOLL_CTL_MOD

datatype ctl_call = Ctl (ctl_what: ctl_op) (ctl_fd: int) (ctl_events: "32 word") (ctl_ptr: nat)

record epoll =
  m_events_size :: nat
  m_channels :: "int \<rightharpoonup> nat"
  ctl_calls :: "ctl_call list"

definition kInitEventListSize :: nat where
  "kInitEventListSize = 16"

definition new_epoll :: epoll where
  "new_epoll = \<lparr>m_events_size = kInitEventListSize, m_channels = Map.empty, ctl_calls = []\<rparr>"

type_synonym ctl_kernel = "ctl_call list \<Rightarrow> ctl_call \<Rightarrow> bool"

subsection \<open>Operations\<close>

text \<open>\<open>Epoll::update\<close>: a failed ADD or MOD is a FATAL log line, a failed DEL an ERROR one.\<close>

definition epoll_update :: "ctl_kernel \<Rightarrow> ctl_op \<Rightarrow> 'h channel \<Rightarrow> epoll \<Rightarrow> epoll res" where
  "epoll_update kctl operation ch ep =
     (let c = Ctl operation (m_fd ch) (m_events ch) (m_id ch);
          ret = kctl (ctl_calls ep) c;
          ep' = ep\<lparr>ctl_calls := ctl_calls ep @ [c]\<rparr>
      in if \<not> ret \<and> (operation = EPOLL_CTL_ADD \<or> operation = EPOLL_CTL_MOD)
         then Inl Process_Abort else Inr ep')"

text \<open>\<open>Epoll::updateChannel\<close>. The checks that only write an ERROR log line have no effect on the
  state.\<close>

definition epoll_updateChannel :: "ctl_kernel \<Rightarrow> 'h channel \<Rightarrow> epoll \<Rightarrow> ('h channel \<times> epoll) res" where
  "epoll_updateChannel kctl ch ep =
     (let index = m_index ch in
      if index = kNew \<or> index = kDeleted then
        let ep1 = (if index = kNew then ep\<lparr>m_channels := (m_channels ep)(m_fd ch \<mapsto> m_id ch)\<rparr> else ep);
            ch1 = ch\<lparr>m_index := kAdded\<rparr>
        in bind_res (epoll_update kctl EPOLL_CTL_ADD ch1 ep1) (\<lambda>ep2. Inr (ch1, ep2))
      else if index = kAdded then
        if isNoneEvent ch then
          bind_res (epoll_update kctl EPOLL_CTL_DEL ch ep) (\<lambda>ep1. Inr (ch\<lparr>m_index := kDeleted\<rparr>, ep1))
        else bind_res (epoll_update kctl EPOLL_CTL_MOD ch ep) (\<lambda>ep1. Inr (ch, ep1))
      else Inr (ch, ep))"

text \<open>\<open>Epoll::removeChannel\<close>, after its thread assertion.\<close>

definition epoll_removeChannel :: "ctl_kernel \<Rightarrow> 'h channel \<Rightarrow> epoll \<Rightarrow> ('h channel \<times> epoll) res" where
  "epoll_removeChannel kctl ch ep =
     (if m_channels ep (m_fd ch) = Some (m_id ch) \<and> isNoneEvent ch then
        let index = m_index ch in
        if index = kAdded \<or> index = kDeleted then
          let ep1 = ep\<lparr>m_channels := (m_channels ep)(m_fd ch := None)\<rparr> in
          bind_res (if index = kAdded then epoll_update kctl EPOLL_CTL_DEL ch ep1 else Inr ep1)
            (\<lambda>ep2. Inr (ch\<lparr>m_index := kNew\<rparr>, ep2))
        else Inr (ch, ep)
      else Inr (ch, ep))"

text \<open>\<open>epoll_wait\<close>: the events it stored, each with the pointer registered for it, or its error.\<close>

datatype sys_wait = Wt_Events "(nat \<times> 32 word) list" | Wt_Err errno

type_synonym 'h store = "nat \<rightharpoonup> 'h channel"

text \<open>\<open>fillActiveChannels\<close>: a pointer to a channel that no longer exists is undefined behaviour.\<close>

fun fillActiveChannels :: "(nat \<times> 32 word) list \<Rightarrow> 'h store \<Rightarrow> nat list \<Rightarrow> (nat list \<times> 'h store) res" where
  "fillActiveChannels [] st active = Inr (active, st)"
| "fillActiveChannels ((p, ev) # evs) st active =
     (case st p of
        None \<Rightarrow> Inl Undefined_Behaviour
      | Some ch \<Rightarrow> fillActiveChannels evs (st(p \<mapsto> ch\<lparr>m_revents := ev\<rparr>)) (active @ [p]))"

definition poll :: "sys_wait \<Rightarrow> 'h store \<Rightarrow> epoll \<Rightarrow> nat list \<Rightarrow> (nat list \<times> 'h store \<times> epoll) res" where
  "poll ans st ep active =
     (case ans of
        Wt_Events evs \<Rightarrow>
          let nums = length evs in
          if nums > 0 then
            if nums > m_events_size ep then Inl Undefined_Behaviour
            else bind_res (fillActiveChannels evs st active) (\<lambda>(active', st').
              Inr (active', st', if nums = m_events_size ep then ep\<lparr>m_events_size := m_events_size ep * 2\<rparr> else ep))
          else Inr (active, st, ep)
      | Wt_Err e \<Rightarrow> Inr (active, st, ep))"

subsection \<open>The kernel's side\<close>

definition ctl_legal :: "(int \<rightharpoonup> 32 word \<times> nat) \<Rightarrow> ctl_call \<Rightarrow> bool" where
  "ctl_legal tab c =
     (case ctl_what c of
        EPOLL_CTL_ADD \<Rightarrow> tab (ctl_fd c) = None
      | _ \<Rightarrow> tab (ctl_fd c) \<noteq> None)"

definition ctl_effect :: "ctl_call \<Rightarrow> (int \<rightharpoonup> 32 word \<times> nat) \<Rightarrow> (int \<rightharpoonup> 32 word \<times> nat)" where
  "ctl_effect c tab =
     (if \<not> ctl_legal tab c then tab
      else case ctl_what c of
          EPOLL_CTL_DEL \<Rightarrow> tab(ctl_fd c := None)
        | _ \<Rightarrow> tab(ctl_fd c \<mapsto> (ctl_events c, ctl_ptr c)))"

definition interest :: "ctl_call list \<Rightarrow> (int \<rightharpoonup> 32 word \<times> nat)" where
  "interest calls = fold ctl_effect calls Map.empty"

definition kernel_obeys :: "ctl_kernel \<Rightarrow> bool" where
  "kernel_obeys kctl \<longleftrightarrow> (\<forall>calls c. ctl_legal (interest calls) c \<longrightarrow> kctl calls c)"

text \<open>A kernel that rejects illegal calls, as documented (\<open>EEXIST\<close>, \<open>ENOENT\<close>).\<close>

definition kernel_rejects :: "ctl_kernel \<Rightarrow> bool" where
  "kernel_rejects kctl \<longleftrightarrow> (\<forall>calls c. \<not> ctl_legal (interest calls) c \<longrightarrow> \<not> kctl calls c)"

definition documented_kernel :: ctl_kernel where
  "documented_kernel calls c = ctl_legal (interest calls) c"

lemma documented_kernel_ok [simp]: "kernel_obeys documented_kernel" "kernel_rejects documented_kernel"
  by (simp_all add: kernel_obeys_def kernel_rejects_def documented_kernel_def)

lemma interest_Nil [simp]: "interest [] = Map.empty"
  by (simp add: interest_def)

lemma interest_snoc: "interest (calls @ [c]) = ctl_effect c (interest calls)"
  by (simp add: interest_def)

lemma epoll_update_legal:
  assumes "kernel_obeys kctl" "ctl_legal (interest (ctl_calls ep)) (Ctl operation (m_fd ch) (m_events ch) (m_id ch))"
  shows "epoll_update kctl operation ch ep =
    Inr (ep\<lparr>ctl_calls := ctl_calls ep @ [Ctl operation (m_fd ch) (m_events ch) (m_id ch)]\<rparr>)"
  using assms by (auto simp: epoll_update_def Let_def kernel_obeys_def)

subsection \<open>Coherence of the channels, the map and the interest list\<close>

text \<open>
  \<open>epoll_inv st ep\<close>, for the channels alive on a loop. The index of a channel tells the truth: \<open>kAdded\<close>
  channels are in the map and in the interest list with their current mask and address, \<open>kDeleted\<close> ones
  are in the map only, \<open>kNew\<close> ones in neither. Everything in the map is an alive channel, and
  everything the kernel watches is in the map.
\<close>

definition channel_ok :: "epoll \<Rightarrow> nat \<Rightarrow> 'h channel \<Rightarrow> bool" where
  "channel_ok ep a ch \<longleftrightarrow> m_id ch = a \<and> m_index ch \<in> {kNew, kAdded, kDeleted} \<and>
     (m_index ch = kAdded \<longrightarrow> m_channels ep (m_fd ch) = Some a \<and>
        interest (ctl_calls ep) (m_fd ch) = Some (m_events ch, a)) \<and>
     (m_index ch = kDeleted \<longrightarrow> m_channels ep (m_fd ch) = Some a \<and> interest (ctl_calls ep) (m_fd ch) = None) \<and>
     (m_index ch = kNew \<longrightarrow> m_channels ep (m_fd ch) \<noteq> Some a)"

definition epoll_inv :: "'h store \<Rightarrow> epoll \<Rightarrow> bool" where
  "epoll_inv st ep \<longleftrightarrow>
     (\<forall>a ch. st a = Some ch \<longrightarrow> channel_ok ep a ch) \<and>
     (\<forall>fd a. m_channels ep fd = Some a \<longrightarrow> (\<exists>ch. st a = Some ch \<and> m_fd ch = fd \<and> m_index ch \<noteq> kNew)) \<and>
     (\<forall>fd. interest (ctl_calls ep) fd \<noteq> None \<longrightarrow> m_channels ep fd \<noteq> None)"

lemma epoll_inv_new: "epoll_inv Map.empty new_epoll"
  by (simp add: epoll_inv_def new_epoll_def)

lemma epoll_invD: "epoll_inv st ep \<Longrightarrow> st a = Some ch \<Longrightarrow> channel_ok ep a ch"
  by (simp add: epoll_inv_def)

text \<open>A step that changes the map and the list at one descriptor only keeps all other channels coherent.\<close>

lemma epoll_inv_local:
  assumes "epoll_inv st ep" "st a = Some ch" "m_fd ch' = m_fd ch"
    and "\<forall>fd. fd \<noteq> m_fd ch \<longrightarrow> m_channels ep' fd = m_channels ep fd \<and>
           interest (ctl_calls ep') fd = interest (ctl_calls ep) fd"
    and "channel_ok ep' a ch'" "m_channels ep (m_fd ch) \<in> {None, Some a}"
    and "m_channels ep' (m_fd ch) = (if m_index ch' = kNew then None else Some a)"
    and "interest (ctl_calls ep') (m_fd ch) \<noteq> None \<longrightarrow> m_index ch' \<noteq> kNew"
  shows "epoll_inv (st(a \<mapsto> ch')) ep'"
  unfolding epoll_inv_def
proof (intro conjI allI impI)
  fix b c assume b: "(st(a \<mapsto> ch')) b = Some c"
  show "channel_ok ep' b c"
  proof (cases "b = a")
    case True
    with b assms(5) show ?thesis by simp
  next
    case False
    with b have c: "st b = Some c" by simp
    have ok: "channel_ok ep b c" using epoll_invD [OF assms(1) c] .
    show ?thesis
    proof (cases "m_fd c = m_fd ch")
      case True
      with ok assms(6) False have "m_index c = kNew"
        by (auto simp: channel_ok_def)
      with ok True assms(7) False show ?thesis by (auto simp: channel_ok_def index_defs)
    next
      case False
      with ok assms(4) show ?thesis by (auto simp: channel_ok_def)
    qed
  qed
next
  fix fd b assume m: "m_channels ep' fd = Some b"
  show "\<exists>c. (st(a \<mapsto> ch')) b = Some c \<and> m_fd c = fd \<and> m_index c \<noteq> kNew"
  proof (cases "fd = m_fd ch")
    case True
    with m assms(3,7) show ?thesis by (auto split: if_splits)
  next
    case False
    with m assms(4) have "m_channels ep fd = Some b" by simp
    with assms(1) obtain c where "st b = Some c" "m_fd c = fd" "m_index c \<noteq> kNew"
      unfolding epoll_inv_def by blast
    with False assms(2) show ?thesis by auto
  qed
next
  fix fd assume i: "interest (ctl_calls ep') fd \<noteq> None"
  show "m_channels ep' fd \<noteq> None"
  proof (cases "fd = m_fd ch")
    case True
    with i assms(7,8) show ?thesis by simp
  next
    case False
    with i assms(1,4) show ?thesis by (auto simp: epoll_inv_def)
  qed
qed

text \<open>
  A change of the mask followed by \<open>updateChannel\<close>. A \<open>kNew\<close> channel may be registered when no other
  channel holds its descriptor.
\<close>

definition fd_free :: "epoll \<Rightarrow> 'h channel \<Rightarrow> bool" where
  "fd_free ep ch \<longleftrightarrow> m_index ch = kNew \<longrightarrow> m_channels ep (m_fd ch) = None"

lemma epoll_updateChannel_law:
  assumes "kernel_obeys kctl" "epoll_inv st ep" "st a = Some ch" "fd_free ep ch"
  shows "\<exists>ch' ep'. epoll_updateChannel kctl (ch\<lparr>m_events := ev\<rparr>) ep = Inr (ch', ep') \<and>
    epoll_inv (st(a \<mapsto> ch')) ep' \<and>
    ch' = ch\<lparr>m_events := ev, m_index := (if m_index ch = kAdded \<and> ev = kNoneEvent then kDeleted else kAdded)\<rparr> \<and>
    interest (ctl_calls ep') (m_fd ch) =
      (if m_index ch = kAdded \<and> ev = kNoneEvent then None else Some (ev, a)) \<and>
    m_channels ep' = (m_channels ep)(m_fd ch \<mapsto> a) \<and>
    (\<forall>fd. fd \<noteq> m_fd ch \<longrightarrow> interest (ctl_calls ep') fd = interest (ctl_calls ep) fd)"
proof -
  let ?e = "ch\<lparr>m_events := ev\<rparr>" and ?I = "interest (ctl_calls ep)"
  have ok: "channel_ok ep a ch" using epoll_invD [OF assms(2,3)] .
  then have id: "m_id ch = a" by (simp add: channel_ok_def)
  consider (new) "m_index ch = kNew" | (added) "m_index ch = kAdded" "ev \<noteq> kNoneEvent"
    | (none) "m_index ch = kAdded" "ev = kNoneEvent" | (deleted) "m_index ch = kDeleted"
    using ok by (auto simp: channel_ok_def)
  then show ?thesis
  proof cases
    case new
    let ?ep1 = "ep\<lparr>m_channels := (m_channels ep)(m_fd ch \<mapsto> a)\<rparr>"
    let ?c = "Ctl EPOLL_CTL_ADD (m_fd ch) ev a"
    let ?ep' = "?ep1\<lparr>ctl_calls := ctl_calls ep @ [?c]\<rparr>"
    have free: "m_channels ep (m_fd ch) = None" using assms(4) new by (simp add: fd_free_def)
    then have iN: "?I (m_fd ch) = None" using assms(2) unfolding epoll_inv_def by metis
    have "epoll_update kctl EPOLL_CTL_ADD (?e\<lparr>m_index := kAdded\<rparr>) ?ep1 = Inr ?ep'"
      using epoll_update_legal [OF assms(1), of ?ep1 EPOLL_CTL_ADD "?e\<lparr>m_index := kAdded\<rparr>"] iN id
      by (simp add: ctl_legal_def)
    then have run: "epoll_updateChannel kctl ?e ep = Inr (?e\<lparr>m_index := kAdded\<rparr>, ?ep')"
      using new id by (simp add: epoll_updateChannel_def Let_def)
    have i': "interest (ctl_calls ?ep') = ?I(m_fd ch \<mapsto> (ev, a))"
      using iN by (simp add: interest_snoc ctl_effect_def ctl_legal_def)
    have "epoll_inv (st(a \<mapsto> ?e\<lparr>m_index := kAdded\<rparr>)) ?ep'"
      by (rule epoll_inv_local [OF assms(2,3)])
         (use i' id free in \<open>simp_all add: channel_ok_def index_defs\<close>)
    with run i' new show ?thesis by (simp add: index_defs)
  next
    case added
    let ?c = "Ctl EPOLL_CTL_MOD (m_fd ch) ev a"
    let ?ep' = "ep\<lparr>ctl_calls := ctl_calls ep @ [?c]\<rparr>"
    have iS: "?I (m_fd ch) = Some (m_events ch, a)" and m: "m_channels ep (m_fd ch) = Some a"
      using ok added by (auto simp: channel_ok_def)
    have "epoll_update kctl EPOLL_CTL_MOD ?e ep = Inr ?ep'"
      using epoll_update_legal [OF assms(1), of ep EPOLL_CTL_MOD ?e] iS id
      by (simp add: ctl_legal_def)
    then have run: "epoll_updateChannel kctl ?e ep = Inr (?e, ?ep')"
      using added by (simp add: epoll_updateChannel_def Let_def isNoneEvent_def index_defs)
    have i': "interest (ctl_calls ?ep') = ?I(m_fd ch \<mapsto> (ev, a))"
      using iS by (simp add: interest_snoc ctl_effect_def ctl_legal_def)
    have "epoll_inv (st(a \<mapsto> ?e)) ?ep'"
      by (rule epoll_inv_local [OF assms(2,3)])
         (use i' id m added in \<open>simp_all add: channel_ok_def index_defs\<close>)
    moreover have "?e = ?e\<lparr>m_index := kAdded\<rparr>" using added(1) by simp
    ultimately show ?thesis using run i' added m by (auto simp: fun_upd_idem)
  next
    case none
    let ?c = "Ctl EPOLL_CTL_DEL (m_fd ch) ev a"
    let ?ep' = "ep\<lparr>ctl_calls := ctl_calls ep @ [?c]\<rparr>"
    have iS: "?I (m_fd ch) = Some (m_events ch, a)" and m: "m_channels ep (m_fd ch) = Some a"
      using ok none by (auto simp: channel_ok_def)
    have "epoll_update kctl EPOLL_CTL_DEL ?e ep = Inr ?ep'"
      using epoll_update_legal [OF assms(1), of ep EPOLL_CTL_DEL ?e] iS id
      by (simp add: ctl_legal_def)
    then have run: "epoll_updateChannel kctl ?e ep = Inr (?e\<lparr>m_index := kDeleted\<rparr>, ?ep')"
      using none by (simp add: epoll_updateChannel_def Let_def isNoneEvent_def index_defs)
    have i': "interest (ctl_calls ?ep') = ?I(m_fd ch := None)"
      using iS by (simp add: interest_snoc ctl_effect_def ctl_legal_def)
    have "epoll_inv (st(a \<mapsto> ?e\<lparr>m_index := kDeleted\<rparr>)) ?ep'"
      by (rule epoll_inv_local [OF assms(2,3)])
         (use i' id m in \<open>simp_all add: channel_ok_def index_defs\<close>)
    with run i' none m show ?thesis by (auto simp: fun_upd_idem)
  next
    case deleted
    let ?c = "Ctl EPOLL_CTL_ADD (m_fd ch) ev a"
    let ?ep' = "ep\<lparr>ctl_calls := ctl_calls ep @ [?c]\<rparr>"
    have iN: "?I (m_fd ch) = None" and m: "m_channels ep (m_fd ch) = Some a"
      using ok deleted by (auto simp: channel_ok_def)
    have "epoll_update kctl EPOLL_CTL_ADD (?e\<lparr>m_index := kAdded\<rparr>) ep = Inr ?ep'"
      using epoll_update_legal [OF assms(1), of ep EPOLL_CTL_ADD "?e\<lparr>m_index := kAdded\<rparr>"] iN id
      by (simp add: ctl_legal_def)
    then have run: "epoll_updateChannel kctl ?e ep = Inr (?e\<lparr>m_index := kAdded\<rparr>, ?ep')"
      using deleted by (simp add: epoll_updateChannel_def Let_def index_defs)
    have i': "interest (ctl_calls ?ep') = ?I(m_fd ch \<mapsto> (ev, a))"
      using iN by (simp add: interest_snoc ctl_effect_def ctl_legal_def)
    have "epoll_inv (st(a \<mapsto> ?e\<lparr>m_index := kAdded\<rparr>)) ?ep'"
      by (rule epoll_inv_local [OF assms(2,3)])
         (use i' id m in \<open>simp_all add: channel_ok_def index_defs\<close>)
    with run i' deleted m show ?thesis by (auto simp: fun_upd_idem index_defs)
  qed
qed

text \<open>\<open>removeChannel\<close> on a channel marked \<open>kDeleted\<close> (as \<open>Channel::remove\<close> marks it): it leaves the map
  only when its mask is empty.\<close>

lemma epoll_removeChannel_law:
  assumes "epoll_inv st ep" "st a = Some ch" "m_index ch = kDeleted" "m_events ch = kNoneEvent"
  shows "\<exists>ep'. epoll_removeChannel kctl ch ep = Inr (ch\<lparr>m_index := kNew\<rparr>, ep') \<and>
    epoll_inv (st(a \<mapsto> ch\<lparr>m_index := kNew\<rparr>)) ep' \<and> m_channels ep' = (m_channels ep)(m_fd ch := None) \<and>
    ctl_calls ep' = ctl_calls ep"
proof -
  let ?ep' = "ep\<lparr>m_channels := (m_channels ep)(m_fd ch := None)\<rparr>"
  have ok: "channel_ok ep a ch" using epoll_invD [OF assms(1,2)] .
  then have f: "m_id ch = a" "m_channels ep (m_fd ch) = Some a" "interest (ctl_calls ep) (m_fd ch) = None"
    using assms(3) by (auto simp: channel_ok_def)
  then have run: "epoll_removeChannel kctl ch ep = Inr (ch\<lparr>m_index := kNew\<rparr>, ?ep')"
    using assms(3,4) by (simp add: epoll_removeChannel_def isNoneEvent_def Let_def index_defs)
  have "epoll_inv (st(a \<mapsto> ch\<lparr>m_index := kNew\<rparr>)) ?ep'"
    by (rule epoll_inv_local [OF assms(1,2)]) (use f in \<open>simp_all add: channel_ok_def index_defs\<close>)
  with run show ?thesis by simp
qed

lemma epoll_removeChannel_busy:
  "m_events ch \<noteq> kNoneEvent \<Longrightarrow> epoll_removeChannel kctl ch ep = Inr (ch, ep)"
  by (simp add: epoll_removeChannel_def isNoneEvent_def)

text \<open>A new channel object comes in with index \<open>kNew\<close>; a \<open>kNew\<close> channel can go.\<close>

lemma epoll_inv_new_channel:
  assumes "epoll_inv st ep" "st a = None"
  shows "epoll_inv (st(a \<mapsto> new_channel u a l fd)) ep"
  unfolding epoll_inv_def
proof (intro conjI allI impI)
  have nm: "m_channels ep fd' \<noteq> Some a" for fd'
    using assms unfolding epoll_inv_def by (metis option.distinct(1))
  fix b c assume "(st(a \<mapsto> new_channel u a l fd)) b = Some c"
  then show "channel_ok ep b c"
    using assms(1) nm by (auto simp: epoll_inv_def channel_ok_def new_channel_def index_defs split: if_splits)
next
  fix fd' b assume "m_channels ep fd' = Some b"
  with assms obtain c where "st b = Some c" "m_fd c = fd'" "m_index c \<noteq> kNew"
    unfolding epoll_inv_def by blast
  with assms(2) show "\<exists>c. (st(a \<mapsto> new_channel u a l fd)) b = Some c \<and> m_fd c = fd' \<and> m_index c \<noteq> kNew"
    by auto
next
  fix fd' assume "interest (ctl_calls ep) fd' \<noteq> None"
  then show "m_channels ep fd' \<noteq> None" using assms(1) unfolding epoll_inv_def by blast
qed

lemma epoll_inv_drop_channel:
  assumes "epoll_inv st ep" "st a = Some ch" "m_index ch = kNew"
  shows "epoll_inv (st(a := None)) ep"
proof -
  have "m_channels ep fd \<noteq> Some a" for fd
    using assms unfolding epoll_inv_def by (metis option.inject)
  then show ?thesis using assms(1) unfolding epoll_inv_def by (metis fun_upd_apply option.distinct(1))
qed

text \<open>Polling keeps coherence: it only stores \<open>m_revents\<close>.\<close>

lemma epoll_inv_same:
  assumes "epoll_inv st ep" "st p = Some ch"
    and "m_id ch' = m_id ch" "m_fd ch' = m_fd ch" "m_events ch' = m_events ch" "m_index ch' = m_index ch"
  shows "epoll_inv (st(p \<mapsto> ch')) ep"
  unfolding epoll_inv_def
proof (intro conjI allI impI)
  fix a c assume "(st(p \<mapsto> ch')) a = Some c"
  then show "channel_ok ep a c"
    using epoll_invD [OF assms(1)] assms(2-6) by (auto simp: channel_ok_def split: if_splits)
next
  fix fd a assume "m_channels ep fd = Some a"
  with assms(1) obtain c where "st a = Some c" "m_fd c = fd" "m_index c \<noteq> kNew"
    unfolding epoll_inv_def by blast
  with assms(2,4,6) show "\<exists>c. (st(p \<mapsto> ch')) a = Some c \<and> m_fd c = fd \<and> m_index c \<noteq> kNew"
    by (cases "a = p") auto
next
  fix fd assume "interest (ctl_calls ep) fd \<noteq> None"
  then show "m_channels ep fd \<noteq> None" using assms(1) unfolding epoll_inv_def by blast
qed

lemma fillActiveChannels_law:
  assumes "epoll_inv st ep" "\<forall>(p, ev) \<in> set evs. p \<in> dom st"
  shows "\<exists>st'. fillActiveChannels evs st active = Inr (active @ map fst evs, st') \<and> epoll_inv st' ep \<and> dom st' = dom st"
  using assms
proof (induction evs arbitrary: st active)
  case Nil
  then show ?case by auto
next
  case (Cons pe evs)
  obtain p ev where pe: "pe = (p, ev)" by (cases pe)
  with Cons.prems obtain ch where ch: "st p = Some ch" by auto
  define st1 where "st1 = st(p \<mapsto> ch\<lparr>m_revents := ev\<rparr>)"
  have d: "dom st1 = dom st" using ch by (auto simp: st1_def)
  have "epoll_inv st1 ep" unfolding st1_def by (rule epoll_inv_same [OF Cons.prems(1) ch]) simp_all
  moreover have "\<forall>(p, ev) \<in> set evs. p \<in> dom st1" using Cons.prems(2) d by simp
  ultimately obtain st' where "fillActiveChannels evs st1 (active @ [p]) = Inr ((active @ [p]) @ map fst evs, st')"
    "epoll_inv st' ep" "dom st' = dom st1" using Cons.IH by blast
  then show ?case using pe ch d by (simp flip: st1_def)
qed

text \<open>The kernel reports only what is in its interest list, so never a channel that is gone.\<close>

definition wait_documented :: "epoll \<Rightarrow> (nat \<times> 32 word) list \<Rightarrow> bool" where
  "wait_documented ep evs \<longleftrightarrow> length evs \<le> m_events_size ep \<and>
     (\<forall>(p, ev) \<in> set evs. \<exists>fd msk. interest (ctl_calls ep) fd = Some (msk, p))"

lemma interest_alive:
  assumes "epoll_inv st ep" "interest (ctl_calls ep) fd = Some (msk, p)"
  shows "\<exists>ch. st p = Some ch \<and> m_fd ch = fd \<and> m_events ch = msk \<and> m_index ch = kAdded"
proof -
  from assms obtain a ch where a: "m_channels ep fd = Some a" "st a = Some ch" "m_fd ch = fd" "m_index ch \<noteq> kNew"
    unfolding epoll_inv_def by (metis option.distinct(1) not_None_eq)
  with epoll_invD [OF assms(1) a(2)] assms(2) show ?thesis
    by (auto simp: channel_ok_def)
qed

lemma poll_law:
  assumes "epoll_inv st ep" "wait_documented ep evs"
  shows "\<exists>st' ep'. poll (Wt_Events evs) st ep active = Inr (active @ map fst evs, st', ep') \<and>
    epoll_inv st' ep' \<and> dom st' = dom st \<and> m_events_size ep \<le> m_events_size ep'"
proof -
  have "\<forall>(p, ev) \<in> set evs. p \<in> dom st"
    using assms(2) interest_alive [OF assms(1)] by (fastforce simp: wait_documented_def)
  from fillActiveChannels_law [OF assms(1) this, of active] assms
  show ?thesis by (auto simp: poll_def Let_def wait_documented_def epoll_inv_def channel_ok_def)
qed

end
