(* ===== verification/EventLoop.thy ===== *)
theory EventLoop
  imports Epoll TimerHeap
begin

text \<open>
  The event loop of a thread (EventLoop.h, EventLoop.cpp), with the channel operations that call it
  (the second half of Channel.cpp) and the timer heap's calls into it.

  A loop holds its poller, its timer heap and its pending functors (values of a type \<open>'f\<close>).
  \<open>lp_objects\<close> is the heap of the Channel objects whose owner loop it is, by address; using an address
  that holds no object is undefined behaviour. \<open>m_wakeups\<close> is the counter of the eventfd \<open>m_wakeup_fd\<close>:
  a write adds one, a read takes all. The calling thread is an argument, \<open>tid\<close>.
\<close>

record ('f, 'h) loop =
  lp_id :: nat
  m_tid :: nat
  m_looping :: bool
  m_quit :: bool
  m_calling_pending_functors :: bool
  m_loop_event_handling :: bool
  m_epoll :: epoll
  m_active_channels :: "nat list"
  m_current_active_channel :: "nat option"
  m_timer_heap :: "'f timer_heap"
  m_pending_functors :: "'f list"
  m_wakeups :: nat
  lp_objects :: "'h store"

definition isInLoopThread :: "nat \<Rightarrow> ('f, 'h) loop \<Rightarrow> bool" where
  "isInLoopThread tid lp = (m_tid lp = tid)"

definition abortNotInLoopThread :: "'a res" where
  [simp]: "abortNotInLoopThread = Inl Process_Abort"

definition assertInLoopThread :: "nat \<Rightarrow> ('f, 'h) loop \<Rightarrow> unit res" where
  "assertInLoopThread tid lp = (if \<not> isInLoopThread tid lp then abortNotInLoopThread else Inr ())"

subsection \<open>Channels and the loop\<close>

definition object :: "nat \<Rightarrow> ('f, 'h) loop \<Rightarrow> 'h channel res" where
  "object a lp = (case lp_objects lp a of None \<Rightarrow> Inl Undefined_Behaviour | Some ch \<Rightarrow> Inr ch)"

definition store_object :: "nat \<Rightarrow> 'h channel \<Rightarrow> ('f, 'h) loop \<Rightarrow> ('f, 'h) loop" where
  "store_object a ch lp = lp\<lparr>lp_objects := (lp_objects lp)(a \<mapsto> ch)\<rparr>"

definition updateChannel :: "nat \<Rightarrow> ctl_kernel \<Rightarrow> nat \<Rightarrow> ('f, 'h) loop \<Rightarrow> ('f, 'h) loop res" where
  "updateChannel tid kctl a lp =
     bind_res (object a lp) (\<lambda>ch.
     if m_loop ch \<noteq> lp_id lp then Inl Process_Abort
     else
       bind_res (assertInLoopThread tid lp) (\<lambda>_.
       bind_res (epoll_updateChannel kctl ch (m_epoll lp)) (\<lambda>(ch', ep).
       Inr (store_object a ch' (lp\<lparr>m_epoll := ep\<rparr>)))))"

definition removeChannel :: "nat \<Rightarrow> ctl_kernel \<Rightarrow> nat \<Rightarrow> ('f, 'h) loop \<Rightarrow> ('f, 'h) loop res" where
  "removeChannel tid kctl a lp =
     bind_res (object a lp) (\<lambda>ch.
     if m_loop ch \<noteq> lp_id lp then Inl Process_Abort
     else
       bind_res (assertInLoopThread tid lp) (\<lambda>_.
       if m_loop_event_handling lp \<and>
          (Some a \<noteq> m_current_active_channel lp \<or> a \<in> set (m_active_channels lp))
       then Inl Process_Abort
       else
         bind_res (epoll_removeChannel kctl ch (m_epoll lp)) (\<lambda>(ch', ep).
         Inr (store_object a ch' (lp\<lparr>m_epoll := ep\<rparr>)))))"

text \<open>The operations of \<open>Channel\<close> that end in \<open>update()\<close>.\<close>

definition set_events :: "('h channel \<Rightarrow> 32 word) \<Rightarrow> nat \<Rightarrow> ctl_kernel \<Rightarrow> nat \<Rightarrow> ('f, 'h) loop \<Rightarrow> ('f, 'h) loop res" where
  "set_events f tid kctl a lp =
     bind_res (object a lp) (\<lambda>ch.
     updateChannel tid kctl a (store_object a (ch\<lparr>m_events := f ch\<rparr>) lp))"

definition enableReading :: "nat \<Rightarrow> ctl_kernel \<Rightarrow> nat \<Rightarrow> ('f, 'h) loop \<Rightarrow> ('f, 'h) loop res" where
  "enableReading = set_events (\<lambda>ch. kReadEvent)"

definition disableReading :: "nat \<Rightarrow> ctl_kernel \<Rightarrow> nat \<Rightarrow> ('f, 'h) loop \<Rightarrow> ('f, 'h) loop res" where
  "disableReading = set_events (\<lambda>ch. m_events ch AND NOT kReadEvent)"

definition disableAll :: "nat \<Rightarrow> ctl_kernel \<Rightarrow> nat \<Rightarrow> ('f, 'h) loop \<Rightarrow> ('f, 'h) loop res" where
  "disableAll = set_events (\<lambda>ch. kNoneEvent)"

definition enableWriting :: "nat \<Rightarrow> ctl_kernel \<Rightarrow> nat \<Rightarrow> ('f, 'h) loop \<Rightarrow> ('f, 'h) loop res" where
  "enableWriting = set_events (\<lambda>ch. kWriteEvent)"

definition disableWriting :: "nat \<Rightarrow> ctl_kernel \<Rightarrow> nat \<Rightarrow> ('f, 'h) loop \<Rightarrow> ('f, 'h) loop res" where
  "disableWriting = set_events (\<lambda>ch. m_events ch AND NOT kNoneEvent)"

definition channel_remove :: "nat \<Rightarrow> ctl_kernel \<Rightarrow> nat \<Rightarrow> ('f, 'h) loop \<Rightarrow> ('f, 'h) loop res" where
  "channel_remove tid kctl a lp =
     bind_res (object a lp) (\<lambda>ch.
     bind_res (assertInLoopThread tid lp) (\<lambda>_.
     removeChannel tid kctl a (store_object a (ch\<lparr>m_index := kDeleted\<rparr>) lp)))"

subsection \<open>Pending functors\<close>

definition wakeup :: "('f, 'h) loop \<Rightarrow> ('f, 'h) loop" where
  "wakeup lp = lp\<lparr>m_wakeups := m_wakeups lp + 1\<rparr>"

text \<open>\<open>EventLoop::handleRead\<close> reads the eventfd until it would block (theory CountFd has its single reads).\<close>

definition loop_handleRead :: "('f, 'h) loop \<Rightarrow> ('f, 'h) loop" where
  "loop_handleRead lp = lp\<lparr>m_wakeups := 0\<rparr>"

text \<open>The critical section of \<open>queueInLoop\<close>, and the whole.\<close>

definition push_functor :: "'f \<Rightarrow> ('f, 'h) loop \<Rightarrow> ('f, 'h) loop" where
  "push_functor cb lp = lp\<lparr>m_pending_functors := m_pending_functors lp @ [cb]\<rparr>"

definition queueInLoop :: "nat \<Rightarrow> 'f \<Rightarrow> ('f, 'h) loop \<Rightarrow> ('f, 'h) loop" where
  "queueInLoop tid cb lp =
     (let lp1 = push_functor cb lp in
      if \<not> isInLoopThread tid lp1 \<or> m_calling_pending_functors lp1 then wakeup lp1 else lp1)"

text \<open>\<open>runInLoop\<close>, over a state \<open>'w\<close> beside the loop that functors may change.\<close>

definition runInLoop ::
  "('f \<Rightarrow> ('f, 'h) loop \<times> 'w \<Rightarrow> (('f, 'h) loop \<times> 'w) res) \<Rightarrow> nat \<Rightarrow> 'f \<Rightarrow>
   ('f, 'h) loop \<times> 'w \<Rightarrow> (('f, 'h) loop \<times> 'w) res" where
  "runInLoop exec tid cb s =
     (if isInLoopThread tid (fst s) then exec cb s
      else Inr (queueInLoop tid cb (fst s), snd s))"

definition quit :: "nat \<Rightarrow> ('f, 'h) loop \<Rightarrow> ('f, 'h) loop" where
  "quit tid lp =
     (let lp1 = lp\<lparr>m_quit := True\<rparr> in if \<not> isInLoopThread tid lp1 then wakeup lp1 else lp1)"

fun run_functors ::
  "('f \<Rightarrow> ('f, 'h) loop \<times> 'w \<Rightarrow> (('f, 'h) loop \<times> 'w) res) \<Rightarrow> 'f list \<Rightarrow>
   ('f, 'h) loop \<times> 'w \<Rightarrow> (('f, 'h) loop \<times> 'w) res" where
  "run_functors exec [] s = Inr s"
| "run_functors exec (f # fs) s = bind_res (exec f s) (run_functors exec fs)"

definition swap_functors :: "('f, 'h) loop \<Rightarrow> 'f list \<times> ('f, 'h) loop" where
  "swap_functors lp =
     (m_pending_functors lp, lp\<lparr>m_calling_pending_functors := True, m_pending_functors := []\<rparr>)"

definition doPendingFunctors ::
  "('f \<Rightarrow> ('f, 'h) loop \<times> 'w \<Rightarrow> (('f, 'h) loop \<times> 'w) res) \<Rightarrow>
   ('f, 'h) loop \<times> 'w \<Rightarrow> (('f, 'h) loop \<times> 'w) res" where
  "doPendingFunctors exec s =
     (case swap_functors (fst s) of (functors, lp1) \<Rightarrow>
        bind_res (run_functors exec functors (lp1, snd s)) (\<lambda>(lp2, w).
        Inr (lp2\<lparr>m_calling_pending_functors := False\<rparr>, w)))"

subsection \<open>Timers\<close>

text \<open>
  \<open>TimerHeap::addTimer\<close>, behind \<open>runAfter\<close>: in the loop thread the timer is added at once, at time \<open>now\<close>;
  from another thread a functor \<open>add cb delay\<close> is queued. \<open>TimerHeap::handleRead\<close> queues the functor
  \<open>expire\<close>, which stands for \<open>handleTimeoutEvents\<close>.
\<close>

definition addTimer :: "('f \<Rightarrow> int \<Rightarrow> 'f) \<Rightarrow> nat \<Rightarrow> int \<Rightarrow> 'f \<Rightarrow> int \<Rightarrow> ('f, 'h) loop \<Rightarrow> ('f, 'h) loop" where
  "addTimer add tid now cb delay lp =
     (if isInLoopThread tid lp then lp\<lparr>m_timer_heap := addTimerInLoop now cb delay (m_timer_heap lp)\<rparr>
      else queueInLoop tid (add cb delay) lp)"

definition runAfter :: "('f \<Rightarrow> int \<Rightarrow> 'f) \<Rightarrow> nat \<Rightarrow> int \<Rightarrow> int \<Rightarrow> 'f \<Rightarrow> ('f, 'h) loop \<Rightarrow> ('f, 'h) loop" where
  "runAfter add tid now delay cb = addTimer add tid now cb delay"

definition timer_handleRead :: "'f \<Rightarrow> nat \<Rightarrow> ('f, 'h) loop \<Rightarrow> ('f, 'h) loop res" where
  "timer_handleRead expire tid lp =
     bind_res (assertInLoopThread tid lp) (\<lambda>_. Inr (queueInLoop tid expire lp))"

text \<open>
  The functor \<open>handleTimeoutEvents\<close>. A call back may change the loop and its timers; the loop looks at
  the heap it left. It need not end: a call back could add timers that are due at once.
\<close>

partial_function (option) run_timeouts_loop ::
  "('f \<Rightarrow> ('f, 'h) loop \<times> 'w \<Rightarrow> (('f, 'h) loop \<times> 'w) res) \<Rightarrow> int \<Rightarrow>
   ('f, 'h) loop \<times> 'w \<Rightarrow> (('f, 'h) loop \<times> 'w) res option" where
  "run_timeouts_loop exec now s =
     (case m_min_heap (m_timer_heap (fst s)) of
        [] \<Rightarrow> Some (Inr s)
      | t # ts \<Rightarrow>
          if m_expire_time t > now then Some (Inr s)
          else
            (case exec (m_cb t) s of
               Inl e \<Rightarrow> Some (Inl e)
             | Inr (lp, w) \<Rightarrow>
                 run_timeouts_loop exec now
                   (lp\<lparr>m_timer_heap := (m_timer_heap lp)\<lparr>m_min_heap := pop (m_min_heap (m_timer_heap lp))\<rparr>\<rparr>, w)))"

definition run_timeouts ::
  "('f \<Rightarrow> ('f, 'h) loop \<times> 'w \<Rightarrow> (('f, 'h) loop \<times> 'w) res) \<Rightarrow> int \<Rightarrow>
   ('f, 'h) loop \<times> 'w \<Rightarrow> (('f, 'h) loop \<times> 'w) res" where
  "run_timeouts exec now s =
     (case run_timeouts_loop exec now s of None \<Rightarrow> Inl Endless_Loop | Some r \<Rightarrow> r)"

subsection \<open>The constructor and the loop\<close>

definition blank_loop :: "nat \<Rightarrow> nat \<Rightarrow> ('f, 'h) loop" where
  "blank_loop lid tid =
     \<lparr>lp_id = lid, m_tid = tid, m_looping = False, m_quit = False,
      m_calling_pending_functors = False, m_loop_event_handling = False,
      m_epoll = new_epoll, m_active_channels = [], m_current_active_channel = None,
      m_timer_heap = new_timer_heap, m_pending_functors = [], m_wakeups = 0,
      lp_objects = Map.empty\<rparr>"

text \<open>
  The constructor: the timer heap registers its channel, then, unless the thread has a loop already,
  the wake up channel is registered. \<open>(a, fd, h)\<close> are the address, the descriptor and the read handler
  of a channel; \<open>u\<close> is the garbage in their uninitialised flag.
\<close>

definition add_reader :: "bool \<Rightarrow> nat \<Rightarrow> ctl_kernel \<Rightarrow> nat \<times> int \<times> 'h \<Rightarrow> ('f, 'h) loop \<Rightarrow> ('f, 'h) loop res" where
  "add_reader u tid kctl = (\<lambda>(a, fd, h) lp.
     enableReading tid kctl a (store_object a (setReadHandler h (new_channel u a (lp_id lp) fd)) lp))"

definition new_loop ::
  "bool \<Rightarrow> ctl_kernel \<Rightarrow> nat \<Rightarrow> nat \<Rightarrow> nat option \<Rightarrow> nat \<times> int \<times> 'h \<Rightarrow> nat \<times> int \<times> 'h \<Rightarrow> ('f, 'h) loop res" where
  "new_loop u kctl lid tid t_loopInThisThread timer_channel wakeup_channel =
     bind_res (add_reader u tid kctl timer_channel (blank_loop lid tid)) (\<lambda>lp.
     if t_loopInThisThread \<noteq> None then Inl Process_Abort
     else add_reader u tid kctl wakeup_channel lp)"

text \<open>The destructor, with the timer heap's (a member, so it is destroyed after the body).\<close>

definition remove_reader :: "nat \<Rightarrow> ctl_kernel \<Rightarrow> nat \<Rightarrow> ('f, 'h) loop \<Rightarrow> ('f, 'h) loop res" where
  "remove_reader tid kctl a lp =
     bind_res (disableAll tid kctl a lp) (\<lambda>lp1.
     bind_res (channel_remove tid kctl a lp1) (\<lambda>lp2.
     Inr (lp2\<lparr>lp_objects := (lp_objects lp2)(a := None)\<rparr>)))"

definition loop_dtor :: "nat \<Rightarrow> ctl_kernel \<Rightarrow> nat \<Rightarrow> nat \<Rightarrow> ('f, 'h) loop \<Rightarrow> ('f, 'h) loop res" where
  "loop_dtor tid kctl timer_channel wakeup_channel lp =
     bind_res (remove_reader tid kctl wakeup_channel lp) (remove_reader tid kctl timer_channel)"

definition mark_object :: "nat \<Rightarrow> bool \<Rightarrow> ('f, 'h) loop \<times> 'w \<Rightarrow> (('f, 'h) loop \<times> 'w) res" where
  "mark_object a b s =
     bind_res (object a (fst s)) (\<lambda>ch. Inr (store_object a (ch\<lparr>m_event_handling := b\<rparr>) (fst s), snd s))"

definition dispatch ::
  "('h \<Rightarrow> ('f, 'h) loop \<times> 'w \<Rightarrow> (('f, 'h) loop \<times> 'w) res) \<Rightarrow> nat \<Rightarrow>
   ('f, 'h) loop \<times> 'w \<Rightarrow> (('f, 'h) loop \<times> 'w) res" where
  "dispatch run a s =
     (let s1 = ((fst s)\<lparr>m_current_active_channel := Some a\<rparr>, snd s) in
      bind_res (object a (fst s1)) (\<lambda>ch. handleEvent run (mark_object a) ch s1))"

fun dispatch_all ::
  "('h \<Rightarrow> ('f, 'h) loop \<times> 'w \<Rightarrow> (('f, 'h) loop \<times> 'w) res) \<Rightarrow> nat list \<Rightarrow>
   ('f, 'h) loop \<times> 'w \<Rightarrow> (('f, 'h) loop \<times> 'w) res" where
  "dispatch_all run [] s = Inr s"
| "dispatch_all run (a # as) s = bind_res (dispatch run a s) (dispatch_all run as)"

text \<open>One turn of the loop, given the answer of \<open>epoll_wait\<close>.\<close>

definition loop_turn ::
  "('h \<Rightarrow> ('f, 'h) loop \<times> 'w \<Rightarrow> (('f, 'h) loop \<times> 'w) res) \<Rightarrow>
   ('f \<Rightarrow> ('f, 'h) loop \<times> 'w \<Rightarrow> (('f, 'h) loop \<times> 'w) res) \<Rightarrow> sys_wait \<Rightarrow>
   ('f, 'h) loop \<times> 'w \<Rightarrow> (('f, 'h) loop \<times> 'w) res" where
  "loop_turn run exec ans s =
     (let lp0 = fst s in
      bind_res (poll ans (lp_objects lp0) (m_epoll lp0) []) (\<lambda>(active, st, ep).
      let lp1 = lp0\<lparr>m_active_channels := active, lp_objects := st, m_epoll := ep, m_loop_event_handling := True\<rparr> in
      bind_res (dispatch_all run active (lp1, snd s)) (\<lambda>(lp2, w).
      doPendingFunctors exec
        (lp2\<lparr>m_current_active_channel := None, m_loop_event_handling := False\<rparr>, w))))"

fun loop_while ::
  "('h \<Rightarrow> ('f, 'h) loop \<times> 'w \<Rightarrow> (('f, 'h) loop \<times> 'w) res) \<Rightarrow>
   ('f \<Rightarrow> ('f, 'h) loop \<times> 'w \<Rightarrow> (('f, 'h) loop \<times> 'w) res) \<Rightarrow> sys_wait list \<Rightarrow>
   ('f, 'h) loop \<times> 'w \<Rightarrow> (('f, 'h) loop \<times> 'w) res" where
  "loop_while run exec [] s =
     (if m_quit (fst s) then Inr ((fst s)\<lparr>m_looping := False\<rparr>, snd s) else Inl Script_Exhausted)"
| "loop_while run exec (ans # as) s =
     (if m_quit (fst s) then Inr ((fst s)\<lparr>m_looping := False\<rparr>, snd s)
      else bind_res (loop_turn run exec ans s) (loop_while run exec as))"

definition loop_run ::
  "('h \<Rightarrow> ('f, 'h) loop \<times> 'w \<Rightarrow> (('f, 'h) loop \<times> 'w) res) \<Rightarrow>
   ('f \<Rightarrow> ('f, 'h) loop \<times> 'w \<Rightarrow> (('f, 'h) loop \<times> 'w) res) \<Rightarrow> nat \<Rightarrow> sys_wait list \<Rightarrow>
   ('f, 'h) loop \<times> 'w \<Rightarrow> (('f, 'h) loop \<times> 'w) res" where
  "loop_run run exec tid as s =
     bind_res (assertInLoopThread tid (fst s)) (\<lambda>_.
     loop_while run exec as ((fst s)\<lparr>m_looping := True, m_quit := False\<rparr>, snd s))"

end
