(* ===== verification/LoopRegistry.thy ===== *)
theory LoopRegistry
  imports EventLoop
begin

text \<open>
  What an event loop promises to the owners of channels.

  \<^item> \<open>loop_ok\<close>: the invariant of a loop and its channel objects; \<open>watched\<close>: the mask the kernel watches
    for a channel, the abstraction the clients reason with.
  \<^item> the locale \<open>event_registry\<close>: setting the mask of an owned channel returns, keeps the invariant and
    changes what is watched for this channel only; a channel that is not watched can be dropped.
    \<open>loop_registry\<close> interprets it on the model's \<open>set_events\<close> and \<open>channel_remove\<close>.
  \<^item> the properties of the channel operations, good and bad, follow.
\<close>

definition loop_ok :: "nat \<Rightarrow> ctl_kernel \<Rightarrow> ('f, 'h) loop \<Rightarrow> bool" where
  "loop_ok tid kctl lp \<longleftrightarrow> kernel_obeys kctl \<and> m_tid lp = tid \<and> epoll_inv (lp_objects lp) (m_epoll lp) \<and>
     (\<forall>a ch. lp_objects lp a = Some ch \<longrightarrow> m_loop ch = lp_id lp) \<and>
     (\<forall>a b ch ch'. lp_objects lp a = Some ch \<longrightarrow> lp_objects lp b = Some ch' \<longrightarrow> m_fd ch = m_fd ch' \<longrightarrow> a = b)"

definition watched :: "('f, 'h) loop \<Rightarrow> nat \<Rightarrow> 32 word option" where
  "watched lp a =
     (case lp_objects lp a of None \<Rightarrow> None | Some ch \<Rightarrow> map_option fst (interest (ctl_calls (m_epoll lp)) (m_fd ch)))"

text \<open>The index and the kernel's table after the mask of \<open>ch\<close> is set to \<open>ev\<close>.\<close>

definition index_after :: "'h channel \<Rightarrow> 32 word \<Rightarrow> int" where
  "index_after ch ev = (if m_index ch = kAdded \<and> ev = kNoneEvent then kDeleted else kAdded)"

definition watched_after :: "'h channel \<Rightarrow> 32 word \<Rightarrow> 32 word option" where
  "watched_after ch ev = (if index_after ch ev = kAdded then Some ev else None)"

lemma loop_okD:
  assumes "loop_ok tid kctl lp"
  shows "kernel_obeys kctl" "isInLoopThread tid lp" "epoll_inv (lp_objects lp) (m_epoll lp)"
    and "lp_objects lp a = Some ch \<Longrightarrow> m_loop ch = lp_id lp"
    and "lp_objects lp a = Some ch \<Longrightarrow> channel_ok (m_epoll lp) a ch"
    and "lp_objects lp a = Some ch \<Longrightarrow> fd_free (m_epoll lp) ch"
proof -
  show "kernel_obeys kctl" "isInLoopThread tid lp" and e: "epoll_inv (lp_objects lp) (m_epoll lp)"
    and "lp_objects lp a = Some ch \<Longrightarrow> m_loop ch = lp_id lp"
    using assms by (auto simp: loop_ok_def isInLoopThread_def)
  show "lp_objects lp a = Some ch \<Longrightarrow> channel_ok (m_epoll lp) a ch"
    using epoll_invD [OF e] .
  assume a: "lp_objects lp a = Some ch"
  show "fd_free (m_epoll lp) ch" unfolding fd_free_def
  proof (intro impI, rule ccontr)
    assume n: "m_index ch = kNew" "m_channels (m_epoll lp) (m_fd ch) \<noteq> None"
    then obtain b ch' where b: "lp_objects lp b = Some ch'" "m_fd ch' = m_fd ch" "m_index ch' \<noteq> kNew"
      using e unfolding epoll_inv_def by blast
    then have "a = b" using assms a unfolding loop_ok_def by metis
    with a b n show False by simp
  qed
qed

lemma object_simps [simp]:
  "lp_objects lp a = Some ch \<Longrightarrow> object a lp = Inr ch"
  "lp_objects (store_object a ch lp) = (lp_objects lp)(a \<mapsto> ch)"
  "object a (store_object a ch lp) = Inr ch"
  "m_epoll (store_object a ch lp) = m_epoll lp" "m_tid (store_object a ch lp) = m_tid lp"
  "lp_id (store_object a ch lp) = lp_id lp"
  by (simp_all add: object_def store_object_def)

lemma in_loop_simps [simp]: "isInLoopThread tid lp \<Longrightarrow> assertInLoopThread tid lp = Inr ()"
  by (simp add: assertInLoopThread_def)

text \<open>The state after a mask was set.\<close>

definition with_mask :: "nat \<Rightarrow> 'h channel \<Rightarrow> 32 word \<Rightarrow> epoll \<Rightarrow> ('f, 'h) loop \<Rightarrow> ('f, 'h) loop" where
  "with_mask a ch ev ep lp =
     lp\<lparr>m_epoll := ep, lp_objects := (lp_objects lp)(a \<mapsto> ch\<lparr>m_events := ev, m_index := index_after ch ev\<rparr>)\<rparr>"

lemma with_mask_simps [simp]:
  "m_epoll (with_mask a ch ev ep lp) = ep"
  "lp_objects (with_mask a ch ev ep lp) = (lp_objects lp)(a \<mapsto> ch\<lparr>m_events := ev, m_index := index_after ch ev\<rparr>)"
  "lp_id (with_mask a ch ev ep lp) = lp_id lp" "m_tid (with_mask a ch ev ep lp) = m_tid lp"
  "m_loop_event_handling (with_mask a ch ev ep lp) = m_loop_event_handling lp"
  by (simp_all add: with_mask_def)

lemma set_events_law:
  assumes ok: "loop_ok tid kctl lp" and a: "lp_objects lp a = Some ch"
  shows "\<exists>ep. set_events f tid kctl a lp = Inr (with_mask a ch (f ch) ep lp) \<and>
    loop_ok tid kctl (with_mask a ch (f ch) ep lp) \<and>
    watched (with_mask a ch (f ch) ep lp) = (watched lp)(a := watched_after ch (f ch))"
proof -
  let ?st = "lp_objects lp" and ?ev = "f ch"
  note D = loop_okD [OF ok]
  obtain ch' ep where u: "epoll_updateChannel kctl (ch\<lparr>m_events := ?ev\<rparr>) (m_epoll lp) = Inr (ch', ep)"
    and inv: "epoll_inv (?st(a \<mapsto> ch')) ep"
    and ch': "ch' = ch\<lparr>m_events := ?ev, m_index := index_after ch ?ev\<rparr>"
    and here: "interest (ctl_calls ep) (m_fd ch) =
      (if m_index ch = kAdded \<and> ?ev = kNoneEvent then None else Some (?ev, a))"
    and there: "\<forall>fd. fd \<noteq> m_fd ch \<longrightarrow> interest (ctl_calls ep) fd = interest (ctl_calls (m_epoll lp)) fd"
    using epoll_updateChannel_law [OF D(1,3) a D(6) [OF a], of ?ev] by (auto simp: index_after_def)
  let ?lp = "with_mask a ch ?ev ep lp"
  have run: "set_events f tid kctl a lp = Inr ?lp"
    using a u ch' D(2) D(4) [OF a]
    by (simp add: set_events_def updateChannel_def isInLoopThread_def assertInLoopThread_def)
       (simp add: store_object_def with_mask_def)
  have fds: "m_fd c = m_fd ch \<Longrightarrow> ?st b = Some c \<Longrightarrow> b = a" for b c
    using ok a unfolding loop_ok_def by metis
  have "loop_ok tid kctl ?lp" unfolding loop_ok_def
  proof (intro conjI allI impI)
    show "kernel_obeys kctl" "m_tid ?lp = tid" using ok by (simp_all add: loop_ok_def)
    show "epoll_inv (lp_objects ?lp) (m_epoll ?lp)" using inv ch' by simp
    show "m_loop c = lp_id ?lp" if "lp_objects ?lp b = Some c" for b c
      using that D(4) [OF a] D(4) [of b c] by (auto split: if_splits)
    fix b b' c c' assume 1: "lp_objects ?lp b = Some c" "lp_objects ?lp b' = Some c'" "m_fd c = m_fd c'"
    obtain d d' where "?st b = Some d" "?st b' = Some d'" "m_fd d = m_fd c" "m_fd d' = m_fd c'"
      using 1(1,2) a by (auto split: if_splits)
    with 1(3) ok show "b = b'" unfolding loop_ok_def by metis
  qed
  moreover have "watched ?lp = (watched lp)(a := watched_after ch ?ev)"
  proof
    fix b
    show "watched ?lp b = ((watched lp)(a := watched_after ch ?ev)) b"
    proof (cases "b = a")
      case True
      then show ?thesis using here by (simp add: watched_def watched_after_def index_after_def index_defs)
    next
      case False
      then have "m_fd c \<noteq> m_fd ch" if "?st b = Some c" for c using that fds by blast
      with False show ?thesis using there by (simp add: watched_def split: option.splits)
    qed
  qed
  ultimately show ?thesis using run by blast
qed

subsection \<open>The interface\<close>

text \<open>
  A registry of event sources, addressed by keys. \<open>watch a ev\<close> sets the mask of \<open>a\<close>, \<open>drop a\<close> takes
  \<open>a\<close> out. \<open>owns s a\<close>: the registry has the source \<open>a\<close>; \<open>view s a\<close>: what is watched for it.
\<close>

text \<open>A sequence of mask changes, and what it leaves watched.\<close>

fun watch_all :: "(nat \<Rightarrow> 32 word \<Rightarrow> 's \<Rightarrow> 's res) \<Rightarrow> (nat \<times> 32 word) list \<Rightarrow> 's \<Rightarrow> 's res" where
  "watch_all watch [] s = Inr s"
| "watch_all watch ((a, ev) # ws) s = bind_res (watch a ev s) (watch_all watch ws)"

fun masks_after :: "(nat \<times> 32 word) list \<Rightarrow> (nat \<Rightarrow> 32 word option) \<Rightarrow> nat \<Rightarrow> 32 word option" where
  "masks_after [] v = v"
| "masks_after ((a, ev) # ws) v = masks_after ws (v(a \<mapsto> ev))"

lemma masks_after_one: "evs \<noteq> [] \<Longrightarrow> masks_after (map (Pair a) evs) v = v(a \<mapsto> last evs)"
  by (induction evs arbitrary: v) (auto simp: neq_Nil_conv)

locale event_masks =
  fixes ok :: "'s \<Rightarrow> bool"
    and owns :: "'s \<Rightarrow> nat \<Rightarrow> bool"
    and view :: "'s \<Rightarrow> nat \<Rightarrow> 32 word option"
    and watch :: "nat \<Rightarrow> 32 word \<Rightarrow> 's \<Rightarrow> 's res"
  assumes watch_law: "ok s \<Longrightarrow> owns s a \<Longrightarrow> ev \<noteq> kNoneEvent \<or> view s a \<noteq> None \<Longrightarrow>
      \<exists>s'. watch a ev s = Inr s' \<and> ok s' \<and> owns s' = owns s \<and>
        view s' = (view s)(a := if ev = kNoneEvent then None else Some ev)"
begin

lemma watch_all_law:
  "ok s \<Longrightarrow> \<forall>(a, ev) \<in> set ws. owns s a \<and> ev \<noteq> kNoneEvent \<Longrightarrow>
    \<exists>s'. watch_all watch ws s = Inr s' \<and> ok s' \<and> owns s' = owns s \<and> view s' = masks_after ws (view s)"
proof (induction ws arbitrary: s)
  case Nil
  then show ?case by simp
next
  case (Cons w ws)
  obtain a ev where w: "w = (a, ev)" by (cases w)
  with Cons.prems have "owns s a" "ev \<noteq> kNoneEvent" by auto
  with watch_law [OF Cons.prems(1), of a ev] obtain t where
    t: "watch a ev s = Inr t" "ok t" "owns t = owns s" "view t = (view s)(a \<mapsto> ev)"
    by auto
  from Cons.prems(2) t(3) have "\<forall>(a, ev) \<in> set ws. owns t a \<and> ev \<noteq> kNoneEvent" by simp
  from Cons.IH [OF t(2) this] t w show ?case by (simp del: fun_upd_apply)
qed

end

text \<open>
  Sources that are switched off can be dropped while the registry is quiet (not dispatching events).
\<close>

locale event_registry = event_masks +
  fixes quiet :: "'s \<Rightarrow> bool"
    and drop_source :: "nat \<Rightarrow> 's \<Rightarrow> 's res"
  assumes watch_quiet: "ok s \<Longrightarrow> owns s a \<Longrightarrow> watch a ev s = Inr t \<Longrightarrow> quiet t = quiet s"
    and drop_law: "ok s \<Longrightarrow> quiet s \<Longrightarrow> owns s a \<Longrightarrow> view s a \<noteq> None \<Longrightarrow> watch a kNoneEvent s = Inr t \<Longrightarrow>
      \<exists>t'. drop_source a t = Inr t' \<and> ok t' \<and> quiet t' \<and> owns t' = owns s \<and> view t' = (view s)(a := None)"
begin

lemma watch_all_quiet:
  "ok s \<Longrightarrow> \<forall>(a, ev) \<in> set ws. owns s a \<and> ev \<noteq> kNoneEvent \<Longrightarrow> watch_all watch ws s = Inr t \<Longrightarrow> quiet t = quiet s"
proof (induction ws arbitrary: s)
  case Nil
  then show ?case by simp
next
  case (Cons w ws)
  obtain a ev where w: "w = (a, ev)" by (cases w)
  with Cons.prems have a: "owns s a" "ev \<noteq> kNoneEvent" by auto
  with watch_law [OF Cons.prems(1), of a ev] obtain u where u: "watch a ev s = Inr u" "ok u" "owns u = owns s" by auto
  from Cons.prems(2) u(3) have "\<forall>(a, ev) \<in> set ws. owns u a \<and> ev \<noteq> kNoneEvent" by simp
  from Cons.IH [OF u(2) this] watch_quiet [OF Cons.prems(1) a(1) u(1)] Cons.prems(3) u(1) w show ?case by simp
qed

text \<open>The life of a source: watched with some masks, switched off, dropped. All other sources are as before.\<close>

lemma life_of_a_source:
  assumes "ok s" "quiet s" "owns s a" "evs \<noteq> []" "kNoneEvent \<notin> set evs"
  shows "\<exists>t. bind_res (watch_all watch (map (Pair a) evs) s)
      (\<lambda>s1. bind_res (watch a kNoneEvent s1) (drop_source a)) = Inr t \<and>
    ok t \<and> quiet t \<and> owns t = owns s \<and> view t = (view s)(a := None)"
proof -
  have ws: "\<forall>(b, ev) \<in> set (map (Pair a) evs). owns s b \<and> ev \<noteq> kNoneEvent" using assms by auto
  from watch_all_law [OF assms(1) ws] assms(4) obtain s1 where
    s1: "watch_all watch (map (Pair a) evs) s = Inr s1" "ok s1" "owns s1 = owns s" "view s1 = (view s)(a \<mapsto> last evs)"
    by (auto simp: masks_after_one simp del: fun_upd_apply)
  have q: "quiet s1" using watch_all_quiet [OF assms(1) ws s1(1)] assms(2) by simp
  from watch_law [OF s1(2), of a kNoneEvent] s1(3,4) assms(3) obtain s2 where
    s2: "watch a kNoneEvent s1 = Inr s2" by auto
  from drop_law [OF s1(2) q _ _ s2] s1(3,4) assms(3) obtain t where
    t: "drop_source a s2 = Inr t" "ok t" "quiet t" "owns t = owns s1" "view t = (view s1)(a := None)" by auto
  have "view t = (view s)(a := None)" using t(5) s1(4) by simp
  with s1 s2 t show ?thesis by simp
qed

end

subsection \<open>The loop implements it\<close>

lemma watched_iff_added:
  assumes "loop_ok tid kctl lp" "lp_objects lp a = Some ch"
  shows "watched lp a = (if m_index ch = kAdded then Some (m_events ch) else None)"
proof (cases "m_index ch = kAdded")
  case True
  with loop_okD(5) [OF assms] assms(2) show ?thesis by (simp add: watched_def channel_ok_def)
next
  case False
  have "interest (ctl_calls (m_epoll lp)) (m_fd ch) = None"
  proof (rule ccontr)
    assume "interest (ctl_calls (m_epoll lp)) (m_fd ch) \<noteq> None"
    then obtain msk p where "interest (ctl_calls (m_epoll lp)) (m_fd ch) = Some (msk, p)" by auto
    from interest_alive [OF loop_okD(3) [OF assms(1)] this] obtain c where
      "lp_objects lp p = Some c" "m_fd c = m_fd ch" "m_index c = kAdded" by blast
    with assms False show False unfolding loop_ok_def by (metis option.inject)
  qed
  with False assms(2) show ?thesis by (simp add: watched_def)
qed

lemma watched_after_eq:
  assumes "loop_ok tid kctl lp" "lp_objects lp a = Some ch" "ev \<noteq> kNoneEvent \<or> watched lp a \<noteq> None"
  shows "watched_after ch ev = (if ev = kNoneEvent then None else Some ev)"
  using assms watched_iff_added [OF assms(1,2)]
  by (auto simp: watched_after_def index_after_def index_defs split: if_splits)

lemma channel_remove_law:
  assumes ok: "loop_ok tid kctl lp" and a: "lp_objects lp a = Some ch"
    and ch: "m_index ch = kDeleted" "m_events ch = kNoneEvent" and q: "\<not> m_loop_event_handling lp"
  shows "\<exists>ep. channel_remove tid kctl a lp =
      Inr (lp\<lparr>m_epoll := ep, lp_objects := (lp_objects lp)(a \<mapsto> ch\<lparr>m_index := kNew\<rparr>)\<rparr>) \<and>
    loop_ok tid kctl (lp\<lparr>m_epoll := ep, lp_objects := (lp_objects lp)(a \<mapsto> ch\<lparr>m_index := kNew\<rparr>)\<rparr>) \<and>
    ctl_calls ep = ctl_calls (m_epoll lp)"
proof -
  note D = loop_okD [OF ok]
  from epoll_removeChannel_law [OF D(3) a ch, of kctl] obtain ep where
    r: "epoll_removeChannel kctl ch (m_epoll lp) = Inr (ch\<lparr>m_index := kNew\<rparr>, ep)"
    and inv: "epoll_inv ((lp_objects lp)(a \<mapsto> ch\<lparr>m_index := kNew\<rparr>)) ep"
    and calls: "ctl_calls ep = ctl_calls (m_epoll lp)" by blast
  let ?lp = "lp\<lparr>m_epoll := ep, lp_objects := (lp_objects lp)(a \<mapsto> ch\<lparr>m_index := kNew\<rparr>)\<rparr>"
  have same: "ch\<lparr>m_index := kDeleted\<rparr> = ch" using ch(1) by (cases ch) simp
  have st: "store_object a ch lp = lp" using a by (cases lp) (auto simp: store_object_def)
  have "channel_remove tid kctl a lp = Inr ?lp"
    using a r q D(2) D(4) [OF a] by (simp add: channel_remove_def same st removeChannel_def) (simp add: store_object_def)
  moreover have "loop_ok tid kctl ?lp" unfolding loop_ok_def
  proof (intro conjI allI impI)
    show "kernel_obeys kctl" "m_tid ?lp = tid" using ok by (simp_all add: loop_ok_def)
    show "epoll_inv (lp_objects ?lp) (m_epoll ?lp)" using inv by simp
    show "m_loop c = lp_id ?lp" if "lp_objects ?lp b = Some c" for b c
      using that D(4) [OF a] D(4) [of b c] by (auto split: if_splits)
    fix b b' c c' assume 1: "lp_objects ?lp b = Some c" "lp_objects ?lp b' = Some c'" "m_fd c = m_fd c'"
    obtain d d' where "lp_objects lp b = Some d" "lp_objects lp b' = Some d'" "m_fd d = m_fd c" "m_fd d' = m_fd c'"
      using 1(1,2) a by (auto split: if_splits)
    with 1(3) ok show "b = b'" unfolding loop_ok_def by metis
  qed
  ultimately show ?thesis using calls by blast
qed

definition owned :: "('f, 'h) loop \<Rightarrow> nat \<Rightarrow> bool" where
  "owned lp a \<longleftrightarrow> lp_objects lp a \<noteq> None"

definition idle :: "('f, 'h) loop \<Rightarrow> bool" where
  "idle lp \<longleftrightarrow> \<not> m_loop_event_handling lp"

definition set_mask :: "nat \<Rightarrow> ctl_kernel \<Rightarrow> nat \<Rightarrow> 32 word \<Rightarrow> ('f, 'h) loop \<Rightarrow> ('f, 'h) loop res" where
  "set_mask tid kctl a ev = set_events (\<lambda>ch. ev) tid kctl a"

lemma set_mask_law:
  assumes "loop_ok tid kctl lp" "owned lp a" "ev \<noteq> kNoneEvent \<or> watched lp a \<noteq> None"
  shows "\<exists>lp'. set_mask tid kctl a ev lp = Inr lp' \<and> loop_ok tid kctl lp' \<and> owned lp' = owned lp \<and>
    watched lp' = (watched lp)(a := if ev = kNoneEvent then None else Some ev)"
proof -
  from assms(2) obtain ch where ch: "lp_objects lp a = Some ch" by (auto simp: owned_def)
  from set_events_law [OF assms(1) ch, of "\<lambda>_. ev"] watched_after_eq [OF assms(1) ch assms(3)] ch
  show ?thesis by (auto simp: set_mask_def owned_def fun_eq_iff)
qed

interpretation loop_registry: event_registry "loop_ok tid kctl" owned watched "set_mask tid kctl" idle "channel_remove tid kctl"
  for tid kctl
proof
  fix s :: "('a, 'b) loop" and a ev
  assume "loop_ok tid kctl s" "owned s a" "ev \<noteq> kNoneEvent \<or> watched s a \<noteq> None"
  then show "\<exists>s'. set_mask tid kctl a ev s = Inr s' \<and> loop_ok tid kctl s' \<and> owned s' = owned s \<and>
      watched s' = (watched s)(a := if ev = kNoneEvent then None else Some ev)"
    by (rule set_mask_law)
next
  fix s t :: "('a, 'b) loop" and a ev
  assume "loop_ok tid kctl s" "owned s a" "set_mask tid kctl a ev s = Inr t"
  moreover from this obtain ch where "lp_objects s a = Some ch" by (auto simp: owned_def)
  ultimately show "idle t = idle s"
    using set_events_law [of tid kctl s a ch "\<lambda>_. ev"] by (auto simp: set_mask_def idle_def)
next
  fix s t :: "('a, 'b) loop" and a
  assume s: "loop_ok tid kctl s" "idle s" "owned s a" "watched s a \<noteq> None" "set_mask tid kctl a kNoneEvent s = Inr t"
  then obtain ch where ch: "lp_objects s a = Some ch" by (auto simp: owned_def)
  from set_events_law [OF s(1) ch, of "\<lambda>_. kNoneEvent"] s(5) obtain ep where
    t: "t = with_mask a ch kNoneEvent ep s" "loop_ok tid kctl t"
       "watched t = (watched s)(a := watched_after ch kNoneEvent)" by (auto simp: set_mask_def)
  have i: "index_after ch kNoneEvent = kDeleted"
    using watched_iff_added [OF s(1) ch] s(4) by (auto simp: index_after_def split: if_splits)
  from channel_remove_law [OF t(2), of a "ch\<lparr>m_events := kNoneEvent, m_index := kDeleted\<rparr>"] t(1) i s(2)
  obtain ep' where r: "channel_remove tid kctl a t = Inr (t\<lparr>m_epoll := ep', lp_objects := (lp_objects t)
        (a \<mapsto> ch\<lparr>m_events := kNoneEvent, m_index := kNew\<rparr>)\<rparr>)"
      "loop_ok tid kctl (t\<lparr>m_epoll := ep', lp_objects := (lp_objects t)
        (a \<mapsto> ch\<lparr>m_events := kNoneEvent, m_index := kNew\<rparr>)\<rparr>)"
      "ctl_calls ep' = ctl_calls (m_epoll t)" by (auto simp: idle_def)
  have "watched (t\<lparr>m_epoll := ep', lp_objects := (lp_objects t)(a \<mapsto> ch\<lparr>m_events := kNoneEvent, m_index := kNew\<rparr>)\<rparr>) = watched t"
    using r(3) t(1) by (auto simp: watched_def fun_eq_iff split: option.splits)
  moreover have "watched t = (watched s)(a := None)"
    using t(3) i by (simp add: watched_after_def index_defs)
  ultimately show "\<exists>t'. channel_remove tid kctl a t = Inr t' \<and> loop_ok tid kctl t' \<and> idle t' \<and> owned t' = owned s \<and>
      watched t' = (watched s)(a := None)"
    using r t(1) s(2) ch by (auto simp: idle_def owned_def fun_eq_iff)
qed

subsection \<open>The channel operations\<close>

definition set_reader_or_writer :: "nat \<Rightarrow> ctl_kernel \<Rightarrow> nat \<Rightarrow> 32 word \<Rightarrow> ('f, 'h) loop \<Rightarrow> ('f, 'h) loop res" where
  "set_reader_or_writer tid kctl a ev = (if ev = kReadEvent then enableReading tid kctl a else enableWriting tid kctl a)"

lemma set_reader_or_writer_mask:
  "ev \<in> {kReadEvent, kWriteEvent} \<Longrightarrow> set_reader_or_writer tid kctl a ev = set_mask tid kctl a ev"
  by (auto simp: set_reader_or_writer_def set_mask_def enableReading_def enableWriting_def mask_values)

lemma watch_all_cong:
  "\<forall>(a, ev) \<in> set ws. f a ev = g a ev \<Longrightarrow> watch_all f ws s = watch_all g ws s"
proof (induction ws arbitrary: s)
  case (Cons w ws)
  then show ?case by (cases w) (simp add: bind_res_def split: sum.split)
qed simp

lemma disableAll_mask: "disableAll tid kctl a = set_mask tid kctl a kNoneEvent"
  by (simp add: disableAll_def set_mask_def)

text \<open>C13: the channel operations keep the program and the kernel in step. On a loop whose channels are
  coherent, any sequence of \<open>enableReading\<close> and \<open>enableWriting\<close> on its channels, in the loop's thread and
  with a kernel that accepts legal calls, runs without an abort, keeps the loop coherent, and leaves the
  kernel watching each channel with exactly the mask that was set last, and every other as before.\<close>

theorem channel_masks_watched:
  assumes "loop_ok tid kctl lp" "\<forall>(a, ev) \<in> set ws. owned lp a \<and> ev \<in> {kReadEvent, kWriteEvent}"
  shows "\<exists>lp'. watch_all (set_reader_or_writer tid kctl) ws lp = Inr lp' \<and> loop_ok tid kctl lp' \<and>
    watched lp' = masks_after ws (watched lp)"
proof -
  have "watch_all (set_reader_or_writer tid kctl) ws lp = watch_all (set_mask tid kctl) ws lp"
    using assms(2) by (intro watch_all_cong) (auto simp: set_reader_or_writer_mask)
  moreover have "\<forall>(a, ev) \<in> set ws. owned lp a \<and> ev \<noteq> kNoneEvent"
    using assms(2) by (fastforce simp: mask_values kNoneEvent_def)
  ultimately show ?thesis using loop_registry.watch_all_law [OF assms(1)] by metis
qed

text \<open>A loop of thread 1 with one channel object, on descriptor 7, at address 9.\<close>

definition demo_loop :: "(nat, nat) loop" where
  "demo_loop = store_object 9 (new_channel False 9 5 7) (blank_loop 5 1)"

lemma demo_loop_ok: "loop_ok 1 documented_kernel demo_loop" "owned demo_loop 9" "idle demo_loop" "watched demo_loop = Map.empty"
proof -
  have "epoll_inv (Map.empty(9 \<mapsto> new_channel False 9 5 7 :: nat channel)) new_epoll"
    by (rule epoll_inv_new_channel [OF epoll_inv_new]) simp
  then show "loop_ok 1 documented_kernel demo_loop" "owned demo_loop 9" "idle demo_loop" "watched demo_loop = Map.empty"
    by (auto simp: loop_ok_def demo_loop_def blank_loop_def store_object_def owned_def idle_def watched_def fun_eq_iff
        new_epoll_def new_channel_def split: if_splits)
qed

theorem channel_masks_watched_witness:
  "\<exists>lp'. watch_all (set_reader_or_writer 1 documented_kernel) [(9, kReadEvent), (9, kWriteEvent)] demo_loop = Inr lp' \<and>
    watched lp' 9 = Some kWriteEvent"
  using channel_masks_watched [OF demo_loop_ok(1), of "[(9, kReadEvent), (9, kWriteEvent)]"] demo_loop_ok(2)
  by auto

text \<open>A channel that is switched off before it is removed leaves no trace. After any masks,
  \<open>disableAll\<close> followed by \<open>remove\<close>, outside of event dispatch, returns; the kernel no longer watches the
  channel, all others are watched as before, and the loop stays coherent, so the object may be freed.\<close>

theorem channel_disabled_then_removed:
  assumes "loop_ok tid kctl lp" "idle lp" "owned lp a" "evs \<noteq> []" "set evs \<subseteq> {kReadEvent, kWriteEvent}"
  shows "\<exists>lp'. bind_res (watch_all (set_reader_or_writer tid kctl) (map (Pair a) evs) lp)
      (\<lambda>lp1. bind_res (disableAll tid kctl a lp1) (channel_remove tid kctl a)) = Inr lp' \<and>
    loop_ok tid kctl lp' \<and> watched lp' = (watched lp)(a := None)"
proof -
  have "watch_all (set_reader_or_writer tid kctl) (map (Pair a) evs) lp = watch_all (set_mask tid kctl) (map (Pair a) evs) lp"
    using assms(5) by (intro watch_all_cong) (auto simp: set_reader_or_writer_mask)
  moreover have "kNoneEvent \<notin> set evs" using assms(5) by (auto simp: kNoneEvent_def mask_values)
  ultimately show ?thesis
    using loop_registry.life_of_a_source [OF assms(1-4)] by (auto simp: disableAll_mask)
qed

theorem channel_disabled_then_removed_witness:
  "\<exists>lp'. bind_res (watch_all (set_reader_or_writer 1 documented_kernel) [(9, kReadEvent)] demo_loop)
      (\<lambda>lp1. bind_res (disableAll 1 documented_kernel 9 lp1) (channel_remove 1 documented_kernel 9)) = Inr lp' \<and>
    loop_ok 1 documented_kernel lp' \<and> watched lp' 9 = None"
  using channel_disabled_then_removed [OF demo_loop_ok(1,3,2), of "[kReadEvent]"] by auto

text \<open>C36: \<open>Channel::remove\<close> on a channel that is still switched on. It marks the channel \<open>kDeleted\<close> before the
  poller looks at it, and the poller, seeing the mask, does nothing: the kernel keeps watching the channel
  and the map keeps its address. The next \<open>enableReading\<close> then asks the kernel to add a descriptor it
  already has, which aborts the server.\<close>

theorem remove_while_watched:
  assumes "loop_ok tid kctl lp" "kernel_rejects kctl" "idle lp" "lp_objects lp a = Some ch" "watched lp a = Some ev"
    and "ev \<noteq> kNoneEvent"
  shows "\<exists>lp'. channel_remove tid kctl a lp = Inr lp' \<and> watched lp' a = Some ev \<and>
    m_channels (m_epoll lp') (m_fd ch) = Some a \<and> enableReading tid kctl a lp' = Inl Process_Abort"
proof -
  note D = loop_okD [OF assms(1)]
  have ch: "m_index ch = kAdded" "m_events ch = ev"
    using watched_iff_added [OF assms(1,4)] assms(5) by (auto split: if_splits)
  have on: "m_channels (m_epoll lp) (m_fd ch) = Some a" "interest (ctl_calls (m_epoll lp)) (m_fd ch) = Some (ev, a)" "m_id ch = a"
    using D(5) [OF assms(4)] ch by (auto simp: channel_ok_def)
  let ?lp = "store_object a (ch\<lparr>m_index := kDeleted\<rparr>) lp"
  have "channel_remove tid kctl a lp = Inr ?lp"
    using assms(3,4,6) D(2) D(4) [OF assms(4)] ch
    by (simp add: channel_remove_def removeChannel_def idle_def isInLoopThread_def assertInLoopThread_def epoll_removeChannel_busy)
       (simp add: store_object_def epoll_removeChannel_busy)
  moreover have "\<not> kctl calls c" if "\<not> ctl_legal (interest calls) c" for calls c
    using assms(2) that by (simp add: kernel_rejects_def)
  then have "enableReading tid kctl a ?lp = Inl Process_Abort"
    using D(2) D(4) [OF assms(4)] on
    by (simp add: enableReading_def set_events_def updateChannel_def epoll_updateChannel_def epoll_update_def Let_def
        ctl_legal_def index_defs isInLoopThread_def assertInLoopThread_def)
  ultimately show ?thesis using on by (simp add: watched_def)
qed

theorem remove_while_watched_witness:
  "\<exists>lp lp' :: (nat, nat) loop. loop_ok 1 documented_kernel lp \<and> channel_remove 1 documented_kernel 9 lp = Inr lp' \<and>
    enableReading 1 documented_kernel 9 lp' = Inl Process_Abort"
proof -
  have o: "lp_objects demo_loop 9 = Some (new_channel False 9 5 7)" by (simp add: demo_loop_def)
  from set_events_law [OF demo_loop_ok(1) o, of "\<lambda>_. kReadEvent"] obtain ep where
    ok: "loop_ok 1 documented_kernel (with_mask 9 (new_channel False 9 5 7) kReadEvent ep demo_loop)" by blast
  let ?lp = "with_mask 9 (new_channel False 9 5 7) kReadEvent ep demo_loop"
  let ?ch = "(new_channel False 9 5 7)\<lparr>m_events := kReadEvent, m_index := kAdded\<rparr> :: nat channel"
  have ch: "lp_objects ?lp 9 = Some ?ch"
    by (simp add: index_after_def)
  have "watched ?lp 9 = Some kReadEvent" using watched_iff_added [OF ok ch] by simp
  from remove_while_watched [OF ok documented_kernel_ok(2) _ ch this] demo_loop_ok(3) ok
  show ?thesis by (auto simp: idle_def)
qed

text \<open>No handler can remove a channel. While the loop dispatches, the current channel is one of the
  active ones, and then \<open>removeChannel\<close> aborts the server whatever channel it is called for: the check asks
  that the channel be the current one and not among the active ones, which never holds together.\<close>

theorem remove_in_handler_aborts:
  assumes "m_loop_event_handling lp" "m_current_active_channel lp = Some a" "a \<in> set (m_active_channels lp)"
    and "owned lp b" "loop_ok tid kctl lp"
  shows "channel_remove tid kctl b lp = Inl Process_Abort"
proof -
  from assms(4) obtain ch where ch: "lp_objects lp b = Some ch" by (auto simp: owned_def)
  from loop_okD [OF assms(5)] ch assms(1-3) show ?thesis
    by (auto simp: channel_remove_def removeChannel_def isInLoopThread_def assertInLoopThread_def store_object_def)
qed

theorem remove_in_handler_aborts_witness:
  "channel_remove 1 documented_kernel 9
    (demo_loop\<lparr>m_loop_event_handling := True, m_active_channels := [9], m_current_active_channel := Some 9\<rparr>) = Inl Process_Abort"
  by (rule remove_in_handler_aborts [where a = 9])
     (use demo_loop_ok(1,2) in \<open>simp_all add: owned_def loop_ok_def\<close>)

text \<open>Two masks do not do what their names say. \<open>disableWriting\<close> clears the bits of \<open>kNoneEvent\<close>, which
  has none, so it leaves the mask as it is; and \<open>isWriting\<close> is true of a channel that only reads, because
  both masks hold \<open>EPOLLET\<close>.\<close>

theorem disableWriting_isWriting:
  assumes "loop_ok tid kctl lp" "lp_objects lp a = Some ch"
  shows "(\<exists>lp' ch'. disableWriting tid kctl a lp = Inr lp' \<and> lp_objects lp' a = Some ch' \<and> m_events ch' = m_events ch) \<and>
    (\<exists>lp' ch'. enableReading tid kctl a lp = Inr lp' \<and> lp_objects lp' a = Some ch' \<and> isWriting ch' \<and>
      m_events ch' AND EPOLLOUT = 0)"
proof
  have "m_events c AND NOT kNoneEvent = m_events c" for c :: "'c channel" by (simp add: kNoneEvent_def)
  with set_events_law [OF assms, of "\<lambda>c. m_events c AND NOT kNoneEvent"]
  show "\<exists>lp' ch'. disableWriting tid kctl a lp = Inr lp' \<and> lp_objects lp' a = Some ch' \<and> m_events ch' = m_events ch"
    by (auto simp: disableWriting_def)
  from set_events_law [OF assms, of "\<lambda>_. kReadEvent"]
  show "\<exists>lp' ch'. enableReading tid kctl a lp = Inr lp' \<and> lp_objects lp' a = Some ch' \<and> isWriting ch' \<and>
      m_events ch' AND EPOLLOUT = 0"
    by (auto simp: enableReading_def isWriting_def mask_values EPOLLOUT_def)
qed

theorem disableWriting_isWriting_witness:
  "\<exists>lp' ch'. enableReading 1 documented_kernel 9 demo_loop = Inr lp' \<and> lp_objects lp' 9 = Some ch' \<and> isWriting ch'"
  using disableWriting_isWriting [OF demo_loop_ok(1), of 9 "new_channel False 9 5 7"] by (auto simp: demo_loop_def)

subsection \<open>Construction and destruction of a loop\<close>

definition fd_used :: "('f, 'h) loop \<Rightarrow> int \<Rightarrow> bool" where
  "fd_used lp fd \<longleftrightarrow> (\<exists>a ch. lp_objects lp a = Some ch \<and> m_fd ch = fd)"

lemma fd_used_upd:
  "lp_objects lp a = None \<Longrightarrow> lp_objects lp' = (lp_objects lp)(a \<mapsto> c) \<Longrightarrow>
    fd_used lp' fd \<longleftrightarrow> fd = m_fd c \<or> fd_used lp fd"
  by (auto simp: fd_used_def) (metis option.distinct(1))

lemma store_new_channel_ok:
  assumes ok: "loop_ok tid kctl lp" and "lp_objects lp a = None" "\<not> fd_used lp fd"
    and c: "c = (new_channel u a (lp_id lp) fd)\<lparr>m_read_handler := h\<rparr>"
  shows "loop_ok tid kctl (store_object a c lp)"
proof -
  note D = loop_okD [OF ok]
  have "epoll_inv ((lp_objects lp)(a \<mapsto> new_channel u a (lp_id lp) fd)) (m_epoll lp)"
    by (rule epoll_inv_new_channel [OF D(3) assms(2)])
  from epoll_inv_same [OF this, of a "new_channel u a (lp_id lp) fd" c] c
  have "epoll_inv ((lp_objects lp)(a \<mapsto> c)) (m_epoll lp)" by simp
  moreover have "m_fd d \<noteq> fd" if "lp_objects lp b = Some d" for b d
    using assms(3) that by (auto simp: fd_used_def)
  moreover have "m_loop d = lp_id lp" if "lp_objects lp b = Some d" for b d using D(4) that by blast
  moreover have "b = b'" if "lp_objects lp b = Some d" "lp_objects lp b' = Some d'" "m_fd d = m_fd d'" for b b' d d'
    using ok that unfolding loop_ok_def by metis
  moreover have "m_fd c = fd" "m_loop c = lp_id lp" using c by (simp_all add: new_channel_def)
  ultimately show ?thesis using D(1) ok
    unfolding loop_ok_def object_simps
    by (intro conjI allI impI) (auto simp: loop_ok_def split: if_splits)
qed

lemma add_reader_law:
  assumes "loop_ok tid kctl lp" "lp_objects lp a = None" "\<not> fd_used lp fd"
  shows "\<exists>lp'. add_reader u tid kctl (a, fd, h) lp = Inr lp' \<and> loop_ok tid kctl lp' \<and> idle lp' = idle lp \<and>
    watched lp' = (watched lp)(a \<mapsto> kReadEvent) \<and> dom (lp_objects lp') = insert a (dom (lp_objects lp)) \<and>
    (\<forall>fd'. fd_used lp' fd' \<longleftrightarrow> fd' = fd \<or> fd_used lp fd')"
proof -
  let ?c = "(new_channel u a (lp_id lp) fd)\<lparr>m_read_handler := Some h\<rparr>"
  let ?lp = "store_object a ?c lp"
  have ok: "loop_ok tid kctl ?lp" by (rule store_new_channel_ok [OF assms refl])
  have c: "lp_objects ?lp a = Some ?c" by simp
  from set_events_law [OF ok c, of "\<lambda>_. kReadEvent"] obtain ep where
    e: "enableReading tid kctl a ?lp = Inr (with_mask a ?c kReadEvent ep ?lp)"
       "loop_ok tid kctl (with_mask a ?c kReadEvent ep ?lp)"
       "watched (with_mask a ?c kReadEvent ep ?lp) = (watched ?lp)(a := watched_after ?c kReadEvent)"
    by (auto simp: enableReading_def)
  have "watched_after ?c kReadEvent = Some kReadEvent"
    by (simp add: watched_after_def index_after_def)
  moreover have "(watched ?lp)(a \<mapsto> kReadEvent) = (watched lp)(a \<mapsto> kReadEvent)"
    by (auto simp: watched_def fun_eq_iff split: option.splits)
  moreover have "fd_used (with_mask a ?c kReadEvent ep ?lp) fd' \<longleftrightarrow> fd' = fd \<or> fd_used lp fd'" for fd'
    using fd_used_upd [OF assms(2), of "with_mask a ?c kReadEvent ep ?lp"] by (simp add: new_channel_def)
  ultimately show ?thesis using e
    by (auto simp: add_reader_def idle_def store_object_def)
qed

lemma drop_object_ok:
  assumes ok: "loop_ok tid kctl lp" and a: "lp_objects lp a = Some ch" "m_index ch = kNew"
  shows "loop_ok tid kctl (lp\<lparr>lp_objects := (lp_objects lp)(a := None)\<rparr>)"
  unfolding loop_ok_def
proof (intro conjI allI impI)
  let ?lp = "lp\<lparr>lp_objects := (lp_objects lp)(a := None)\<rparr>"
  show "kernel_obeys kctl" "m_tid ?lp = tid" using ok by (simp_all add: loop_ok_def)
  show "epoll_inv (lp_objects ?lp) (m_epoll ?lp)"
    using epoll_inv_drop_channel [OF loop_okD(3) [OF ok] a] by simp
  show "m_loop c = lp_id ?lp" if "lp_objects ?lp b = Some c" for b c
    using that loop_okD(4) [OF ok, of b c] by (simp split: if_splits)
  fix b b' c c' assume "lp_objects ?lp b = Some c" "lp_objects ?lp b' = Some c'" "m_fd c = m_fd c'"
  then have "lp_objects lp b = Some c" "lp_objects lp b' = Some c'" "m_fd c = m_fd c'" by (auto split: if_splits)
  with ok show "b = b'" unfolding loop_ok_def by metis
qed

lemma remove_reader_law:
  assumes ok: "loop_ok tid kctl lp" and "idle lp" "watched lp a \<noteq> None"
  shows "\<exists>lp'. remove_reader tid kctl a lp = Inr lp' \<and> loop_ok tid kctl lp' \<and> idle lp' \<and>
    watched lp' = (watched lp)(a := None) \<and> dom (lp_objects lp') = dom (lp_objects lp) - {a}"
proof -
  from assms(3) obtain ch where ch: "lp_objects lp a = Some ch" by (auto simp: watched_def split: option.splits)
  have i: "index_after ch kNoneEvent = kDeleted"
    using watched_iff_added [OF ok ch] assms(3) by (auto simp: index_after_def split: if_splits)
  from set_events_law [OF ok ch, of "\<lambda>_. kNoneEvent"] obtain ep where
    e: "disableAll tid kctl a lp = Inr (with_mask a ch kNoneEvent ep lp)"
       "loop_ok tid kctl (with_mask a ch kNoneEvent ep lp)"
       "watched (with_mask a ch kNoneEvent ep lp) = (watched lp)(a := watched_after ch kNoneEvent)"
    by (auto simp: disableAll_def)
  let ?l1 = "with_mask a ch kNoneEvent ep lp" and ?c2 = "ch\<lparr>m_events := kNoneEvent, m_index := kNew\<rparr>"
  from channel_remove_law [OF e(2), of a "ch\<lparr>m_events := kNoneEvent, m_index := kDeleted\<rparr>"] i assms(2)
  obtain ep' where r: "channel_remove tid kctl a ?l1 = Inr (?l1\<lparr>m_epoll := ep', lp_objects := (lp_objects ?l1)(a \<mapsto> ?c2)\<rparr>)"
      "loop_ok tid kctl (?l1\<lparr>m_epoll := ep', lp_objects := (lp_objects ?l1)(a \<mapsto> ?c2)\<rparr>)"
      "ctl_calls ep' = ctl_calls ep" by (auto simp: idle_def)
  let ?l2 = "?l1\<lparr>m_epoll := ep', lp_objects := (lp_objects ?l1)(a \<mapsto> ?c2)\<rparr>"
  let ?l3 = "?l2\<lparr>lp_objects := (lp_objects ?l2)(a := None)\<rparr>"
  have "lp_objects ?l2 a = Some ?c2" "m_index ?c2 = kNew" by simp_all
  from drop_object_ok [OF r(2) this] have "loop_ok tid kctl ?l3" .
  moreover have "watched ?l3 = (watched ?l1)(a := None)"
    using r(3) by (auto simp: watched_def fun_eq_iff split: option.splits)
  then have "watched ?l3 = (watched lp)(a := None)" using e(3) by simp
  moreover have "remove_reader tid kctl a lp = Inr ?l3"
    using e(1) r(1) by (simp add: remove_reader_def)
  moreover have "dom (lp_objects ?l3) = dom (lp_objects lp) - {a}" "idle ?l3"
    using assms(2) by (auto simp: idle_def)
  ultimately show ?thesis by blast
qed

text \<open>A loop is built watching its timer and its eventfd, and destroyed watching nothing. For channels at
  different addresses with different descriptors, the constructor returns a coherent loop in which the
  kernel reports exactly the two read handlers, and the destructor of this loop returns with an empty
  interest list. A second loop in the same thread aborts.\<close>

theorem new_loop_round_trip:
  fixes th wh :: 'h
  assumes "kernel_obeys kctl" "ta \<noteq> wa" "tfd \<noteq> wfd"
  shows "\<exists>lp :: ('f, 'h) loop. new_loop u kctl lid tid None (ta, tfd, th) (wa, wfd, wh) = Inr lp \<and> loop_ok tid kctl lp \<and>
    watched lp = [ta \<mapsto> kReadEvent, wa \<mapsto> kReadEvent] \<and>
    (\<exists>lp'. loop_dtor tid kctl ta wa lp = Inr lp' \<and> interest (ctl_calls (m_epoll lp')) = Map.empty) \<and>
    new_loop u kctl lid tid (Some other) (ta, tfd, th) (wa, wfd, wh) = (Inl Process_Abort :: ('f, 'h) loop res)"
proof -
  let ?b = "blank_loop lid tid :: ('f, 'h) loop"
  have b: "loop_ok tid kctl ?b" "watched ?b = Map.empty" "lp_objects ?b = Map.empty" "idle ?b"
    using assms(1) epoll_inv_new by (auto simp: loop_ok_def blank_loop_def watched_def idle_def)
  from b(3) have nu: "\<not> fd_used ?b fd" for fd by (simp add: fd_used_def)
  from add_reader_law [OF b(1) _ nu, of ta u tfd th] b obtain l1 where
    l1: "add_reader u tid kctl (ta, tfd, th) ?b = Inr l1" "loop_ok tid kctl l1" "idle l1"
        "watched l1 = [ta \<mapsto> kReadEvent]" "dom (lp_objects l1) = {ta}" "\<And>fd. fd_used l1 fd \<longleftrightarrow> fd = tfd"
    using nu by auto
  have "lp_objects l1 wa = None" using l1(5) assms(2) by auto
  from add_reader_law [OF l1(2) this, of wfd u wh] l1 assms(3) obtain l2 where
    l2: "add_reader u tid kctl (wa, wfd, wh) l1 = Inr l2" "loop_ok tid kctl l2" "idle l2"
        "watched l2 = [ta \<mapsto> kReadEvent, wa \<mapsto> kReadEvent]" "dom (lp_objects l2) = {wa, ta}"
    by auto
  from remove_reader_law [OF l2(2,3), of wa] l2(4,5) assms(2) obtain l3 where
    l3: "remove_reader tid kctl wa l2 = Inr l3" "loop_ok tid kctl l3" "idle l3" "watched l3 ta = Some kReadEvent"
        "dom (lp_objects l3) = {ta}" by auto
  from remove_reader_law [OF l3(2,3), of ta] l3(4,5) obtain l4 where
    l4: "remove_reader tid kctl ta l3 = Inr l4" "loop_ok tid kctl l4" "dom (lp_objects l4) = {}" by auto
  have "interest (ctl_calls (m_epoll l4)) fd = None" for fd
  proof (rule ccontr)
    assume "interest (ctl_calls (m_epoll l4)) fd \<noteq> None"
    then obtain msk p where "interest (ctl_calls (m_epoll l4)) fd = Some (msk, p)" by auto
    from interest_alive [OF loop_okD(3) [OF l4(2)] this] l4(3) show False by auto
  qed
  then have i: "interest (ctl_calls (m_epoll l4)) = Map.empty" by auto
  have "loop_dtor tid kctl ta wa l2 = Inr l4" using l3(1) l4(1) by (simp add: loop_dtor_def)
  moreover have "new_loop u kctl lid tid None (ta, tfd, th) (wa, wfd, wh) = Inr l2"
    and "new_loop u kctl lid tid (Some other) (ta, tfd, th) (wa, wfd, wh) = (Inl Process_Abort :: ('f, 'h) loop res)"
    using l1(1) l2(1) by (simp_all add: new_loop_def)
  ultimately show ?thesis using l2(2,4) i by blast
qed

theorem new_loop_round_trip_witness:
  "\<exists>lp :: (nat, nat) loop. new_loop True documented_kernel 5 1 None (10, 3, 0) (11, 4, 1) = Inr lp \<and>
    watched lp = [10 \<mapsto> kReadEvent, 11 \<mapsto> kReadEvent]"
proof -
  have "(10 :: nat) \<noteq> 11" "(3 :: int) \<noteq> 4" by simp_all
  from new_loop_round_trip [OF documented_kernel_ok(1) this, of True 5 1 0 1] show ?thesis by blast
qed

end
