(* ===== verification/LoopFunctors.thy ===== *)
theory LoopFunctors
  imports EventLoop
begin

text \<open>
  The functor queue of an event loop: what one \<open>doPendingFunctors\<close> runs, and the wake up protocol
  between the loop's thread and the threads that queue work for it.

  The protocol is a step relation over the model's own operations. The loop's thread goes through the
  phases of a turn; a foreign thread first pushes (in the critical section) and writes the eventfd in a
  later step, so everything may happen in between. \<open>rs_in_flight\<close> counts the foreign threads between these
  two points, \<open>rs_queued\<close> and \<open>rs_executed\<close> record the functors ever pushed and run.
\<close>

subsection \<open>One call of doPendingFunctors\<close>

text \<open>Functors that log themselves and queue further functors, \<open>spawn f\<close>, from the loop's thread.\<close>

definition queue_all :: "nat \<Rightarrow> 'f list \<Rightarrow> ('f, 'h) loop \<Rightarrow> ('f, 'h) loop" where
  "queue_all tid fs lp = fold (queueInLoop tid) fs lp"

definition exec_log ::
  "nat \<Rightarrow> ('f \<Rightarrow> 'f list) \<Rightarrow> 'f \<Rightarrow> ('f, 'h) loop \<times> 'f list \<Rightarrow> (('f, 'h) loop \<times> 'f list) res" where
  "exec_log tid spawn f s = Inr (queue_all tid (spawn f) (fst s), snd s @ [f])"

lemma queueInLoop_simps [simp]:
  "m_pending_functors (queueInLoop tid cb lp) = m_pending_functors lp @ [cb]"
  "m_calling_pending_functors (queueInLoop tid cb lp) = m_calling_pending_functors lp"
  "m_tid (queueInLoop tid cb lp) = m_tid lp"
  "m_wakeups (queueInLoop tid cb lp) =
     (if \<not> isInLoopThread tid lp \<or> m_calling_pending_functors lp then m_wakeups lp + 1 else m_wakeups lp)"
  by (simp_all add: queueInLoop_def push_functor_def wakeup_def Let_def isInLoopThread_def)

lemma queue_all_law:
  "m_pending_functors (queue_all tid fs lp) = m_pending_functors lp @ fs \<and>
   m_calling_pending_functors (queue_all tid fs lp) = m_calling_pending_functors lp \<and>
   (m_calling_pending_functors lp \<longrightarrow> m_wakeups (queue_all tid fs lp) = m_wakeups lp + length fs)"
  by (induction fs arbitrary: lp) (auto simp: queue_all_def)

lemma run_functors_log:
  "m_calling_pending_functors lp \<Longrightarrow>
   \<exists>lp'. run_functors (exec_log tid spawn) fs (lp, log) = Inr (lp', log @ fs) \<and>
     m_pending_functors lp' = m_pending_functors lp @ concat (map spawn fs) \<and>
     m_wakeups lp' = m_wakeups lp + length (concat (map spawn fs))"
proof (induction fs arbitrary: lp log)
  case Nil
  then show ?case by simp
next
  case (Cons f fs)
  let ?l = "queue_all tid (spawn f) lp"
  have "m_calling_pending_functors ?l" using Cons.prems queue_all_law [of tid "spawn f" lp] by simp
  from Cons.IH [OF this, of "log @ [f]"] Cons.prems queue_all_law [of tid "spawn f" lp]
  show ?case by (auto simp: exec_log_def)
qed

text \<open>One round of pending functors. \<open>doPendingFunctors\<close> runs exactly the functors that were queued
  when it started, in the order they were queued; those queued by the functors themselves stay, in order,
  for the next turn, and every one of them has written the eventfd, so the next poll will not sleep on
  them.\<close>

theorem doPendingFunctors_round:
  "\<exists>lp'. doPendingFunctors (exec_log tid spawn) (lp, log) = Inr (lp', log @ m_pending_functors lp) \<and>
    m_pending_functors lp' = concat (map spawn (m_pending_functors lp)) \<and>
    m_wakeups lp' = m_wakeups lp + length (m_pending_functors lp') \<and> \<not> m_calling_pending_functors lp'"
proof -
  let ?l = "lp\<lparr>m_calling_pending_functors := True, m_pending_functors := []\<rparr>"
  have "m_calling_pending_functors ?l" by simp
  from run_functors_log [OF this, of tid spawn "m_pending_functors lp" log] show ?thesis
    by (auto simp: doPendingFunctors_def swap_functors_def)
qed

subsection \<open>The wake up protocol\<close>

datatype phase =
    Waiting
  | Handling (wakeup_reported: bool)
  | Calling

record ('f, 'h) run_state =
  rs_loop :: "('f, 'h) loop"
  rs_phase :: phase
  rs_todo :: "'f list"
  rs_executed :: "'f list"
  rs_queued :: "'f list"
  rs_in_flight :: nat

definition start_state :: "('f, 'h) loop \<Rightarrow> ('f, 'h) run_state" where
  "start_state lp = \<lparr>rs_loop = lp, rs_phase = Waiting, rs_todo = [], rs_executed = [], rs_queued = [], rs_in_flight = 0\<rparr>"

definition fresh :: "nat \<Rightarrow> ('f, 'h) run_state \<Rightarrow> bool" where
  "fresh tid s \<longleftrightarrow> (\<exists>lp. s = start_state lp \<and> m_tid lp = tid \<and> m_pending_functors lp = [] \<and>
     \<not> m_calling_pending_functors lp)"

inductive turn_step :: "nat \<Rightarrow> ('f, 'h) run_state \<Rightarrow> ('f, 'h) run_state \<Rightarrow> bool" for tid where
  poll_returns: "rs_phase s = Waiting \<Longrightarrow> b \<longrightarrow> m_wakeups (rs_loop s) > 0 \<Longrightarrow>
    turn_step tid s (s\<lparr>rs_phase := Handling b\<rparr>)"
| drain: "rs_phase s = Handling True \<Longrightarrow>
    turn_step tid s (s\<lparr>rs_phase := Handling False, rs_loop := loop_handleRead (rs_loop s)\<rparr>)"
| handler_queues: "rs_phase s = Handling b \<Longrightarrow>
    turn_step tid s (s\<lparr>rs_loop := queueInLoop tid f (rs_loop s), rs_queued := rs_queued s @ [f]\<rparr>)"
| swaps: "rs_phase s = Handling False \<Longrightarrow> swap_functors (rs_loop s) = (fs, lp) \<Longrightarrow>
    turn_step tid s (s\<lparr>rs_phase := Calling, rs_loop := lp, rs_todo := fs\<rparr>)"
| functor_queues: "rs_phase s = Calling \<Longrightarrow>
    turn_step tid s (s\<lparr>rs_loop := queueInLoop tid f (rs_loop s), rs_queued := rs_queued s @ [f]\<rparr>)"
| functor_ends: "rs_phase s = Calling \<Longrightarrow> rs_todo s = f # fs \<Longrightarrow>
    turn_step tid s (s\<lparr>rs_todo := fs, rs_executed := rs_executed s @ [f]\<rparr>)"
| turn_ends: "rs_phase s = Calling \<Longrightarrow> rs_todo s = [] \<Longrightarrow>
    turn_step tid s (s\<lparr>rs_phase := Waiting, rs_loop := (rs_loop s)\<lparr>m_calling_pending_functors := False\<rparr>\<rparr>)"
| foreign_push:
    "turn_step tid s (s\<lparr>rs_loop := push_functor f (rs_loop s), rs_queued := rs_queued s @ [f], rs_in_flight := rs_in_flight s + 1\<rparr>)"
| foreign_wakeup: "rs_in_flight s > 0 \<Longrightarrow>
    turn_step tid s (s\<lparr>rs_loop := wakeup (rs_loop s), rs_in_flight := rs_in_flight s - 1\<rparr>)"

text \<open>A foreign \<open>queueInLoop\<close> that is not interrupted is the two foreign steps.\<close>

lemma foreign_queueInLoop:
  "t \<noteq> m_tid lp \<Longrightarrow> queueInLoop t f lp = wakeup (push_functor f lp)"
  by (simp add: queueInLoop_def isInLoopThread_def push_functor_def)

definition turn_inv :: "nat \<Rightarrow> ('f, 'h) run_state \<Rightarrow> bool" where
  "turn_inv tid s \<longleftrightarrow> m_tid (rs_loop s) = tid \<and>
     m_calling_pending_functors (rs_loop s) = (rs_phase s = Calling) \<and>
     (rs_phase s \<noteq> Calling \<longrightarrow> rs_todo s = []) \<and>
     (rs_phase s \<in> {Waiting, Calling} \<longrightarrow> m_pending_functors (rs_loop s) \<noteq> [] \<longrightarrow>
        m_wakeups (rs_loop s) > 0 \<or> rs_in_flight s > 0) \<and>
     rs_executed s @ rs_todo s @ m_pending_functors (rs_loop s) = rs_queued s"

lemma turn_inv_step: "turn_step tid s t \<Longrightarrow> turn_inv tid s \<Longrightarrow> turn_inv tid t"
  by (induction rule: turn_step.induct)
     (auto simp: turn_inv_def loop_handleRead_def swap_functors_def push_functor_def wakeup_def isInLoopThread_def)

interpretation loop_turns: safety_machine "fresh tid" "turn_step tid" "turn_inv tid" for tid
  by unfold_locales (auto simp: turn_inv_step, auto simp: fresh_def start_state_def turn_inv_def)

text \<open>No lost wake up. In every interleaving of the loop's thread with any threads that queue work,
  whenever the loop is about to wait in the poller while functors are pending, its eventfd is readable or
  some thread is just about to write it: the loop never sleeps on pending work.\<close>

theorem no_lost_wakeup:
  assumes "reach (fresh tid) (turn_step tid) s" "rs_phase s = Waiting" "m_pending_functors (rs_loop s) \<noteq> []"
  shows "m_wakeups (rs_loop s) > 0 \<or> rs_in_flight s > 0"
  using loop_turns.reach_inv [OF assms(1)] assms(2,3) by (simp add: turn_inv_def)

definition demo_run :: "(nat, nat) run_state" where
  "demo_run = (start_state (blank_loop 5 1))
    \<lparr>rs_loop := push_functor 7 (blank_loop 5 1), rs_queued := [7], rs_in_flight := 1\<rparr>"

lemma demo_run_reachable: "reach (fresh 1) (turn_step 1) demo_run"
proof -
  have "fresh 1 (start_state (blank_loop 5 1) :: (nat, nat) run_state)" by (auto simp: fresh_def blank_loop_def)
  then have "reach (fresh 1) (turn_step 1) (start_state (blank_loop 5 1) :: (nat, nat) run_state)" by (rule reach_init)
  moreover have "turn_step 1 (start_state (blank_loop 5 1)) demo_run"
    using foreign_push [of 1 "start_state (blank_loop 5 1)" 7] by (simp add: demo_run_def start_state_def)
  ultimately show ?thesis by (rule reach_step)
qed

theorem no_lost_wakeup_witness:
  "reach (fresh 1) (turn_step 1) demo_run \<and> m_pending_functors (rs_loop demo_run) = [7] \<and>
   (m_wakeups (rs_loop demo_run) > 0 \<or> rs_in_flight demo_run > 0)"
  using no_lost_wakeup [OF demo_run_reachable] demo_run_reachable
  by (auto simp: demo_run_def start_state_def push_functor_def blank_loop_def)

text \<open>Every functor runs at most once and in the order of the queue. In every reachable state the
  functors that have run, those swapped out for this turn and those still pending are, in this order,
  exactly the functors ever queued by any thread.\<close>

theorem functors_in_order:
  assumes "reach (fresh tid) (turn_step tid) s"
  shows "rs_executed s @ rs_todo s @ m_pending_functors (rs_loop s) = rs_queued s"
  using loop_turns.reach_inv [OF assms] by (simp add: turn_inv_def)

theorem functors_in_order_witness:
  "rs_executed demo_run @ rs_todo demo_run @ m_pending_functors (rs_loop demo_run) = [7]"
  using functors_in_order [OF demo_run_reachable] by (simp add: demo_run_def)

end
