(* ===== verification/CountFd.thy ===== *)
theory CountFd
  imports LoopFunctors
begin

text \<open>
  The two descriptors that count: the eventfd by which other threads wake a loop (EventLoop.cpp) and the timerfd
  of its timers (TimerHeap.cpp). Both are read in a loop until \<open>read\<close> fails; theory EventLoop takes that for one
  step that leaves nothing to read. Here each call of \<open>read\<close> and \<open>write\<close> is a step of its own, with those of other
  threads between them. The lemmas show that the loops end, and that the wake-up protocol of LoopFunctors is what
  these calls do: the poller and the loop see the real counter.

  The kernel is a parameter: \<open>kread\<close> and \<open>kwrite\<close> give the return value and the next state, \<open>kcount\<close> the
  counter. \<open>counter_obeys\<close> is what eventfd(2) and timerfd_create(2) say of non-blocking descriptors.
\<close>

subsection \<open>The calls of the code\<close>

text \<open>\<open>readTimerFd\<close>, and \<open>EventLoop::handleRead\<close>; both write a log line for a short read and go on. They need not end.\<close>

partial_function (option) readTimerFd :: "('k \<Rightarrow> int \<times> 'k) \<Rightarrow> 'k \<Rightarrow> 'k option" where
  "readTimerFd kread k = (case kread k of (ret, k') \<Rightarrow> if ret = - 1 then Some k' else readTimerFd kread k')"

partial_function (option) read_wakeups :: "('k \<Rightarrow> int \<times> 'k) \<Rightarrow> 'k \<Rightarrow> 'k option" where
  "read_wakeups kread k = (case kread k of (n, k') \<Rightarrow> if n = - 1 then Some k' else read_wakeups kread k')"

text \<open>\<open>EventLoop::wakeup\<close>: a failure is only logged.\<close>

definition write_wakeup :: "(nat \<Rightarrow> 'k \<Rightarrow> int \<times> 'k) \<Rightarrow> 'k \<Rightarrow> 'k" where
  "write_wakeup kwrite k = snd (kwrite 1 k)"

text \<open>\<open>EventLoop::handleRead\<close> with other threads: before each of its reads the given number of wake-ups arrives.
  \<open>None\<close>: it has not ended after as many reads as the list has entries.\<close>

fun read_between :: "('k \<Rightarrow> int \<times> 'k) \<Rightarrow> (nat \<Rightarrow> 'k \<Rightarrow> int \<times> 'k) \<Rightarrow> nat list \<Rightarrow> 'k \<Rightarrow> 'k option" where
  "read_between kread kwrite [] k = None"
| "read_between kread kwrite (w # ws) k =
     (case kread ((write_wakeup kwrite ^^ w) k) of (n, k') \<Rightarrow> if n = - 1 then Some k' else read_between kread kwrite ws k')"

subsection \<open>The kernel\<close>

definition counter_max :: nat where
  "counter_max = 2 ^ 64 - 2"

definition counter_obeys :: "('k \<Rightarrow> nat) \<Rightarrow> ('k \<Rightarrow> int \<times> 'k) \<Rightarrow> (nat \<Rightarrow> 'k \<Rightarrow> int \<times> 'k) \<Rightarrow> bool" where
  "counter_obeys kcount kread kwrite \<longleftrightarrow>
     (\<forall>k. fst (kread k) = (if kcount k = 0 then - 1 else 8) \<and> kcount (snd (kread k)) = 0) \<and>
     (\<forall>n k. fst (kwrite n k) = (if kcount k + n \<le> counter_max then 8 else - 1) \<and>
        kcount (snd (kwrite n k)) = (if kcount k + n \<le> counter_max then kcount k + n else kcount k))"

definition documented_read :: "nat \<Rightarrow> int \<times> nat" where
  "documented_read k = (if k = 0 then - 1 else 8, 0)"

definition documented_write :: "nat \<Rightarrow> nat \<Rightarrow> int \<times> nat" where
  "documented_write n k = (if k + n \<le> counter_max then (8, k + n) else (- 1, k))"

lemma documented_counter: "counter_obeys id documented_read documented_write"
  by (simp add: counter_obeys_def documented_read_def documented_write_def)

lemma read_counter:
  assumes "counter_obeys kcount kread kwrite" "kread k = (n, k')"
  shows "n = (if kcount k = 0 then - 1 else 8)" "kcount k' = 0"
proof -
  have "fst (kread k) = (if kcount k = 0 then - 1 else 8)" "kcount (snd (kread k)) = 0"
    using assms(1) unfolding counter_obeys_def by blast+
  with assms(2) show "n = (if kcount k = 0 then - 1 else 8)" "kcount k' = 0" by simp_all
qed

text \<open>After a wake-up the counter is not zero, even if it could not be increased.\<close>

lemma write_wakeup_rings:
  assumes "counter_obeys kcount kread kwrite"
  shows "0 < kcount (write_wakeup kwrite k)"
  using assms by (auto simp: counter_obeys_def write_wakeup_def counter_max_def)

lemma write_wakeups_ring:
  assumes "counter_obeys kcount kread kwrite"
  shows "0 < kcount ((write_wakeup kwrite ^^ n) k) \<longleftrightarrow> 0 < n \<or> 0 < kcount k"
  by (cases n) (auto simp: write_wakeup_rings [OF assms])

subsection \<open>The loops end\<close>

lemma readTimerFd_ends:
  assumes "counter_obeys kcount kread kwrite"
  shows "\<exists>k'. readTimerFd kread k = Some k' \<and> kcount k' = 0"
proof -
  obtain n k1 where 1: "kread k = (n, k1)" by fastforce
  obtain m k2 where 2: "kread k1 = (m, k2)" by fastforce
  from read_counter [OF assms 1] read_counter [OF assms 2] 1 2 show ?thesis
    by (simp add: readTimerFd.simps [of kread k] readTimerFd.simps [of kread k1])
qed

lemma read_between_ends_empty:
  assumes "counter_obeys kcount kread kwrite"
  shows "kcount k = 0 \<Longrightarrow> sum_list ws < length ws \<Longrightarrow> \<exists>k'. read_between kread kwrite ws k = Some k' \<and> kcount k' = 0"
proof (induction ws arbitrary: k)
  case (Cons w ws)
  obtain n k1 where r: "kread ((write_wakeup kwrite ^^ w) k) = (n, k1)" by fastforce
  note c = read_counter [OF assms r]
  show ?case
  proof (cases "w = 0")
    case False
    then have "n \<noteq> - 1" using c(1) write_wakeups_ring [OF assms, of w k] by simp
    moreover have "sum_list ws < length ws" using Cons.prems(2) False by simp
    ultimately show ?thesis using Cons.IH [OF c(2)] r by simp
  qed (use c r Cons.prems(1) in simp)
qed simp

text \<open>\<open>handleRead\<close> ends: it makes at most two reads more than wake-ups arrive meanwhile, and at its last read the
  counter is zero.\<close>

theorem read_wakeups_ends:
  assumes "counter_obeys kcount kread kwrite" "sum_list ws + 1 < length ws"
  shows "\<exists>k'. read_between kread kwrite ws k = Some k' \<and> kcount k' = 0"
proof -
  obtain w vs where ws: "ws = w # vs" using assms(2) by (cases ws) auto
  obtain n k1 where r: "kread ((write_wakeup kwrite ^^ w) k) = (n, k1)" by fastforce
  have "sum_list vs < length vs" using assms(2) ws by simp
  from read_between_ends_empty [OF assms(1) read_counter(2) [OF assms(1) r] this] r read_counter(2) [OF assms(1) r] ws
  show ?thesis by simp
qed

theorem read_wakeups_ends_witness: "\<exists>k'. read_between documented_read documented_write [1, 0, 0] 5 = Some k' \<and> k' = 0"
  using read_wakeups_ends [OF documented_counter, of "[1, 0, 0]" 5] by simp

lemma read_between_quiet: "read_between kread kwrite (replicate n 0) k = Some k' \<Longrightarrow> read_wakeups kread k = Some k'"
proof (induction n arbitrary: k)
  case (Suc n)
  obtain m k1 where "kread k = (m, k1)" by fastforce
  with Suc show ?case by (auto simp: read_wakeups.simps [of kread k] split: if_splits)
qed simp

lemma read_wakeups_end:
  assumes "counter_obeys kcount kread kwrite"
  shows "\<exists>k'. read_wakeups kread k = Some k' \<and> kcount k' = 0"
  using read_wakeups_ends [OF assms, of "replicate 2 0" k] read_between_quiet [of kread kwrite 2 k] by fastforce

subsection \<open>The wake-up protocol, call by call\<close>

text \<open>
  The steps of \<open>turn_step\<close> (theory LoopFunctors) with the counter of the kernel: the poller looks at it, each
  \<open>read\<close> of \<open>handleRead\<close> is a step, and every wake-up of an operation is a call of \<open>write\<close> (\<open>rung\<close>).
\<close>

definition rung :: "(nat \<Rightarrow> 'k \<Rightarrow> int \<times> 'k) \<Rightarrow> ('f, 'h) loop \<Rightarrow> ('f, 'h) loop \<Rightarrow> 'k \<Rightarrow> 'k" where
  "rung kwrite lp lp' k = (write_wakeup kwrite ^^ (m_wakeups lp' - m_wakeups lp)) k"

inductive fd_step ::
  "('k \<Rightarrow> nat) \<Rightarrow> ('k \<Rightarrow> int \<times> 'k) \<Rightarrow> (nat \<Rightarrow> 'k \<Rightarrow> int \<times> 'k) \<Rightarrow> nat \<Rightarrow>
     ('f, 'h) run_state \<times> 'k \<Rightarrow> ('f, 'h) run_state \<times> 'k \<Rightarrow> bool"
  for kcount kread kwrite tid where
  fd_poll: "rs_phase s = Waiting \<Longrightarrow> b \<longrightarrow> 0 < kcount k \<Longrightarrow>
    fd_step kcount kread kwrite tid (s, k) (s\<lparr>rs_phase := Handling b\<rparr>, k)"
| fd_read: "rs_phase s = Handling True \<Longrightarrow> kread k = (n, k') \<Longrightarrow> n \<noteq> - 1 \<Longrightarrow>
    fd_step kcount kread kwrite tid (s, k) (s, k')"
| fd_read_ends: "rs_phase s = Handling True \<Longrightarrow> kread k = (- 1, k') \<Longrightarrow>
    fd_step kcount kread kwrite tid (s, k) (s\<lparr>rs_phase := Handling False, rs_loop := loop_handleRead (rs_loop s)\<rparr>, k')"
| fd_queues: "rs_phase s \<noteq> Waiting \<Longrightarrow> lp = queueInLoop tid f (rs_loop s) \<Longrightarrow>
    fd_step kcount kread kwrite tid (s, k) (s\<lparr>rs_loop := lp, rs_queued := rs_queued s @ [f]\<rparr>, rung kwrite (rs_loop s) lp k)"
| fd_swaps: "rs_phase s = Handling False \<Longrightarrow> swap_functors (rs_loop s) = (fs, lp) \<Longrightarrow>
    fd_step kcount kread kwrite tid (s, k) (s\<lparr>rs_phase := Calling, rs_loop := lp, rs_todo := fs\<rparr>, k)"
| fd_functor_ends: "rs_phase s = Calling \<Longrightarrow> rs_todo s = f # fs \<Longrightarrow>
    fd_step kcount kread kwrite tid (s, k) (s\<lparr>rs_todo := fs, rs_executed := rs_executed s @ [f]\<rparr>, k)"
| fd_turn_ends: "rs_phase s = Calling \<Longrightarrow> rs_todo s = [] \<Longrightarrow>
    fd_step kcount kread kwrite tid (s, k) (s\<lparr>rs_phase := Waiting, rs_loop := (rs_loop s)\<lparr>m_calling_pending_functors := False\<rparr>\<rparr>, k)"
| fd_push: "fd_step kcount kread kwrite tid (s, k)
    (s\<lparr>rs_loop := push_functor f (rs_loop s), rs_queued := rs_queued s @ [f], rs_in_flight := rs_in_flight s + 1\<rparr>, k)"
| fd_wakeup: "rs_in_flight s > 0 \<Longrightarrow>
    fd_step kcount kread kwrite tid (s, k) (s\<lparr>rs_loop := wakeup (rs_loop s), rs_in_flight := rs_in_flight s - 1\<rparr>, write_wakeup kwrite k)"

text \<open>What ties the two together: except while the loop reads, the counter is zero exactly when no wake-up is left.\<close>

definition rings :: "('k \<Rightarrow> nat) \<Rightarrow> ('f, 'h) run_state \<times> 'k \<Rightarrow> bool" where
  "rings kcount c \<longleftrightarrow> (rs_phase (fst c) \<noteq> Handling True \<longrightarrow> (0 < kcount (snd c) \<longleftrightarrow> 0 < m_wakeups (rs_loop (fst c))))"

lemma rung_rings:
  assumes "counter_obeys kcount kread kwrite"
  shows "0 < kcount (rung kwrite lp lp' k) \<longleftrightarrow> m_wakeups lp < m_wakeups lp' \<or> 0 < kcount k"
  by (simp add: rung_def write_wakeups_ring [OF assms])

text \<open>Each call is a step of \<open>turn_step\<close>, or a \<open>read\<close> that is not the last, which changes nothing there.\<close>

lemma fd_step_simulated:
  assumes "counter_obeys kcount kread kwrite"
  shows "fd_step kcount kread kwrite tid c d \<Longrightarrow> rings kcount c \<Longrightarrow>
    rings kcount d \<and> (fst d = fst c \<or> turn_step tid (fst c) (fst d))"
proof (induction rule: fd_step.induct)
  case (fd_poll s b k)
  then have "b \<longrightarrow> 0 < m_wakeups (rs_loop s)" by (auto simp: rings_def)
  from poll_returns [OF fd_poll(1) this] fd_poll show ?case by (auto simp: rings_def)
next
  case (fd_read_ends s k k')
  from drain [OF fd_read_ends(1)] read_counter(2) [OF assms fd_read_ends(2)]
  show ?case by (auto simp: rings_def loop_handleRead_def)
next
  case (fd_queues s lp f k)
  have "turn_step tid s (s\<lparr>rs_loop := lp, rs_queued := rs_queued s @ [f]\<rparr>)"
    using fd_queues(1,2) by (cases "rs_phase s") (auto intro: handler_queues functor_queues)
  moreover have "m_wakeups lp \<ge> m_wakeups (rs_loop s)" using fd_queues(2) by simp
  ultimately show ?case using fd_queues(3) by (auto simp: rings_def rung_rings [OF assms])
next
  case (fd_swaps s fs lp k)
  from swaps [OF fd_swaps(1,2)] fd_swaps show ?case by (auto simp: rings_def swap_functors_def)
next
  case (fd_functor_ends s f fs k)
  from functor_ends [OF fd_functor_ends(1,2)] fd_functor_ends(3) show ?case by (auto simp: rings_def)
next
  case (fd_turn_ends s k)
  from turn_ends [OF fd_turn_ends(1,2)] fd_turn_ends show ?case by (auto simp: rings_def)
next
  case (fd_push s k f)
  from foreign_push [of tid s f] fd_push show ?case by (auto simp: rings_def push_functor_def)
next
  case (fd_wakeup s k)
  from foreign_wakeup [OF fd_wakeup(1)] write_wakeup_rings [OF assms] show ?case by (auto simp: rings_def wakeup_def)
qed (auto simp: rings_def)

definition fd_fresh :: "('k \<Rightarrow> nat) \<Rightarrow> nat \<Rightarrow> ('f, 'h) run_state \<times> 'k \<Rightarrow> bool" where
  "fd_fresh kcount tid c \<longleftrightarrow> fresh tid (fst c) \<and> (0 < kcount (snd c) \<longleftrightarrow> 0 < m_wakeups (rs_loop (fst c)))"

lemma fd_reach:
  assumes "counter_obeys kcount kread kwrite" "reach (fd_fresh kcount tid) (fd_step kcount kread kwrite tid) c"
  shows "reach (fresh tid) (turn_step tid) (fst c) \<and> rings kcount c"
  using assms(2)
proof (induction rule: reach.induct)
  case (reach_init c)
  then show ?case by (auto simp: fd_fresh_def rings_def intro: reach.reach_init)
next
  case (reach_step c d)
  with fd_step_simulated [OF assms(1) reach_step(2)] show ?case by (auto intro: reach.reach_step)
qed

subsection \<open>Properties\<close>

text \<open>C12: no lost wake up. In every interleaving of the loop's thread with any threads that queue work, down to the
  single reads and writes of the eventfd: whenever the loop is about to wait in the poller while functors are
  pending, the counter of its eventfd is not zero or some thread is just about to write it, so the loop never
  sleeps on pending work; and the functors that have run, those taken out for this turn and those pending are, in
  this order, the functors ever queued.\<close>

theorem eventfd_wakes_loop:
  assumes "counter_obeys kcount kread kwrite" "reach (fd_fresh kcount tid) (fd_step kcount kread kwrite tid) (s, k)"
  shows "(rs_phase s = Waiting \<longrightarrow> m_pending_functors (rs_loop s) \<noteq> [] \<longrightarrow> 0 < kcount k \<or> 0 < rs_in_flight s) \<and>
    rs_executed s @ rs_todo s @ m_pending_functors (rs_loop s) = rs_queued s"
proof -
  from fd_reach [OF assms] have r: "reach (fresh tid) (turn_step tid) s" "rings kcount (s, k)" by simp_all
  from loop_turns.reach_inv [OF r(1)] r(2) show ?thesis by (auto simp: turn_inv_def rings_def)
qed

theorem eventfd_wakes_loop_witness:
  "rs_phase demo_run = Waiting \<and> m_pending_functors (rs_loop demo_run) \<noteq> [] \<and>
   (0 < (0 :: nat) \<or> 0 < rs_in_flight demo_run) \<and> rs_executed demo_run @ rs_todo demo_run @ m_pending_functors (rs_loop demo_run) = [7]"
proof -
  let ?s = "start_state (blank_loop 5 1) :: (nat, nat) run_state"
  have "fd_fresh id 1 (?s, 0)" by (auto simp: fd_fresh_def fresh_def start_state_def blank_loop_def)
  then have "reach (fd_fresh id 1) (fd_step id documented_read documented_write 1) (?s, 0)" by (rule reach_init)
  moreover have "fd_step id documented_read documented_write 1 (?s, 0) (demo_run, 0)"
    using fd_push [of id documented_read documented_write 1 ?s 0 7] by (simp add: demo_run_def start_state_def)
  ultimately have "reach (fd_fresh id 1) (fd_step id documented_read documented_write 1) (demo_run, 0)" by (rule reach_step)
  from eventfd_wakes_loop [OF documented_counter this] show ?thesis
    by (simp add: demo_run_def start_state_def push_functor_def blank_loop_def)
qed

end
