(* ===== verification/Acceptor.thy ===== *)
theory Acceptor
  imports LoopRegistry
begin

text \<open>
  Sockets (Socket.h, Socket.cpp) and the acceptor of new connections (Acceptor.h, Acceptor.cpp).

  The calls a socket makes to the kernel whose result only decides about a log line are collected in a
  list of \<open>sock_call\<close>; \<open>close\<close> and \<open>accept\<close>, whose results matter, take the kernel's answer as an argument.
\<close>

datatype sock_call =
    Sc_socket
  | Sc_bind int
  | Sc_listen int int
  | Sc_close int
  | Sc_shutdown_wr int
  | Sc_shutdown_rdwr int
  | Sc_tcp_nodelay int bool
  | Sc_keepalive int bool
  | Sc_nonblock int
  | Sc_reuseaddr int bool
  | Sc_reuseport int bool

record socket =
  m_sockfd :: int
  m_closed :: bool
  sock_calls :: "sock_call list"

definition sock_do :: "sock_call \<Rightarrow> socket \<Rightarrow> socket" where
  "sock_do c s = s\<lparr>sock_calls := sock_calls s @ [c]\<rparr>"

text \<open>\<open>Socket()\<close> with the descriptor the kernel gave (negative on failure), and \<open>Socket(fd, closed)\<close>.\<close>

definition new_socket :: "int \<Rightarrow> socket" where
  "new_socket fd = \<lparr>m_sockfd = fd, m_closed = False, sock_calls = [Sc_socket]\<rparr>"

definition setTcpNoDelay :: "bool \<Rightarrow> socket \<Rightarrow> socket" where
  "setTcpNoDelay on s = sock_do (Sc_tcp_nodelay (m_sockfd s) on) s"

definition setTcpKeepAlive :: "bool \<Rightarrow> socket \<Rightarrow> socket" where
  "setTcpKeepAlive on s = sock_do (Sc_keepalive (m_sockfd s) on) s"

text \<open>\<open>setNonBlock\<close> sets \<open>O_NONBLOCK\<close> whatever its argument.\<close>

definition setNonBlock :: "bool \<Rightarrow> socket \<Rightarrow> socket" where
  "setNonBlock on s = sock_do (Sc_nonblock (m_sockfd s)) s"

definition setReuseAddr :: "bool \<Rightarrow> socket \<Rightarrow> socket" where
  "setReuseAddr on s = sock_do (Sc_reuseaddr (m_sockfd s) on) s"

definition setReusePort :: "bool \<Rightarrow> socket \<Rightarrow> socket" where
  "setReusePort on s = sock_do (Sc_reuseport (m_sockfd s) on) s"

definition client_socket :: "int \<Rightarrow> bool \<Rightarrow> socket" where
  "client_socket fd closed =
     setTcpNoDelay True (setNonBlock True \<lparr>m_sockfd = fd, m_closed = closed, sock_calls = []\<rparr>)"

definition bind_socket :: "socket \<Rightarrow> socket" where
  "bind_socket s = sock_do (Sc_bind (m_sockfd s)) s"

definition listen_socket :: "socket \<Rightarrow> socket" where
  "listen_socket s = sock_do (Sc_listen (m_sockfd s) 5) s"

definition shutdownWrite :: "socket \<Rightarrow> socket" where
  "shutdownWrite s = sock_do (Sc_shutdown_wr (m_sockfd s)) s"

definition shutdown_socket :: "socket \<Rightarrow> socket" where
  "shutdown_socket s = sock_do (Sc_shutdown_rdwr (m_sockfd s)) s"

text \<open>\<open>close()\<close> and the destructor, given whether the kernel's \<open>close\<close> fails.\<close>

definition close_socket :: "bool \<Rightarrow> socket \<Rightarrow> socket" where
  "close_socket fails s =
     (if \<not> m_closed s then
        let s1 = sock_do (Sc_close (m_sockfd s)) s in
        if fails then s1 else s1\<lparr>m_closed := True\<rparr>
      else s)"

definition socket_dtor :: "socket \<Rightarrow> socket" where
  "socket_dtor s = (if \<not> m_closed s then sock_do (Sc_close (m_sockfd s)) s else s)"

text \<open>
  \<open>accept(2)\<close>: a descriptor or an error. \<open>Socket::accept\<close> returns -1 for the errors it knows and aborts on
  any other. \<open>EWOULDBLOCK\<close> is the same number as \<open>EAGAIN\<close>.
\<close>

datatype sys_accept = Ac_Fd int | Ac_Err errno

definition accept_knows :: "errno \<Rightarrow> bool" where
  "accept_knows e = (e \<in> {EAGAIN, EWOULDBLOCK, ECONNABORTED, EINTR, EPROTO, EPERM, EMFILE})"

definition accept_socket :: "sys_accept \<Rightarrow> int res" where
  "accept_socket ans =
     (case ans of
        Ac_Fd new_conn \<Rightarrow> Inr new_conn
      | Ac_Err e \<Rightarrow> if accept_knows e then Inr (- 1) else Inl Process_Abort)"

subsection \<open>The acceptor\<close>

definition MAXFD :: int where
  "MAXFD = 100000"

record acceptor =
  acc_socket :: socket
  m_accept_channel :: nat
  m_new_conn_callback :: bool
  m_listenning :: bool

text \<open>
  The constructor places the channel object \<open>a\<close> on the loop. The call back is a function \<open>new_conn\<close> given
  to \<open>handleRead\<close>; \<open>m_new_conn_callback\<close> says whether it was set.
\<close>

definition new_acceptor :: "bool \<Rightarrow> int \<Rightarrow> nat \<Rightarrow> 'h \<Rightarrow> bool \<Rightarrow> ('f, 'h) loop \<Rightarrow> acceptor \<times> ('f, 'h) loop" where
  "new_acceptor u fd a h reuse_port lp =
     (\<lparr>acc_socket = setReusePort reuse_port (setReuseAddr True (new_socket fd)), m_accept_channel = a,
       m_new_conn_callback = False, m_listenning = False\<rparr>,
      store_object a (setReadHandler h (new_channel u a (lp_id lp) fd)) lp)"

definition setNewConnnectionCallback :: "acceptor \<Rightarrow> acceptor" where
  "setNewConnnectionCallback acc = acc\<lparr>m_new_conn_callback := True\<rparr>"

definition acceptor_listen ::
  "nat \<Rightarrow> ctl_kernel \<Rightarrow> acceptor \<times> ('f, 'h) loop \<Rightarrow> (acceptor \<times> ('f, 'h) loop) res" where
  "acceptor_listen tid kctl = (\<lambda>(acc, lp).
     bind_res (assertInLoopThread tid lp) (\<lambda>_.
     let acc1 = acc\<lparr>acc_socket := bind_socket (acc_socket acc)\<rparr>;
         acc2 = acc1\<lparr>m_listenning := True\<rparr>;
         acc3 = acc2\<lparr>acc_socket := listen_socket (acc_socket acc2)\<rparr>
     in bind_res (enableReading tid kctl (m_accept_channel acc3) lp) (\<lambda>lp1. Inr (acc3, lp1))))"

definition acceptor_dtor ::
  "nat \<Rightarrow> ctl_kernel \<Rightarrow> acceptor \<times> ('f, 'h) loop \<Rightarrow> (socket \<times> ('f, 'h) loop) res" where
  "acceptor_dtor tid kctl = (\<lambda>(acc, lp).
     bind_res (remove_reader tid kctl (m_accept_channel acc) lp) (\<lambda>lp1.
     Inr (socket_dtor (acc_socket acc), lp1)))"

text \<open>
  \<open>Acceptor::handleRead\<close> over the kernel's answers, on a state \<open>'s\<close> that the call back changes. The list
  is of the descriptors it closed itself.
\<close>

fun accept_loop ::
  "bool \<Rightarrow> (int \<Rightarrow> 's \<Rightarrow> 's res) \<Rightarrow> sys_accept list \<Rightarrow> int list \<Rightarrow> 's \<Rightarrow> ('s \<times> int list \<times> sys_accept list) res" where
  "accept_loop cb new_conn [] closed s = Inl Script_Exhausted"
| "accept_loop cb new_conn (ans # as) closed s =
     bind_res (accept_socket ans) (\<lambda>connfd.
     if connfd < 0 then Inr (s, closed, as)
     else if connfd > MAXFD then Inr (s, closed @ [connfd], as)
     else if cb then bind_res (new_conn connfd s) (accept_loop cb new_conn as closed)
     else accept_loop cb new_conn as (closed @ [connfd]) s)"

definition acceptor_handleRead ::
  "nat \<Rightarrow> ('f, 'h) loop \<Rightarrow> acceptor \<Rightarrow> (int \<Rightarrow> 's \<Rightarrow> 's res) \<Rightarrow> sys_accept list \<Rightarrow> 's \<Rightarrow>
   ('s \<times> int list \<times> sys_accept list) res" where
  "acceptor_handleRead tid lp acc new_conn as s =
     bind_res (assertInLoopThread tid lp) (\<lambda>_. accept_loop (m_new_conn_callback acc) new_conn as [] s)"

subsection \<open>Lemmas\<close>

fun new_conns :: "(int \<Rightarrow> 's \<Rightarrow> 's res) \<Rightarrow> int list \<Rightarrow> 's \<Rightarrow> 's res" where
  "new_conns new_conn [] s = Inr s"
| "new_conns new_conn (fd # fds) s = bind_res (new_conn fd s) (new_conns new_conn fds)"

definition fd_ok :: "int \<Rightarrow> bool" where
  "fd_ok fd \<longleftrightarrow> 0 \<le> fd \<and> fd \<le> MAXFD"

lemma accept_loop_prefix:
  "\<forall>fd \<in> set fds. fd_ok fd \<Longrightarrow>
   accept_loop True new_conn (map Ac_Fd fds @ as) closed s =
     bind_res (new_conns new_conn fds s) (accept_loop True new_conn as closed)"
proof (induction fds arbitrary: s)
  case Nil
  then show ?case by simp
next
  case (Cons fd fds)
  then have "accept_loop True new_conn (map Ac_Fd fds @ as) closed = (\<lambda>s. bind_res (new_conns new_conn fds s) (accept_loop True new_conn as closed))"
    by auto
  with Cons.prems show ?case by (simp add: accept_socket_def fd_ok_def bind_res_assoc)
qed

text \<open>C40: the acceptor empties the backlog. It gives every descriptor of the backlog, in order, to the new
  connection call back and then, according to what comes next: returns at an error it knows; closes a
  descriptor above \<open>MAXFD\<close> and returns at once, leaving the rest of the backlog although its channel is
  edge triggered; and aborts the server at any other error.\<close>

theorem acceptor_empties_backlog:
  assumes "isInLoopThread tid lp" "m_new_conn_callback acc" "\<forall>fd \<in> set fds. fd_ok fd"
    and "new_conns new_conn fds s = Inr s'"
  shows "(accept_knows e \<longrightarrow>
      acceptor_handleRead tid lp acc new_conn (map Ac_Fd fds @ Ac_Err e # as) s = Inr (s', [], as)) \<and>
    (\<not> accept_knows e \<longrightarrow>
      acceptor_handleRead tid lp acc new_conn (map Ac_Fd fds @ Ac_Err e # as) s = Inl Process_Abort) \<and>
    (fd > MAXFD \<longrightarrow>
      acceptor_handleRead tid lp acc new_conn (map Ac_Fd fds @ Ac_Fd fd # as) s = Inr (s', [fd], as))"
  using assms
  by (auto simp: acceptor_handleRead_def assertInLoopThread_def accept_loop_prefix accept_socket_def MAXFD_def)

theorem acceptor_empties_backlog_witness:
  "acceptor_handleRead 1 (blank_loop 5 1 :: (nat, nat) loop) (setNewConnnectionCallback
      \<lparr>acc_socket = new_socket 3, m_accept_channel = 9, m_new_conn_callback = False, m_listenning = True\<rparr>) (\<lambda>fd fds. Inr (fds @ [fd]))
      (map Ac_Fd [7, 8] @ Ac_Fd 100001 # [Ac_Fd 9]) [] = Inr ([7, 8], [100001], [Ac_Fd 9])"
proof -
  let ?acc = "\<lparr>acc_socket = new_socket 3, m_accept_channel = 9, m_new_conn_callback = False, m_listenning = True\<rparr>"
  have l: "isInLoopThread 1 (blank_loop 5 1 :: (nat, nat) loop)" by (simp add: isInLoopThread_def blank_loop_def)
  have c: "m_new_conn_callback (setNewConnnectionCallback ?acc)" by (simp add: setNewConnnectionCallback_def)
  have f: "\<forall>fd \<in> set [7, 8]. fd_ok fd" by (simp add: fd_ok_def MAXFD_def)
  have r: "new_conns (\<lambda>fd fds. Inr (fds @ [fd])) [7, 8] [] = Inr [7, 8]" by simp
  from acceptor_empties_backlog [OF l c f r, of EAGAIN "[Ac_Fd 9]" 100001] show ?thesis
    by (simp add: MAXFD_def)
qed

text \<open>A listening socket's life on its loop. After \<open>listen\<close> the socket was bound and then listens, and
  the kernel watches it for reading; destroying the acceptor stops the watching, keeps every other
  channel as it was and closes the descriptor once.\<close>

theorem acceptor_life:
  fixes h :: 'h
  assumes "loop_ok tid kctl lp" "lp_objects lp a = None" "\<not> fd_used lp fd" "idle lp"
    and "new_acceptor u fd a h rp lp = (acc, lp0)"
  shows "\<exists>acc1 lp1. acceptor_listen tid kctl (acc, lp0) = Inr (acc1, lp1) \<and> m_listenning acc1 \<and>
    watched lp1 = (watched lp)(a \<mapsto> kReadEvent) \<and>
    (\<exists>sock lp2. acceptor_dtor tid kctl (acc1, lp1) = Inr (sock, lp2) \<and> watched lp2 = (watched lp)(a := None) \<and>
       loop_ok tid kctl lp2 \<and>
       sock_calls sock = [Sc_socket, Sc_reuseaddr fd True, Sc_reuseport fd rp, Sc_bind fd, Sc_listen fd 5, Sc_close fd])"
proof -
  from add_reader_law [OF assms(1-3), of u h] obtain lp1 where
    l1: "add_reader u tid kctl (a, fd, h) lp = Inr lp1" "loop_ok tid kctl lp1" "idle lp1"
        "watched lp1 = (watched lp)(a \<mapsto> kReadEvent)" using assms(4) by auto
  from remove_reader_law [OF l1(2,3), of a] l1(4) obtain lp2 where
    l2: "remove_reader tid kctl a lp1 = Inr lp2" "loop_ok tid kctl lp2" "watched lp2 = (watched lp)(a := None)" by auto
  let ?acc = "\<lparr>acc_socket = setReusePort rp (setReuseAddr True (new_socket fd)), m_accept_channel = a,
       m_new_conn_callback = False, m_listenning = False\<rparr>"
  let ?acc1 = "?acc\<lparr>acc_socket := listen_socket (bind_socket (acc_socket ?acc)), m_listenning := True\<rparr>"
  let ?sock = "socket_dtor (acc_socket ?acc1)"
  have acc: "acc = ?acc" "lp0 = store_object a ((new_channel u a (lp_id lp) fd)\<lparr>m_read_handler := Some h\<rparr>) lp"
    using assms(5) by (simp_all add: new_acceptor_def)
  have "isInLoopThread tid lp0" using loop_okD(2) [OF assms(1)] acc(2) by (simp add: isInLoopThread_def)
  then have "acceptor_listen tid kctl (acc, lp0) = Inr (?acc1, lp1)"
    using l1(1) acc by (simp add: acceptor_listen_def add_reader_def)
  moreover have "acceptor_dtor tid kctl (?acc1, lp1) = Inr (?sock, lp2)"
    using l2(1) by (simp add: acceptor_dtor_def)
  moreover have "sock_calls ?sock = [Sc_socket, Sc_reuseaddr fd True, Sc_reuseport fd rp, Sc_bind fd, Sc_listen fd 5, Sc_close fd]"
    by (simp add: setReusePort_def setReuseAddr_def new_socket_def sock_do_def bind_socket_def listen_socket_def socket_dtor_def)
  moreover have "m_listenning ?acc1" by simp
  ultimately show ?thesis using l1(4) l2(2,3) by blast
qed

theorem acceptor_life_witness:
  "\<exists>acc1 lp1. acceptor_listen 1 documented_kernel (new_acceptor False 3 20 (0 :: nat) True demo_loop) = Inr (acc1, lp1) \<and>
    watched lp1 20 = Some kReadEvent"
proof -
  have n: "lp_objects demo_loop 20 = None" by (simp add: demo_loop_def blank_loop_def)
  have f: "\<not> fd_used demo_loop 3" by (simp add: fd_used_def demo_loop_def blank_loop_def new_channel_def)
  obtain acc lp0 where r: "new_acceptor False 3 20 (0 :: nat) True demo_loop = (acc, lp0)" by fastforce
  from acceptor_life [OF demo_loop_ok(1) n f demo_loop_ok(3) r] obtain acc1 lp1 where
    "acceptor_listen 1 documented_kernel (acc, lp0) = Inr (acc1, lp1)" "watched lp1 = (watched demo_loop)(20 \<mapsto> kReadEvent)"
    by blast
  with r show ?thesis by (intro exI [of _ acc1] exI [of _ lp1]) simp
qed

end
