(* ===== verification/TcpConnection.thy ===== *)
theory TcpConnection
  imports HttpSpec Acceptor
begin

text \<open>
  One TCP connection (TcpConnection.h, TcpConnection.cpp): its life cycle and the handlers its channel
  calls, on the loop that owns it.

  The state \<open>conn_state\<close> holds the loop, the connection, the answers the kernel will give to \<open>read\<close> and
  \<open>write\<close> on its socket, the bytes the kernel took so far, and a rest \<open>'w\<close> of the world that only the
  close call back (bound to \<open>TcpServer::removeConnection\<close>) changes. What does not change is in \<open>conn_env\<close>:
  the calling thread, the kernel's side of \<open>epoll_ctl\<close>, the time of day, and the functors the connection
  binds.
\<close>

datatype StateE = kConnecting | kConnected | kDisconnected | kDisconnecting

record conn =
  m_name :: string
  m_state :: StateE
  m_socket :: socket
  m_channel :: nat
  m_input_buffer :: buffer
  m_output_buffer :: buffer
  m_context :: http_context
  m_alive :: bool
  m_timeout :: bool

record ('f, 'h, 'w) conn_state =
  cs_loop :: "('f, 'h) loop"
  cs_conn :: conn
  cs_in :: "sys_read list"
  cs_out :: "sys_write list"
  cs_sent :: string
  cs_world :: 'w

record ('f, 'w) conn_env =
  e_tid :: nat
  e_kctl :: ctl_kernel
  e_now :: int
  e_stamp :: string
  e_add_timer :: "'f \<Rightarrow> int \<Rightarrow> 'f"
  e_close_long :: 'f
  e_shutdown_in_loop :: 'f
  e_close_callback :: "conn \<Rightarrow> 'w \<Rightarrow> 'w res"

text \<open>The constructor: the connection, and the channel object it puts at the address \<open>a\<close>. \<open>status\<close> is the
  garbage in the context's uninitialised status code.\<close>

definition new_conn :: "HttpStatusCode \<Rightarrow> string \<Rightarrow> int \<Rightarrow> nat \<Rightarrow> conn" where
  "new_conn status name sockfd a =
     \<lparr>m_name = name, m_state = kConnecting, m_socket = client_socket sockfd False, m_channel = a,
      m_input_buffer = new_buffer, m_output_buffer = new_buffer, m_context = new_context status,
      m_alive = False, m_timeout = False\<rparr>"

definition new_conn_channel :: "bool \<Rightarrow> nat \<Rightarrow> nat \<Rightarrow> int \<Rightarrow> 'h \<Rightarrow> 'h \<Rightarrow> 'h \<Rightarrow> 'h \<Rightarrow> 'h channel" where
  "new_conn_channel u a lid sockfd h_read h_write h_error h_close =
     setCloseHandler h_close (setErrorHandler h_error (setWriteHandler h_write (setReadHandler h_read (new_channel u a lid sockfd))))"

definition stateToString :: "conn \<Rightarrow> string" where
  "stateToString c =
     (case m_state c of
        kConnecting \<Rightarrow> ''kConnecting''
      | kConnected \<Rightarrow> ''kConnected''
      | kDisconnected \<Rightarrow> ''kDisconnected''
      | kDisconnecting \<Rightarrow> ''kDisconnecting'')"

definition setState :: "StateE \<Rightarrow> ('f, 'h, 'w) conn_state \<Rightarrow> ('f, 'h, 'w) conn_state" where
  "setState st s = s\<lparr>cs_conn := (cs_conn s)\<lparr>m_state := st\<rparr>\<rparr>"

text \<open>An operation of the channel, and the thread assertion.\<close>

definition on_channel ::
  "(nat \<Rightarrow> ctl_kernel \<Rightarrow> nat \<Rightarrow> ('f, 'h) loop \<Rightarrow> ('f, 'h) loop res) \<Rightarrow> ('f, 'w) conn_env \<Rightarrow>
   ('f, 'h, 'w) conn_state \<Rightarrow> ('f, 'h, 'w) conn_state res" where
  "on_channel op env s =
     bind_res (op (e_tid env) (e_kctl env) (m_channel (cs_conn s)) (cs_loop s)) (\<lambda>lp. Inr (s\<lparr>cs_loop := lp\<rparr>))"

definition assert_loop :: "('f, 'w) conn_env \<Rightarrow> ('f, 'h, 'w) conn_state \<Rightarrow> ('f, 'h, 'w) conn_state res" where
  "assert_loop env s = bind_res (assertInLoopThread (e_tid env) (cs_loop s)) (\<lambda>_. Inr s)"

definition on_socket :: "(socket \<Rightarrow> socket) \<Rightarrow> ('f, 'h, 'w) conn_state \<Rightarrow> ('f, 'h, 'w) conn_state" where
  "on_socket f s = s\<lparr>cs_conn := (cs_conn s)\<lparr>m_socket := f (m_socket (cs_conn s))\<rparr>\<rparr>"

subsection \<open>Life cycle\<close>

definition connectEstablished :: "('f, 'w) conn_env \<Rightarrow> ('f, 'h, 'w) conn_state \<Rightarrow> ('f, 'h, 'w) conn_state res" where
  "connectEstablished env s = on_channel enableReading env (setState kConnected s)"

definition connectDestroyed :: "('f, 'w) conn_env \<Rightarrow> ('f, 'h, 'w) conn_state \<Rightarrow> ('f, 'h, 'w) conn_state res" where
  "connectDestroyed env s =
     bind_res (assert_loop env s) (\<lambda>s.
     bind_res (if m_state (cs_conn s) = kConnected
               then on_channel disableAll env (setState kDisconnected s) else Inr s) (\<lambda>s.
     on_channel channel_remove env s))"

text \<open>The destructor: the channel object goes, then the socket closes its descriptor.\<close>

definition conn_dtor :: "('f, 'h, 'w) conn_state \<Rightarrow> (socket \<times> ('f, 'h) loop) res" where
  "conn_dtor s =
     (if m_state (cs_conn s) \<noteq> kDisconnected then Inl Process_Abort
      else Inr (socket_dtor (m_socket (cs_conn s)),
                (cs_loop s)\<lparr>lp_objects := (lp_objects (cs_loop s))(m_channel (cs_conn s) := None)\<rparr>))"

definition handleClose :: "('f, 'w) conn_env \<Rightarrow> ('f, 'h, 'w) conn_state \<Rightarrow> ('f, 'h, 'w) conn_state res" where
  "handleClose env s =
     bind_res (assert_loop env s) (\<lambda>s.
     if m_alive (cs_conn s) \<and> \<not> m_timeout (cs_conn s) then Inr s
     else if m_state (cs_conn s) \<noteq> kConnected \<and> m_state (cs_conn s) \<noteq> kDisconnecting then Inl Process_Abort
     else
       bind_res (on_channel disableAll env (setState kDisconnected s)) (\<lambda>s.
       let s1 = (if \<not> m_alive (cs_conn s) then on_socket shutdownWrite s else s) in
       bind_res (e_close_callback env (cs_conn s1) (cs_world s1)) (\<lambda>w. Inr (s1\<lparr>cs_world := w\<rparr>))))"

definition closeLongConnection :: "('f, 'w) conn_env \<Rightarrow> ('f, 'h, 'w) conn_state \<Rightarrow> ('f, 'h, 'w) conn_state res" where
  "closeLongConnection env s = handleClose env (s\<lparr>cs_conn := (cs_conn s)\<lparr>m_timeout := True\<rparr>\<rparr>)"

text \<open>\<open>getsockopt\<close> and \<open>strerror_r\<close> only feed a log line.\<close>

definition handleError :: "('f, 'w) conn_env \<Rightarrow> ('f, 'h, 'w) conn_state \<Rightarrow> ('f, 'h, 'w) conn_state res" where
  "handleError env s = handleClose env s"

definition shutdownInLoop :: "('f, 'w) conn_env \<Rightarrow> ('f, 'h, 'w) conn_state \<Rightarrow> ('f, 'h, 'w) conn_state res" where
  "shutdownInLoop env s =
     bind_res (assert_loop env s) (\<lambda>s.
     bind_res (object (m_channel (cs_conn s)) (cs_loop s)) (\<lambda>ch.
     Inr (if \<not> isWriting ch then on_socket shutdownWrite s else s)))"

definition shutdown :: "('f, 'w) conn_env \<Rightarrow> ('f, 'h, 'w) conn_state \<Rightarrow> ('f, 'h, 'w) conn_state res" where
  "shutdown env s =
     (if m_state (cs_conn s) = kConnected then
        let s1 = setState kDisconnecting s in
        if isInLoopThread (e_tid env) (cs_loop s1) then shutdownInLoop env s1
        else Inr (s1\<lparr>cs_loop := queueInLoop (e_tid env) (e_shutdown_in_loop env) (cs_loop s1)\<rparr>)
      else Inr s)"

definition conn_setTcpNoDelay :: "bool \<Rightarrow> ('f, 'h, 'w) conn_state \<Rightarrow> ('f, 'h, 'w) conn_state" where
  "conn_setTcpNoDelay on s = on_socket (setTcpNoDelay on) s"

definition conn_setTcpKeepAlive :: "bool \<Rightarrow> ('f, 'h, 'w) conn_state \<Rightarrow> ('f, 'h, 'w) conn_state" where
  "conn_setTcpKeepAlive on s = on_socket (setTcpKeepAlive on) s"

subsection \<open>Handlers\<close>

definition handleWrite :: "('f, 'w) conn_env \<Rightarrow> ('f, 'h, 'w) conn_state \<Rightarrow> ('f, 'h, 'w) conn_state res" where
  "handleWrite env s =
     bind_res (writeToFd (cs_out s) (m_output_buffer (cs_conn s))) (\<lambda>(bytes, taken, ob, rest).
     let s1 = s\<lparr>cs_conn := (cs_conn s)\<lparr>m_output_buffer := ob\<rparr>, cs_out := rest, cs_sent := cs_sent s @ taken\<rparr>;
         c = cs_conn s1
     in
       if bytes < 0 then handleError env s1
       else if bytes = 0 \<and> readableBytes (m_output_buffer c) = 0 then handleClose env s1
       else if bytes = 0 \<and> readableBytes (m_output_buffer c) > 0 then handleError env s1
       else if bytes > 0 \<and> readableBytes (m_output_buffer c) > 0 then on_channel enableWriting env s1
       else if bytes > 0 \<and> m_alive c \<and> \<not> m_timeout c then
         (case reset (m_context c) (m_input_buffer c) of (ctx, ib) \<Rightarrow>
            on_channel enableReading env (s1\<lparr>cs_conn := c\<lparr>m_context := ctx, m_input_buffer := ib\<rparr>\<rparr>))
       else handleClose env s1)"

definition conn_handleHttpRequest :: "('f, 'w) conn_env \<Rightarrow> ('f, 'h, 'w) conn_state \<Rightarrow> ('f, 'h, 'w) conn_state res" where
  "conn_handleHttpRequest env s =
     (let c = cs_conn s in
      bind_res (work (e_stamp env) (m_context c) (m_input_buffer c) (m_output_buffer c)) (\<lambda>(ctx, ib, ob).
      Inr (s\<lparr>cs_conn := c\<lparr>m_context := ctx, m_input_buffer := ib, m_output_buffer := ob\<rparr>\<rparr>)))"

definition handleRead :: "('f, 'w) conn_env \<Rightarrow> ('f, 'h, 'w) conn_state \<Rightarrow> ('f, 'h, 'w) conn_state res" where
  "handleRead env s =
     bind_res (readFromFd (cs_in s) (m_input_buffer (cs_conn s))) (\<lambda>(bytes, ib, rest).
     let s1 = s\<lparr>cs_conn := (cs_conn s)\<lparr>m_input_buffer := ib\<rparr>, cs_in := rest\<rparr>
     in
       if bytes > 0 then
         bind_res (conn_handleHttpRequest env s1) (\<lambda>s2.
         let s3 =
           (if \<not> m_alive (cs_conn s2) \<and> isKeepAlive (m_context (cs_conn s2)) then
              s2\<lparr>cs_conn := (cs_conn s2)\<lparr>m_alive := True\<rparr>,
                 cs_loop := runAfter (e_add_timer env) (e_tid env) (e_now env) defaultTimeDelay (e_close_long env) (cs_loop s2)\<rparr>
            else s2)
         in handleWrite env s3)
       else if bytes = 0 then handleClose env s1
       else handleError env s1)"

text \<open>The handlers of the channel, and the timer's call back.\<close>

datatype conn_event = Ev_Read | Ev_Write | Ev_Error | Ev_Close | Ev_Timeout

fun conn_exec :: "('f, 'w) conn_env \<Rightarrow> conn_event \<Rightarrow> ('f, 'h, 'w) conn_state \<Rightarrow> ('f, 'h, 'w) conn_state res" where
  "conn_exec env Ev_Read = handleRead env"
| "conn_exec env Ev_Write = handleWrite env"
| "conn_exec env Ev_Error = handleError env"
| "conn_exec env Ev_Close = handleClose env"
| "conn_exec env Ev_Timeout = closeLongConnection env"

end
