(* ===== verification/TcpSpec.thy ===== *)
theory TcpSpec
  imports TcpConnection
begin

text \<open>
  What a connection does, as its handlers are run by its loop.

  \<^item> \<open>settled\<close>: the loop is coherent, runs in the calling thread and owns the connection's channel.
  \<^item> one law per operation: closing, destroying, answering a request.
  \<^item> the life cycle as a step relation, and the properties of whole exchanges with a client.
\<close>

subsection \<open>Frames\<close>

text \<open>What a change of a channel leaves alone.\<close>

definition same_rest :: "('f, 'h) loop \<Rightarrow> ('f, 'h) loop \<Rightarrow> bool" where
  "same_rest lp lp' \<longleftrightarrow> lp' = lp\<lparr>m_epoll := m_epoll lp', lp_objects := lp_objects lp'\<rparr> \<and>
     m_events_size (m_epoll lp') = m_events_size (m_epoll lp) \<and>
     (\<forall>a. map_option m_read_handler (lp_objects lp' a) = map_option m_read_handler (lp_objects lp a)) \<and>
     (\<forall>a. map_option m_fd (lp_objects lp' a) = map_option m_fd (lp_objects lp a))"

lemma epoll_frames:
  "epoll_updateChannel kctl ch ep = Inr (ch', ep') \<Longrightarrow>
    m_events_size ep' = m_events_size ep \<and> m_read_handler ch' = m_read_handler ch \<and> m_fd ch' = m_fd ch"
  "epoll_removeChannel kctl ch ep = Inr (ch', ep') \<Longrightarrow>
    m_events_size ep' = m_events_size ep \<and> m_read_handler ch' = m_read_handler ch \<and> m_fd ch' = m_fd ch"
  by (auto simp: epoll_updateChannel_def epoll_removeChannel_def epoll_update_def bind_res_eq_Inr Let_def split: if_splits)

lemma channel_op_frames:
  "set_events f tid kctl a lp = Inr lp' \<Longrightarrow> same_rest lp lp'"
  "channel_remove tid kctl a lp = Inr lp' \<Longrightarrow> same_rest lp lp'"
  by (auto simp: set_events_def updateChannel_def channel_remove_def removeChannel_def bind_res_eq_Inr same_rest_def
      object_def store_object_def split: if_splits option.splits dest!: epoll_frames)

lemma same_rest_simps:
  assumes "same_rest lp lp'"
  shows "m_timer_heap lp' = m_timer_heap lp" "m_pending_functors lp' = m_pending_functors lp" "m_tid lp' = m_tid lp"
    "idle lp' = idle lp" "lp_id lp' = lp_id lp" "m_wakeups lp' = m_wakeups lp"
  "m_events_size (m_epoll lp') = m_events_size (m_epoll lp)"
  using assms by (cases lp; cases lp'; simp add: same_rest_def idle_def)+

lemma set_mask_law_rest:
  assumes "loop_ok tid kctl lp" "lp_objects lp a = Some ch" "ev \<noteq> kNoneEvent \<or> watched lp a \<noteq> None"
  shows "\<exists>lp'. set_mask tid kctl a ev lp = Inr lp' \<and> loop_ok tid kctl lp' \<and> owned lp' = owned lp \<and>
    watched lp' = (watched lp)(a := if ev = kNoneEvent then None else Some ev) \<and> same_rest lp lp' \<and>
    lp_objects lp' = (lp_objects lp)(a \<mapsto> ch\<lparr>m_events := ev, m_index := index_after ch ev\<rparr>)"
proof -
  from set_events_law [OF assms(1,2), of "\<lambda>_. ev"] obtain ep where
    "set_mask tid kctl a ev lp = Inr (with_mask a ch ev ep lp)" "loop_ok tid kctl (with_mask a ch ev ep lp)"
    "watched (with_mask a ch ev ep lp) = (watched lp)(a := watched_after ch ev)" by (auto simp: set_mask_def)
  moreover from this(1) have "same_rest lp (with_mask a ch ev ep lp)" unfolding set_mask_def by (rule channel_op_frames(1))
  ultimately show ?thesis using watched_after_eq [OF assms] assms(2)
    by (intro exI [of _ "with_mask a ch ev ep lp"]) (auto simp: with_mask_def owned_def fun_eq_iff)
qed

lemma enableReading_mask: "enableReading tid kctl a = set_mask tid kctl a kReadEvent"
  by (simp add: enableReading_def set_mask_def)

lemma enableWriting_mask: "enableWriting tid kctl a = set_mask tid kctl a kWriteEvent"
  by (simp add: enableWriting_def set_mask_def)

subsection \<open>Operations on a settled connection\<close>

definition settled :: "('f, 'w) conn_env \<Rightarrow> ('f, 'h, 'w) conn_state \<Rightarrow> bool" where
  "settled env s \<longleftrightarrow> loop_ok (e_tid env) (e_kctl env) (cs_loop s) \<and> owned (cs_loop s) (m_channel (cs_conn s))"

definition cs_watched :: "('f, 'h, 'w) conn_state \<Rightarrow> 32 word option" where
  "cs_watched s = watched (cs_loop s) (m_channel (cs_conn s))"

definition others_watched :: "('f, 'h, 'w) conn_state \<Rightarrow> nat \<Rightarrow> 32 word option" where
  "others_watched s = (watched (cs_loop s))(m_channel (cs_conn s) := None)"

lemma assert_loop_settled [simp]: "settled env s \<Longrightarrow> assert_loop env s = Inr s"
  using loop_okD(2) by (auto simp: settled_def assert_loop_def assertInLoopThread_def)

lemma on_channel_law:
  assumes "settled env s" "ev \<noteq> kNoneEvent \<or> cs_watched s \<noteq> None" "op = (\<lambda>tid kctl a. set_mask tid kctl a ev)"
  shows "\<exists>lp. on_channel op env s = Inr (s\<lparr>cs_loop := lp\<rparr>) \<and> settled env (s\<lparr>cs_loop := lp\<rparr>) \<and>
    cs_watched (s\<lparr>cs_loop := lp\<rparr>) = (if ev = kNoneEvent then None else Some ev) \<and>
    others_watched (s\<lparr>cs_loop := lp\<rparr>) = others_watched s \<and> same_rest (cs_loop s) lp"
proof -
  from assms(1) obtain ch where ch: "lp_objects (cs_loop s) (m_channel (cs_conn s)) = Some ch"
    by (auto simp: settled_def owned_def)
  have "loop_ok (e_tid env) (e_kctl env) (cs_loop s)" using assms(1) by (simp add: settled_def)
  from set_mask_law_rest [OF this ch, of ev] assms(2) obtain lp where
    "set_mask (e_tid env) (e_kctl env) (m_channel (cs_conn s)) ev (cs_loop s) = Inr lp"
    "loop_ok (e_tid env) (e_kctl env) lp" "owned lp = owned (cs_loop s)" "same_rest (cs_loop s) lp"
    "watched lp = (watched (cs_loop s))(m_channel (cs_conn s) := if ev = kNoneEvent then None else Some ev)"
    by (auto simp: cs_watched_def)
  with assms(1,3) show ?thesis
    by (intro exI [of _ lp]) (simp add: on_channel_def settled_def cs_watched_def others_watched_def)
qed

lemma on_channel_ops:
  "on_channel enableReading = on_channel (\<lambda>tid kctl a. set_mask tid kctl a kReadEvent)"
  "on_channel enableWriting = on_channel (\<lambda>tid kctl a. set_mask tid kctl a kWriteEvent)"
  "on_channel disableAll = on_channel (\<lambda>tid kctl a. set_mask tid kctl a kNoneEvent)"
  by (simp_all add: on_channel_def enableReading_mask enableWriting_mask disableAll_mask fun_eq_iff)

lemma setState_simps [simp]:
  "cs_loop (setState st s) = cs_loop s" "cs_world (setState st s) = cs_world s"
  "cs_conn (setState st s) = (cs_conn s)\<lparr>m_state := st\<rparr>"
  "settled env (setState st s) = settled env s" "cs_watched (setState st s) = cs_watched s"
  "others_watched (setState st s) = others_watched s"
  by (simp_all add: setState_def settled_def cs_watched_def others_watched_def)

text \<open>The connection after it was closed.\<close>

definition closed_conn :: "conn \<Rightarrow> conn" where
  "closed_conn c = c\<lparr>m_state := kDisconnected,
     m_socket := (if m_alive c then m_socket c else shutdownWrite (m_socket c))\<rparr>"

definition closed :: "('f, 'h) loop \<Rightarrow> 'w \<Rightarrow> ('f, 'h, 'w) conn_state \<Rightarrow> ('f, 'h, 'w) conn_state" where
  "closed lp w s = s\<lparr>cs_loop := lp, cs_conn := closed_conn (cs_conn s), cs_world := w\<rparr>"

lemma closed_simps [simp]:
  "cs_loop (closed lp w s) = lp" "cs_conn (closed lp w s) = closed_conn (cs_conn s)" "cs_world (closed lp w s) = w"
  "cs_in (closed lp w s) = cs_in s" "cs_out (closed lp w s) = cs_out s" "cs_sent (closed lp w s) = cs_sent s"
  "m_state (closed_conn c) = kDisconnected" "m_channel (closed_conn c) = m_channel c" "m_alive (closed_conn c) = m_alive c"
  "m_timeout (closed_conn c) = m_timeout c" "m_input_buffer (closed_conn c) = m_input_buffer c"
  "m_output_buffer (closed_conn c) = m_output_buffer c" "m_context (closed_conn c) = m_context c" "m_name (closed_conn c) = m_name c"
  by (simp_all add: closed_def closed_conn_def)

definition kept_alive :: "conn \<Rightarrow> bool" where
  "kept_alive c \<longleftrightarrow> m_alive c \<and> \<not> m_timeout c"

lemma handleClose_kept: "settled env s \<Longrightarrow> kept_alive (cs_conn s) \<Longrightarrow> handleClose env s = Inr s"
  by (simp add: handleClose_def kept_alive_def)

lemma handleClose_twice:
  "settled env s \<Longrightarrow> \<not> kept_alive (cs_conn s) \<Longrightarrow> m_state (cs_conn s) = kDisconnected \<Longrightarrow>
    handleClose env s = Inl Process_Abort"
  by (simp add: handleClose_def kept_alive_def)

lemma handleClose_law:
  assumes "settled env s" "\<not> kept_alive (cs_conn s)" "m_state (cs_conn s) = kConnected" "cs_watched s \<noteq> None"
    and "e_close_callback env (closed_conn (cs_conn s)) (cs_world s) = Inr w"
  shows "\<exists>lp. handleClose env s = Inr (closed lp w s) \<and> settled env (closed lp w s) \<and>
    cs_watched (closed lp w s) = None \<and> others_watched (closed lp w s) = others_watched s \<and> same_rest (cs_loop s) lp"
proof -
  have "settled env (setState kDisconnected s)" using assms(1) by simp
  from on_channel_law [OF this _ refl, of kNoneEvent] assms(4) obtain lp where
    lp: "on_channel disableAll env (setState kDisconnected s) = Inr ((setState kDisconnected s)\<lparr>cs_loop := lp\<rparr>)"
      "settled env ((setState kDisconnected s)\<lparr>cs_loop := lp\<rparr>)"
      "cs_watched ((setState kDisconnected s)\<lparr>cs_loop := lp\<rparr>) = None"
      "others_watched ((setState kDisconnected s)\<lparr>cs_loop := lp\<rparr>) = others_watched s" "same_rest (cs_loop s) lp"
    by (auto simp: on_channel_ops)
  let ?s1 = "(setState kDisconnected s)\<lparr>cs_loop := lp\<rparr>"
  have c: "cs_conn (if m_alive (cs_conn ?s1) then ?s1 else on_socket shutdownWrite ?s1) = closed_conn (cs_conn s)"
    by (simp add: closed_conn_def on_socket_def)
  have "(if m_alive (cs_conn ?s1) then ?s1 else on_socket shutdownWrite ?s1)\<lparr>cs_world := w\<rparr> = closed lp w s"
    by (cases s) (simp add: closed_def closed_conn_def on_socket_def setState_def)
  then have "handleClose env s = Inr (closed lp w s)"
    using assms lp(1) c by (cases "m_alive (cs_conn s)") (auto simp: handleClose_def kept_alive_def Let_def on_socket_def)
  with lp show ?thesis by (auto simp: settled_def cs_watched_def others_watched_def)
qed

subsection \<open>Reading and answering\<close>

text \<open>The state in which \<open>handleRead\<close> calls \<open>handleWrite\<close>, after the parse ended in \<open>ctx\<close>.\<close>

definition with_buffers :: "http_context \<Rightarrow> buffer \<Rightarrow> buffer \<Rightarrow> conn \<Rightarrow> conn" where
  "with_buffers ctx ib ob c = c\<lparr>m_input_buffer := ib, m_output_buffer := ob, m_context := ctx\<rparr>"

definition answered ::
  "('f, 'w) conn_env \<Rightarrow> sys_read list \<Rightarrow> http_context \<Rightarrow> buffer \<Rightarrow> buffer \<Rightarrow>
   ('f, 'h, 'w) conn_state \<Rightarrow> ('f, 'h, 'w) conn_state" where
  "answered env rest ctx ib ob s =
     (let c = with_buffers ctx ib ob (cs_conn s) in
      if \<not> m_alive (cs_conn s) \<and> isKeepAlive ctx then
        s\<lparr>cs_in := rest, cs_conn := c\<lparr>m_alive := True\<rparr>,
          cs_loop := runAfter (e_add_timer env) (e_tid env) (e_now env) defaultTimeDelay (e_close_long env) (cs_loop s)\<rparr>
      else s\<lparr>cs_in := rest, cs_conn := c\<rparr>)"

lemma handleRead_work:
  assumes "cs_in s = ds @ Rd_Err EAGAIN # rest" "\<forall>a \<in> set ds. rd_goes_on a" "rd_data ds \<noteq> []"
    and "buffer_room (length (rd_data ds) + m) (m_input_buffer (cs_conn s))"
    and "buffer_room (250 + length (e_stamp env) + n) (m_output_buffer (cs_conn s))"
    and "m_check_state (m_context (cs_conn s)) \<noteq> CHECK_STATE_END"
    and h: "handle_text (m_context (cs_conn s)) (content (m_input_buffer (cs_conn s)) @ rd_data ds) = (ctx, left)"
  shows "\<exists>ib ob. handleRead env s = handleWrite env (answered env rest ctx ib ob s) \<and>
    content ib = left \<and> buffer_room m ib \<and>
    content ob = content (m_output_buffer (cs_conn s)) @ http_response (e_stamp env) ctx \<and> buffer_room n ob"
proof -
  let ?c = "cs_conn s"
  from readFromFd_loop_prefix [OF assms(2,4), of 0] obtain ib0 where
    rd: "readFromFd (cs_in s) (m_input_buffer ?c) = Inr (int (length (rd_data ds)), ib0, rest)"
    and ib0: "content ib0 = content (m_input_buffer ?c) @ rd_data ds" "buffer_room m ib0"
    using assms(1) by (auto simp: readFromFd_def)
  from work_refines [OF buffer_room_inv [OF ib0(2)] assms(6,5)] ib0(1) h obtain ib ob where
    w: "work (e_stamp env) (m_context ?c) ib0 (m_output_buffer ?c) = Inr (ctx, ib, ob)"
    and r: "content ib = left" "buffer_room m ib" "content ob = content (m_output_buffer ?c) @ http_response (e_stamp env) ctx"
      "buffer_room n ob" using ib0(2) by (auto simp: buffer_room_def)
  have "handleRead env s = handleWrite env (answered env rest ctx ib ob s)"
    using rd w assms(3)
    by (cases s; cases ?c) (simp add: handleRead_def conn_handleHttpRequest_def answered_def with_buffers_def Let_def)
  with r show ?thesis by blast
qed

text \<open>Writes that take \<open>wr_sum ws\<close> bytes in any number of pieces.\<close>

fun wr_goes_on :: "sys_write \<Rightarrow> bool" where
  "wr_goes_on (Wr_Bytes k) = (k > 0)"
| "wr_goes_on (Wr_Err e) = (e = EINTR)"

fun wr_sum :: "sys_write list \<Rightarrow> nat" where
  "wr_sum [] = 0"
| "wr_sum (Wr_Bytes k # ws) = k + wr_sum ws"
| "wr_sum (Wr_Err e # ws) = wr_sum ws"

lemma writeToFd_loop_prefix:
  assumes "\<forall>a \<in> set ws. wr_goes_on a" "wr_sum ws \<le> length (content b)" "buffer_room m b"
  shows "\<exists>b'. (\<forall>k sent as. writeToFd_loop (ws @ as) k sent b =
      writeToFd_loop as (k + int (wr_sum ws)) (sent @ take (wr_sum ws) (content b)) b') \<and>
    content b' = drop (wr_sum ws) (content b) \<and> buffer_room m b'"
  using assms
proof (induction ws arbitrary: b)
  case Nil
  then show ?case by auto
next
  case (Cons w ws)
  show ?case
  proof (cases w)
    case (Wr_Err e)
    with Cons show ?thesis by auto
  next
    case (Wr_Bytes n)
    then have n: "n > 0" and le: "n \<le> length (content b)" using Cons.prems by auto
    note t = take_front_law(1) [OF buffer_room_inv [OF Cons.prems(3)] le] take_front_room [OF Cons.prems(3) le]
    have "wr_sum ws \<le> length (content (take_front n b))" "\<forall>a \<in> set ws. wr_goes_on a"
      using Cons.prems Wr_Bytes t(1) by auto
    from Cons.IH [OF this(2,1) t(2)] t(1) obtain b' where
      b': "\<forall>k sent as. writeToFd_loop (ws @ as) k sent (take_front n b) =
          writeToFd_loop as (k + int (wr_sum ws)) (sent @ take (wr_sum ws) (drop n (content b))) b'"
        "content b' = drop (wr_sum ws) (drop n (content b))" "buffer_room m b'" by auto
    have "take n (content b) @ take (wr_sum ws) (drop n (content b)) = take (n + wr_sum ws) (content b)"
      by (simp add: take_add)
    with b' Wr_Bytes writeToFd_loop_Bytes [OF n le Cons.prems(3)] show ?thesis
      by (intro exI [of _ b']) (simp add: ac_simps)
  qed
qed

definition wr_stops :: "sys_write \<Rightarrow> bool" where
  "wr_stops a \<longleftrightarrow> a = Wr_Bytes 0 \<or> a = Wr_Err EAGAIN"

lemma writeToFd_prefix:
  assumes "\<forall>a \<in> set ws. wr_goes_on a" "wr_sum ws \<le> length (content b)" "buffer_room n b" "wr_stops a"
  shows "\<exists>b'. writeToFd (ws @ a # as) b = Inr (int (wr_sum ws), take (wr_sum ws) (content b), b', as) \<and>
    content b' = drop (wr_sum ws) (content b) \<and> buffer_room n b' \<and>
    readableBytes b' = int (length (content b) - wr_sum ws)"
proof -
  from writeToFd_loop_prefix [OF assms(1-3)] obtain b' where
    b': "\<forall>k sent as. writeToFd_loop (ws @ as) k sent b =
      writeToFd_loop as (k + int (wr_sum ws)) (sent @ take (wr_sum ws) (content b)) b'"
    "content b' = drop (wr_sum ws) (content b)" "buffer_room n b'" by blast
  with assms(4) byte_counts(3) [OF b'(3)] writeToFd_loop_offered [OF b'(3), of 0] show ?thesis
    by (intro exI [of _ b']) (auto simp: writeToFd_def wr_stops_def)
qed

text \<open>The state after \<open>writeToFd\<close>, before \<open>handleWrite\<close> looks at its result.\<close>

definition wrote :: "buffer \<Rightarrow> string \<Rightarrow> sys_write list \<Rightarrow> ('f, 'h, 'w) conn_state \<Rightarrow> ('f, 'h, 'w) conn_state" where
  "wrote ob taken rest s =
     s\<lparr>cs_conn := (cs_conn s)\<lparr>m_output_buffer := ob\<rparr>, cs_out := rest, cs_sent := cs_sent s @ taken\<rparr>"

definition next_request :: "('f, 'h, 'w) conn_state \<Rightarrow> ('f, 'h, 'w) conn_state" where
  "next_request s =
     (case reset (m_context (cs_conn s)) (m_input_buffer (cs_conn s)) of (ctx, ib) \<Rightarrow>
        s\<lparr>cs_conn := (cs_conn s)\<lparr>m_context := ctx, m_input_buffer := ib\<rparr>\<rparr>)"

lemma wrote_simps [simp]:
  "cs_loop (wrote ob t r s) = cs_loop s" "cs_world (wrote ob t r s) = cs_world s"
  "cs_in (wrote ob t r s) = cs_in s" "cs_out (wrote ob t r s) = r" "cs_sent (wrote ob t r s) = cs_sent s @ t"
  "cs_conn (wrote ob t r s) = (cs_conn s)\<lparr>m_output_buffer := ob\<rparr>"
  "settled env (wrote ob t r s) = settled env s" "cs_watched (wrote ob t r s) = cs_watched s"
  "others_watched (wrote ob t r s) = others_watched s"
  by (simp_all add: wrote_def settled_def cs_watched_def others_watched_def)

lemma next_request_simps [simp]:
  "cs_loop (next_request s) = cs_loop s" "cs_world (next_request s) = cs_world s" "cs_in (next_request s) = cs_in s"
  "cs_out (next_request s) = cs_out s" "cs_sent (next_request s) = cs_sent s"
  "m_channel (cs_conn (next_request s)) = m_channel (cs_conn s)" "m_state (cs_conn (next_request s)) = m_state (cs_conn s)"
  "m_alive (cs_conn (next_request s)) = m_alive (cs_conn s)" "m_timeout (cs_conn (next_request s)) = m_timeout (cs_conn s)"
  "m_output_buffer (cs_conn (next_request s)) = m_output_buffer (cs_conn s)"
  "m_input_buffer (cs_conn (next_request s)) = retrieveAll (m_input_buffer (cs_conn s))"
  "m_check_state (m_context (cs_conn (next_request s))) = CHECK_STATE_REQUEST_LINE"
  "settled env (next_request s) = settled env s" "cs_watched (next_request s) = cs_watched s"
  "others_watched (next_request s) = others_watched s"
  by (simp_all add: next_request_def reset_def settled_def cs_watched_def others_watched_def)

text \<open>The branches of \<open>handleWrite\<close>, by how much of the response the kernel took.\<close>

lemma handleWrite_cases:
  assumes "cs_out s = ws @ a # rest" "\<forall>a \<in> set ws. wr_goes_on a" "wr_stops a"
    and "buffer_room n (m_output_buffer (cs_conn s))"
  defines "out \<equiv> content (m_output_buffer (cs_conn s))" and "k \<equiv> wr_sum ws"
  assumes "k \<le> length out"
  shows "\<exists>ob. content ob = drop k out \<and> buffer_room n ob \<and>
    handleWrite env s =
      (let s1 = wrote ob (take k out) rest s in
       if k = 0 then handleClose env s1
       else if k < length out then on_channel enableWriting env s1
       else if kept_alive (cs_conn s) then on_channel enableReading env (next_request s1)
       else handleClose env s1)"
proof -
  from writeToFd_prefix [OF assms(2) _ assms(4,3), of rest] assms(5-7) obtain ob where
    w: "writeToFd (cs_out s) (m_output_buffer (cs_conn s)) = Inr (int k, take k out, ob, rest)"
    and ob: "content ob = drop k out" "buffer_room n ob" "readableBytes ob = int (length out - k)"
    using assms(1) by (auto simp: out_def k_def)
  have "handleWrite env s = (let s1 = wrote ob (take k out) rest s in
       if k = 0 then handleClose env s1
       else if k < length out then on_channel enableWriting env s1
       else if kept_alive (cs_conn s) then on_channel enableReading env (next_request s1)
       else handleClose env s1)"
    using w ob(3) assms(7)
    by (simp add: handleWrite_def handleError_def kept_alive_def next_request_def reset_def Let_def flip: wrote_def)
  with ob show ?thesis by blast
qed

subsection \<open>A request arrives\<close>

text \<open>A connection that waits for a request, with nothing left of an earlier one.\<close>

definition ready :: "('f, 'w) conn_env \<Rightarrow> ('f, 'h, 'w) conn_state \<Rightarrow> bool" where
  "ready env s \<longleftrightarrow> settled env s \<and> m_state (cs_conn s) = kConnected \<and> \<not> m_timeout (cs_conn s) \<and> cs_watched s \<noteq> None \<and>
     content (m_input_buffer (cs_conn s)) = [] \<and> content (m_output_buffer (cs_conn s)) = [] \<and>
     m_check_state (m_context (cs_conn s)) = CHECK_STATE_REQUEST_LINE"

text \<open>
  The socket will deliver, in the pieces \<open>ds\<close>, the request \<open>m uri v\<close> with headers \<open>hs\<close> and then \<open>extra\<close>, and
  the vectors stay below 2^31 bytes, with room for \<open>n\<close> more of input.
\<close>

definition request_arrives ::
  "('f, 'w) conn_env \<Rightarrow> ('f, 'h, 'w) conn_state \<Rightarrow> sys_read list \<Rightarrow> METHOD \<Rightarrow> string \<Rightarrow> HTTP_VERSION \<Rightarrow> string list \<Rightarrow> string \<Rightarrow> nat \<Rightarrow> bool" where
  "request_arrives env s ds m uri v hs extra n \<longleftrightarrow>
     (\<exists>ins. cs_in s = ds @ Rd_Err EAGAIN # ins) \<and> (\<forall>a \<in> set ds. rd_goes_on a) \<and>
     rd_data ds = render_request m uri v hs @ extra \<and> is_word uri \<and> uri \<noteq> [] \<and> (\<forall>h \<in> set hs. accepted_header h) \<and>
     buffer_room (length (rd_data ds) + n) (m_input_buffer (cs_conn s)) \<and>
     buffer_room (250 + length (e_stamp env)) (m_output_buffer (cs_conn s))"

definition response_to :: "string \<Rightarrow> string \<Rightarrow> HTTP_VERSION \<Rightarrow> string" where
  "response_to stamp uri v =
     http_response stamp ((new_context k200OK)\<lparr>m_version := v, m_uri := uri, m_request_state := GET_REQUEST\<rparr>)"

definition asks_keep_alive :: "http_context \<Rightarrow> string list \<Rightarrow> bool" where
  "asks_keep_alive ctx hs \<longleftrightarrow> isKeepAlive ctx \<or> (\<exists>h \<in> set hs. is_connection h)"

lemma response_nonempty: "response_to stamp uri v \<noteq> []"
  by (auto simp: response_to_def http_response_def)

text \<open>The kernel will take \<open>k\<close> bytes of the response.\<close>

definition kernel_takes :: "nat \<Rightarrow> sys_write list \<Rightarrow> bool" where
  "kernel_takes k script \<longleftrightarrow> (\<exists>ws a outs. script = ws @ a # outs \<and> (\<forall>w \<in> set ws. wr_goes_on w) \<and> wr_stops a \<and> wr_sum ws = k)"

lemma rendered_nonempty: "render_request m uri v hs @ extra \<noteq> []"
  by (simp add: render_request_def)

lemma request_parsed:
  assumes "ready env s" "request_arrives env s ds m uri v hs extra n" "cs_in s = ds @ Rd_Err EAGAIN # ins"
    and "buffer_room (250 + length (e_stamp env) + j) (m_output_buffer (cs_conn s))"
  shows "\<exists>ctx ib ob. handleRead env s = handleWrite env (answered env ins ctx ib ob s) \<and>
    content ib = extra \<and> buffer_room n ib \<and> content ob = response_to (e_stamp env) uri v \<and> buffer_room j ob \<and>
    m_check_state ctx = CHECK_STATE_END \<and> isKeepAlive ctx = asks_keep_alive (m_context (cs_conn s)) hs"
proof -
  let ?c = "m_context (cs_conn s)"
  from assms(2) have r: "\<forall>a \<in> set ds. rd_goes_on a"
    "rd_data ds = render_request m uri v hs @ extra" "is_word uri" "uri \<noteq> []" "\<forall>h \<in> set hs. accepted_header h"
    "buffer_room (length (rd_data ds) + n) (m_input_buffer (cs_conn s))"
    by (auto simp only: request_arrives_def)
  from assms(1) have d: "content (m_input_buffer (cs_conn s)) = []" "content (m_output_buffer (cs_conn s)) = []"
    "m_check_state ?c = CHECK_STATE_REQUEST_LINE" "m_check_state ?c \<noteq> CHECK_STATE_END" by (auto simp: ready_def)
  let ?ctx = "?c\<lparr>m_new_line := [NUL, NUL], m_method := m, m_uri := uri, m_version := v,
       m_connection := (if \<exists>h \<in> set hs. is_connection h then KEEP_ALIVE else m_connection ?c),
       m_check_state := CHECK_STATE_END, m_request_state := GET_REQUEST\<rparr>"
  have "handle_text ?c (content (m_input_buffer (cs_conn s)) @ rd_data ds) = (?ctx, extra)"
    using handle_text_request [OF r(3,4) d(3) r(5), of m v extra] r(2) d(1) by simp
  moreover have "rd_data ds \<noteq> []" unfolding r(2) by (rule rendered_nonempty)
  ultimately obtain ib ob where b: "handleRead env s = handleWrite env (answered env ins ?ctx ib ob s)"
    "content ib = extra" "buffer_room n ib" "content ob = http_response (e_stamp env) ?ctx" "buffer_room j ob"
    using handleRead_work [OF assms(3) r(1) _ r(6) assms(4) d(4), of ?ctx extra] d(2) by auto
  have "http_response (e_stamp env) ?ctx = response_to (e_stamp env) uri v"
    by (simp add: http_response_def response_to_def)
  moreover have "isKeepAlive ?ctx = asks_keep_alive ?c hs" by (simp add: isKeepAlive_def asks_keep_alive_def)
  ultimately show ?thesis using b by (intro exI [of _ ?ctx] exI [of _ ib] exI [of _ ob]) simp
qed

lemma answered_simps:
  assumes "settled env s"
  shows "cs_out (answered env rest ctx ib ob s) = cs_out s" "cs_sent (answered env rest ctx ib ob s) = cs_sent s"
    "cs_in (answered env rest ctx ib ob s) = rest"
    "cs_world (answered env rest ctx ib ob s) = cs_world s" "cs_watched (answered env rest ctx ib ob s) = cs_watched s"
    "others_watched (answered env rest ctx ib ob s) = others_watched s" "settled env (answered env rest ctx ib ob s)"
    "cs_conn (answered env rest ctx ib ob s) =
      (with_buffers ctx ib ob (cs_conn s))\<lparr>m_alive := m_alive (cs_conn s) \<or> isKeepAlive ctx\<rparr>"
    "m_timer_heap (cs_loop (answered env rest ctx ib ob s)) =
      (if \<not> m_alive (cs_conn s) \<and> isKeepAlive ctx
       then addTimerInLoop (e_now env) (e_close_long env) defaultTimeDelay (m_timer_heap (cs_loop s))
       else m_timer_heap (cs_loop s))"
    "m_alive (cs_conn s) \<or> \<not> isKeepAlive ctx \<Longrightarrow> cs_loop (answered env rest ctx ib ob s) = cs_loop s"
    "cs_loop (answered env rest ctx ib ob s) = (cs_loop s)\<lparr>m_timer_heap := m_timer_heap (cs_loop (answered env rest ctx ib ob s))\<rparr>"
proof -
  have i: "isInLoopThread (e_tid env) (cs_loop s)" using assms loop_okD(2) by (auto simp: settled_def)
  have w: "watched (lp\<lparr>m_timer_heap := th\<rparr>) = watched lp" "loop_ok t k (lp\<lparr>m_timer_heap := th\<rparr>) = loop_ok t k lp"
    for lp :: "('a, 'c) loop" and th t k by (auto simp: watched_def loop_ok_def fun_eq_iff split: option.splits)
  have c: "with_buffers ctx ib ob (cs_conn s) = (with_buffers ctx ib ob (cs_conn s))\<lparr>m_alive := m_alive (cs_conn s)\<rparr>"
    by (simp add: with_buffers_def)
  show "cs_out (answered env rest ctx ib ob s) = cs_out s" "cs_sent (answered env rest ctx ib ob s) = cs_sent s"
    "cs_in (answered env rest ctx ib ob s) = rest" "cs_world (answered env rest ctx ib ob s) = cs_world s"
    by (simp_all add: answered_def Let_def)
  show "cs_watched (answered env rest ctx ib ob s) = cs_watched s"
    "others_watched (answered env rest ctx ib ob s) = others_watched s" "settled env (answered env rest ctx ib ob s)"
    using i w assms
    by (auto simp: answered_def Let_def cs_watched_def others_watched_def settled_def runAfter_def addTimer_def with_buffers_def owned_def)
  show "cs_conn (answered env rest ctx ib ob s) =
      (with_buffers ctx ib ob (cs_conn s))\<lparr>m_alive := m_alive (cs_conn s) \<or> isKeepAlive ctx\<rparr>"
    using c by (cases "m_alive (cs_conn s)"; cases "isKeepAlive ctx") (simp_all add: answered_def Let_def)
  show "m_timer_heap (cs_loop (answered env rest ctx ib ob s)) =
      (if \<not> m_alive (cs_conn s) \<and> isKeepAlive ctx
       then addTimerInLoop (e_now env) (e_close_long env) defaultTimeDelay (m_timer_heap (cs_loop s))
       else m_timer_heap (cs_loop s))"
    using i by (simp add: answered_def Let_def runAfter_def addTimer_def)
  show "m_alive (cs_conn s) \<or> \<not> isKeepAlive ctx \<Longrightarrow> cs_loop (answered env rest ctx ib ob s) = cs_loop s"
    by (auto simp: answered_def Let_def)
  show "cs_loop (answered env rest ctx ib ob s) = (cs_loop s)\<lparr>m_timer_heap := m_timer_heap (cs_loop (answered env rest ctx ib ob s))\<rparr>"
    using i by (simp add: answered_def Let_def runAfter_def addTimer_def)
qed

text \<open>After the request was parsed and \<open>k\<close> bytes of the response were taken.\<close>

definition after_write :: "('f, 'w) conn_env \<Rightarrow> ('f, 'h, 'w) conn_state \<Rightarrow> string list \<Rightarrow> string \<Rightarrow> nat \<Rightarrow> string \<Rightarrow> nat \<Rightarrow> ('f, 'h, 'w) conn_state \<Rightarrow> bool" where
  "after_write env s hs extra n resp k s1 \<longleftrightarrow>
     settled env s1 \<and> cs_watched s1 = cs_watched s \<and> others_watched s1 = others_watched s \<and> cs_world s1 = cs_world s \<and>
     cs_sent s1 = cs_sent s @ take k resp \<and> content (m_output_buffer (cs_conn s1)) = drop k resp \<and>
     buffer_room 0 (m_output_buffer (cs_conn s1)) \<and>
     content (m_input_buffer (cs_conn s1)) = extra \<and> buffer_room n (m_input_buffer (cs_conn s1)) \<and>
     m_state (cs_conn s1) = kConnected \<and> \<not> m_timeout (cs_conn s1) \<and> m_channel (cs_conn s1) = m_channel (cs_conn s) \<and>
     m_alive (cs_conn s1) = (m_alive (cs_conn s) \<or> asks_keep_alive (m_context (cs_conn s)) hs) \<and>
     m_check_state (m_context (cs_conn s1)) = CHECK_STATE_END \<and> m_socket (cs_conn s1) = m_socket (cs_conn s) \<and>
     m_timer_heap (cs_loop s1) =
       (if \<not> m_alive (cs_conn s) \<and> asks_keep_alive (m_context (cs_conn s)) hs
        then addTimerInLoop (e_now env) (e_close_long env) defaultTimeDelay (m_timer_heap (cs_loop s))
        else m_timer_heap (cs_loop s)) \<and>
     (m_alive (cs_conn s) \<or> \<not> asks_keep_alive (m_context (cs_conn s)) hs \<longrightarrow> cs_loop s1 = cs_loop s)"

lemma exchange_script:
  assumes "ready env s" "request_arrives env s ds m uri v hs extra n" "cs_in s = ds @ Rd_Err EAGAIN # ins"
    and w: "cs_out s = ws @ a # outs" "\<forall>w \<in> set ws. wr_goes_on w" "wr_stops a"
    and "buffer_room (250 + length (e_stamp env) + j) (m_output_buffer (cs_conn s))"
  defines "resp \<equiv> response_to (e_stamp env) uri v" and "k \<equiv> wr_sum ws"
  assumes "k \<le> length resp"
  shows "\<exists>s1. after_write env s hs extra n resp k s1 \<and> cs_in s1 = ins \<and> cs_out s1 = outs \<and>
    buffer_room j (m_output_buffer (cs_conn s1)) \<and> cs_loop s1 = (cs_loop s)\<lparr>m_timer_heap := m_timer_heap (cs_loop s1)\<rparr> \<and>
    handleRead env s =
      (if k = 0 then handleClose env s1
       else if k < length resp then on_channel enableWriting env s1
       else if kept_alive (cs_conn s1) then on_channel enableReading env (next_request s1)
       else handleClose env s1)"
proof -
  from assms(1) have set: "settled env s" by (simp add: ready_def)
  obtain ctx ib ob where h: "handleRead env s = handleWrite env (answered env ins ctx ib ob s)"
    "content ib = extra" "buffer_room n ib" "content ob = resp" "buffer_room j ob"
    "m_check_state ctx = CHECK_STATE_END" "isKeepAlive ctx = asks_keep_alive (m_context (cs_conn s)) hs"
    using request_parsed [OF assms(1-3,7)] by (auto simp: resp_def)
  let ?s0 = "answered env ins ctx ib ob s"
  note A = answered_simps [OF set, where rest = ins and ctx = ctx and ib = ib and ob = ob]
  have o: "m_output_buffer (cs_conn ?s0) = ob" using A(8) by (simp add: with_buffers_def)
  from handleWrite_cases [OF _ w(2,3), of ?s0 outs j env] w(1) A(1) o h(4,5) assms(10) obtain ob' where
    ob': "content ob' = drop k resp" "buffer_room j ob'"
    and run: "handleWrite env ?s0 = (let s1 = wrote ob' (take k resp) outs ?s0 in
       if k = 0 then handleClose env s1
       else if k < length resp then on_channel enableWriting env s1
       else if kept_alive (cs_conn ?s0) then on_channel enableReading env (next_request s1)
       else handleClose env s1)" by (auto simp: Let_def k_def)
  let ?s1 = "wrote ob' (take k resp) outs ?s0"
  have "buffer_room 0 ob'" using buffer_room_mono [OF ob'(2)] by simp
  then have "after_write env s hs extra n resp k ?s1"
    using A(1-10) h ob' assms(1) by (simp add: after_write_def with_buffers_def ready_def)
  moreover have "kept_alive (cs_conn ?s1) = kept_alive (cs_conn ?s0)" by (simp add: kept_alive_def)
  moreover have "cs_in ?s1 = ins" "cs_out ?s1 = outs" "buffer_room j (m_output_buffer (cs_conn ?s1))" using A(3) ob'(2) by simp_all
  moreover have "cs_loop ?s1 = (cs_loop s)\<lparr>m_timer_heap := m_timer_heap (cs_loop ?s1)\<rparr>" unfolding wrote_simps by (rule A(11))
  ultimately show ?thesis using h(1) run unfolding Let_def by metis
qed

lemma exchange:
  assumes "ready env s" "request_arrives env s ds m uri v hs extra n" "kernel_takes k (cs_out s)"
  defines "resp \<equiv> response_to (e_stamp env) uri v"
  assumes "k \<le> length resp"
  shows "\<exists>s1. after_write env s hs extra n resp k s1 \<and> handleRead env s =
      (if k = 0 then handleClose env s1
       else if k < length resp then on_channel enableWriting env s1
       else if kept_alive (cs_conn s1) then on_channel enableReading env (next_request s1)
       else handleClose env s1)"
proof -
  obtain ws a outs where w: "cs_out s = ws @ a # outs" "\<forall>w \<in> set ws. wr_goes_on w" "wr_stops a" "wr_sum ws = k"
    using assms(3) by (auto simp: kernel_takes_def)
  obtain ins where i: "cs_in s = ds @ Rd_Err EAGAIN # ins" using assms(2) by (auto simp: request_arrives_def)
  have "buffer_room (250 + length (e_stamp env) + 0) (m_output_buffer (cs_conn s))" using assms(2) by (simp add: request_arrives_def)
  from exchange_script [OF assms(1,2) i w(1-3) this] assms(5) w(4) show ?thesis by (auto simp: resp_def)
qed

subsection \<open>Switching off\<close>

lemma switched_off:
  assumes "settled env s" "cs_watched s \<noteq> None" "on_channel disableAll env s = Inr t"
  shows "\<exists>ch. lp_objects (cs_loop t) (m_channel (cs_conn s)) = Some ch \<and> m_index ch = kDeleted \<and> m_events ch = kNoneEvent"
proof -
  obtain ch where ch: "lp_objects (cs_loop s) (m_channel (cs_conn s)) = Some ch" using assms(1) by (auto simp: settled_def owned_def)
  have ok: "loop_ok (e_tid env) (e_kctl env) (cs_loop s)" using assms(1) by (simp add: settled_def)
  have "m_index ch = kAdded" using watched_iff_added [OF ok ch] assms(2) by (auto simp: cs_watched_def split: if_splits)
  with set_mask_law_rest [OF ok ch, of kNoneEvent] assms(2,3) show ?thesis
    by (auto simp: on_channel_def disableAll_mask cs_watched_def index_after_def bind_res_eq_Inr)
qed

lemma handleClose_switches_off:
  assumes "settled env s" "\<not> kept_alive (cs_conn s)" "cs_watched s \<noteq> None" "handleClose env s = Inr t"
  shows "\<exists>ch. lp_objects (cs_loop t) (m_channel (cs_conn s)) = Some ch \<and> m_index ch = kDeleted \<and> m_events ch = kNoneEvent"
proof -
  obtain u where u: "on_channel disableAll env (setState kDisconnected s) = Inr u" "cs_loop t = cs_loop u"
    using assms(1,2,4)
    by (auto simp: handleClose_def kept_alive_def bind_res_eq_Inr Let_def on_socket_def split: if_splits)
  from switched_off [OF _ _ u(1)] assms(1,3) u(2) show ?thesis by simp
qed

subsection \<open>A connection to evaluate\<close>

lemma connectEstablished_law:
  assumes "settled env s" "\<not> m_timeout (cs_conn s)" "content (m_input_buffer (cs_conn s)) = []"
    "content (m_output_buffer (cs_conn s)) = []" "m_check_state (m_context (cs_conn s)) = CHECK_STATE_REQUEST_LINE"
  shows "\<exists>lp. connectEstablished env s = Inr ((setState kConnected s)\<lparr>cs_loop := lp\<rparr>) \<and>
    ready env ((setState kConnected s)\<lparr>cs_loop := lp\<rparr>) \<and>
    cs_watched ((setState kConnected s)\<lparr>cs_loop := lp\<rparr>) = Some kReadEvent \<and>
    others_watched ((setState kConnected s)\<lparr>cs_loop := lp\<rparr>) = others_watched s \<and> same_rest (cs_loop s) lp"
proof -
  have "settled env (setState kConnected s)" using assms(1) by simp
  from on_channel_law [OF this _ refl, of kReadEvent] assms show ?thesis
    by (auto simp: connectEstablished_def on_channel_ops ready_def)
qed

definition demo_env :: "(nat, nat) conn_env" where
  "demo_env = \<lparr>e_tid = 1, e_kctl = documented_kernel, e_now = 1000, e_stamp = ''now'', e_add_timer = (\<lambda>f d. f),
     e_close_long = 2, e_shutdown_in_loop = 3, e_close_callback = (\<lambda>c n. Inr (n + 1))\<rparr>"

definition demo_state :: "(nat, nat) loop \<Rightarrow> sys_read list \<Rightarrow> sys_write list \<Rightarrow> (nat, nat, nat) conn_state" where
  "demo_state lp ins outs = \<lparr>cs_loop = lp, cs_conn = (new_conn k200OK ''c'' 7 9)\<lparr>m_state := kConnected\<rparr>,
     cs_in = ins, cs_out = outs, cs_sent = [], cs_world = 0\<rparr>"

lemma demo_state_simps [simp]:
  "cs_in (demo_state lp ins outs) = ins" "cs_out (demo_state lp ins outs) = outs" "cs_sent (demo_state lp ins outs) = []"
  "cs_world (demo_state lp ins outs) = 0" "cs_loop (demo_state lp ins outs) = lp"
  "m_input_buffer (cs_conn (demo_state lp ins outs)) = new_buffer"
  "m_output_buffer (cs_conn (demo_state lp ins outs)) = new_buffer"
  "m_context (cs_conn (demo_state lp ins outs)) = new_context k200OK" "\<not> m_alive (cs_conn (demo_state lp ins outs))"
  "\<not> m_timeout (cs_conn (demo_state lp ins outs))" "m_state (cs_conn (demo_state lp ins outs)) = kConnected"
  "m_channel (cs_conn (demo_state lp ins outs)) = 9"
  "e_stamp demo_env = ''now''" "e_close_callback demo_env c n = Inr (n + 1)"
  by (simp_all add: demo_state_def new_conn_def demo_env_def)

lemma demo_ready: "\<exists>lp. \<forall>ins outs. ready demo_env (demo_state lp ins outs)"
proof -
  let ?s = "\<lparr>cs_loop = demo_loop, cs_conn = new_conn k200OK ''c'' 7 9, cs_in = [], cs_out = [], cs_sent = [], cs_world = 0\<rparr>
    :: (nat, nat, nat) conn_state"
  have "settled demo_env ?s" using demo_loop_ok(1,2) by (simp add: settled_def demo_env_def new_conn_def)
  from connectEstablished_law [OF this] obtain lp where
    "ready demo_env ((setState kConnected ?s)\<lparr>cs_loop := lp\<rparr>)" by (auto simp: new_conn_def new_context_def)
  then have "ready demo_env (demo_state lp ins outs)" for ins outs
    by (auto simp: ready_def settled_def cs_watched_def demo_state_def setState_def)
  then show ?thesis by blast
qed

lemma demo_request:
  assumes "\<forall>h \<in> set hs. accepted_header h" "length (render_request m ''/hello'' v hs @ extra) < 10000"
  shows "request_arrives demo_env (demo_state lp [Rd_Bytes (render_request m ''/hello'' v hs @ extra), Rd_Err EAGAIN] outs)
    [Rd_Bytes (render_request m ''/hello'' v hs @ extra)] m ''/hello'' v hs extra 10000"
proof -
  have "buffer_room (length (render_request m ''/hello'' v hs @ extra) + 10000) new_buffer"
    using assms(2) by (intro new_buffer_room) simp
  moreover have "buffer_room (250 + length ''now'') new_buffer" by (intro new_buffer_room) simp
  moreover have "is_word ''/hello''" by (simp add: is_word_def)
  ultimately show ?thesis using assms(1) rendered_nonempty [of m "''/hello''" v hs extra]
    by (simp add: request_arrives_def)
qed

lemma kernel_takes_at_once: "0 < k \<Longrightarrow> kernel_takes k [Wr_Bytes k, Wr_Err EAGAIN]"
  by (simp add: kernel_takes_def) (rule exI [of _ "[Wr_Bytes k]"], simp add: wr_stops_def)

subsection \<open>Properties of an exchange\<close>

lemma short_connection_law:
  assumes "ready env s" "request_arrives env s ds m uri v hs extra n"
    and "\<not> m_alive (cs_conn s)" "\<not> asks_keep_alive (m_context (cs_conn s)) hs"
    and "kernel_takes (length (response_to (e_stamp env) uri v)) (cs_out s)"
    and "\<forall>c. e_close_callback env c (cs_world s) = Inr w"
  shows "\<exists>t. handleRead env s = Inr t \<and> cs_sent t = cs_sent s @ response_to (e_stamp env) uri v \<and>
    m_state (cs_conn t) = kDisconnected \<and> cs_watched t = None \<and> others_watched t = others_watched s \<and>
    m_socket (cs_conn t) = shutdownWrite (m_socket (cs_conn s)) \<and> cs_world t = w \<and>
    settled env t \<and> m_channel (cs_conn t) = m_channel (cs_conn s) \<and> same_rest (cs_loop s) (cs_loop t) \<and>
    (\<exists>ch. lp_objects (cs_loop t) (m_channel (cs_conn s)) = Some ch \<and> m_index ch = kDeleted \<and> m_events ch = kNoneEvent)"
proof -
  let ?r = "response_to (e_stamp env) uri v"
  obtain s1 where s1: "after_write env s hs extra n ?r (length ?r) s1"
    and run: "handleRead env s = (if kept_alive (cs_conn s1) then on_channel enableReading env (next_request s1) else handleClose env s1)"
    using exchange [OF assms(1,2,5)] response_nonempty [of "e_stamp env" uri v] by auto
  have n: "\<not> kept_alive (cs_conn s1)" "\<not> m_alive (cs_conn s1)" "cs_loop s1 = cs_loop s" "settled env s1"
    using s1 assms(3,4) by (simp_all add: after_write_def kept_alive_def)
  have wd: "cs_watched s1 \<noteq> None" using s1 assms(1) by (simp add: after_write_def ready_def)
  moreover have "e_close_callback env (closed_conn (cs_conn s1)) (cs_world s1) = Inr w"
    using s1 assms(6) by (simp add: after_write_def)
  ultimately obtain lp where lp:
    "handleClose env s1 = Inr (closed lp w s1)" "cs_watched (closed lp w s1) = None" "settled env (closed lp w s1)"
    "others_watched (closed lp w s1) = others_watched s1" "same_rest (cs_loop s1) lp"
    using handleClose_law [of env s1 w] n(1) s1 by (auto simp: after_write_def)
  from handleClose_switches_off [OF n(4,1) wd lp(1)] have "\<exists>ch. lp_objects lp (m_channel (cs_conn s)) = Some ch \<and>
      m_index ch = kDeleted \<and> m_events ch = kNoneEvent" using s1 by (simp add: after_write_def)
  with run n s1 lp show ?thesis by (intro exI [of _ "closed lp w s1"]) (simp add: after_write_def closed_conn_def)
qed

text \<open>C1: a request without keep-alive is served and the connection closed. However the request is cut
  into the reads of one readiness event and the response into writes, all of which the socket takes, \<open>handleRead\<close> sends exactly the response to the request, enters
  \<open>kDisconnected\<close>, stops the kernel's watching of the channel (and of no other), shuts down the writing
  side of the socket and calls the close call back.\<close>

theorem short_connection_served:
  assumes "ready env s" "request_arrives env s ds m uri v hs extra n"
    and "\<not> m_alive (cs_conn s)" "\<not> asks_keep_alive (m_context (cs_conn s)) hs"
    and "kernel_takes (length (response_to (e_stamp env) uri v)) (cs_out s)"
    and "\<forall>c. e_close_callback env c (cs_world s) = Inr w"
  shows "\<exists>t. handleRead env s = Inr t \<and> cs_sent t = cs_sent s @ response_to (e_stamp env) uri v \<and>
    m_state (cs_conn t) = kDisconnected \<and> cs_watched t = None \<and> others_watched t = others_watched s \<and>
    m_socket (cs_conn t) = shutdownWrite (m_socket (cs_conn s)) \<and> cs_world t = w"
  using short_connection_law [OF assms] by blast

theorem short_connection_served_witness:
  "\<exists>lp t. handleRead demo_env (demo_state lp [Rd_Bytes (render_request GET ''/hello'' HTTP_1_1 [''Host: a'']), Rd_Err EAGAIN]
       [Wr_Bytes (length (response_to ''now'' ''/hello'' HTTP_1_1)), Wr_Err EAGAIN]) = Inr t \<and>
     cs_sent t = response_to ''now'' ''/hello'' HTTP_1_1 \<and> m_state (cs_conn t) = kDisconnected \<and> cs_world t = 1"
proof -
  obtain lp where r: "\<And>ins outs. ready demo_env (demo_state lp ins outs)" using demo_ready by blast
  have h: "\<forall>h \<in> set [''Host: a'']. accepted_header h" using example_headers(1) by simp
  have l: "length (render_request GET ''/hello'' HTTP_1_1 [''Host: a''] @ []) < 10000"
    by (simp add: render_request_def render_headers_def method_text_def version_text_def)
  let ?outs = "[Wr_Bytes (length (response_to ''now'' ''/hello'' HTTP_1_1)), Wr_Err EAGAIN]"
  let ?s = "demo_state lp [Rd_Bytes (render_request GET ''/hello'' HTTP_1_1 [''Host: a''] @ []), Rd_Err EAGAIN] ?outs"
  have k: "\<not> asks_keep_alive (m_context (cs_conn ?s)) [''Host: a'']"
    using example_headers(2) by (simp add: asks_keep_alive_def isKeepAlive_def new_context_def)
  have t: "kernel_takes (length (response_to (e_stamp demo_env) ''/hello'' HTTP_1_1)) (cs_out ?s)"
    using kernel_takes_at_once response_nonempty by simp
  from short_connection_served [OF r demo_request [OF h l] _ k t, of 1] show ?thesis by auto
qed

lemma keep_alive_law:
  assumes "ready env s" "request_arrives env s ds m uri v hs extra n" "cs_in s = ds @ Rd_Err EAGAIN # ins"
    and alive: "m_alive (cs_conn s) \<or> asks_keep_alive (m_context (cs_conn s)) hs"
    and w: "cs_out s = ws @ a # outs" "\<forall>w \<in> set ws. wr_goes_on w" "wr_stops a" "wr_sum ws = length (response_to (e_stamp env) uri v)"
    and room: "buffer_room (250 + length (e_stamp env) + j) (m_output_buffer (cs_conn s))"
  shows "\<exists>t. handleRead env s = Inr t \<and> cs_sent t = cs_sent s @ response_to (e_stamp env) uri v \<and> ready env t \<and>
    m_alive (cs_conn t) \<and> cs_watched t = Some kReadEvent \<and> others_watched t = others_watched s \<and> cs_world t = cs_world s \<and>
    m_timer_heap (cs_loop t) =
      (if m_alive (cs_conn s) then m_timer_heap (cs_loop s)
       else addTimerInLoop (e_now env) (e_close_long env) 300 (m_timer_heap (cs_loop s))) \<and>
    cs_in t = ins \<and> cs_out t = outs \<and> buffer_room n (m_input_buffer (cs_conn t)) \<and> buffer_room j (m_output_buffer (cs_conn t)) \<and>
    m_socket (cs_conn t) = m_socket (cs_conn s) \<and> m_channel (cs_conn t) = m_channel (cs_conn s) \<and>
    same_rest ((cs_loop s)\<lparr>m_timer_heap := m_timer_heap (cs_loop t)\<rparr>) (cs_loop t)"
proof -
  let ?r = "response_to (e_stamp env) uri v"
  obtain s1 where s1: "after_write env s hs extra n ?r (length ?r) s1" "cs_in s1 = ins" "cs_out s1 = outs"
      "buffer_room j (m_output_buffer (cs_conn s1))" "cs_loop s1 = (cs_loop s)\<lparr>m_timer_heap := m_timer_heap (cs_loop s1)\<rparr>"
    and run: "handleRead env s = (if kept_alive (cs_conn s1) then on_channel enableReading env (next_request s1) else handleClose env s1)"
    using exchange_script [OF assms(1-3) w(1-3) room] w(4) response_nonempty [of "e_stamp env" uri v] by auto
  have ka: "kept_alive (cs_conn s1)" using s1(1) alive by (auto simp: after_write_def kept_alive_def)
  have set: "settled env (next_request s1)" using s1(1) by (simp add: after_write_def)
  from on_channel_law [OF this _ refl, of kReadEvent] obtain lp where
    lp: "on_channel enableReading env (next_request s1) = Inr ((next_request s1)\<lparr>cs_loop := lp\<rparr>)"
      "settled env ((next_request s1)\<lparr>cs_loop := lp\<rparr>)" "cs_watched ((next_request s1)\<lparr>cs_loop := lp\<rparr>) = Some kReadEvent"
      "others_watched ((next_request s1)\<lparr>cs_loop := lp\<rparr>) = others_watched s1" "same_rest (cs_loop s1) lp"
    by (auto simp: on_channel_ops)
  let ?t = "(next_request s1)\<lparr>cs_loop := lp\<rparr>"
  have rd: "ready env ?t" using lp s1(1) by (simp add: ready_def after_write_def content_def retrieveAll_def)
  have b: "buffer_room n (m_input_buffer (cs_conn s1))" using s1(1) by (simp add: after_write_def)
  then have b: "buffer_room n (m_input_buffer (cs_conn ?t))" by (simp add: buffer_room_def buffer_inv_def retrieveAll_def)
  have th: "m_timer_heap lp = m_timer_heap (cs_loop s1)" by (rule same_rest_simps(1) [OF lp(5)])
  have sr: "same_rest ((cs_loop s)\<lparr>m_timer_heap := m_timer_heap lp\<rparr>) lp" using lp(5) by (subst th, subst s1(5) [symmetric])
  have hp: "m_timer_heap lp = (if m_alive (cs_conn s) then m_timer_heap (cs_loop s)
       else addTimerInLoop (e_now env) (e_close_long env) 300 (m_timer_heap (cs_loop s)))"
    using s1(1) alive unfolding th by (auto simp: after_write_def defaultTimeDelay_def)
  have c: "m_alive (cs_conn ?t)" "m_socket (cs_conn ?t) = m_socket (cs_conn s)" "cs_sent ?t = cs_sent s @ ?r" "others_watched ?t = others_watched s"
    "m_channel (cs_conn ?t) = m_channel (cs_conn s)" "cs_world ?t = cs_world s"
    using s1(1) alive lp(4) by (auto simp: after_write_def) (simp_all add: next_request_def reset_def)
  show ?thesis using run ka lp(1,3) rd b sr hp c s1(2-4) by (intro exI [of _ ?t]) simp
qed

text \<open>A keep-alive request is served and the connection made ready for the next one. The response is
  sent, the state stays \<open>kConnected\<close> with the channel watched for reading, the first such request arms a
  timer of 300 seconds that will close the connection, and the context and buffers are as new. What the
  client sent after the request is lost: the reset that prepares for the next request throws it away.\<close>

theorem keep_alive_served:
  assumes "ready env s" "request_arrives env s ds m uri v hs extra n"
    and "m_alive (cs_conn s) \<or> asks_keep_alive (m_context (cs_conn s)) hs"
    and "kernel_takes (length (response_to (e_stamp env) uri v)) (cs_out s)"
  shows "\<exists>t. handleRead env s = Inr t \<and> cs_sent t = cs_sent s @ response_to (e_stamp env) uri v \<and> ready env t \<and>
    m_alive (cs_conn t) \<and> cs_watched t = Some kReadEvent \<and> others_watched t = others_watched s \<and> cs_world t = cs_world s \<and>
    m_timer_heap (cs_loop t) =
      (if m_alive (cs_conn s) then m_timer_heap (cs_loop s)
       else addTimerInLoop (e_now env) (e_close_long env) 300 (m_timer_heap (cs_loop s)))"
proof -
  obtain ws a outs where w: "cs_out s = ws @ a # outs" "\<forall>w \<in> set ws. wr_goes_on w" "wr_stops a"
    "wr_sum ws = length (response_to (e_stamp env) uri v)" using assms(4) by (auto simp: kernel_takes_def)
  obtain ins where i: "cs_in s = ds @ Rd_Err EAGAIN # ins" using assms(2) by (auto simp: request_arrives_def)
  have "buffer_room (250 + length (e_stamp env) + 0) (m_output_buffer (cs_conn s))" using assms(2) by (simp add: request_arrives_def)
  from keep_alive_law [OF assms(1,2) i assms(3) w this] show ?thesis by blast
qed

theorem keep_alive_served_witness:
  "\<exists>lp t. handleRead demo_env (demo_state lp
        [Rd_Bytes (render_request GET ''/hello'' HTTP_1_1 [''connection:  keep-alive''] @ ''GET''), Rd_Err EAGAIN]
        [Wr_Bytes (length (response_to ''now'' ''/hello'' HTTP_1_1)), Wr_Err EAGAIN]) = Inr t \<and>
     cs_sent t = response_to ''now'' ''/hello'' HTTP_1_1 \<and> ready demo_env t \<and> m_alive (cs_conn t)"
proof -
  obtain lp where r: "\<And>ins outs. ready demo_env (demo_state lp ins outs)" using demo_ready by blast
  have h: "\<forall>h \<in> set [''connection:  keep-alive'']. accepted_header h" using example_headers(3) by simp
  have l: "length (render_request GET ''/hello'' HTTP_1_1 [''connection:  keep-alive''] @ ''GET'') < 10000"
    by (simp add: render_request_def render_headers_def method_text_def version_text_def)
  let ?outs = "[Wr_Bytes (length (response_to ''now'' ''/hello'' HTTP_1_1)), Wr_Err EAGAIN]"
  let ?s = "demo_state lp [Rd_Bytes (render_request GET ''/hello'' HTTP_1_1 [''connection:  keep-alive''] @ ''GET''), Rd_Err EAGAIN] ?outs"
  have k: "m_alive (cs_conn ?s) \<or> asks_keep_alive (m_context (cs_conn ?s)) [''connection:  keep-alive'']"
    using example_headers(4) by (simp add: asks_keep_alive_def)
  have t: "kernel_takes (length (response_to (e_stamp demo_env) ''/hello'' HTTP_1_1)) (cs_out ?s)"
    using kernel_takes_at_once response_nonempty by simp
  from keep_alive_served [OF r demo_request [OF h l] k t] show ?thesis by auto
qed

text \<open>C24: a slow reader gets the whole response. When the socket takes only a part of the response, the
  connection stays open, watched for writing only; when the socket takes the rest at the next event, \<open>handleWrite\<close>
  completes the response, byte for byte. A connection without keep-alive is then closed; one with keep-alive
  stays connected, watched for reading again, with its buffers empty and its parser ready for the next request.\<close>

theorem slow_reader_served:
  assumes "ready env s" "request_arrives env s ds m uri v hs extra n"
    and "kernel_takes k (cs_out s)" "0 < k" "k < length (response_to (e_stamp env) uri v)"
    and "\<forall>c. e_close_callback env c (cs_world s) = Inr w"
  shows "\<exists>t. handleRead env s = Inr t \<and> cs_sent t = cs_sent s @ take k (response_to (e_stamp env) uri v) \<and>
    m_state (cs_conn t) = kConnected \<and> cs_watched t = Some kWriteEvent \<and> cs_world t = cs_world s \<and>
    (\<forall>outs. kernel_takes (length (response_to (e_stamp env) uri v) - k) outs \<longrightarrow>
      (\<exists>t'. handleWrite env (t\<lparr>cs_out := outs\<rparr>) = Inr t' \<and> cs_sent t' = cs_sent s @ response_to (e_stamp env) uri v \<and>
        (if m_alive (cs_conn s) \<or> asks_keep_alive (m_context (cs_conn s)) hs
         then ready env t' \<and> m_alive (cs_conn t') \<and> cs_watched t' = Some kReadEvent \<and> cs_world t' = cs_world s
         else m_state (cs_conn t') = kDisconnected \<and> cs_watched t' = None \<and> cs_world t' = w)))"
proof -
  let ?r = "response_to (e_stamp env) uri v" and ?alive = "m_alive (cs_conn s) \<or> asks_keep_alive (m_context (cs_conn s)) hs"
  obtain s1 where s1: "after_write env s hs extra n ?r k s1" and run: "handleRead env s = on_channel enableWriting env s1"
    using exchange [OF assms(1-3)] assms(4,5) by auto
  then have "settled env s1" by (simp add: after_write_def)
  from on_channel_law [OF this _ refl, of kWriteEvent] obtain lp where
    lp: "on_channel enableWriting env s1 = Inr (s1\<lparr>cs_loop := lp\<rparr>)" "settled env (s1\<lparr>cs_loop := lp\<rparr>)"
      "cs_watched (s1\<lparr>cs_loop := lp\<rparr>) = Some kWriteEvent" by (auto simp: on_channel_ops)
  let ?t = "s1\<lparr>cs_loop := lp\<rparr>"
  have "\<exists>t'. handleWrite env (?t\<lparr>cs_out := outs\<rparr>) = Inr t' \<and> cs_sent t' = cs_sent s @ ?r \<and>
        (if ?alive then ready env t' \<and> m_alive (cs_conn t') \<and> cs_watched t' = Some kReadEvent \<and> cs_world t' = cs_world s
         else m_state (cs_conn t') = kDisconnected \<and> cs_watched t' = None \<and> cs_world t' = w)"
    if o: "kernel_takes (length ?r - k) outs" for outs
  proof -
    obtain ws a rest where ws: "outs = ws @ a # rest" "\<forall>w \<in> set ws. wr_goes_on w" "wr_stops a" "wr_sum ws = length ?r - k"
      using o by (auto simp: kernel_takes_def)
    let ?t1 = "?t\<lparr>cs_out := outs\<rparr>"
    have c: "content (m_output_buffer (cs_conn ?t1)) = drop k ?r" "buffer_room 0 (m_output_buffer (cs_conn ?t1))"
      "kept_alive (cs_conn ?t1) = ?alive" "cs_sent ?t1 = cs_sent s @ take k ?r"
      using s1 by (auto simp: after_write_def kept_alive_def)
    have out: "cs_out ?t1 = ws @ a # rest" "wr_sum ws = length (content (m_output_buffer (cs_conn ?t1)))" using ws(1,4) c(1) by simp_all
    from handleWrite_cases [OF out(1) ws(2,3) c(2) eq_refl [OF out(2)], of env] obtain ob where
      "content ob = drop (wr_sum ws) (content (m_output_buffer (cs_conn ?t1)))" and
      h0: "handleWrite env ?t1 = (let s1 = wrote ob (take (wr_sum ws) (content (m_output_buffer (cs_conn ?t1)))) rest ?t1 in
       if wr_sum ws = 0 then handleClose env s1
       else if wr_sum ws < length (content (m_output_buffer (cs_conn ?t1))) then on_channel enableWriting env s1
       else if kept_alive (cs_conn ?t1) then on_channel enableReading env (next_request s1)
       else handleClose env s1)" by blast
    then have ob: "content ob = []" using out(2) by simp
    have h: "handleWrite env ?t1 = (if ?alive then on_channel enableReading env (next_request (wrote ob (drop k ?r) rest ?t1))
        else handleClose env (wrote ob (drop k ?r) rest ?t1))"
      using h0 assms(5) unfolding Let_def out(2) c(1,3) by simp
    let ?t2 = "wrote ob (drop k ?r) rest ?t1"
    have t2: "settled env ?t2" "m_state (cs_conn ?t2) = kConnected" "cs_watched ?t2 \<noteq> None" "kept_alive (cs_conn ?t2) = ?alive"
      using lp(2,3) s1 c(3) by (auto simp: after_write_def settled_def cs_watched_def kept_alive_def)
    show ?thesis
    proof (cases ?alive)
      case True
      have "settled env (next_request ?t2)" using t2(1) by simp
      from on_channel_law [OF this _ refl, of kReadEvent] obtain lp' where
        lp': "on_channel enableReading env (next_request ?t2) = Inr ((next_request ?t2)\<lparr>cs_loop := lp'\<rparr>)"
          "settled env ((next_request ?t2)\<lparr>cs_loop := lp'\<rparr>)" "cs_watched ((next_request ?t2)\<lparr>cs_loop := lp'\<rparr>) = Some kReadEvent"
        by (auto simp: on_channel_ops)
      let ?t' = "(next_request ?t2)\<lparr>cs_loop := lp'\<rparr>"
      have "ready env ?t'" using lp'(2,3) s1 ob by (simp add: ready_def after_write_def content_def retrieveAll_def)
      moreover have "m_alive (cs_conn ?t')" "cs_world ?t' = cs_world s" "cs_sent ?t' = cs_sent s @ ?r"
        using s1 True by (auto simp: after_write_def)
      ultimately show ?thesis using h lp'(1,3) True by auto
    next
      case False
      have "e_close_callback env (closed_conn (cs_conn ?t2)) (cs_world ?t2) = Inr w" using s1 assms(6) by (simp add: after_write_def)
      from handleClose_law [OF t2(1) _ t2(2,3) this] t2(4) False obtain lp' where
        "handleClose env ?t2 = Inr (closed lp' w ?t2)" "cs_watched (closed lp' w ?t2) = None" by auto
      with h c(4) False show ?thesis by (intro exI [of _ "closed lp' w ?t2"]) simp
    qed
  qed
  with lp run s1 show ?thesis by (intro exI [of _ ?t]) (simp add: after_write_def)
qed

theorem slow_reader_served_witness:
  "\<exists>lp t. handleRead demo_env (demo_state lp [Rd_Bytes (render_request GET ''/hello'' HTTP_1_1 []), Rd_Err EAGAIN]
       [Wr_Bytes 1, Wr_Err EAGAIN]) = Inr t \<and>
     cs_sent t = take 1 (response_to ''now'' ''/hello'' HTTP_1_1) \<and> cs_watched t = Some kWriteEvent \<and>
     (\<exists>t'. handleWrite demo_env (t\<lparr>cs_out := [Wr_Bytes (length (response_to ''now'' ''/hello'' HTTP_1_1) - 1), Wr_Err EAGAIN]\<rparr>) = Inr t' \<and>
       cs_sent t' = response_to ''now'' ''/hello'' HTTP_1_1)"
proof -
  obtain lp where r: "\<And>ins outs. ready demo_env (demo_state lp ins outs)" using demo_ready by blast
  have h: "\<forall>h \<in> set ([] :: string list). accepted_header h" by simp
  have l: "length (render_request GET ''/hello'' HTTP_1_1 [] @ []) < 10000"
    by (simp add: render_request_def render_headers_def method_text_def version_text_def)
  let ?s = "demo_state lp [Rd_Bytes (render_request GET ''/hello'' HTTP_1_1 [] @ []), Rd_Err EAGAIN] [Wr_Bytes 1, Wr_Err EAGAIN]"
  have k: "\<not> asks_keep_alive (m_context (cs_conn ?s)) []"
    by (simp add: asks_keep_alive_def isKeepAlive_def new_context_def)
  have one: "1 < length (response_to (e_stamp demo_env) ''/hello'' HTTP_1_1)"
    by (simp add: response_to_def http_response_def)
  have t: "kernel_takes 1 (cs_out ?s)" using kernel_takes_at_once [of 1] by simp
  have o: "kernel_takes (length (response_to ''now'' ''/hello'' HTTP_1_1) - 1)
      [Wr_Bytes (length (response_to ''now'' ''/hello'' HTTP_1_1) - 1), Wr_Err EAGAIN]"
    using kernel_takes_at_once one by simp
  from slow_reader_served [OF r demo_request [OF h l] t _ one, of 1] o k show ?thesis
    by (intro exI [of _ lp]) auto
qed

text \<open>A full socket buffer costs the client its response. If the socket takes nothing at the first
  write because it would block, \<open>handleWrite\<close> takes the 0 bytes for a closed peer: a connection without
  keep-alive is closed at once with nothing of the response sent.\<close>

theorem blocked_response_dropped:
  assumes "ready env s" "request_arrives env s ds m uri v hs extra n"
    and "\<not> m_alive (cs_conn s)" "\<not> asks_keep_alive (m_context (cs_conn s)) hs" "kernel_takes 0 (cs_out s)"
    and "\<forall>c. e_close_callback env c (cs_world s) = Inr w"
  shows "\<exists>t. handleRead env s = Inr t \<and> cs_sent t = cs_sent s \<and>
    content (m_output_buffer (cs_conn t)) = response_to (e_stamp env) uri v \<and>
    m_state (cs_conn t) = kDisconnected \<and> cs_watched t = None \<and> cs_world t = w"
proof -
  let ?r = "response_to (e_stamp env) uri v"
  obtain s1 where s1: "after_write env s hs extra n ?r 0 s1" and run: "handleRead env s = handleClose env s1"
    using exchange [OF assms(1,2,5)] by auto
  have "\<not> kept_alive (cs_conn s1)" "settled env s1" "m_state (cs_conn s1) = kConnected" "cs_watched s1 \<noteq> None"
    "e_close_callback env (closed_conn (cs_conn s1)) (cs_world s1) = Inr w"
    using s1 assms(1,3,4,6) by (auto simp: after_write_def kept_alive_def ready_def)
  from handleClose_law [OF this(2,1,3-5)] obtain lp where
    "handleClose env s1 = Inr (closed lp w s1)" "cs_watched (closed lp w s1) = None" by blast
  with run s1 show ?thesis by (intro exI [of _ "closed lp w s1"]) (simp add: after_write_def)
qed

theorem blocked_response_dropped_witness:
  "\<exists>lp t. handleRead demo_env (demo_state lp [Rd_Bytes (render_request GET ''/hello'' HTTP_1_1 []), Rd_Err EAGAIN] [Wr_Err EAGAIN]) = Inr t \<and>
     cs_sent t = [] \<and> m_state (cs_conn t) = kDisconnected"
proof -
  obtain lp where r: "\<And>ins outs. ready demo_env (demo_state lp ins outs)" using demo_ready by blast
  have h: "\<forall>h \<in> set ([] :: string list). accepted_header h" by simp
  have l: "length (render_request GET ''/hello'' HTTP_1_1 [] @ []) < 10000"
    by (simp add: render_request_def render_headers_def method_text_def version_text_def)
  let ?s = "demo_state lp [Rd_Bytes (render_request GET ''/hello'' HTTP_1_1 [] @ []), Rd_Err EAGAIN] [Wr_Err EAGAIN]"
  have k: "\<not> asks_keep_alive (m_context (cs_conn ?s)) []"
    by (simp add: asks_keep_alive_def isKeepAlive_def new_context_def)
  have t: "kernel_takes 0 (cs_out ?s)"
    by (simp add: kernel_takes_def) (rule exI [of _ "[]"], simp add: wr_stops_def)
  from blocked_response_dropped [OF r demo_request [OF h l] _ k t, of 1] show ?thesis by auto
qed

text \<open>C26: the same with keep-alive hangs the loop. If the first write of the response to a keep-alive
  request would block, \<open>handleRead\<close> returns with the response unsent, the channel watched as before (not
  for writing) and the context not reset; as soon as the client's next bytes complete a line, the parser
  never returns, and with it the whole event loop and all its connections.\<close>

theorem blocked_keep_alive_hangs:
  assumes "ready env s" "request_arrives env s ds m uri v hs extra n"
    and "m_alive (cs_conn s) \<or> asks_keep_alive (m_context (cs_conn s)) hs" "kernel_takes 0 (cs_out s)"
    and "\<forall>a \<in> set ds'. rd_goes_on a" "rd_data ds' \<noteq> []" "length (rd_data ds') \<le> n"
    and "fst (line_of (extra @ rd_data ds')) = LINE_OK"
  shows "\<exists>t. handleRead env s = Inr t \<and> cs_sent t = cs_sent s \<and> cs_watched t = cs_watched s \<and>
    m_state (cs_conn t) = kConnected \<and>
    handleRead env (t\<lparr>cs_in := ds' @ Rd_Err EAGAIN # rest\<rparr>) = Inl Endless_Loop"
proof -
  let ?r = "response_to (e_stamp env) uri v"
  obtain s1 where s1: "after_write env s hs extra n ?r 0 s1" and run: "handleRead env s = handleClose env s1"
    using exchange [OF assms(1,2,4)] by auto
  have "kept_alive (cs_conn s1)" "settled env s1"
    using s1 assms(3) by (auto simp: after_write_def kept_alive_def)
  then have "handleClose env s1 = Inr s1" by (simp add: handleClose_kept)
  let ?t = "s1\<lparr>cs_in := ds' @ Rd_Err EAGAIN # rest\<rparr>"
  have room: "buffer_room (length (rd_data ds') + 0) (m_input_buffer (cs_conn ?t))"
    using s1 assms(7) by (auto simp: after_write_def intro: buffer_room_mono)
  from readFromFd_loop_prefix [OF assms(5) room, of 0] obtain ib where
    rd: "readFromFd (cs_in ?t) (m_input_buffer (cs_conn ?t)) = Inr (int (length (rd_data ds')), ib, rest)"
    and ib: "content ib = extra @ rd_data ds'" "buffer_room 0 ib"
    using s1 by (auto simp: readFromFd_def after_write_def)
  have "handleHttpRequest (m_context (cs_conn s1)) ib = None"
    using handleHttpRequest_diverges_iff [OF buffer_room_inv [OF ib(2)]] ib(1) assms(8) s1 by (simp add: after_write_def)
  then have "handleRead env ?t = Inl Endless_Loop"
    using rd assms(6) by (simp add: handleRead_def conn_handleHttpRequest_def work_def Let_def)
  with run \<open>handleClose env s1 = Inr s1\<close> s1 show ?thesis by (auto simp: after_write_def)
qed

theorem blocked_keep_alive_hangs_witness:
  "\<exists>lp t. handleRead demo_env (demo_state lp
        [Rd_Bytes (render_request GET ''/hello'' HTTP_1_1 [''connection:  keep-alive'']), Rd_Err EAGAIN] [Wr_Err EAGAIN]) = Inr t \<and>
     handleRead demo_env (t\<lparr>cs_in := [Rd_Bytes [CR, LF], Rd_Err EAGAIN]\<rparr>) = Inl Endless_Loop"
proof -
  obtain lp where r: "\<And>ins outs. ready demo_env (demo_state lp ins outs)" using demo_ready by blast
  have h: "\<forall>h \<in> set [''connection:  keep-alive'']. accepted_header h" using example_headers(3) by simp
  have l: "length (render_request GET ''/hello'' HTTP_1_1 [''connection:  keep-alive''] @ []) < 10000"
    by (simp add: render_request_def render_headers_def method_text_def version_text_def)
  let ?s = "demo_state lp [Rd_Bytes (render_request GET ''/hello'' HTTP_1_1 [''connection:  keep-alive''] @ []), Rd_Err EAGAIN] [Wr_Err EAGAIN]"
  have k: "m_alive (cs_conn ?s) \<or> asks_keep_alive (m_context (cs_conn ?s)) [''connection:  keep-alive'']"
    using example_headers(4) by (simp add: asks_keep_alive_def)
  have t: "kernel_takes 0 (cs_out ?s)"
    by (simp add: kernel_takes_def) (rule exI [of _ "[]"], simp add: wr_stops_def)
  from blocked_keep_alive_hangs [OF r demo_request [OF h l] k t, of "[Rd_Bytes [CR, LF]]" "[]"] line_of_line [of "[]" "[]"]
  show ?thesis by auto
qed

subsection \<open>The life cycle\<close>

text \<open>The environment whose close call back counts its calls in the world.\<close>

definition counting :: "('f, nat) conn_env \<Rightarrow> ('f, nat) conn_env" where
  "counting env = env\<lparr>e_close_callback := (\<lambda>c n. Inr (Suc n))\<rparr>"

definition phase_ok :: "('f, nat) conn_env \<Rightarrow> ('f, 'h, nat) conn_state \<Rightarrow> bool" where
  "phase_ok env s \<longleftrightarrow> settled env s \<and>
     (m_state (cs_conn s) = kConnected \<and> cs_watched s \<noteq> None \<and> cs_world s = 0 \<or>
      m_state (cs_conn s) = kDisconnected \<and> cs_world s = 1)"

text \<open>A step: a handler that returns, with whatever answers the kernel has for it, or other work of the
  loop that leaves this connection's channel alone.\<close>

inductive conn_step :: "('f, nat) conn_env \<Rightarrow> ('f, 'h, nat) conn_state \<Rightarrow> ('f, 'h, nat) conn_state \<Rightarrow> bool" for env where
  handler: "conn_exec (counting env) ev (s\<lparr>cs_in := ins, cs_out := outs\<rparr>) = Inr t \<Longrightarrow> conn_step env s t"
| other: "settled env (s\<lparr>cs_loop := lp\<rparr>) \<Longrightarrow> cs_watched (s\<lparr>cs_loop := lp\<rparr>) = cs_watched s \<Longrightarrow> conn_step env s (s\<lparr>cs_loop := lp\<rparr>)"

definition conn_init :: "('f, nat) conn_env \<Rightarrow> ('f, 'h, nat) conn_state \<Rightarrow> bool" where
  "conn_init env s \<longleftrightarrow> settled env s \<and> m_state (cs_conn s) = kConnected \<and> cs_watched s \<noteq> None \<and> cs_world s = 0"

lemma counting_simps [simp]:
  "e_tid (counting env) = e_tid env" "e_kctl (counting env) = e_kctl env" "e_stamp (counting env) = e_stamp env"
  "e_close_callback (counting env) c n = Inr (Suc n)" "settled (counting env) s = settled env s"
  "e_add_timer (counting env) = e_add_timer env" "e_now (counting env) = e_now env" "e_close_long (counting env) = e_close_long env"
  by (simp_all add: counting_def settled_def)

lemma phase_ok_same:
  assumes "phase_ok env s" "settled env t" "cs_watched t = cs_watched s" "cs_world t = cs_world s"
    "m_state (cs_conn t) = m_state (cs_conn s)"
  shows "phase_ok env t"
  using assms by (simp add: phase_ok_def)

lemma handleClose_phase:
  assumes "phase_ok env s" "handleClose (counting env) s = Inr t"
  shows "phase_ok env t"
proof (cases "kept_alive (cs_conn s)")
  case True
  then show ?thesis using assms handleClose_kept [of "counting env" s] by (simp add: phase_ok_def)
next
  case False
  then have c: "m_state (cs_conn s) = kConnected" "cs_watched s \<noteq> None" "cs_world s = 0" "settled env s"
    using assms handleClose_twice [of "counting env" s] by (auto simp: phase_ok_def)
  from handleClose_law [of "counting env" s "Suc 0"] False c assms(2) show ?thesis
    by (auto simp: phase_ok_def)
qed

lemma on_channel_phase:
  assumes "phase_ok env s" "on_channel op (counting env) s = Inr t" "op = enableReading \<or> op = enableWriting"
  shows "phase_ok env t"
proof -
  have s: "settled (counting env) s" using assms(1) by (simp add: phase_ok_def)
  from on_channel_law [OF s _ refl, of kReadEvent] on_channel_law [OF s _ refl, of kWriteEvent] assms(2,3)
  obtain lp ev where "t = s\<lparr>cs_loop := lp\<rparr>" "settled env (s\<lparr>cs_loop := lp\<rparr>)" "cs_watched (s\<lparr>cs_loop := lp\<rparr>) = Some ev"
    by (auto simp: on_channel_ops)
  with assms(1) show ?thesis by (auto simp: phase_ok_def)
qed

lemma handleWrite_phase:
  assumes "phase_ok env s" "handleWrite (counting env) s = Inr t"
  shows "phase_ok env t"
proof -
  from assms(2) obtain bytes taken ob rest where w: "writeToFd (cs_out s) (m_output_buffer (cs_conn s)) = Inr (bytes, taken, ob, rest)"
    by (auto simp: handleWrite_def bind_res_eq_Inr)
  have p: "phase_ok env (wrote ob taken rest s)" "phase_ok env (next_request (wrote ob taken rest s))"
    using assms(1) by (auto intro: phase_ok_same simp: phase_ok_def)
  show ?thesis
    using assms(2) w handleClose_phase [OF p(1)] on_channel_phase [OF p(1)] on_channel_phase [OF p(2)]
    by (auto simp: handleWrite_def handleError_def next_request_def reset_def Let_def simp flip: wrote_def split: if_splits)
qed

lemma handleRead_phase:
  assumes "phase_ok env s" "handleRead (counting env) s = Inr t"
  shows "phase_ok env t"
proof -
  from assms(2) obtain bytes ib rest where r: "readFromFd (cs_in s) (m_input_buffer (cs_conn s)) = Inr (bytes, ib, rest)"
    by (auto simp: handleRead_def bind_res_eq_Inr)
  let ?s1 = "s\<lparr>cs_conn := (cs_conn s)\<lparr>m_input_buffer := ib\<rparr>, cs_in := rest\<rparr>"
  have p1: "phase_ok env ?s1"
    using assms(1) by (simp add: phase_ok_def settled_def cs_watched_def)
  show ?thesis
  proof (cases "bytes > 0")
    case False
    with assms(2) r handleClose_phase [OF p1] show ?thesis by (auto simp: handleRead_def handleError_def Let_def split: if_splits)
  next
    case True
    with assms(2) r obtain ctx ib' ob where
      w: "work (e_stamp env) (m_context (cs_conn s)) ib (m_output_buffer (cs_conn s)) = Inr (ctx, ib', ob)"
      by (auto simp: handleRead_def conn_handleHttpRequest_def bind_res_eq_Inr Let_def)
    have s: "settled (counting env) s" using assms(1) by (simp add: phase_ok_def)
    have "handleRead (counting env) s = handleWrite (counting env) (answered (counting env) rest ctx ib' ob s)"
      using True r w by (cases s; cases "cs_conn s") (simp add: handleRead_def conn_handleHttpRequest_def answered_def with_buffers_def Let_def)
    moreover have "phase_ok env (answered (counting env) rest ctx ib' ob s)"
      using answered_simps [OF s, where rest = rest and ctx = ctx and ib = ib' and ob = ob] s assms(1)
      by (intro phase_ok_same [OF assms(1)]) (simp_all add: with_buffers_def)
    ultimately show ?thesis using handleWrite_phase assms(2) by metis
  qed
qed

lemma phase_ok_step: "conn_step env s t \<Longrightarrow> phase_ok env s \<Longrightarrow> phase_ok env t"
proof (induction rule: conn_step.induct)
  case (handler ev outs ins s t)
  have p: "phase_ok env (s\<lparr>cs_in := ins, cs_out := outs\<rparr>)"
    using handler.prems by (simp add: phase_ok_def settled_def cs_watched_def)
  have q: "phase_ok env (s\<lparr>cs_in := ins, cs_out := outs, cs_conn := (cs_conn s)\<lparr>m_timeout := True\<rparr>\<rparr>)"
    using handler.prems by (simp add: phase_ok_def settled_def cs_watched_def)
  show ?case
    using handler.hyps handleRead_phase [OF p] handleWrite_phase [OF p] handleClose_phase [OF p] handleClose_phase [OF q]
    by (cases ev) (auto simp: handleError_def closeLongConnection_def)
next
  case (other s lp)
  then show ?case by (simp add: phase_ok_def)
qed

interpretation conn_life: safety_machine "conn_init env" "conn_step env" "phase_ok env" for env
  by unfold_locales (simp add: conn_init_def phase_ok_def, rule phase_ok_step)

text \<open>A connection is given back to the server at most once. Whatever the kernel answers and in
  whatever order the loop runs the handlers and the timer, as long as they return: the connection is
  either \<open>kConnected\<close>, watched by the kernel and its close call back was never called, or it is
  \<open>kDisconnected\<close> and its close call back was called exactly once.\<close>

theorem close_callback_once:
  assumes "reach (conn_init env) (conn_step env) s"
  shows "m_state (cs_conn s) = kConnected \<and> cs_watched s \<noteq> None \<and> cs_world s = 0 \<or>
    m_state (cs_conn s) = kDisconnected \<and> cs_world s = 1"
  using conn_life.reach_inv [OF assms] by (simp add: phase_ok_def)

theorem close_callback_once_witness:
  "\<exists>s :: (nat, nat, nat) conn_state. reach (conn_init demo_env) (conn_step demo_env) s \<and> m_state (cs_conn s) = kDisconnected \<and> cs_world s = 1"
proof -
  obtain lp where r: "\<And>ins outs. ready demo_env (demo_state lp ins outs)" using demo_ready by blast
  let ?s = "demo_state lp [] []" and ?t = "demo_state lp [Rd_Bytes []] []"
  have set: "settled (counting demo_env) ?t" using r by (simp add: ready_def)
  have st: "m_state (cs_conn ?t) = kConnected" "\<not> kept_alive (cs_conn ?t)" "cs_watched ?t \<noteq> None"
    using r by (simp_all add: kept_alive_def) (simp add: ready_def)
  from handleClose_law [OF set st(2,1,3), of 1] obtain lp' where
    c: "handleClose (counting demo_env) ?t = Inr (closed lp' 1 ?t)" by auto
  have "handleRead (counting demo_env) ?t = handleClose (counting demo_env) (?t\<lparr>cs_in := []\<rparr>)"
    by (simp add: handleRead_def readFromFd_def demo_state_def)
  moreover from handleClose_law [of "counting demo_env" "?t\<lparr>cs_in := []\<rparr>" 1] set st obtain lp'' where
    "handleClose (counting demo_env) (?t\<lparr>cs_in := []\<rparr>) = Inr (closed lp'' 1 (?t\<lparr>cs_in := []\<rparr>))"
    by (auto simp: settled_def cs_watched_def)
  ultimately have x: "conn_exec (counting demo_env) Ev_Read (?s\<lparr>cs_in := [Rd_Bytes []], cs_out := []\<rparr>) =
      Inr (closed lp'' 1 (?t\<lparr>cs_in := []\<rparr>))" by (simp add: demo_state_def)
  have "conn_init demo_env ?s" using r by (simp add: conn_init_def ready_def)
  then have u: "reach (conn_init demo_env) (conn_step demo_env) (closed lp'' 1 (?t\<lparr>cs_in := []\<rparr>))"
    using handler [OF x] by (meson reach_init reach_step)
  from close_callback_once [OF u] have "m_state (cs_conn (closed lp'' 1 (?t\<lparr>cs_in := []\<rparr>))) = kDisconnected \<and>
    cs_world (closed lp'' 1 (?t\<lparr>cs_in := []\<rparr>)) = 1" by simp
  with u show ?thesis by (intro exI [of _ "closed lp'' 1 (?t\<lparr>cs_in := []\<rparr>)"] conjI) simp_all
qed

subsection \<open>Events on a closed connection\<close>

text \<open>The channel of a connection, with the handlers its constructor sets, and its dispatch.\<close>

definition conn_handlers :: "conn_event channel \<Rightarrow> bool" where
  "conn_handlers ch \<longleftrightarrow> m_read_handler ch = Some Ev_Read \<and> m_write_handler ch = Some Ev_Write \<and>
     m_error_handler ch = Some Ev_Error \<and> m_close_callback ch = Some Ev_Close"

definition conn_mark :: "bool \<Rightarrow> ('f, 'h, 'w) conn_state \<Rightarrow> ('f, 'h, 'w) conn_state res" where
  "conn_mark b s =
     bind_res (object (m_channel (cs_conn s)) (cs_loop s)) (\<lambda>ch.
     Inr (s\<lparr>cs_loop := store_object (m_channel (cs_conn s)) (ch\<lparr>m_event_handling := b\<rparr>) (cs_loop s)\<rparr>))"

lemma new_conn_channel_handlers: "conn_handlers (new_conn_channel u a lid fd Ev_Read Ev_Write Ev_Error Ev_Close)"
  by (simp add: conn_handlers_def new_conn_channel_def)

text \<open>Storing events or marks into a channel object changes nothing that the registry looks at.\<close>

lemma touch_channel_law:
  assumes "loop_ok tid kctl lp" "lp_objects lp a = Some ch"
    and "m_id ch' = m_id ch" "m_fd ch' = m_fd ch" "m_events ch' = m_events ch" "m_index ch' = m_index ch" "m_loop ch' = m_loop ch"
  shows "loop_ok tid kctl (store_object a ch' lp)" "watched (store_object a ch' lp) = watched lp"
    "owned (store_object a ch' lp) = owned lp"
proof -
  show "loop_ok tid kctl (store_object a ch' lp)" unfolding loop_ok_def
  proof (intro conjI allI impI)
    show "kernel_obeys kctl" "m_tid (store_object a ch' lp) = tid" using assms(1) by (simp_all add: loop_ok_def)
    show "epoll_inv (lp_objects (store_object a ch' lp)) (m_epoll (store_object a ch' lp))"
      using epoll_inv_same [OF loop_okD(3) [OF assms(1)] assms(2-6)] by simp
    show "m_loop c = lp_id (store_object a ch' lp)" if "lp_objects (store_object a ch' lp) d = Some c" for d c
      using that loop_okD(4) [OF assms(1,2)] loop_okD(4) [OF assms(1), of d c] assms(7) by (auto split: if_splits)
    fix d d' c c' assume 1: "lp_objects (store_object a ch' lp) d = Some c" "lp_objects (store_object a ch' lp) d' = Some c'" "m_fd c = m_fd c'"
    obtain x x' where "lp_objects lp d = Some x" "lp_objects lp d' = Some x'" "m_fd x = m_fd c" "m_fd x' = m_fd c'"
      using 1(1,2) assms(2,4) by (auto split: if_splits)
    with 1(3) assms(1) show "d = d'" unfolding loop_ok_def by metis
  qed
  show "watched (store_object a ch' lp) = watched lp" "owned (store_object a ch' lp) = owned lp"
    using assms(2,4) by (auto simp: watched_def owned_def fun_eq_iff split: option.splits)
qed

lemma conn_mark_law:
  assumes "settled env s"
  shows "\<exists>lp. conn_mark b s = Inr (s\<lparr>cs_loop := lp\<rparr>) \<and> settled env (s\<lparr>cs_loop := lp\<rparr>) \<and> cs_watched (s\<lparr>cs_loop := lp\<rparr>) = cs_watched s"
proof -
  obtain ch where ch: "lp_objects (cs_loop s) (m_channel (cs_conn s)) = Some ch" using assms by (auto simp: settled_def owned_def)
  have ok: "loop_ok (e_tid env) (e_kctl env) (cs_loop s)" using assms by (simp add: settled_def)
  from touch_channel_law [OF ok ch, of "ch\<lparr>m_event_handling := b\<rparr>"] ch assms show ?thesis
    by (auto simp: conn_mark_def settled_def cs_watched_def)
qed

text \<open>C25: a peer's reset kills the server. When the kernel reports an error together with readability
  (\<open>EPOLLERR | EPOLLIN\<close>, as it does after a RST) for a connection that is not kept alive, the error handler
  closes the connection, then the first read of the read handler meets the end of the stream or an error and closes it
  again, which is a FATAL log line: the whole process aborts.\<close>

theorem peer_reset_aborts:
  assumes "settled env s" "m_state (cs_conn s) = kConnected" "\<not> kept_alive (cs_conn s)" "cs_watched s \<noteq> None"
    and "conn_handlers ch" "m_revents ch AND EPOLLERR \<noteq> 0" "m_revents ch AND EPOLLIN \<noteq> 0"
    and "cs_in s = Rd_Bytes [] # ins \<or> cs_in s = Rd_Err (EOther e) # ins"
    and "\<forall>c. e_close_callback env c (cs_world s) = Inr w"
  shows "handleEvent (conn_exec env) conn_mark ch s = Inl Process_Abort"
proof -
  from conn_mark_law [OF assms(1)] obtain lp where m: "conn_mark True s = Inr (s\<lparr>cs_loop := lp\<rparr>)"
    "settled env (s\<lparr>cs_loop := lp\<rparr>)" "cs_watched (s\<lparr>cs_loop := lp\<rparr>) = cs_watched s" by blast
  let ?s = "s\<lparr>cs_loop := lp\<rparr>"
  have "\<not> kept_alive (cs_conn ?s)" "m_state (cs_conn ?s) = kConnected" "cs_watched ?s \<noteq> None"
    "e_close_callback env (closed_conn (cs_conn ?s)) (cs_world ?s) = Inr w" using assms m by simp_all
  from handleClose_law [OF m(2) this] obtain lp' where
    c: "handleClose env ?s = Inr (closed lp' w ?s)" "settled env (closed lp' w ?s)" by blast
  have twice: "handleClose env t = Inl Process_Abort" if "t = (closed lp' w ?s)\<lparr>cs_conn := (closed_conn (cs_conn s))\<lparr>m_input_buffer := b\<rparr>, cs_in := r\<rparr>" for b r t
    using that c(2) assms(3) by (intro handleClose_twice) (simp_all add: settled_def kept_alive_def)
  have "handleRead env (closed lp' w ?s) = Inl Process_Abort"
    using assms(8) twice by (auto simp: handleRead_def handleError_def readFromFd_def Let_def)
  moreover have "m_revents ch AND (EPOLLIN OR EPOLLPRI OR EPOLLRDHUP) \<noteq> 0"
  proof
    assume "m_revents ch AND (EPOLLIN OR EPOLLPRI OR EPOLLRDHUP) = 0"
    then have "(m_revents ch AND (EPOLLIN OR EPOLLPRI OR EPOLLRDHUP)) AND EPOLLIN = 0" by simp
    moreover have "(m_revents ch AND (EPOLLIN OR EPOLLPRI OR EPOLLRDHUP)) AND EPOLLIN = m_revents ch AND EPOLLIN"
      by (simp add: and.assoc epoll_bits)
    ultimately show False using assms(7) by simp
  qed
  ultimately show ?thesis
    using m(1) c(1) assms(5-7)
    by (simp add: handleEvent_due due_handlers_def conn_handlers_def call_def handleError_def)
qed

theorem peer_reset_aborts_witness:
  "\<exists>lp. ready demo_env (demo_state lp [Rd_Err (EOther 104)] []) \<and>
    handleEvent (conn_exec demo_env) conn_mark
      ((new_conn_channel False 9 5 7 Ev_Read Ev_Write Ev_Error Ev_Close)\<lparr>m_revents := EPOLLIN OR EPOLLERR OR EPOLLHUP\<rparr>)
      (demo_state lp [Rd_Err (EOther 104)] []) = Inl Process_Abort"
proof -
  obtain lp where r: "\<And>ins outs. ready demo_env (demo_state lp ins outs)" using demo_ready by blast
  let ?s = "demo_state lp [Rd_Err (EOther 104)] []"
  let ?ch = "(new_conn_channel False 9 5 7 Ev_Read Ev_Write Ev_Error Ev_Close)\<lparr>m_revents := EPOLLIN OR EPOLLERR OR EPOLLHUP\<rparr>"
  have s: "settled demo_env ?s" "m_state (cs_conn ?s) = kConnected" "cs_watched ?s \<noteq> None" "\<not> kept_alive (cs_conn ?s)"
    using r [of "[Rd_Err (EOther 104)]" "[]"] by (auto simp: ready_def kept_alive_def)
  have ch: "conn_handlers ?ch" by (simp add: conn_handlers_def new_conn_channel_def)
  have e: "m_revents ?ch AND EPOLLERR \<noteq> 0" "m_revents ?ch AND EPOLLIN \<noteq> 0" by (simp_all add: epoll_bits)
  from peer_reset_aborts [OF s(1,2,4,3) ch e, of "[]" 104 1] r show ?thesis by auto
qed

subsection \<open>Taking a connection down\<close>

text \<open>The loop after the dispatch of a turn, when the pending functors run.\<close>

definition dispatched :: "('f, 'h) loop \<Rightarrow> ('f, 'h) loop" where
  "dispatched lp = lp\<lparr>m_current_active_channel := None, m_loop_event_handling := False\<rparr>"

text \<open>Destroying a connection whose channel was switched off.\<close>

lemma destroyed_law:
  assumes "settled env t" "m_state (cs_conn t) = kDisconnected" "cs_watched t = None" "idle (cs_loop t)"
    and ch: "lp_objects (cs_loop t) (m_channel (cs_conn t)) = Some ch" "m_index ch = kDeleted" "m_events ch = kNoneEvent"
  shows "\<exists>t' lp. connectDestroyed env t = Inr t' \<and> conn_dtor t' = Inr (socket_dtor (m_socket (cs_conn t)), lp) \<and>
    loop_ok (e_tid env) (e_kctl env) lp \<and> watched lp = others_watched t \<and> lp_objects lp (m_channel (cs_conn t)) = None \<and>
    (\<forall>fd. m_channels (m_epoll lp) fd \<noteq> Some (m_channel (cs_conn t))) \<and>
    t' = t\<lparr>cs_loop := cs_loop t'\<rparr> \<and> same_rest (cs_loop t) (cs_loop t')"
proof -
  let ?a = "m_channel (cs_conn t)" and ?d = "cs_loop t"
  have ok: "loop_ok (e_tid env) (e_kctl env) ?d" using assms(1) by (simp add: settled_def)
  from channel_remove_law [OF ok ch] assms(4) obtain ep where
    r: "channel_remove (e_tid env) (e_kctl env) ?a ?d = Inr (?d\<lparr>m_epoll := ep, lp_objects := (lp_objects ?d)(?a \<mapsto> ch\<lparr>m_index := kNew\<rparr>)\<rparr>)"
      "loop_ok (e_tid env) (e_kctl env) (?d\<lparr>m_epoll := ep, lp_objects := (lp_objects ?d)(?a \<mapsto> ch\<lparr>m_index := kNew\<rparr>)\<rparr>)"
      "ctl_calls ep = ctl_calls (m_epoll ?d)" by (auto simp: idle_def)
  let ?lp2 = "?d\<lparr>m_epoll := ep, lp_objects := (lp_objects ?d)(?a \<mapsto> ch\<lparr>m_index := kNew\<rparr>)\<rparr>"
  let ?lp3 = "?lp2\<lparr>lp_objects := (lp_objects ?lp2)(?a := None)\<rparr>"
  have ok3: "loop_ok (e_tid env) (e_kctl env) ?lp3"
    by (rule drop_object_ok [OF r(2), where ch = "ch\<lparr>m_index := kNew\<rparr>"]) simp_all
  have destroyed: "connectDestroyed env t = Inr (t\<lparr>cs_loop := ?lp2\<rparr>)"
    using r(1) assms(1,2) by (simp add: connectDestroyed_def on_channel_def)
  have dtor: "conn_dtor (t\<lparr>cs_loop := ?lp2\<rparr>) = Inr (socket_dtor (m_socket (cs_conn t)), ?lp3)"
    using assms(2) by (simp add: conn_dtor_def)
  have "watched ?lp3 = (watched ?d)(?a := None)"
    using r(3) by (auto simp: watched_def fun_eq_iff split: option.splits)
  then have w3: "watched ?lp3 = others_watched t" by (simp add: others_watched_def)
  have m3: "m_channels (m_epoll ?lp3) fd \<noteq> Some ?a" for fd
    using loop_okD(3) [OF ok3] unfolding epoll_inv_def by fastforce
  have "lp_objects ?lp3 ?a = None" "same_rest ?d ?lp2" using channel_op_frames(2) [OF r(1)] by simp_all
  with destroyed dtor ok3 w3 m3 show ?thesis
    by (intro exI [of _ "t\<lparr>cs_loop := ?lp2\<rparr>"] exI [of _ ?lp3]) (simp only: conn_state.select_convs conn_state.update_convs simp_thms, simp)
qed

text \<open>C14: a closed connection leaves nothing behind. After \<open>handleClose\<close>, and with the loop past its
  dispatch, \<open>connectDestroyed\<close> returns and the destructor does not complain; the channel object is gone,
  the loop is coherent, the kernel watches all other channels as before, the poller's map has no entry
  for the connection, and the socket was closed, once, as its last call.\<close>

theorem connection_torn_down:
  assumes "settled env s" "m_state (cs_conn s) = kConnected" "\<not> kept_alive (cs_conn s)" "cs_watched s \<noteq> None"
    and "e_close_callback env (closed_conn (cs_conn s)) (cs_world s) = Inr w" "\<not> m_closed (m_socket (cs_conn s))"
  shows "\<exists>t t' sock lp. handleClose env s = Inr t \<and>
    connectDestroyed env (t\<lparr>cs_loop := dispatched (cs_loop t)\<rparr>) = Inr t' \<and> conn_dtor t' = Inr (sock, lp) \<and>
    loop_ok (e_tid env) (e_kctl env) lp \<and> watched lp = others_watched s \<and> lp_objects lp (m_channel (cs_conn s)) = None \<and>
    (\<forall>fd. m_channels (m_epoll lp) fd \<noteq> Some (m_channel (cs_conn s))) \<and>
    sock_calls sock = sock_calls (m_socket (cs_conn s)) @
      (if m_alive (cs_conn s) then [] else [Sc_shutdown_wr (m_sockfd (m_socket (cs_conn s)))]) @
      [Sc_close (m_sockfd (m_socket (cs_conn s)))]"
proof -
  let ?a = "m_channel (cs_conn s)"
  from handleClose_law [OF assms(1,3,2,4,5)] obtain lp1 where
    t: "handleClose env s = Inr (closed lp1 w s)" "settled env (closed lp1 w s)"
      "cs_watched (closed lp1 w s) = None" "others_watched (closed lp1 w s) = others_watched s" by blast
  let ?t = "(closed lp1 w s)\<lparr>cs_loop := dispatched lp1\<rparr>"
  have objs: "lp_objects (dispatched lp1) = lp_objects lp1" "m_epoll (dispatched lp1) = m_epoll lp1" by (simp_all add: dispatched_def)
  have wd: "watched (dispatched lp1) = watched lp1" by (auto simp: watched_def objs fun_eq_iff split: option.splits)
  have ok: "settled env ?t" "idle (cs_loop ?t)"
    using t(2) by (auto simp: settled_def dispatched_def loop_ok_def idle_def owned_def)
  obtain ch where ch: "lp_objects (cs_loop ?t) (m_channel (cs_conn ?t)) = Some ch" "m_index ch = kDeleted" "m_events ch = kNoneEvent"
    using handleClose_switches_off [OF assms(1,3,4) t(1)] objs by auto
  have st: "m_state (cs_conn ?t) = kDisconnected" "cs_watched ?t = None" "others_watched ?t = others_watched s"
    using t(3,4) wd by (simp_all add: cs_watched_def others_watched_def)
  have calls: "sock_calls (socket_dtor (m_socket (closed_conn (cs_conn s)))) = sock_calls (m_socket (cs_conn s)) @
      (if m_alive (cs_conn s) then [] else [Sc_shutdown_wr (m_sockfd (m_socket (cs_conn s)))]) @
      [Sc_close (m_sockfd (m_socket (cs_conn s)))]"
    using assms(6) by (simp add: closed_conn_def socket_dtor_def shutdownWrite_def sock_do_def)
  from destroyed_law [OF ok(1) st(1,2) ok(2) ch] obtain t' lp where d:
    "connectDestroyed env ?t = Inr t'" "conn_dtor t' = Inr (socket_dtor (m_socket (closed_conn (cs_conn s))), lp)"
    "loop_ok (e_tid env) (e_kctl env) lp" "watched lp = others_watched s" "lp_objects lp ?a = None"
    "\<forall>fd. m_channels (m_epoll lp) fd \<noteq> Some ?a" using st(3) by auto
  with t(1) calls show ?thesis
    by (intro exI [of _ "closed lp1 w s"] exI [of _ t'] exI [of _ "socket_dtor (m_socket (closed_conn (cs_conn s)))"] exI [of _ lp])
       (simp only: closed_simps simp_thms)
qed

theorem connection_torn_down_witness:
  "\<exists>lp t t' r. handleClose demo_env (demo_state lp [] []) = Inr t \<and>
    connectDestroyed demo_env (t\<lparr>cs_loop := dispatched (cs_loop t)\<rparr>) = Inr t' \<and> conn_dtor t' = Inr r \<and>
    last (sock_calls (fst r)) = Sc_close 7"
proof -
  obtain lp where r: "\<And>ins outs. ready demo_env (demo_state lp ins outs)" using demo_ready by blast
  let ?s = "demo_state lp [] []"
  have s: "settled demo_env ?s" "m_state (cs_conn ?s) = kConnected" "\<not> kept_alive (cs_conn ?s)" "cs_watched ?s \<noteq> None"
    using r by (auto simp: ready_def kept_alive_def)
  have "e_close_callback demo_env (closed_conn (cs_conn ?s)) (cs_world ?s) = Inr 1" by simp
  moreover have "\<not> m_closed (m_socket (cs_conn ?s))" "m_sockfd (m_socket (cs_conn ?s)) = 7"
    by (simp_all add: demo_state_def new_conn_def client_socket_def setTcpNoDelay_def setNonBlock_def sock_do_def)
  ultimately show ?thesis using connection_torn_down [OF s] by fastforce
qed

end
