(* ===== verification/TcpServer.thy ===== *)
theory TcpServer
  imports TcpConnection
begin

text \<open>
  The server (TcpServer.h, TcpServer.cpp) and its pool of event loops (EventLoopThreadPool.h,
  EventLoopThreadPool.cpp).

  A loop is known by its address, here a number, in the map \<open>sv_loops\<close>; a connection by its address in
  \<open>sv_conns\<close>, of which the server uses the name and the owner loop. Functors are values: the bound member
  functions that are ever handed to a loop, and so are the handlers of its channels. \<open>exec\<close> runs a functor at once, for a caller that is in the loop's
  thread already.
\<close>

datatype functor_name =
    Fn_connectEstablished nat
  | Fn_connectDestroyed nat
  | Fn_removeConnectionInLoop nat
  | Fn_listen
  | Fn_closeLongConnection nat
  | Fn_shutdownInLoop nat
  | Fn_addTimer functor_name int
  | Fn_handleTimeoutEvents

text \<open>The read handlers of a loop's own channels and of the acceptor, and the handlers of a connection.\<close>

datatype event_handler =
    H_wakeup
  | H_timer
  | H_accept
  | H_conn nat conn_event

type_synonym io_loop = "(functor_name, event_handler) loop"

record conn_ref =
  cr_name :: string
  cr_loop :: nat
  cr_fd :: int

record pool =
  m_pool_started :: bool
  m_thread_nums :: int
  m_next :: int
  m_loops :: "nat list"

record server =
  m_name :: string
  m_started :: bool
  m_next_conn_id :: int
  m_connections :: "string \<rightharpoonup> nat"
  m_pool :: pool
  m_main_loop :: nat
  sv_loops :: "nat \<rightharpoonup> io_loop"
  sv_conns :: "nat \<rightharpoonup> conn_ref"

subsection \<open>Loops by address\<close>

definition the_loop :: "nat \<Rightarrow> 'z server_scheme \<Rightarrow> io_loop res" where
  "the_loop l s = (case sv_loops s l of None \<Rightarrow> Inl Undefined_Behaviour | Some lp \<Rightarrow> Inr lp)"

definition assert_in :: "nat \<Rightarrow> nat \<Rightarrow> 'z server_scheme \<Rightarrow> unit res" where
  "assert_in tid l s = bind_res (the_loop l s) (assertInLoopThread tid)"

definition put_loop :: "nat \<Rightarrow> io_loop \<Rightarrow> 'z server_scheme \<Rightarrow> 'z server_scheme" where
  "put_loop l lp s = s\<lparr>sv_loops := (sv_loops s)(l \<mapsto> lp)\<rparr>"

definition queue_in :: "nat \<Rightarrow> nat \<Rightarrow> functor_name \<Rightarrow> 'z server_scheme \<Rightarrow> 'z server_scheme res" where
  "queue_in tid l f s =
     bind_res (the_loop l s) (\<lambda>lp. Inr (put_loop l (queueInLoop tid f lp) s))"

definition run_in ::
  "(functor_name \<Rightarrow> 'z server_scheme \<Rightarrow> 'z server_scheme res) \<Rightarrow> nat \<Rightarrow> nat \<Rightarrow> functor_name \<Rightarrow> 'z server_scheme \<Rightarrow> 'z server_scheme res" where
  "run_in exec tid l f s =
     bind_res (the_loop l s) (\<lambda>lp. if isInLoopThread tid lp then exec f s else queue_in tid l f s)"

subsection \<open>The pool\<close>

definition DEFAUTL_THREAD_NUMS :: int where
  "DEFAUTL_THREAD_NUMS = 4"

definition new_pool :: pool where
  "new_pool = \<lparr>m_pool_started = False, m_thread_nums = DEFAUTL_THREAD_NUMS, m_next = 0, m_loops = []\<rparr>"

definition setThreadNums :: "int \<Rightarrow> pool \<Rightarrow> pool" where
  "setThreadNums nums p = p\<lparr>m_thread_nums := nums\<rparr>"

text \<open>\<open>start\<close>: \<open>new_loops\<close> gives the address and the state of the loop that the i-th thread built.\<close>

fun start_threads :: "(nat \<Rightarrow> nat \<times> io_loop) \<Rightarrow> nat \<Rightarrow> nat \<Rightarrow> 'z server_scheme \<Rightarrow> 'z server_scheme" where
  "start_threads new_loops i 0 s = s"
| "start_threads new_loops i (Suc n) s =
     (case new_loops i of (l, lp) \<Rightarrow>
        start_threads new_loops (Suc i) n
          (s\<lparr>m_pool := (m_pool s)\<lparr>m_loops := m_loops (m_pool s) @ [l]\<rparr>, sv_loops := (sv_loops s)(l \<mapsto> lp)\<rparr>))"

definition pool_start :: "(nat \<Rightarrow> nat \<times> io_loop) \<Rightarrow> nat \<Rightarrow> 'z server_scheme \<Rightarrow> 'z server_scheme res" where
  "pool_start new_loops tid s =
     bind_res (assert_in tid (m_main_loop s) s) (\<lambda>_.
     Inr (start_threads new_loops 0 (nat (m_thread_nums (m_pool s)))
       (s\<lparr>m_pool := (m_pool s)\<lparr>m_pool_started := True\<rparr>\<rparr>)))"

text \<open>
  \<open>getNextLoop\<close>: \<open>m_next + 1\<close> is converted to \<open>size_t\<close> for the remainder, which is undefined, like the
  access, when there is no loop.
\<close>

definition getNextLoop :: "nat \<Rightarrow> 'z server_scheme \<Rightarrow> (nat \<times> 'z server_scheme) res" where
  "getNextLoop tid s =
     bind_res (assert_in tid (m_main_loop s) s) (\<lambda>_.
     let p = m_pool s in
     if size64 (m_next p) < length (m_loops p) then
       Inr (m_loops p ! size64 (m_next p),
            s\<lparr>m_pool := p\<lparr>m_next := int32 (int (size64 (m_next p + 1) mod length (m_loops p)))\<rparr>\<rparr>)
     else Inl Undefined_Behaviour)"

subsection \<open>The server\<close>

definition new_server :: "nat \<Rightarrow> io_loop \<Rightarrow> string \<Rightarrow> 'z \<Rightarrow> 'z server_scheme" where
  "new_server l lp name rest =
     \<lparr>m_name = name, m_started = False, m_next_conn_id = 1, m_connections = Map.empty, m_pool = new_pool,
      m_main_loop = l, sv_loops = [l \<mapsto> lp], sv_conns = Map.empty, \<dots> = rest\<rparr>"

text \<open>
  \<open>snprintf(buf, 32, "#conn-id: %d", id)\<close>: at most 31 characters. Incrementing the largest \<open>int\<close> is
  undefined.
\<close>

definition conn_name :: "string \<Rightarrow> int \<Rightarrow> string" where
  "conn_name name i = name @ take 31 (''#conn-id: '' @ printed_int i)"

text \<open>\<open>newConnection\<close>; \<open>a\<close> is the address of the new connection.\<close>

definition newConnection ::
  "(functor_name \<Rightarrow> 'z server_scheme \<Rightarrow> 'z server_scheme res) \<Rightarrow> nat \<Rightarrow> nat \<Rightarrow> int \<Rightarrow> 'z server_scheme \<Rightarrow> 'z server_scheme res" where
  "newConnection exec tid a fd s =
     bind_res (assert_in tid (m_main_loop s) s) (\<lambda>_.
     let i = m_next_conn_id s in
     if i + 1 \<ge> 2 ^ 31 then Inl Undefined_Behaviour
     else
       let s1 = s\<lparr>m_next_conn_id := i + 1\<rparr>;
           name = conn_name (m_name s1) i
       in bind_res (getNextLoop tid s1) (\<lambda>(io_loop, s2).
          let s3 = s2\<lparr>sv_conns := (sv_conns s2)(a \<mapsto> \<lparr>cr_name = name, cr_loop = io_loop, cr_fd = fd\<rparr>),
                      m_connections := (m_connections s2)(name \<mapsto> a)\<rparr>
          in run_in exec tid io_loop (Fn_connectEstablished a) s3))"

definition removeConnection ::
  "(functor_name \<Rightarrow> 'z server_scheme \<Rightarrow> 'z server_scheme res) \<Rightarrow> nat \<Rightarrow> nat \<Rightarrow> 'z server_scheme \<Rightarrow> 'z server_scheme res" where
  "removeConnection exec tid a s = run_in exec tid (m_main_loop s) (Fn_removeConnectionInLoop a) s"

definition removeConnectionInLoop :: "nat \<Rightarrow> nat \<Rightarrow> 'z server_scheme \<Rightarrow> 'z server_scheme res" where
  "removeConnectionInLoop tid a s =
     bind_res (assert_in tid (m_main_loop s) s) (\<lambda>_.
     case sv_conns s a of
       None \<Rightarrow> Inl Undefined_Behaviour
     | Some c \<Rightarrow>
         queue_in tid (cr_loop c) (Fn_connectDestroyed a)
           (s\<lparr>m_connections := (m_connections s)(cr_name c := None)\<rparr>))"

definition server_start ::
  "(functor_name \<Rightarrow> 'z server_scheme \<Rightarrow> 'z server_scheme res) \<Rightarrow> (nat \<Rightarrow> nat \<times> io_loop) \<Rightarrow> nat \<Rightarrow> 'z server_scheme \<Rightarrow> 'z server_scheme res" where
  "server_start exec new_loops tid s =
     bind_res (pool_start new_loops tid (s\<lparr>m_started := True\<rparr>)) (\<lambda>s1.
     run_in exec tid (m_main_loop s1) Fn_listen s1)"

definition server_setThreadNums :: "int \<Rightarrow> 'z server_scheme \<Rightarrow> 'z server_scheme" where
  "server_setThreadNums nums s = s\<lparr>m_pool := setThreadNums nums (m_pool s)\<rparr>"

text \<open>The destructor, over the entries of the connection map in its order.\<close>

fun destroy_all ::
  "(functor_name \<Rightarrow> 'z server_scheme \<Rightarrow> 'z server_scheme res) \<Rightarrow> nat \<Rightarrow> nat list \<Rightarrow> 'z server_scheme \<Rightarrow> 'z server_scheme res" where
  "destroy_all exec tid [] s = Inr s"
| "destroy_all exec tid (a # as) s =
     (case sv_conns s a of
        None \<Rightarrow> Inl Undefined_Behaviour
      | Some c \<Rightarrow> bind_res (run_in exec tid (cr_loop c) (Fn_connectDestroyed a) s) (destroy_all exec tid as))"

definition server_dtor ::
  "(functor_name \<Rightarrow> 'z server_scheme \<Rightarrow> 'z server_scheme res) \<Rightarrow> nat \<Rightarrow> nat list \<Rightarrow> 'z server_scheme \<Rightarrow> 'z server_scheme res" where
  "server_dtor exec tid entries s =
     bind_res (assert_in tid (m_main_loop s) s) (\<lambda>_. destroy_all exec tid entries s)"

subsection \<open>A server that runs\<close>

definition pending :: "'z server_scheme \<Rightarrow> nat \<Rightarrow> functor_name list" where
  "pending s l = (case sv_loops s l of None \<Rightarrow> [] | Some lp \<Rightarrow> m_pending_functors lp)"

text \<open>
  Seen from the main thread \<open>tid\<close>: the main loop is its own, the pool's loops are other threads';
  connections carry distinct names made from the identifiers given out so far; the connection map is
  coherent with them.
\<close>

definition loops_ok :: "nat \<Rightarrow> 'z server_scheme \<Rightarrow> bool" where
  "loops_ok tid s \<longleftrightarrow> (\<exists>lp. sv_loops s (m_main_loop s) = Some lp \<and> m_tid lp = tid) \<and>
     m_loops (m_pool s) \<noteq> [] \<and> int (length (m_loops (m_pool s))) < 2 ^ 31 \<and>
     0 \<le> m_next (m_pool s) \<and> m_next (m_pool s) < int (length (m_loops (m_pool s))) \<and>
     (\<forall>l \<in> set (m_loops (m_pool s)). \<exists>lp. sv_loops s l = Some lp \<and> m_tid lp \<noteq> tid)"

definition conns_ok :: "'z server_scheme \<Rightarrow> bool" where
  "conns_ok s \<longleftrightarrow> 1 \<le> m_next_conn_id s \<and> m_next_conn_id s < 2 ^ 31 \<and>
     (\<forall>a c. sv_conns s a = Some c \<longrightarrow> cr_loop c \<in> set (m_loops (m_pool s)) \<and>
        (\<exists>k. 1 \<le> k \<and> k < m_next_conn_id s \<and> cr_name c = conn_name (m_name s) k)) \<and>
     (\<forall>a b c d. sv_conns s a = Some c \<longrightarrow> sv_conns s b = Some d \<longrightarrow> cr_name c = cr_name d \<longrightarrow> a = b) \<and>
     (\<forall>n a. m_connections s n = Some a \<longrightarrow> (\<exists>c. sv_conns s a = Some c \<and> cr_name c = n))"

definition server_ok :: "nat \<Rightarrow> 'z server_scheme \<Rightarrow> bool" where
  "server_ok tid s \<longleftrightarrow> loops_ok tid s \<and> conns_ok s"

lemma conn_name_inject:
  assumes "1 \<le> i" "i < 2 ^ 31" "1 \<le> j" "j < 2 ^ 31" "conn_name name i = conn_name name j"
  shows "i = j"
proof -
  have "length (decimal (nat k)) \<le> 21" if "1 \<le> k" "k < 2 ^ 31" for k
  proof -
    have "nat k < 10 ^ Suc 9" using that by simp
    from length_decimal [OF this] show ?thesis by simp
  qed
  with assms have "decimal (nat i) = decimal (nat j)" by (simp add: conn_name_def printed_int_def)
  with assms show ?thesis by simp
qed

lemma the_loop_simp [simp]: "sv_loops s l = Some lp \<Longrightarrow> the_loop l s = Inr lp"
  by (simp add: the_loop_def)

lemma assert_in_main: "loops_ok tid s \<Longrightarrow> assert_in tid (m_main_loop s) s = Inr ()"
  by (auto simp: loops_ok_def assert_in_def assertInLoopThread_def isInLoopThread_def)

lemma queueInLoop_tid [simp]:
  "m_tid (queueInLoop tid cb lp) = m_tid lp" "m_pending_functors (queueInLoop tid cb lp) = m_pending_functors lp @ [cb]"
  by (simp_all add: queueInLoop_def push_functor_def wakeup_def Let_def)

lemma put_loop_simps [simp]:
  "sv_loops (put_loop l lp s) = (sv_loops s)(l \<mapsto> lp)" "sv_conns (put_loop l lp s) = sv_conns s"
  "m_connections (put_loop l lp s) = m_connections s" "m_pool (put_loop l lp s) = m_pool s"
  "m_main_loop (put_loop l lp s) = m_main_loop s" "m_name (put_loop l lp s) = m_name s"
  "m_next_conn_id (put_loop l lp s) = m_next_conn_id s" "server.more (put_loop l lp s) = server.more s"
  "put_loop l lp (put_loop l lp' s) = put_loop l lp s"
  by (simp_all add: put_loop_def)

lemma put_loop_ok:
  assumes "sv_loops s l = Some lp" "m_tid lp' = m_tid lp"
  shows "loops_ok tid (put_loop l lp' s) = loops_ok tid s" "conns_ok (put_loop l lp' s) = conns_ok s"
    "server_ok tid (put_loop l lp' s) = server_ok tid s"
proof -
  show l: "loops_ok tid (put_loop l lp' s) = loops_ok tid s" using assms by (auto simp: loops_ok_def split: if_splits)
  show c: "conns_ok (put_loop l lp' s) = conns_ok s" by (simp add: conns_ok_def)
  show "server_ok tid (put_loop l lp' s) = server_ok tid s" unfolding server_ok_def l c ..
qed

lemma queue_in_eq: "sv_loops s l = Some lp \<Longrightarrow> queue_in tid l f s = Inr (put_loop l (queueInLoop tid f lp) s)"
  by (simp add: queue_in_def)

lemma queue_in_law:
  assumes "sv_loops s l = Some lp"
  shows "\<exists>t. queue_in tid l f s = Inr t \<and> t = s\<lparr>sv_loops := sv_loops t\<rparr> \<and>
    pending t = (pending s)(l := pending s l @ [f]) \<and> loops_ok tid' t = loops_ok tid' s \<and> conns_ok t = conns_ok s \<and>
    t = put_loop l (queueInLoop tid f lp) s"
proof -
  let ?t = "put_loop l (queueInLoop tid f lp) s"
  have "pending ?t = (pending s)(l := pending s l @ [f])"
    using assms by (auto simp: pending_def fun_eq_iff)
  moreover have "?t = s\<lparr>sv_loops := sv_loops ?t\<rparr>" by (simp add: put_loop_def)
  moreover have "loops_ok tid' ?t = loops_ok tid' s" "conns_ok ?t = conns_ok s" by (rule put_loop_ok [OF assms], simp)+
  ultimately show ?thesis using queue_in_eq [OF assms] by blast
qed

subsection \<open>New connections\<close>

definition with_conn :: "nat \<Rightarrow> int \<Rightarrow> 'z server_scheme \<Rightarrow> 'z server_scheme" where
  "with_conn a fd s =
     (let p = m_pool s; name = conn_name (m_name s) (m_next_conn_id s) in
      s\<lparr>m_next_conn_id := m_next_conn_id s + 1,
        m_pool := p\<lparr>m_next := (m_next p + 1) mod int (length (m_loops p))\<rparr>,
        sv_conns := (sv_conns s)(a \<mapsto> \<lparr>cr_name = name, cr_loop = m_loops p ! nat (m_next p), cr_fd = fd\<rparr>),
        m_connections := (m_connections s)(name \<mapsto> a)\<rparr>)"

lemma getNextLoop_law:
  assumes "loops_ok tid s"
  shows "getNextLoop tid s = Inr (m_loops (m_pool s) ! nat (m_next (m_pool s)),
    s\<lparr>m_pool := (m_pool s)\<lparr>m_next := (m_next (m_pool s) + 1) mod int (length (m_loops (m_pool s)))\<rparr>\<rparr>)"
proof -
  let ?n = "length (m_loops (m_pool s))" and ?x = "m_next (m_pool s)"
  have b: "0 \<le> ?x" "?x < int ?n" "int ?n < 2 ^ 31" using assms by (auto simp: loops_ok_def)
  then have s1: "size64 ?x = nat ?x" "size64 (?x + 1) = nat (?x + 1)" by (simp_all add: size64_def)
  have "int (nat (?x + 1) mod ?n) = (?x + 1) mod int ?n" using b(1) by (simp add: zmod_int)
  moreover have "0 \<le> (?x + 1) mod int ?n" "(?x + 1) mod int ?n < 2 ^ 31"
    using b pos_mod_bound [of "int ?n" "?x + 1"] pos_mod_sign [of "int ?n" "?x + 1"] by linarith+
  ultimately have "int32 (int (nat (?x + 1) mod ?n)) = (?x + 1) mod int ?n" by simp
  with s1 b show ?thesis using assert_in_main [OF assms] by (simp add: getNextLoop_def Let_def nat_less_iff)
qed

lemma with_conn_ok:
  assumes "server_ok tid s" "sv_conns s a = None" "m_next_conn_id s + 1 < 2 ^ 31"
  shows "server_ok tid (with_conn a fd s)"
    and "m_connections s (conn_name (m_name s) (m_next_conn_id s)) = None"
proof -
  let ?i = "m_next_conn_id s" and ?t = "with_conn a fd s"
  have L: "loops_ok tid s" and C: "conns_ok s" using assms(1) by (simp_all add: server_ok_def)
  have fresh: "cr_name c \<noteq> conn_name (m_name s) ?i" if "sv_conns s b = Some c" for b c
  proof
    assume eq: "cr_name c = conn_name (m_name s) ?i"
    from C that obtain k where k: "1 \<le> k" "k < ?i" "cr_name c = conn_name (m_name s) k"
      unfolding conns_ok_def by blast
    from C have "1 \<le> ?i" "?i < 2 ^ 31" by (auto simp: conns_ok_def)
    with conn_name_inject [of k ?i "m_name s"] k eq show False by simp
  qed
  show none: "m_connections s (conn_name (m_name s) ?i) = None"
    using C fresh unfolding conns_ok_def by (metis not_None_eq)
  have n: "0 \<le> m_next (m_pool s)" "m_next (m_pool s) < int (length (m_loops (m_pool s)))" using L by (auto simp: loops_ok_def)
  have "loops_ok tid ?t" using L n by (auto simp: loops_ok_def with_conn_def Let_def)
  moreover have "conns_ok ?t" unfolding conns_ok_def
  proof (intro conjI allI impI)
    show "1 \<le> m_next_conn_id ?t" "m_next_conn_id ?t < 2 ^ 31"
      using C assms(3) by (auto simp: conns_ok_def with_conn_def Let_def)
    fix b c assume b: "sv_conns ?t b = Some c"
    have "nat (m_next (m_pool s)) < length (m_loops (m_pool s))" using n by (simp add: nat_less_iff)
    then have "m_loops (m_pool s) ! nat (m_next (m_pool s)) \<in> set (m_loops (m_pool s))" by simp
    then show "cr_loop c \<in> set (m_loops (m_pool ?t))"
      using b C by (auto simp: conns_ok_def with_conn_def Let_def split: if_splits)
    have "\<exists>k. 1 \<le> k \<and> k < ?i \<and> cr_name d = conn_name (m_name s) k" if "sv_conns s b' = Some d" for b' d
      using that C unfolding conns_ok_def by blast
    moreover have "1 \<le> ?i" using C by (simp add: conns_ok_def)
    ultimately show "\<exists>k. 1 \<le> k \<and> k < m_next_conn_id ?t \<and> cr_name c = conn_name (m_name ?t) k"
      using b by (auto simp: with_conn_def Let_def split: if_splits) fastforce
  next
    fix b b' c c' assume "sv_conns ?t b = Some c" "sv_conns ?t b' = Some c'" "cr_name c = cr_name c'"
    moreover have "d = d'" if "sv_conns s d = Some e" "sv_conns s d' = Some e'" "cr_name e = cr_name e'" for d d' e e'
      using that C unfolding conns_ok_def by blast
    ultimately show "b = b'" using fresh by (auto simp: with_conn_def Let_def split: if_splits) metis+
  next
    fix n b assume "m_connections ?t n = Some b"
    moreover have "\<exists>c. sv_conns s d = Some c \<and> cr_name c = n" if "m_connections s n = Some d" for d
      using that C unfolding conns_ok_def by blast
    ultimately show "\<exists>c. sv_conns ?t b = Some c \<and> cr_name c = n"
      using assms(2) by (fastforce simp: with_conn_def Let_def split: if_splits)
  qed
  ultimately show "server_ok tid ?t" by (simp add: server_ok_def)
qed

lemma newConnection_law:
  assumes "server_ok tid s" "sv_conns s a = None" "m_next_conn_id s + 1 < 2 ^ 31"
  defines "io \<equiv> m_loops (m_pool s) ! nat (m_next (m_pool s))"
  shows "\<exists>t. newConnection exec tid a fd s = Inr t \<and> server_ok tid t \<and> t = (with_conn a fd s)\<lparr>sv_loops := sv_loops t\<rparr> \<and>
    pending t = (pending s)(io := pending s io @ [Fn_connectEstablished a]) \<and>
    (\<exists>lp. sv_loops s io = Some lp \<and> t = put_loop io (queueInLoop tid (Fn_connectEstablished a) lp) (with_conn a fd s))"
proof -
  let ?u = "with_conn a fd s"
  have L: "loops_ok tid s" using assms(1) by (simp add: server_ok_def)
  have "io \<in> set (m_loops (m_pool s))" using L by (auto simp: io_def loops_ok_def nat_less_iff)
  then obtain lp where lp: "sv_loops s io = Some lp" "m_tid lp \<noteq> tid" using L unfolding loops_ok_def by blast
  have same: "sv_loops ?u = sv_loops s" "pending ?u = pending s"
    by (simp_all add: with_conn_def Let_def pending_def fun_eq_iff)
  have L1: "loops_ok tid (s\<lparr>m_next_conn_id := m_next_conn_id s + 1\<rparr>)" using L by (simp add: loops_ok_def)
  have "newConnection exec tid a fd s = run_in exec tid io (Fn_connectEstablished a) ?u"
    using assert_in_main [OF L] getNextLoop_law [OF L1] assms(3)
    by (simp add: newConnection_def with_conn_def io_def Let_def)
  also have "\<dots> = queue_in tid io (Fn_connectEstablished a) ?u"
    using lp same by (simp add: run_in_def isInLoopThread_def)
  finally have run: "newConnection exec tid a fd s = queue_in tid io (Fn_connectEstablished a) ?u" .
  have "sv_loops ?u io = Some lp" using lp same by simp
  from queue_in_law [OF this, of tid "Fn_connectEstablished a" tid] obtain t where
    "queue_in tid io (Fn_connectEstablished a) ?u = Inr t" "t = ?u\<lparr>sv_loops := sv_loops t\<rparr>"
    "pending t = (pending ?u)(io := pending ?u io @ [Fn_connectEstablished a])"
    "loops_ok tid t = loops_ok tid ?u" "conns_ok t = conns_ok ?u"
    "t = put_loop io (queueInLoop tid (Fn_connectEstablished a) lp) ?u" by blast
  with run lp same with_conn_ok(1) [OF assms(1-3), of fd] show ?thesis by (intro exI [of _ t]) (auto simp: server_ok_def)
qed

text \<open>The acceptor's call backs, one after the other.\<close>

fun accept_all ::
  "(functor_name \<Rightarrow> 'z server_scheme \<Rightarrow> 'z server_scheme res) \<Rightarrow> nat \<Rightarrow> (nat \<times> int) list \<Rightarrow> 'z server_scheme \<Rightarrow> 'z server_scheme res" where
  "accept_all exec tid [] s = Inr s"
| "accept_all exec tid ((a, fd) # as) s = bind_res (newConnection exec tid a fd s) (accept_all exec tid as)"

text \<open>The loop that the i-th next connection goes to.\<close>

definition loop_for :: "'z server_scheme \<Rightarrow> nat \<Rightarrow> nat" where
  "loop_for s i = m_loops (m_pool s) ! nat ((m_next (m_pool s) + int i) mod int (length (m_loops (m_pool s))))"

lemma accept_all_law:
  assumes "server_ok tid s" "distinct (map fst as)" "\<forall>a \<in> set (map fst as). sv_conns s a = None"
    and "m_next_conn_id s + int (length as) < 2 ^ 31"
  shows "\<exists>t. accept_all exec tid as s = Inr t \<and> server_ok tid t \<and> m_pool t = (m_pool s)\<lparr>m_next := m_next (m_pool t)\<rparr> \<and>
    (\<forall>b. b \<notin> set (map fst as) \<longrightarrow> sv_conns t b = sv_conns s b) \<and>
    (\<forall>n b. m_connections s n = Some b \<longrightarrow> m_connections t n = Some b) \<and>
    (\<forall>i < length as. \<exists>c. sv_conns t (fst (as ! i)) = Some c \<and> cr_loop c = loop_for s i \<and>
       cr_fd c = snd (as ! i) \<and> m_connections t (cr_name c) = Some (fst (as ! i)))"
  using assms
proof (induction as arbitrary: s)
  case Nil
  then show ?case by (intro exI [of _ s]) simp
next
  case (Cons x as)
  obtain a fd where x: "x = (a, fd)" by (cases x)
  have fresh: "sv_conns s a = None" and le: "m_next_conn_id s + 1 < 2 ^ 31" using Cons.prems x by auto
  from newConnection_law [OF Cons.prems(1) fresh le, of exec fd] obtain s1 where
    s1: "newConnection exec tid a fd s = Inr s1" "server_ok tid s1" "s1 = (with_conn a fd s)\<lparr>sv_loops := sv_loops s1\<rparr>" by blast
  let ?u = "with_conn a fd s"
  have f: "sv_conns s1 = sv_conns ?u" "m_connections s1 = m_connections ?u" "m_pool s1 = m_pool ?u"
    "m_next_conn_id s1 = m_next_conn_id ?u" "m_name s1 = m_name ?u"
    by (subst s1(3), simp)+
  have fr: "\<forall>b \<in> set (map fst as). sv_conns s1 b = None" "m_next_conn_id s1 + int (length as) < 2 ^ 31"
    "distinct (map fst as)"
    using Cons.prems x unfolding f by (auto simp: with_conn_def Let_def)
  from Cons.IH [OF s1(2) fr(3,1,2)] obtain t where
    t: "accept_all exec tid as s1 = Inr t" "server_ok tid t" "m_pool t = (m_pool s1)\<lparr>m_next := m_next (m_pool t)\<rparr>"
      "\<forall>b. b \<notin> set (map fst as) \<longrightarrow> sv_conns t b = sv_conns s1 b"
      "\<forall>n b. m_connections s1 n = Some b \<longrightarrow> m_connections t n = Some b"
      "\<forall>i < length as. \<exists>c. sv_conns t (fst (as ! i)) = Some c \<and> cr_loop c = loop_for s1 i \<and>
       cr_fd c = snd (as ! i) \<and> m_connections t (cr_name c) = Some (fst (as ! i))" by blast
  let ?name = "conn_name (m_name s) (m_next_conn_id s)"
  have pool: "m_pool s1 = (m_pool s)\<lparr>m_next := (m_next (m_pool s) + 1) mod int (length (m_loops (m_pool s)))\<rparr>"
    unfolding f by (simp add: with_conn_def Let_def)
  have next1: "loop_for s1 i = loop_for s (Suc i)" for i
    unfolding loop_for_def pool by (simp add: mod_simps ac_simps)
  have first: "loop_for s 0 = m_loops (m_pool s) ! nat (m_next (m_pool s))"
    using Cons.prems(1) by (simp add: loop_for_def server_ok_def loops_ok_def)
  have a: "a \<notin> set (map fst as)" using Cons.prems(2) x by simp
  have old: "m_connections s n = Some b \<Longrightarrow> m_connections s1 n = Some b" for n b
    using with_conn_ok(2) [OF Cons.prems(1) fresh le] unfolding f by (auto simp: with_conn_def Let_def)
  have here: "\<exists>c. sv_conns t a = Some c \<and> cr_loop c = loop_for s 0 \<and> cr_fd c = fd \<and> m_connections t (cr_name c) = Some a"
  proof -
    have "sv_conns s1 a = Some \<lparr>cr_name = ?name, cr_loop = loop_for s 0, cr_fd = fd\<rparr>" "m_connections s1 ?name = Some a"
      unfolding f first by (simp_all add: with_conn_def Let_def)
    with t(4,5) a show ?thesis by (intro exI [of _ "\<lparr>cr_name = ?name, cr_loop = loop_for s 0, cr_fd = fd\<rparr>"]) simp
  qed
  have rest: "sv_conns t b = sv_conns s b" if "b \<notin> set (map fst (x # as))" for b
    using t(4) that x unfolding f by (simp add: with_conn_def Let_def)
  have each: "\<exists>c. sv_conns t (fst ((x # as) ! i)) = Some c \<and> cr_loop c = loop_for s i \<and>
       cr_fd c = snd ((x # as) ! i) \<and> m_connections t (cr_name c) = Some (fst ((x # as) ! i))" if "i < length (x # as)" for i
    using that here t(6) next1 x by (cases i) auto
  have "accept_all exec tid (x # as) s = Inr t" using x s1(1) t(1) by simp
  moreover have "m_pool t = (m_pool s)\<lparr>m_next := m_next (m_pool t)\<rparr>" by (subst t(3)) (simp add: pool)
  ultimately show ?case using t(2,5) old rest each by blast
qed

subsection \<open>Properties\<close>

lemma start_threads_law:
  assumes "\<forall>j k. fst (new_loops j) = fst (new_loops k) \<longrightarrow> j = k"
  shows "m_loops (m_pool (start_threads new_loops i n s)) = m_loops (m_pool s) @ map (\<lambda>j. fst (new_loops j)) [i..<i + n] \<and>
    m_next (m_pool (start_threads new_loops i n s)) = m_next (m_pool s) \<and>
    m_main_loop (start_threads new_loops i n s) = m_main_loop s \<and> m_name (start_threads new_loops i n s) = m_name s \<and>
    m_next_conn_id (start_threads new_loops i n s) = m_next_conn_id s \<and>
    m_connections (start_threads new_loops i n s) = m_connections s \<and> sv_conns (start_threads new_loops i n s) = sv_conns s \<and>
    (\<forall>j \<in> {i..<i + n}. sv_loops (start_threads new_loops i n s) (fst (new_loops j)) = Some (snd (new_loops j))) \<and>
    (\<forall>l. (\<forall>j \<in> {i..<i + n}. l \<noteq> fst (new_loops j)) \<longrightarrow> sv_loops (start_threads new_loops i n s) l = sv_loops s l)"
proof (induction n arbitrary: i s)
  case 0
  then show ?case by simp
next
  case (Suc n)
  obtain l lp where l: "new_loops i = (l, lp)" by fastforce
  let ?s = "s\<lparr>m_pool := (m_pool s)\<lparr>m_loops := m_loops (m_pool s) @ [l]\<rparr>, sv_loops := (sv_loops s)(l \<mapsto> lp)\<rparr>"
  note IH = Suc.IH [of "Suc i" ?s]
  have e: "start_threads new_loops i (Suc n) s = start_threads new_loops (Suc i) n ?s" using l by simp
  have ne: "fst (new_loops j) \<noteq> l" if "j \<noteq> i" for j using assms l that by (metis fst_conv)
  have up: "[i..<i + Suc n] = i # [Suc i..<Suc i + n]" by (simp add: upt_rec [of i])
  have looked: "sv_loops (start_threads new_loops (Suc i) n ?s) (fst (new_loops j)) = Some (snd (new_loops j))"
    if "j \<in> {i..<i + Suc n}" for j
  proof (cases "j = i")
    case True
    have "\<forall>k \<in> {Suc i..<Suc i + n}. l \<noteq> fst (new_loops k)"
    proof
      fix k assume "k \<in> {Suc i..<Suc i + n}"
      then show "l \<noteq> fst (new_loops k)" using ne [of k] by auto
    qed
    with IH True l show ?thesis by simp
  next
    case False
    with IH that show ?thesis by simp
  qed
  have others: "sv_loops (start_threads new_loops (Suc i) n ?s) l' = sv_loops s l'"
    if "\<forall>j \<in> {i..<i + Suc n}. l' \<noteq> fst (new_loops j)" for l'
  proof -
    from that have "l' \<noteq> l" "\<forall>j \<in> {Suc i..<Suc i + n}. l' \<noteq> fst (new_loops j)" using l by force+
    with IH show ?thesis by simp
  qed
  show ?case unfolding e up using IH looked others l by auto
qed

lemma start_threads_frame:
  "m_started (start_threads new_loops i n s) = m_started s \<and> server.more (start_threads new_loops i n s) = server.more s"
  by (induction new_loops i n s rule: start_threads.induct) (auto split: prod.split)

lemma server_starts_law:
  assumes "m_tid lp = tid" "\<forall>j k. fst (new_loops j) = fst (new_loops k) \<longrightarrow> j = k"
    and "\<forall>j. fst (new_loops j) \<noteq> l \<and> m_tid (snd (new_loops j)) \<noteq> tid"
  shows "\<exists>t. server_start exec new_loops tid (new_server l lp name rest) = exec Fn_listen t \<and> server_ok tid t \<and>
      m_started t \<and> m_loops (m_pool t) = map (\<lambda>j. fst (new_loops j)) [0..<4] \<and> m_main_loop t = l \<and> sv_loops t l = Some lp \<and>
      (\<forall>j < 4. sv_loops t (fst (new_loops j)) = Some (snd (new_loops j))) \<and> server.more t = rest \<and> m_connections t = Map.empty \<and>
      m_next (m_pool t) = 0 \<and>
      sv_conns t = Map.empty \<and> m_next_conn_id t = 1 \<and> m_name t = name \<and>
      newConnection exec tid a fd (server_setThreadNums 0 (new_server l lp name rest)) = Inl Undefined_Behaviour"
proof -
  define s0 where "s0 = (new_server l lp name rest)\<lparr>m_started := True, m_pool := new_pool\<lparr>m_pool_started := True\<rparr>\<rparr>"
  define t where "t = start_threads new_loops 0 4 s0"
  have s0: "m_loops (m_pool s0) = []" "m_next (m_pool s0) = 0" "m_main_loop s0 = l" "m_next_conn_id s0 = 1"
    "m_connections s0 = Map.empty" "sv_conns s0 = Map.empty" "sv_loops s0 l = Some lp" "m_started s0"
    by (simp_all add: s0_def new_server_def new_pool_def)
  have main: "isInLoopThread tid lp" using assms(1) by (simp add: isInLoopThread_def)
  note T = start_threads_law [OF assms(2), of 0 4 s0, folded t_def, unfolded s0]
  have st: "m_started t" "server.more t = rest"
    using s0 start_threads_frame [of new_loops 0 4 s0] by (simp_all add: t_def) (simp add: s0_def new_server_def)
  have no: "\<forall>j \<in> {0..<0 + 4}. l \<noteq> fst (new_loops j)"
  proof
    fix j show "l \<noteq> fst (new_loops j)" using assms(3) by (simp add: eq_commute [of l])
  qed
  have "(\<forall>j \<in> {0..<0 + 4}. l \<noteq> fst (new_loops j)) \<longrightarrow> sv_loops t l = sv_loops s0 l" using T by blast
  with no s0(7) have lm: "sv_loops t l = Some lp" by simp
  have each: "sv_loops t (fst (new_loops j)) = Some (snd (new_loops j))" if "j < 4" for j
  proof -
    have "\<forall>j \<in> {0..<0 + 4}. sv_loops t (fst (new_loops j)) = Some (snd (new_loops j))" using T by blast
    with that show ?thesis by simp
  qed
  have loops: "m_loops (m_pool t) = map (\<lambda>j. fst (new_loops j)) [0..<4]" "m_next (m_pool t) = 0"
    "m_main_loop t = l" "m_next_conn_id t = 1" "m_connections t = Map.empty" "sv_conns t = Map.empty" using T by simp_all
  have name: "m_name t = name" using start_threads_law [OF assms(2), of 0 4 s0, folded t_def] by (simp add: s0_def new_server_def)
  have "pool_start new_loops tid ((new_server l lp name rest)\<lparr>m_started := True\<rparr>) = Inr t"
    using main by (simp add: pool_start_def assert_in_def the_loop_def assertInLoopThread_def new_server_def
        new_pool_def DEFAUTL_THREAD_NUMS_def t_def s0_def)
  then have run: "server_start exec new_loops tid (new_server l lp name rest) = exec Fn_listen t"
    using loops(3) lm main by (simp add: server_start_def run_in_def the_loop_def)
  have "\<exists>lp. sv_loops t x = Some lp \<and> m_tid lp \<noteq> tid" if "x \<in> set (m_loops (m_pool t))" for x
    using that each assms(3) unfolding loops(1) by auto
  then have "loops_ok tid t" using lm assms(1) by (simp add: loops_ok_def loops)
  then have "server_ok tid t" by (simp add: server_ok_def conns_ok_def loops)
  moreover have "newConnection exec tid a fd (server_setThreadNums 0 (new_server l lp name rest)) = Inl Undefined_Behaviour"
    using main by (simp add: newConnection_def getNextLoop_def assert_in_def the_loop_def assertInLoopThread_def
        server_setThreadNums_def setThreadNums_def new_server_def new_pool_def Let_def)
  ultimately show ?thesis using run st loops lm each name by blast
qed

text \<open>A server to evaluate: main loop 1 in thread 1, the pool's loops in threads 20 and up.\<close>

definition demo_loops :: "nat \<Rightarrow> nat \<times> io_loop" where
  "demo_loops j = (10 + j, blank_loop (10 + j) (20 + j))"

definition demo_new_server :: server where
  "demo_new_server = new_server 1 (blank_loop 1 1) ''s'' ()"

definition skip_functor :: "functor_name \<Rightarrow> 'z server_scheme \<Rightarrow> 'z server_scheme res" where
  "skip_functor f s = Inr s"

lemma demo_loops_ok:
  "m_tid (blank_loop 1 1 :: io_loop) = 1"
  "\<forall>j k. fst (demo_loops j) = fst (demo_loops k) \<longrightarrow> j = k"
  "\<forall>j. fst (demo_loops j) \<noteq> 1 \<and> m_tid (snd (demo_loops j)) \<noteq> 1" "\<forall>s. skip_functor Fn_listen s = Inr s"
  by (simp_all add: demo_loops_def blank_loop_def skip_functor_def)

lemma demo_server: "\<exists>t. server_start skip_functor demo_loops 1 demo_new_server = Inr t \<and> server_ok 1 t \<and>
    sv_conns t = Map.empty \<and> m_next_conn_id t = 1 \<and> m_name t = ''s''"
  using server_starts_law [where new_loops = demo_loops and l = 1 and exec = skip_functor and lp = "blank_loop 1 1"
      and tid = 1 and name = "''s''" and a = 0 and fd = 0 and rest = "()", OF demo_loops_ok(1-3)]
  unfolding demo_new_server_def skip_functor_def by blast

text \<open>The server starts. Built in the thread of its main loop and started with the default number of
  threads, with loops of their own at distinct addresses in other threads, it returns as a running server
  with four loops and the listening functor handed to the main loop. With no threads, the first
  connection is undefined behaviour.\<close>

theorem server_starts:
  assumes "m_tid lp = tid" "\<forall>j k. fst (new_loops j) = fst (new_loops k) \<longrightarrow> j = k"
    and "\<forall>j. fst (new_loops j) \<noteq> l \<and> m_tid (snd (new_loops j)) \<noteq> tid" and "\<forall>s. exec Fn_listen s = Inr s"
  shows "\<exists>t. server_start exec new_loops tid (new_server l lp name rest) = Inr t \<and> server_ok tid t \<and>
      m_started t \<and> m_loops (m_pool t) = map (\<lambda>j. fst (new_loops j)) [0..<4] \<and>
      newConnection exec tid a fd (server_setThreadNums 0 (new_server l lp name rest)) = Inl Undefined_Behaviour"
  using server_starts_law [where new_loops = new_loops and l = l and exec = exec and lp = lp and tid = tid, OF assms(1-3)] assms(4) by metis

theorem server_starts_witness:
  "\<exists>t. server_start skip_functor demo_loops 1 (new_server 1 (blank_loop 1 1) ''s'' ()) = Inr t \<and> m_loops (m_pool t) = [10, 11, 12, 13]"
proof -
  have "map (\<lambda>j. fst (demo_loops j)) [0..<4] = [10, 11, 12, 13]" by (simp add: demo_loops_def upt_rec)
  with server_starts [where new_loops = demo_loops and l = 1 and exec = skip_functor and lp = "blank_loop 1 1" and tid = 1 and name = "''s''" and a = 0 and fd = 0 and rest = "()", OF demo_loops_ok] show ?thesis by auto
qed

text \<open>C28: new connections are spread round-robin and never displace one another. On a running server, for
  any sequence of accepted descriptors (below 2^31 connections in all), every connection goes to the loop
  after the one before, cyclically, is entered in the connection map under a name of its own, and no
  earlier entry is lost.\<close>

theorem new_connections_spread:
  assumes "server_ok tid s" "distinct (map fst as)" "\<forall>a \<in> set (map fst as). sv_conns s a = None"
    and "m_next_conn_id s + int (length as) < 2 ^ 31"
  shows "\<exists>t. accept_all exec tid as s = Inr t \<and> server_ok tid t \<and>
    (\<forall>n b. m_connections s n = Some b \<longrightarrow> m_connections t n = Some b) \<and>
    (\<forall>i < length as. \<exists>c. sv_conns t (fst (as ! i)) = Some c \<and> cr_loop c = loop_for s i \<and>
       m_connections t (cr_name c) = Some (fst (as ! i)))"
  using accept_all_law [OF assms, of exec] by blast

theorem new_connections_spread_witness:
  "\<exists>s t. server_start skip_functor demo_loops 1 demo_new_server = Inr s \<and>
    accept_all skip_functor 1 [(100, 7), (101, 8)] s = Inr t \<and> m_connections t \<noteq> Map.empty"
proof -
  obtain s where s: "server_start skip_functor demo_loops 1 demo_new_server = Inr s" "server_ok 1 s"
    "sv_conns s = Map.empty" "m_next_conn_id s = 1" using demo_server by blast
  have a: "distinct (map fst [(100 :: nat, 7 :: int), (101, 8)])"
    "\<forall>a \<in> set (map fst [(100 :: nat, 7 :: int), (101, 8)]). sv_conns s a = None"
    "m_next_conn_id s + int (length [(100 :: nat, 7 :: int), (101, 8)]) < 2 ^ 31" using s by simp_all
  from new_connections_spread [OF s(2) a, of skip_functor] obtain t where
    t: "accept_all skip_functor 1 [(100, 7), (101, 8)] s = Inr t"
    and all: "\<forall>i < length [(100 :: nat, 7 :: int), (101, 8)]. \<exists>c. sv_conns t (fst ([(100, 7 :: int), (101, 8)] ! i)) = Some c \<and>
      cr_loop c = loop_for s i \<and> m_connections t (cr_name c) = Some (fst ([(100, 7 :: int), (101, 8)] ! i))"
    by blast
  from all [rule_format, of 0] obtain n where "m_connections t n = Some 100" by auto
  then have "m_connections t \<noteq> Map.empty" by auto
  with s(1) t show ?thesis by blast
qed

lemma connection_removed_law:
  assumes "server_ok tid s" "sv_conns s a = Some c" "m_connections s (cr_name c) = Some a" "tid' \<noteq> tid"
  shows "\<exists>s1 s2. removeConnection exec tid' a s = Inr s1 \<and> m_connections s1 = m_connections s \<and>
    pending s1 = (pending s)(m_main_loop s := pending s (m_main_loop s) @ [Fn_removeConnectionInLoop a]) \<and>
    removeConnectionInLoop tid a s1 = Inr s2 \<and> m_connections s2 = (m_connections s)(cr_name c := None) \<and>
    pending s2 = (pending s1)(cr_loop c := pending s1 (cr_loop c) @ [Fn_connectDestroyed a]) \<and> server_ok tid s2"
proof -
  have L: "loops_ok tid s" and C: "conns_ok s" using assms(1) by (simp_all add: server_ok_def)
  obtain lp where lp: "sv_loops s (m_main_loop s) = Some lp" "m_tid lp = tid" using L by (auto simp: loops_ok_def)
  from queue_in_law [OF lp(1), of tid' "Fn_removeConnectionInLoop a" tid] obtain s1 where
    s1: "queue_in tid' (m_main_loop s) (Fn_removeConnectionInLoop a) s = Inr s1" "s1 = s\<lparr>sv_loops := sv_loops s1\<rparr>"
      "pending s1 = (pending s)(m_main_loop s := pending s (m_main_loop s) @ [Fn_removeConnectionInLoop a])"
      "loops_ok tid s1" "conns_ok s1" using L C by auto
  have same: "m_connections s1 = m_connections s" "sv_conns s1 = sv_conns s" "m_main_loop s1 = m_main_loop s" by (subst s1(2), simp)+
  have r1: "removeConnection exec tid' a s = Inr s1"
    using lp assms(4) s1(1) by (simp add: removeConnection_def run_in_def isInLoopThread_def)
  let ?u = "s1\<lparr>m_connections := (m_connections s1)(cr_name c := None)\<rparr>"
  have c: "sv_conns s1 a = Some c" using same assms(2) by simp
  then have "cr_loop c \<in> set (m_loops (m_pool s1))" using s1(5) unfolding conns_ok_def by blast
  then obtain lc where lc: "sv_loops ?u (cr_loop c) = Some lc" using s1(4) by (auto simp: loops_ok_def)
  have u: "loops_ok tid ?u" "pending ?u = pending s1"
    using s1(4) by (simp_all add: loops_ok_def pending_def fun_eq_iff)
  have "conns_ok ?u" using s1(5) by (auto simp: conns_ok_def split: if_splits)
  from queue_in_law [OF lc, of tid "Fn_connectDestroyed a" tid] u this obtain s2 where
    s2: "queue_in tid (cr_loop c) (Fn_connectDestroyed a) ?u = Inr s2" "s2 = ?u\<lparr>sv_loops := sv_loops s2\<rparr>"
      "pending s2 = (pending s1)(cr_loop c := pending s1 (cr_loop c) @ [Fn_connectDestroyed a])" "server_ok tid s2"
    by (auto simp: server_ok_def)
  have m2: "m_connections s2 = (m_connections s)(cr_name c := None)" by (subst s2(2)) (simp add: same)
  have "removeConnectionInLoop tid a s1 = Inr s2"
    using assert_in_main [OF s1(4)] c s2(1) by (simp add: removeConnectionInLoop_def)
  with r1 same(1) s1(3) m2 s2(3,4) show ?thesis by blast
qed

text \<open>A connection is removed in three steps. A loop's thread hands the removal to the main loop; there
  the entry of the connection, and no other, leaves the map and the connection's own loop is handed
  \<open>connectDestroyed\<close>, behind everything that was queued for it before, so behind its
  \<open>connectEstablished\<close>; the server stays coherent.\<close>

theorem connection_removed:
  assumes "server_ok tid s" "sv_conns s a = Some c" "m_connections s (cr_name c) = Some a" "tid' \<noteq> tid"
  shows "\<exists>s1 s2. removeConnection exec tid' a s = Inr s1 \<and> m_connections s1 = m_connections s \<and>
    pending s1 = (pending s)(m_main_loop s := pending s (m_main_loop s) @ [Fn_removeConnectionInLoop a]) \<and>
    removeConnectionInLoop tid a s1 = Inr s2 \<and> m_connections s2 = (m_connections s)(cr_name c := None) \<and>
    pending s2 = (pending s1)(cr_loop c := pending s1 (cr_loop c) @ [Fn_connectDestroyed a]) \<and> server_ok tid s2"
  by (rule connection_removed_law [OF assms])

theorem connection_removed_witness:
  "\<exists>(s :: server) a s1. m_connections s (conn_name ''s'' 1) = Some a \<and> removeConnection skip_functor 20 a s = Inr s1 \<and>
    (\<exists>s2. removeConnectionInLoop 1 a s1 = Inr s2 \<and> m_connections s2 (conn_name ''s'' 1) = None)"
proof -
  obtain s where s: "server_start skip_functor demo_loops 1 demo_new_server = Inr s" "server_ok 1 s"
    "sv_conns s = Map.empty" "m_next_conn_id s = 1" "m_name s = ''s''" using demo_server by blast
  have f: "sv_conns s 100 = None" "m_next_conn_id s + 1 < 2 ^ 31" using s by simp_all
  from newConnection_law [OF s(2) f, of skip_functor 7] obtain t where
    t: "server_ok 1 t" "t = (with_conn 100 7 s)\<lparr>sv_loops := sv_loops t\<rparr>" by blast
  obtain c where c: "sv_conns t 100 = Some c" "cr_name c = conn_name ''s'' 1" "m_connections t (cr_name c) = Some 100"
    by (subst (asm) t(2), subst (asm) t(2)) (simp add: with_conn_def Let_def s)
  have "(20 :: nat) \<noteq> 1" by simp
  from connection_removed [OF t(1) c(1,3) this, of skip_functor] obtain s1 s2 where
    "removeConnection skip_functor 20 100 t = Inr s1" "removeConnectionInLoop 1 100 s1 = Inr s2"
    "m_connections s2 = (m_connections t)(cr_name c := None)" by blast
  moreover from this(3) c(2) have "m_connections s2 (conn_name ''s'' 1) = None" by simp
  moreover have "m_connections t (conn_name ''s'' 1) = Some 100" using c(2,3) by simp
  ultimately show ?thesis by blast
qed

end
