(* ===== verification/LogStream.thy ===== *)
theory LogStream
  imports Prelude "HOL-Library.Signed_Division"
begin

text \<open>
  The front end of the log (base/LogStream.h, base/LogStream.cpp): \<open>FixedBuffer\<close>, an array with an index
  and no bounds checks, and \<open>LogStream\<close>, which prints values into one of 4000 bytes.

  \<open>SIZE\<close>, the template parameter, is the length of \<open>m_buf\<close>. A \<open>char*\<close> argument is the array it points
  to; reading beyond it is undefined. Insertions are the values of \<open>item\<close>, one constructor for each kind
  of \<open>operator<<\<close>; an integer carries its value, whatever its type. The lemmas show the fixed buffer to
  be a byte sink and the printer of integers to print decimals and hexadecimals.
\<close>

definition kSmallBufferSize :: nat where
  "kSmallBufferSize = 4000"

definition kLargerBufferSize :: nat where
  "kLargerBufferSize = 4000 * 1000"

definition kMaxNumericSize :: nat where
  "kMaxNumericSize = 48"

record fixed_buffer =
  m_buf :: string
  m_cur_index :: int

subsection \<open>FixedBuffer\<close>

definition new_fixed :: "nat \<Rightarrow> fixed_buffer" where
  "new_fixed SIZE = \<lparr>m_buf = replicate SIZE NUL, m_cur_index = 0\<rparr>"

text \<open>\<open>strncpy\<close>: what it stores, \<open>n\<close> bytes. It stops reading at a NUL and fills up with NULs.\<close>

definition strncpy_bytes :: "nat \<Rightarrow> string \<Rightarrow> string res" where
  "strncpy_bytes n src =
     (if n \<le> length src \<or> NUL \<in> set src then
        let t = take n (c_str src) in Inr (t @ replicate (n - length t) NUL)
      else Inl Undefined_Behaviour)"

text \<open>Storing \<open>bytes\<close> at \<open>m_buf + m_cur_index\<close>.\<close>

definition fb_store :: "string \<Rightarrow> fixed_buffer \<Rightarrow> fixed_buffer res" where
  "fb_store bytes fb =
     (if 0 \<le> m_cur_index fb \<and> nat (m_cur_index fb) + length bytes \<le> length (m_buf fb) then
        Inr (fb\<lparr>m_buf := blit (m_buf fb) (nat (m_cur_index fb)) bytes\<rparr>)
      else Inl Undefined_Behaviour)"

definition addLen :: "nat \<Rightarrow> fixed_buffer \<Rightarrow> fixed_buffer" where
  "addLen len fb = fb\<lparr>m_cur_index := int32 (m_cur_index fb + int len)\<rparr>"

definition fb_append :: "string \<Rightarrow> nat \<Rightarrow> fixed_buffer \<Rightarrow> fixed_buffer res" where
  "fb_append msg len fb =
     bind_res (strncpy_bytes len msg) (\<lambda>bytes.
     bind_res (fb_store bytes fb) (\<lambda>fb'. Inr (addLen len fb')))"

definition fb_length :: "fixed_buffer \<Rightarrow> nat" where
  "fb_length fb = size64 (m_cur_index fb)"

definition available :: "fixed_buffer \<Rightarrow> nat" where
  "available fb = size64 (int (length (m_buf fb)) - m_cur_index fb)"

definition fb_reset :: "fixed_buffer \<Rightarrow> fixed_buffer" where
  "fb_reset fb = fb\<lparr>m_cur_index := 0\<rparr>"

subsection \<open>Printing integers\<close>

definition digits :: string where
  "digits = ''0123456789ABCDEF''"

text \<open>
  The do-while loop. Division truncates, so a negative number has negative remainders, which index
  \<open>digits\<close> out of its bounds.
\<close>

function convert_digits :: "bool \<Rightarrow> int \<Rightarrow> string \<Rightarrow> string res" where
  "convert_digits is_hex tmp acc =
     (let md = (if is_hex then 16 else 10);
          index = tmp smod md;
          tmp' = tmp sdiv md
      in if 0 \<le> index \<and> index < int (length digits) then
           let acc' = acc @ [digits ! nat index] in
           if tmp' \<noteq> 0 then convert_digits is_hex tmp' acc' else Inr acc'
         else Inl Undefined_Behaviour)"
  by pat_completeness auto

termination
proof (relation "measure (\<lambda>(is_hex, tmp, acc). nat \<bar>tmp\<bar>)", goal_cases)
  case 1
  then show ?case by simp
next
  case (2 is_hex tmp acc md index tmp' acc')
  then have "tmp \<noteq> 0" by auto
  moreover have "\<bar>tmp sdiv md\<bar> = \<bar>tmp\<bar> div md" using 2(1) by (auto simp: signed_divide_int_def abs_mult sgn_if)
  ultimately show ?case using 2(1,3) by (auto split: if_splits)
qed

declare convert_digits.simps [simp del]

text \<open>\<open>convert\<close>: the bytes it stores from \<open>buf\<close> on, with the final NUL, and the length it returns.\<close>

definition convert :: "int \<Rightarrow> bool \<Rightarrow> (string \<times> nat) res" where
  "convert t is_hex =
     bind_res (convert_digits is_hex t []) (\<lambda>ds.
     let ds' = (if \<not> is_hex \<and> t < 0 then ds @ ''-'' else ds);
         s = (if is_hex then ''0x'' @ rev ds' else rev ds')
     in Inr (s @ [NUL], length s))"

definition formatInteger :: "int \<Rightarrow> bool \<Rightarrow> fixed_buffer \<Rightarrow> fixed_buffer res" where
  "formatInteger t is_hex fb =
     (if available fb > kMaxNumericSize then
        bind_res (convert t is_hex) (\<lambda>(bytes, len).
        bind_res (fb_store bytes fb) (\<lambda>fb'. Inr (addLen len fb')))
      else Inr fb)"

subsection \<open>LogStream\<close>

text \<open>\<open>It_double\<close> holds the text that \<open>%.12g\<close> of the C library prints for the number.\<close>

datatype item =
    It_bool bool
  | It_integer int
  | It_pointer nat
  | It_double string
  | It_char char
  | It_cstr string
  | It_string string
  | It_buffer fixed_buffer

definition format_double :: "string \<Rightarrow> fixed_buffer \<Rightarrow> fixed_buffer res" where
  "format_double text fb =
     (if available fb > kMaxNumericSize then
        bind_res (fb_store (take (kMaxNumericSize - 1) text @ [NUL]) fb) (\<lambda>fb'. Inr (addLen (length text) fb'))
      else Inr fb)"

fun insert_item :: "item \<Rightarrow> fixed_buffer \<Rightarrow> fixed_buffer res" where
  "insert_item (It_bool v) fb = fb_append (if v then ''1'' else ''0'') 1 fb"
| "insert_item (It_integer n) fb = formatInteger n False fb"
| "insert_item (It_pointer p) fb = formatInteger (int p) True fb"
| "insert_item (It_double text) fb = format_double text fb"
| "insert_item (It_char ch) fb = fb_append [ch] 1 fb"
| "insert_item (It_cstr msg) fb = fb_append (msg @ [NUL]) (length (c_str msg)) fb"
| "insert_item (It_string msg) fb = fb_append (msg @ [NUL]) (length msg) fb"
| "insert_item (It_buffer b) fb = fb_append (m_buf b) (fb_length b) fb"

fun insert_items :: "item list \<Rightarrow> fixed_buffer \<Rightarrow> fixed_buffer res" where
  "insert_items [] fb = Inr fb"
| "insert_items (i # is) fb = bind_res (insert_item i fb) (insert_items is)"

subsection \<open>The fixed buffer is a byte sink\<close>

definition fb_ok :: "fixed_buffer \<Rightarrow> bool" where
  "fb_ok fb \<longleftrightarrow> 0 \<le> m_cur_index fb \<and> m_cur_index fb \<le> int (length (m_buf fb)) \<and> length (m_buf fb) < 2 ^ 31"

definition logged :: "fixed_buffer \<Rightarrow> string" where
  "logged fb = take (nat (m_cur_index fb)) (m_buf fb)"

definition fb_free :: "fixed_buffer \<Rightarrow> nat" where
  "fb_free fb = length (m_buf fb) - nat (m_cur_index fb)"

definition fb_room :: "nat \<Rightarrow> fixed_buffer \<Rightarrow> bool" where
  "fb_room n fb \<longleftrightarrow> fb_ok fb \<and> n \<le> fb_free fb"

definition no_nul :: "string \<Rightarrow> bool" where
  "no_nul s \<longleftrightarrow> NUL \<notin> set s"

lemma length_logged: "fb_ok fb \<Longrightarrow> length (logged fb) = nat (m_cur_index fb)"
  by (auto simp: fb_ok_def logged_def)

lemma fb_length_logged [simp]: "fb_ok fb \<Longrightarrow> fb_length fb = length (logged fb)"
  by (auto simp: fb_ok_def logged_def fb_length_def)

lemma available_free [simp]: "fb_ok fb \<Longrightarrow> available fb = fb_free fb"
  by (auto simp: fb_ok_def available_def fb_free_def nat_diff_distrib)

lemma c_str_no_nul [simp]: "no_nul s \<Longrightarrow> c_str s = s" "no_nul s \<Longrightarrow> c_str (s @ [NUL]) = s"
  by (auto simp: no_nul_def c_str_def takeWhile_eq_all_conv) (induction s, auto)

lemma new_fixed_ok: "SIZE < 2 ^ 31 \<Longrightarrow> fb_ok (new_fixed SIZE) \<and> logged (new_fixed SIZE) = [] \<and> fb_free (new_fixed SIZE) = SIZE"
  by (simp add: new_fixed_def fb_ok_def logged_def fb_free_def)

lemma fb_reset_ok: "fb_ok fb \<Longrightarrow> fb_ok (fb_reset fb) \<and> logged (fb_reset fb) = [] \<and> m_buf (fb_reset fb) = m_buf fb"
  by (simp add: fb_reset_def fb_ok_def logged_def)

text \<open>Storing \<open>bytes\<close> and advancing by the first \<open>len\<close> of them.\<close>

lemma fb_store_law:
  assumes "fb_room (length bytes) fb" "len \<le> length bytes"
  obtains t where "fb_store bytes fb = Inr t" "fb_ok (addLen len t)"
    "logged (addLen len t) = logged fb @ take len bytes" "fb_free (addLen len t) = fb_free fb - len"
    "length (m_buf (addLen len t)) = length (m_buf fb)"
proof -
  let ?i = "nat (m_cur_index fb)"
  have ok: "fb_ok fb" and room: "?i + length bytes \<le> length (m_buf fb)" "0 \<le> m_cur_index fb"
    using assms(1) by (auto simp: fb_room_def fb_free_def fb_ok_def)
  let ?t = "fb\<lparr>m_buf := blit (m_buf fb) ?i bytes\<rparr>"
  have st: "fb_store bytes fb = Inr ?t" using room by (simp add: fb_store_def)
  have up: "addLen len ?t = ?t\<lparr>m_cur_index := m_cur_index fb + int len\<rparr>"
    using ok room assms(2) int32_id [of "m_cur_index fb + int len"] by (auto simp: addLen_def fb_ok_def)
  have l: "length (blit (m_buf fb) ?i bytes) = length (m_buf fb)" using room(1) by (rule length_blit)
  have "fb_ok (addLen len ?t)" using ok room assms(2) l unfolding up by (simp add: fb_ok_def)
  moreover have "logged (addLen len ?t) = logged fb @ take len bytes"
    using room assms(2) unfolding up by (simp add: logged_def blit_def nat_add_distrib)
  moreover have "fb_free (addLen len ?t) = fb_free fb - len"
    using room l unfolding up by (simp add: fb_free_def nat_add_distrib)
  moreover have "length (m_buf (addLen len ?t)) = length (m_buf fb)" using l unfolding up by simp
  ultimately show ?thesis using that st by blast
qed

lemma fb_append_law:
  assumes "fb_room len fb" "strncpy_bytes len msg = Inr bytes"
  shows "\<exists>t. fb_append msg len fb = Inr t \<and> fb_ok t \<and> logged t = logged fb @ bytes \<and>
    fb_free t = fb_free fb - len \<and> length (m_buf t) = length (m_buf fb)"
proof -
  have l: "length bytes = len" using assms(2) by (auto simp: strncpy_bytes_def Let_def split: if_splits)
  from assms(1) l fb_store_law [of bytes fb len] show ?thesis
    by (simp add: fb_append_def assms(2)) (metis bind_res_simps(2) order_refl take_all_iff)
qed

lemma fb_append_overflow:
  assumes "fb_ok fb" "fb_free fb < len"
  shows "fb_append msg len fb = Inl Undefined_Behaviour"
proof (cases "strncpy_bytes len msg")
  case (Inl e)
  then show ?thesis by (auto simp: fb_append_def strncpy_bytes_def Let_def split: if_splits)
next
  case (Inr bytes)
  then have "length bytes = len" by (auto simp: strncpy_bytes_def Let_def split: if_splits)
  with Inr assms show ?thesis by (auto simp: fb_append_def fb_store_def fb_ok_def fb_free_def)
qed

lemma strncpy_string [simp]: "no_nul s \<Longrightarrow> strncpy_bytes (length s) (s @ [NUL]) = Inr s"
  by (simp add: strncpy_bytes_def)

interpretation fbuf: byte_sink "\<lambda>s. fb_append (s @ [NUL]) (length s)" fb_room logged no_nul
proof
  fix xs n fb
  assume a: "fb_room (length xs + n) fb" "no_nul xs"
  then have "fb_room (length xs) fb" by (simp add: fb_room_def)
  from fb_append_law [OF this strncpy_string [OF a(2)]] a(1)
  show "\<exists>s'. fb_append (xs @ [NUL]) (length xs) fb = Inr s' \<and> logged s' = logged fb @ xs \<and> fb_room n s'"
    by (auto simp: fb_room_def)
qed

subsection \<open>What an integer looks like\<close>

fun radix :: "nat \<Rightarrow> nat \<Rightarrow> string" where
  "radix b n = (if n < b \<or> b < 2 then [digits ! n] else radix b (n div b) @ [digits ! (n mod b)])"

declare radix.simps [simp del]

lemma length_digits [simp]: "length digits = 16"
  by (simp add: digits_def)

lemma nat_sdiv [simp]: "int n smod 10 = int (n mod 10)" "int n sdiv 10 = int (n div 10)"
  "int n smod 16 = int (n mod 16)" "int n sdiv 16 = int (n div 16)"
  by (cases "n = 0"; simp add: smod_mod_positive signed_divide_int_def zmod_int zdiv_int)+

lemma convert_digits_nat:
  "convert_digits h (int n) acc = Inr (acc @ rev (radix (if h then 16 else 10) n))"
proof (induction n arbitrary: acc rule: less_induct)
  case (less n)
  have b: "n mod 10 < 16" "n mod 16 < 16" using mod_less_divisor [of 10 n] by linarith+
  show ?case
  proof (cases h)
    case True
    show ?thesis
    proof (cases "n < 16")
      case False
      then have "n div 16 \<noteq> 0" "n div 16 < n" by (simp_all add: div_eq_0_iff)
      with True less [of "n div 16"] False show ?thesis
        by (simp add: convert_digits.simps [of _ "int n" acc] Let_def radix.simps [of 16 n] b)
    qed (simp add: convert_digits.simps [of _ "int n" acc] Let_def radix.simps [of 16 n] True)
  next
    case False
    show ?thesis
    proof (cases "n < 10")
      case ge: False
      then have "n div 10 \<noteq> 0" "n div 10 < n" by (simp_all add: div_eq_0_iff)
      with False less [of "n div 10"] ge show ?thesis
        by (simp add: convert_digits.simps [of _ "int n" acc] Let_def radix.simps [of 10 n] b)
    qed (simp add: convert_digits.simps [of _ "int n" acc] Let_def radix.simps [of 10 n] False)
  qed
qed

lemma convert_digits_law: "0 \<le> t \<Longrightarrow> convert_digits h t acc = Inr (acc @ rev (radix (if h then 16 else 10) (nat t)))"
  using convert_digits_nat [of h "nat t" acc] by simp

lemma convert_digits_negative: "t < 0 \<Longrightarrow> convert_digits h t acc = Inl Undefined_Behaviour"
proof (induction h t acc rule: convert_digits.induct)
  case (1 h t acc)
  define b where "b = (if h then 16 else 10 :: int)"
  have b: "0 < b" by (simp add: b_def)
  have np: "t smod b \<le> 0" using 1(2) b by (simp add: smod_int_compares)
  show ?case
  proof (cases "t smod b = 0")
    case True
    then have "b * (t sdiv b) = t" using mult_sdiv_smod_eq [of b t] by simp
    with b 1(2) have neg: "t sdiv b < 0" by (metis mult_nonneg_nonneg not_less less_le)
    from 1(1) [OF refl refl refl _ refl] True neg show ?thesis
      by (simp add: convert_digits.simps [of h t acc] Let_def b_def)
  next
    case False
    with np show ?thesis by (simp add: convert_digits.simps [of h t acc] Let_def b_def)
  qed
qed

lemma digits_decimal: "k < 10 \<Longrightarrow> digits ! k = char_of (48 + k)"
proof -
  assume "k < 10"
  then have "k \<in> set [0..<10]" by simp
  then have "k = 0 \<or> k = 1 \<or> k = 2 \<or> k = 3 \<or> k = 4 \<or> k = 5 \<or> k = 6 \<or> k = 7 \<or> k = 8 \<or> k = 9" by auto
  then have "of_char (digits ! k) = 48 + k" by (elim disjE) (simp_all add: digits_def)
  then show ?thesis by (metis char_of_char)
qed

lemma radix_decimal: "radix 10 n = decimal n"
proof (induction n rule: decimal.induct)
  case (1 n)
  then show ?case by (simp add: radix.simps [of 10 n] decimal.simps [of n] digits_decimal)
qed

lemma length_radix: "2 \<le> b \<Longrightarrow> n < b ^ Suc k \<Longrightarrow> length (radix b n) \<le> Suc k"
proof (induction k arbitrary: n)
  case 0
  then show ?case by (simp add: radix.simps [of b n])
next
  case (Suc k)
  have "n div b < b ^ Suc k" using Suc.prems by (simp add: less_mult_imp_div_less mult.commute)
  from Suc.IH [OF Suc.prems(1) this] show ?case by (simp add: radix.simps [of b n])
qed

definition integer_text :: "int \<Rightarrow> bool \<Rightarrow> string" where
  "integer_text t is_hex = (if is_hex then ''0x'' @ radix 16 (nat t) else printed_int t)"

lemma convert_law:
  assumes "0 \<le> t" "t < 2 ^ 64"
  shows "convert t h = Inr (integer_text t h @ [NUL], length (integer_text t h))" "length (integer_text t h) < 48"
proof -
  show "convert t h = Inr (integer_text t h @ [NUL], length (integer_text t h))"
    using assms(1) by (simp add: convert_def convert_digits_law Let_def integer_text_def printed_int_def radix_decimal)
  have "nat t < 2 ^ 64" using assms by (simp add: nat_less_iff)
  moreover have "(2 :: nat) ^ 64 < 10 ^ Suc 19" "(2 :: nat) ^ 64 = 16 ^ Suc 15" by simp_all
  ultimately have "nat t < 10 ^ Suc 19" "nat t < 16 ^ Suc 15" by linarith+
  then have "length (radix 10 (nat t)) \<le> Suc 19" "length (radix 16 (nat t)) \<le> Suc 15"
    using length_radix [of 10 "nat t" 19] length_radix [of 16 "nat t" 15] by simp_all
  with assms(1) show "length (integer_text t h) < 48" by (simp add: integer_text_def printed_int_def radix_decimal)
qed

subsection \<open>What a log statement leaves in the stream\<close>

fun item_text :: "item \<Rightarrow> string" where
  "item_text (It_bool v) = (if v then ''1'' else ''0'')"
| "item_text (It_integer n) = printed_int n"
| "item_text (It_pointer p) = ''0x'' @ radix 16 p"
| "item_text (It_double text) = text"
| "item_text (It_char ch) = [ch]"
| "item_text (It_cstr msg) = c_str msg"
| "item_text (It_string msg) = msg"
| "item_text (It_buffer b) = logged b"

text \<open>Integers that are not negative, no NULs inside strings.\<close>

fun item_ok :: "item \<Rightarrow> bool" where
  "item_ok (It_bool v) = True"
| "item_ok (It_integer n) = (0 \<le> n \<and> n < 2 ^ 64)"
| "item_ok (It_pointer p) = (p < 2 ^ 64)"
| "item_ok (It_double text) = (length text < kMaxNumericSize)"
| "item_ok (It_char ch) = True"
| "item_ok (It_cstr msg) = True"
| "item_ok (It_string msg) = no_nul msg"
| "item_ok (It_buffer b) = (fb_ok b \<and> no_nul (logged b))"

definition items_text :: "item list \<Rightarrow> string" where
  "items_text is = concat (map item_text is)"

lemma items_text_simps [simp]: "items_text [] = []" "items_text (i # is) = item_text i @ items_text is"
  "items_text (is @ js) = items_text is @ items_text js"
  by (simp_all add: items_text_def)

lemma strncpy_cstr: "strncpy_bytes (length (c_str msg)) (msg @ [NUL]) = Inr (c_str msg)"
proof -
  have "c_str (msg @ [NUL]) = c_str msg" by (induction msg) (auto simp: c_str_def)
  moreover have "length (c_str msg) \<le> length (msg @ [NUL])" by (simp add: c_str_def length_takeWhile_le le_SucI)
  ultimately show ?thesis by (simp add: strncpy_bytes_def)
qed

lemma strncpy_buffer:
  assumes "fb_ok b" "no_nul (logged b)"
  shows "strncpy_bytes (length (logged b)) (m_buf b) = Inr (logged b)"
proof -
  let ?n = "length (logged b)"
  have t: "logged b = take ?n (m_buf b)" using assms(1) by (simp add: length_logged) (simp add: logged_def)
  have "c_str (m_buf b) = logged b @ c_str (drop ?n (m_buf b))"
    using assms(2) takeWhile_append2 [of "logged b" "\<lambda>c. c \<noteq> NUL" "drop ?n (m_buf b)"] t
    unfolding c_str_def no_nul_def by (metis append_take_drop_id)
  moreover have "?n \<le> length (m_buf b)" using t by (metis length_take min.cobounded1)
  ultimately show ?thesis by (simp add: strncpy_bytes_def)
qed

lemma formatted_law:
  assumes "fb_ok fb" "length text < kMaxNumericSize" "kMaxNumericSize < fb_free fb"
  shows "\<exists>t. fb_store (text @ [NUL]) fb = Inr t \<and> fb_ok (addLen (length text) t) \<and>
    logged (addLen (length text) t) = logged fb @ text \<and> fb_free (addLen (length text) t) = fb_free fb - length text \<and>
    length (m_buf (addLen (length text) t)) = length (m_buf fb)"
proof -
  have "fb_room (length (text @ [NUL])) fb" using assms by (simp add: fb_room_def)
  then show ?thesis by (rule fb_store_law [where len = "length text"]) auto
qed

lemma formatInteger_law:
  assumes "fb_ok fb" "0 \<le> t" "t < 2 ^ 64" "kMaxNumericSize < fb_free fb"
  shows "\<exists>u. formatInteger t h fb = Inr u \<and> fb_ok u \<and> logged u = logged fb @ integer_text t h \<and>
    fb_free u = fb_free fb - length (integer_text t h) \<and> length (m_buf u) = length (m_buf fb)"
  using formatted_law [OF assms(1) _ assms(4), of "integer_text t h"] convert_law [OF assms(2,3), of h] assms
  by (auto simp: formatInteger_def kMaxNumericSize_def)

lemma insert_item_law:
  assumes "fb_ok fb" "item_ok i" "length (item_text i) + kMaxNumericSize < fb_free fb"
  shows "\<exists>t. insert_item i fb = Inr t \<and> fb_ok t \<and> logged t = logged fb @ item_text i \<and>
    fb_free t = fb_free fb - length (item_text i) \<and> length (m_buf t) = length (m_buf fb)"
proof -
  have room: "fb_room (length (item_text i)) fb" and k: "kMaxNumericSize < fb_free fb" using assms by (simp_all add: fb_room_def)
  have one: "strncpy_bytes 1 [c] = Inr [c]" for c by (simp add: strncpy_bytes_def c_str_def)
  show ?thesis
  proof (cases i)
    case (It_bool v)
    then show ?thesis using fb_append_law [of 1 fb "item_text i" "item_text i"] room one by auto
  next
    case (It_integer n)
    then show ?thesis using formatInteger_law [of fb n False] assms k by (simp add: integer_text_def)
  next
    case (It_pointer p)
    then show ?thesis using formatInteger_law [of fb "int p" True] assms k by (simp add: integer_text_def)
  next
    case (It_double s)
    then show ?thesis using formatted_law [of fb s] assms k by (auto simp: format_double_def)
  next
    case (It_char c)
    then show ?thesis using fb_append_law [of 1 fb "[c]" "[c]"] room one by auto
  next
    case (It_cstr msg)
    then show ?thesis using fb_append_law [OF _ strncpy_cstr] room by simp
  next
    case (It_string msg)
    then show ?thesis using fb_append_law [of "length msg" fb "msg @ [NUL]" msg] room assms by simp
  next
    case (It_buffer b)
    then show ?thesis using fb_append_law [OF _ strncpy_buffer] room assms by simp
  qed
qed

lemma insert_items_law:
  assumes "fb_ok fb" "\<forall>i \<in> set is. item_ok i" "length (items_text is) + kMaxNumericSize < fb_free fb"
  shows "\<exists>t. insert_items is fb = Inr t \<and> fb_ok t \<and> logged t = logged fb @ items_text is \<and>
    fb_free t = fb_free fb - length (items_text is) \<and> length (m_buf t) = length (m_buf fb)"
  using assms
proof (induction "is" arbitrary: fb)
  case Nil
  then show ?case by simp
next
  case (Cons i "is")
  from Cons.prems insert_item_law [of fb i] obtain t where
    t: "insert_item i fb = Inr t" "fb_ok t" "logged t = logged fb @ item_text i"
      "fb_free t = fb_free fb - length (item_text i)" "length (m_buf t) = length (m_buf fb)" by auto
  have "\<forall>i \<in> set is. item_ok i" "length (items_text is) + kMaxNumericSize < fb_free t" using Cons.prems t by simp_all
  from Cons.IH [OF t(2) this] obtain u where "insert_items is t = Inr u \<and> fb_ok u \<and>
      logged u = logged t @ items_text is \<and> fb_free u = fb_free t - length (items_text is) \<and>
      length (m_buf u) = length (m_buf t)" by blast
  with t show ?case by simp
qed

lemma insert_items_append: "insert_items (is @ js) fb = bind_res (insert_items is fb) (insert_items js)"
proof (induction "is" arbitrary: fb)
  case Nil
  then show ?case by simp
next
  case (Cons i "is")
  then show ?case by (cases "insert_item i fb") simp_all
qed

lemma formatInteger_full: "fb_ok fb \<Longrightarrow> fb_free fb \<le> kMaxNumericSize \<Longrightarrow> formatInteger t h fb = Inr fb"
  by (simp add: formatInteger_def)

lemma formatInteger_negative:
  assumes "fb_ok fb" "t < 0" "kMaxNumericSize < fb_free fb"
  shows "formatInteger t h fb = Inl Undefined_Behaviour"
  using assms by (simp add: formatInteger_def convert_def convert_digits_negative)

subsection \<open>Properties\<close>

text \<open>C37: printing integers. With more than 48 bytes free, an integer that is not negative is printed
  without leaving the buffer, in decimal, from which its value is read back, or as 0x and hexadecimal
  digits; with less room it is left out silently; a negative integer is undefined behaviour whatever its
  type, so the code for the minus sign never runs to its end.\<close>

theorem integers_printed:
  assumes "fb_ok fb"
  shows "(kMaxNumericSize < fb_free fb \<longrightarrow> 0 \<le> t \<longrightarrow> t < 2 ^ 64 \<longrightarrow>
      (\<exists>u. formatInteger t h fb = Inr u \<and> fb_ok u \<and> logged u = logged fb @ integer_text t h) \<and>
      read_decimal (integer_text t False) = nat t) \<and>
    (fb_free fb \<le> kMaxNumericSize \<longrightarrow> formatInteger t h fb = Inr fb) \<and>
    (kMaxNumericSize < fb_free fb \<longrightarrow> t < 0 \<longrightarrow> formatInteger t h fb = Inl Undefined_Behaviour)"
  using formatInteger_law [OF assms, of t h] formatInteger_full [OF assms, of t h] formatInteger_negative [OF assms, of t h]
  by (auto simp: integer_text_def printed_int_def)

theorem integers_printed_witness:
  "(\<exists>u. formatInteger 42 False (new_fixed 100) = Inr u \<and> logged u = integer_text 42 False) \<and>
   formatInteger (- 1) False (new_fixed 100) = Inl Undefined_Behaviour"
proof -
  have n: "fb_ok (new_fixed 100)" "logged (new_fixed 100) = []" "kMaxNumericSize < fb_free (new_fixed 100)"
    using new_fixed_ok [of 100] by (simp_all add: kMaxNumericSize_def)
  show ?thesis
    using integers_printed [OF n(1), of 42 False] integers_printed [OF n(1), of "- 1" False] n(2,3) by auto
qed

text \<open>The fixed buffer checks no bounds. Inserting a string adds exactly its bytes as long as they are
  not more than the free ones, and is undefined behaviour exactly when they are more.\<close>

theorem string_overflow:
  assumes "fb_ok fb" "no_nul s"
  shows "(length s \<le> fb_free fb \<longrightarrow> (\<exists>t. insert_item (It_string s) fb = Inr t \<and> fb_ok t \<and> logged t = logged fb @ s)) \<and>
    (insert_item (It_string s) fb = Inl Undefined_Behaviour \<longleftrightarrow> fb_free fb < length s)"
  using fbuf.put_law [of s 0 fb] fb_append_overflow [OF assms(1), of "length s" "s @ [NUL]"] assms
  by (cases "length s \<le> fb_free fb") (auto simp: fb_room_def)

theorem string_overflow_witness:
  "insert_item (It_string ''abcde'') (new_fixed 4) = Inl Undefined_Behaviour"
  using string_overflow [of "new_fixed 4" "''abcde''"] new_fixed_ok [of 4] by (auto simp: no_nul_def)

end
