(* ===== verification/Logging.thy ===== *)
theory Logging
  imports LogStream
begin

text \<open>
  The log statements (base/Logging.h, base/Logging.cpp) with the time stamp (base/timeUtils.cpp) and the
  cached thread id (base/CurrentThread.h, base/CurrentThread.cpp).

  A log statement is one temporary \<open>Logger\<close>: its constructor prints the head of the line, the statement
  inserts its values, its destructor prints the tail and hands the bytes to \<open>g_output\<close>, for FATAL then
  calls \<open>g_flush\<close> and aborts. Both are function pointers, here arguments over a state of their own. The
  date that \<open>put_time\<close> prints is an argument.
\<close>

subsection \<open>Levels\<close>

datatype log_level = DEBUG | INFO | ERROR | FATAL

fun level_num :: "log_level \<Rightarrow> nat" where
  "level_num DEBUG = 0"
| "level_num INFO = 1"
| "level_num ERROR = 2"
| "level_num FATAL = 3"

lemma level_num_inject: "level_num a = level_num b \<Longrightarrow> a = b"
  by (cases a; cases b) auto

instantiation log_level :: linorder
begin

definition less_eq_log_level :: "log_level \<Rightarrow> log_level \<Rightarrow> bool" where
  "a \<le> b \<longleftrightarrow> level_num a \<le> level_num b"

definition less_log_level :: "log_level \<Rightarrow> log_level \<Rightarrow> bool" where
  "a < b \<longleftrightarrow> level_num a < level_num b"

instance
  by standard (auto simp: less_eq_log_level_def less_log_level_def intro: level_num_inject)

end

fun log_level_name :: "log_level \<Rightarrow> string" where
  "log_level_name DEBUG = ''DEBUG''"
| "log_level_name INFO = ''INFO''"
| "log_level_name ERROR = ''ERROR''"
| "log_level_name FATAL = ''FATAL''"

subsection \<open>Time stamp and thread id\<close>

text \<open>
  \<open>micros\<close> counts microseconds since the epoch; the seconds are their truncated quotient. The remainder
  is undefined in the first second of the epoch. \<open>setfill\<close> without \<open>setw\<close> pads nothing.
\<close>

definition timeStamp :: "string \<Rightarrow> int \<Rightarrow> string res" where
  "timeStamp date micros =
     (let current_seconds = micros sdiv 1000000 in
      if current_seconds = 0 then Inl Undefined_Behaviour
      else Inr (date @ '':'' @ printed_int (micros smod current_seconds)))"

record current_thread =
  t_cached_tid :: int
  t_tid_string :: string
  t_tid_string_len :: int

definition new_thread_data :: current_thread where
  "new_thread_data = \<lparr>t_cached_tid = 0, t_tid_string = replicate 32 NUL, t_tid_string_len = 6\<rparr>"

text \<open>\<open>snprintf\<close> of \<open>%5d\<close> into an array of 32 bytes.\<close>

definition pad5 :: "string \<Rightarrow> string" where
  "pad5 s = replicate (5 - length s) CHR 0x20 @ s"

definition cacheTid :: "int \<Rightarrow> current_thread \<Rightarrow> current_thread" where
  "cacheTid gettid t =
     (if t_cached_tid t = 0 then
        let s = pad5 (printed_int gettid) in
        t\<lparr>t_cached_tid := gettid, t_tid_string := blit (t_tid_string t) 0 (take 31 s @ [NUL]),
          t_tid_string_len := int (length s)\<rparr>
      else t)"

definition current_tid :: "int \<Rightarrow> current_thread \<Rightarrow> int \<times> current_thread" where
  "current_tid gettid t =
     (let t' = (if t_cached_tid t = 0 then cacheTid gettid t else t) in (t_cached_tid t', t'))"

definition tidString :: "current_thread \<Rightarrow> string" where
  "tidString t = c_str (t_tid_string t)"

subsection \<open>A log line\<close>

record impl =
  m_stream :: fixed_buffer
  m_level :: log_level
  m_line :: int
  m_basename :: string

definition formatTime :: "string \<Rightarrow> impl \<Rightarrow> impl res" where
  "formatTime time_stamp i =
     bind_res (insert_items [It_string time_stamp, It_cstr '' ''] (m_stream i)) (\<lambda>s. Inr (i\<lparr>m_stream := s\<rparr>))"

definition new_impl :: "string \<Rightarrow> current_thread \<Rightarrow> log_level \<Rightarrow> string \<Rightarrow> int \<Rightarrow> impl res" where
  "new_impl time_stamp t level filename line =
     bind_res (formatTime time_stamp
       \<lparr>m_stream = new_fixed kSmallBufferSize, m_level = level, m_line = line, m_basename = filename\<rparr>) (\<lambda>i.
     bind_res (insert_items [It_cstr (tidString t), It_cstr '' '', It_cstr (log_level_name (m_level i)), It_cstr '' '']
       (m_stream i)) (\<lambda>s. Inr (i\<lparr>m_stream := s\<rparr>)))"

definition finish :: "impl \<Rightarrow> impl res" where
  "finish i =
     bind_res (insert_items [It_cstr '' - '', It_string (m_basename i), It_cstr '':'', It_integer (m_line i), It_char LF]
       (m_stream i)) (\<lambda>s. Inr (i\<lparr>m_stream := s\<rparr>))"

definition new_logger :: "string \<Rightarrow> current_thread \<Rightarrow> string \<Rightarrow> int \<Rightarrow> log_level \<Rightarrow> string \<Rightarrow> impl res" where
  "new_logger time_stamp t basename line level func =
     bind_res (new_impl time_stamp t level basename line) (\<lambda>i.
     bind_res (insert_items [It_cstr func, It_cstr '' ''] (m_stream i)) (\<lambda>s. Inr (i\<lparr>m_stream := s\<rparr>)))"

text \<open>How a log statement ends: it returns, or the process aborts, both with the state of the output.\<close>

datatype 'o log_end = Returned 'o | Aborted 'o | Failed fault

fun end_of :: "'o res \<Rightarrow> ('o \<Rightarrow> 'o log_end) \<Rightarrow> 'o log_end" where
  "end_of (Inl e) f = Failed e"
| "end_of (Inr x) f = f x"

text \<open>\<open>g_output\<close> gets the array and its used length.\<close>

definition logger_dtor ::
  "(string \<Rightarrow> nat \<Rightarrow> 'o \<Rightarrow> 'o res) \<Rightarrow> ('o \<Rightarrow> 'o res) \<Rightarrow> impl \<Rightarrow> 'o \<Rightarrow> 'o log_end" where
  "logger_dtor g_output g_flush i out =
     (case finish i of
        Inl e \<Rightarrow> Failed e
      | Inr i' \<Rightarrow>
          end_of (g_output (m_buf (m_stream i')) (fb_length (m_stream i')) out) (\<lambda>out'.
          if m_level i' = FATAL then end_of (g_flush out') (\<lambda>out''. Aborted out'')
          else Returned out'))"

text \<open>The macros \<open>LOG_DEBUG\<close>, \<open>LOG_INFO\<close>, \<open>LOG_ERROR\<close> and \<open>LOG_FATAL\<close>, followed by insertions.\<close>

definition log_enabled :: "log_level \<Rightarrow> log_level \<Rightarrow> bool" where
  "log_enabled g_loglevel level =
     (case level of DEBUG \<Rightarrow> g_loglevel \<le> DEBUG | INFO \<Rightarrow> g_loglevel \<le> INFO | ERROR \<Rightarrow> True | FATAL \<Rightarrow> True)"

definition log_statement ::
  "(string \<Rightarrow> nat \<Rightarrow> 'o \<Rightarrow> 'o res) \<Rightarrow> ('o \<Rightarrow> 'o res) \<Rightarrow> log_level \<Rightarrow> string \<Rightarrow> current_thread \<Rightarrow>
    log_level \<Rightarrow> string \<Rightarrow> int \<Rightarrow> string \<Rightarrow> item list \<Rightarrow> 'o \<Rightarrow> 'o log_end" where
  "log_statement g_output g_flush g_loglevel time_stamp t level file line func items out =
     (if log_enabled g_loglevel level then
        case bind_res (new_logger time_stamp t file line level func) (\<lambda>i.
             bind_res (insert_items items (m_stream i)) (\<lambda>s. Inr (i\<lparr>m_stream := s\<rparr>))) of
          Inl e \<Rightarrow> Failed e
        | Inr i \<Rightarrow> logger_dtor g_output g_flush i out
      else Returned out)"

subsection \<open>The text of a line\<close>

definition line_items :: "string \<Rightarrow> current_thread \<Rightarrow> log_level \<Rightarrow> string \<Rightarrow> int \<Rightarrow> string \<Rightarrow> item list \<Rightarrow> item list" where
  "line_items time_stamp t level file line func items =
     [It_string time_stamp, It_cstr '' ''] @
     [It_cstr (tidString t), It_cstr '' '', It_cstr (log_level_name level), It_cstr '' ''] @
     [It_cstr func, It_cstr '' ''] @ items @
     [It_cstr '' - '', It_string file, It_cstr '':'', It_integer line, It_char LF]"

definition log_line :: "string \<Rightarrow> current_thread \<Rightarrow> log_level \<Rightarrow> string \<Rightarrow> int \<Rightarrow> string \<Rightarrow> item list \<Rightarrow> string" where
  "log_line time_stamp t level file line func items =
     time_stamp @ '' '' @ tidString t @ '' '' @ log_level_name level @ '' '' @ c_str func @ '' '' @
     items_text items @ '' - '' @ file @ '':'' @ printed_int line @ [LF]"

lemma c_str_literal [simp]: "c_str '' '' = '' ''" "c_str '' - '' = '' - ''" "c_str '':'' = '':''"
  "c_str (log_level_name l) = log_level_name l" "c_str (tidString t) = tidString t"
  by (simp_all add: c_str_def tidString_def takeWhile_idem) (cases l; simp)

lemma line_items_text: "items_text (line_items ts t level file line func items) = log_line ts t level file line func items"
  by (simp add: line_items_def log_line_def)

text \<open>The insertions of a statement, one after the other.\<close>

lemma logger_dtor_insert:
  "(case bind_res (new_logger ts t file line level func) (\<lambda>i.
        bind_res (insert_items items (m_stream i)) (\<lambda>s. Inr (i\<lparr>m_stream := s\<rparr>))) of
      Inl e \<Rightarrow> Failed e | Inr i \<Rightarrow> logger_dtor g_output g_flush i out) =
   (case insert_items (line_items ts t level file line func items) (new_fixed kSmallBufferSize) of
      Inl e \<Rightarrow> Failed e
    | Inr s \<Rightarrow> end_of (g_output (m_buf s) (fb_length s) out) (\<lambda>out'.
        if level = FATAL then end_of (g_flush out') (\<lambda>out''. Aborted out'') else Returned out'))"
proof -
  define A where "A = insert_items [It_string ts, It_cstr '' '']"
  define B where "B = insert_items [It_cstr (tidString t), It_cstr '' '', It_cstr (log_level_name level), It_cstr '' '']"
  define C where "C = insert_items [It_cstr func, It_cstr '' '']"
  define E where "E = insert_items [It_cstr '' - '', It_string file, It_cstr '':'', It_integer line, It_char LF]"
  define z where "z = new_fixed kSmallBufferSize"
  let ?i = "\<lambda>s. \<lparr>m_stream = s, m_level = level, m_line = line, m_basename = file\<rparr>"
  have l: "insert_items (line_items ts t level file line func items) z =
      bind_res (A z) (\<lambda>a. bind_res (B a) (\<lambda>b. bind_res (C b) (\<lambda>c. bind_res (insert_items items c) E)))"
    unfolding line_items_def insert_items_append A_def B_def C_def E_def by (simp only: bind_res_assoc)
  have n: "new_logger ts t file line level func =
      bind_res (A z) (\<lambda>a. bind_res (B a) (\<lambda>b. bind_res (C b) (\<lambda>c. Inr (?i c))))"
    unfolding new_logger_def new_impl_def formatTime_def A_def [symmetric] C_def [symmetric] z_def [symmetric]
    by (simp add: bind_res_assoc B_def del: insert_items.simps)
  have f: "finish (?i s) = bind_res (E s) (\<lambda>u. Inr (?i u))" for s by (simp add: finish_def E_def del: insert_items.simps)
  show ?thesis unfolding z_def [symmetric] l n
    by (cases "A z"; simp; cases "B (projr (A z))"; simp; cases "C (projr (B (projr (A z))))"; simp;
        cases "insert_items items (projr (C (projr (B (projr (A z))))))"; simp add: logger_dtor_def f;
        cases "E (projr (insert_items items (projr (C (projr (B (projr (A z))))))))"; simp)
qed

lemma tid_law:
  assumes "t_cached_tid t = 0" "length (t_tid_string t) = 32" "0 < g" "g < 2 ^ 31"
  shows "\<exists>t'. current_tid g t = (g, t') \<and> tidString t' = pad5 (printed_int g) \<and> (\<forall>g'. current_tid g' t' = (g, t'))"
proof -
  let ?s = "pad5 (printed_int g)"
  have "nat g < 10 ^ Suc 9" using assms(3,4) by simp
  then have "length (decimal (nat g)) \<le> Suc 9" by (rule length_decimal)
  then have l: "length ?s \<le> 31" using assms(3) by (auto simp: pad5_def printed_int_def)
  have digit: "c \<noteq> NUL" if "c \<in> set (decimal n)" for c n
    using that
  proof (induction n rule: decimal.induct)
    case (1 n)
    have z: "char_of (48 + k :: nat) \<noteq> NUL" if "k < 10" for k
    proof
      assume "char_of (48 + k) = NUL"
      then have "(48 + k) mod 256 = 0" using of_char_of [where 'a = nat, of "48 + k"] by simp
      with that show False by simp
    qed
    show ?case
    proof (cases "n < 10")
      case True
      with 1 z [of n] show ?thesis by (simp add: decimal.simps [of n])
    next
      case False
      then have "c \<in> set (decimal (n div 10)) \<or> c = char_of (48 + n mod 10)" using 1(2) by (auto simp: decimal.simps [of n])
      with 1(1) False z [of "n mod 10"] show ?thesis by auto
    qed
  qed
  have "no_nul ?s" using digit assms(3) by (auto simp: no_nul_def pad5_def printed_int_def)
  then have "c_str (blit (t_tid_string t) 0 (take 31 ?s @ [NUL])) = ?s"
    using l unfolding no_nul_def c_str_def blit_def
    by simp (subst takeWhile_append2, auto)
  with assms show ?thesis by (simp add: current_tid_def cacheTid_def tidString_def Let_def)
qed

lemma log_statement_law:
  assumes "\<forall>i \<in> set items. item_ok i" "no_nul ts" "no_nul file" "0 \<le> line" "line < 2 ^ 31"
    and "length (log_line ts t level file line func items) + kMaxNumericSize < kSmallBufferSize"
  shows "(log_enabled g level \<longrightarrow> (\<exists>buf n. take n buf = log_line ts t level file line func items \<and> n \<le> length buf \<and>
      log_statement g_output g_flush g ts t level file line func items out =
        end_of (g_output buf n out) (\<lambda>out'.
          if level = FATAL then end_of (g_flush out') Aborted else Returned out'))) \<and>
    (\<not> log_enabled g level \<longrightarrow> log_statement g_output g_flush g ts t level file line func items out = Returned out)"
proof -
  let ?is = "line_items ts t level file line func items" and ?z = "new_fixed kSmallBufferSize"
  have z: "fb_ok ?z" "logged ?z = []" "fb_free ?z = kSmallBufferSize" using new_fixed_ok by (simp_all add: kSmallBufferSize_def)
  have "\<forall>i \<in> set ?is. item_ok i" using assms(1-5) by (auto simp: line_items_def)
  from insert_items_law [OF z(1) this] assms(6) z(2,3) obtain s where
    s: "insert_items ?is ?z = Inr s" "fb_ok s" "logged s = log_line ts t level file line func items"
    by (auto simp: line_items_text)
  have "take (fb_length s) (m_buf s) = log_line ts t level file line func items" "fb_length s \<le> length (m_buf s)"
    using s(2,3) length_logged [OF s(2)] by (auto simp: logged_def fb_ok_def)
  then show ?thesis unfolding log_statement_def logger_dtor_insert s(1) by auto
qed

subsection \<open>Properties\<close>

text \<open>A log statement hands over exactly one line. When its level is enabled, its values are integers
  that are not negative or texts without NUL and the whole line leaves 48 of the 4000 bytes free, the
  output function is called once, with the line (date, thread id, level, function, values, file, line
  number, line feed); after a FATAL line the output is flushed and the process aborts. A statement that
  is not enabled does nothing.\<close>

theorem log_statement_line:
  assumes "\<forall>i \<in> set items. item_ok i" "no_nul ts" "no_nul file" "0 \<le> line" "line < 2 ^ 31"
    and "length (log_line ts t level file line func items) + kMaxNumericSize < kSmallBufferSize"
  shows "(log_enabled g level \<longrightarrow> (\<exists>buf n. take n buf = log_line ts t level file line func items \<and> n \<le> length buf \<and>
      log_statement g_output g_flush g ts t level file line func items out =
        end_of (g_output buf n out) (\<lambda>out'.
          if level = FATAL then end_of (g_flush out') Aborted else Returned out'))) \<and>
    (\<not> log_enabled g level \<longrightarrow> log_statement g_output g_flush g ts t level file line func items out = Returned out)"
  by (rule log_statement_law [OF assms])

theorem log_statement_line_witness:
  "\<exists>buf n. take n buf = log_line ''now'' new_thread_data FATAL ''f'' 7 ''g'' [It_cstr ''x''] \<and>
    log_statement (\<lambda>b k out. Inr (out @ [take k b])) Inr INFO ''now'' new_thread_data FATAL ''f'' 7 ''g'' [It_cstr ''x''] [] =
      Aborted [take n buf]"
proof -
  have "\<forall>i \<in> set [It_cstr ''x'']. item_ok i" "no_nul ''now''" "no_nul ''f''" "(0 :: int) \<le> 7" "(7 :: int) < 2 ^ 31"
    by (simp_all add: no_nul_def)
  moreover have "length (log_line ''now'' new_thread_data FATAL ''f'' 7 ''g'' [It_cstr ''x'']) + kMaxNumericSize < kSmallBufferSize"
    by (simp add: log_line_def new_thread_data_def tidString_def c_str_def printed_int_def decimal.simps [of 7]
        kMaxNumericSize_def kSmallBufferSize_def)
  ultimately show ?thesis
    using log_statement_line [of "[It_cstr ''x'']" "''now''" "''f''" 7 new_thread_data FATAL "''g''" INFO
        "\<lambda>b k out. Inr (out @ [take k b])" Inr "[]"]
    by (fastforce simp: log_enabled_def)
qed

text \<open>The fraction of the time stamp. From the day the epoch is a million seconds old, the remainder by
  the seconds is the microseconds of the current second; it is printed without leading zeros.\<close>

theorem timeStamp_fraction:
  assumes "1000000 \<le> micros div 1000000"
  shows "timeStamp date micros = Inr (date @ '':'' @ printed_int (micros mod 1000000))"
proof -
  let ?s = "micros div 1000000" and ?f = "micros mod 1000000"
  have pos: "0 < micros" using assms by (metis div_neg_pos_less0 less_le_not_le linorder_neqE_linordered_idom
      div_0 not_less zero_less_numeral order_trans zero_le_numeral)
  have "micros smod ?s = micros mod ?s" using pos assms by (simp add: smod_mod_positive)
  also have "\<dots> = (?s * 1000000 + ?f) mod ?s" by (simp only: div_mult_mod_eq)
  also have "\<dots> = ?f mod ?s" by (rule mod_mult_self4)
  also have "\<dots> = ?f" using assms pos_mod_bound [of 1000000 micros] by (intro mod_pos_pos_trivial) (simp, linarith)
  finally have "micros smod ?s = ?f" .
  moreover have "micros sdiv 1000000 = ?s" using pos by (simp add: signed_divide_int_def)
  ultimately show ?thesis using assms by (simp add: timeStamp_def Let_def)
qed

theorem timeStamp_fraction_witness: "timeStamp ''t'' 1700000000000005 = Inr (''t'' @ '':'' @ printed_int 5)"
  using timeStamp_fraction [of 1700000000000005 "''t''"] by simp

end
