(* ===== verification/LogFile.thy ===== *)
theory LogFile
  imports Prelude "HOL-Library.Signed_Division"
begin

text \<open>
  The back end of the log: \<open>AppendFile\<close> (base/FileUtil.h, base/FileUtil.cpp) and \<open>LogFile\<close>
  (base/LogFile.h, base/LogFile.cpp).

  A C stream has the bytes the library still holds and the bytes it has handed to the kernel; \<open>fwrite\<close>
  answers from a script, the clock and \<open>fopen\<close> answer by a function. The text \<open>strftime\<close> prints for a
  time, the host name and the process id are arguments. The mutex makes append and flush one step each.
  The lemmas show both classes to be byte sinks and the log file to roll.
\<close>

subsection \<open>C streams\<close>

text \<open>How many bytes \<open>fwrite\<close> took: all, or fewer with the error indicator set or not.\<close>

datatype fwrite_answer = Fw_All | Fw_Short nat bool

record c_file =
  f_name :: string
  f_pending :: string
  f_disk :: string
  f_error :: bool

record append_file =
  m_fp :: c_file
  m_writed_bytes :: int

definition file_bytes :: "c_file \<Rightarrow> string" where
  "file_bytes f = f_disk f @ f_pending f"

definition fwrite :: "fwrite_answer \<Rightarrow> string \<Rightarrow> c_file \<Rightarrow> nat \<times> c_file" where
  "fwrite a msg f =
     (case a of
        Fw_All \<Rightarrow> (length msg, f\<lparr>f_pending := f_pending f @ msg\<rparr>)
      | Fw_Short n e \<Rightarrow>
          let k = min n (length msg - 1) in
          (k, f\<lparr>f_pending := f_pending f @ take k msg, f_error := (f_error f \<or> e)\<rparr>))"

definition fflush :: "c_file \<Rightarrow> c_file" where
  "fflush f = f\<lparr>f_disk := f_disk f @ f_pending f, f_pending := []\<rparr>"

subsection \<open>AppendFile\<close>

text \<open>\<open>None\<close> is a failed \<open>fopen\<close>, which the constructor hands to \<open>setbuffer\<close>.\<close>

definition new_append_file :: "bool \<Rightarrow> string \<Rightarrow> append_file res" where
  "new_append_file opened filename =
     (if opened then
        Inr \<lparr>m_fp = \<lparr>f_name = filename, f_pending = [], f_disk = [], f_error = False\<rparr>, m_writed_bytes = 0\<rparr>
      else Inl Undefined_Behaviour)"

text \<open>The destructor closes the stream, which flushes it.\<close>

definition append_file_dtor :: "append_file \<Rightarrow> c_file" where
  "append_file_dtor f = fflush (m_fp f)"

fun append_loop :: "fwrite_answer list \<Rightarrow> string \<Rightarrow> nat \<Rightarrow> c_file \<Rightarrow> (nat \<times> fwrite_answer list \<times> c_file) res" where
  "append_loop as msg written fp =
     (if written < length msg then
        case as of
          [] \<Rightarrow> Inl Script_Exhausted
        | a # as' \<Rightarrow>
            let rest = length msg - written;
                (ret, fp') = fwrite a (drop written msg) fp
            in if ret \<noteq> rest \<and> f_error fp' then Inr (written, as', fp')
               else append_loop as' msg (written + ret) fp'
      else Inr (written, as, fp))"

declare append_loop.simps [simp del]

definition append_file_append ::
  "fwrite_answer list \<Rightarrow> string \<Rightarrow> append_file \<Rightarrow> (fwrite_answer list \<times> append_file) res" where
  "append_file_append as msg f =
     bind_res (append_loop as msg 0 (m_fp f)) (\<lambda>(written, as', fp).
     Inr (as', f\<lparr>m_fp := fp, m_writed_bytes := m_writed_bytes f + int written\<rparr>))"

definition append_file_flush :: "append_file \<Rightarrow> append_file" where
  "append_file_flush f = f\<lparr>m_fp := fflush (m_fp f)\<rparr>"

subsection \<open>LogFile\<close>

text \<open>
  \<open>lf_closed\<close> holds the files that were closed, oldest first; \<open>lf_clock\<close> is the clock, asked for the
  \<open>lf_ticks\<close>-th time; \<open>lf_fwrites\<close> is the script of \<open>fwrite\<close>.
\<close>

record log_file =
  m_basename :: string
  m_roll_size :: int
  m_flush_interval :: int
  m_check_every_N :: int
  m_cnt :: int
  m_start_of_period :: int
  m_last_roll :: int
  m_last_flush :: int
  m_file :: "append_file option"
  lf_closed :: "c_file list"
  lf_fwrites :: "fwrite_answer list"
  lf_clock :: "nat \<Rightarrow> int"
  lf_ticks :: nat
  lf_fopen :: "string \<Rightarrow> bool"
  lf_stamp :: "int \<Rightarrow> string"
  lf_host :: string
  lf_pid :: int

definition kRollPerSeconds :: int where
  "kRollPerSeconds = 60 * 60 * 24"

definition time_now :: "log_file \<Rightarrow> int \<times> log_file" where
  "time_now l = (lf_clock l (lf_ticks l), l\<lparr>lf_ticks := lf_ticks l + 1\<rparr>)"

text \<open>Digits of \<open>%d\<close> do not fill the 32 bytes; the stamp is what \<open>strftime\<close> prints for \<open>.%Y%m%d-%H%M%S.\<close>.\<close>

definition getLogFileName :: "log_file \<Rightarrow> (string \<times> int) \<times> log_file" where
  "getLogFileName l =
     (let (now, l1) = time_now l in
      ((m_basename l1 @ lf_stamp l1 now @ take 255 (c_str (lf_host l1)) @ ''.'' @ printed_int (lf_pid l1) @ ''.log'',
        now), l1))"

text \<open>Resetting \<open>m_file\<close> opens the new file and then closes the old one.\<close>

definition rollFile :: "log_file \<Rightarrow> (bool \<times> log_file) res" where
  "rollFile l =
     (let ((filename, now), l1) = getLogFileName l;
          start = now sdiv kRollPerSeconds * kRollPerSeconds
      in if now > m_last_roll l1 then
           let l2 = l1\<lparr>m_start_of_period := start, m_last_roll := now, m_last_flush := now\<rparr> in
           bind_res (new_append_file (lf_fopen l2 filename) filename) (\<lambda>f.
           Inr (True, l2\<lparr>m_file := Some f,
             lf_closed := lf_closed l2 @ (case m_file l2 of None \<Rightarrow> [] | Some g \<Rightarrow> [append_file_dtor g])\<rparr>))
         else Inr (False, l1))"

definition log_file_append :: "string \<Rightarrow> log_file \<Rightarrow> log_file res" where
  "log_file_append msg l =
     (case m_file l of
        None \<Rightarrow> Inl Undefined_Behaviour
      | Some f \<Rightarrow>
          bind_res (append_file_append (lf_fwrites l) msg f) (\<lambda>(as, f').
          let l1 = l\<lparr>m_file := Some f', lf_fwrites := as\<rparr> in
          if m_writed_bytes f' > m_roll_size l1 then bind_res (rollFile l1) (\<lambda>(_, l2). Inr l2)
          else
            let l2 = l1\<lparr>m_cnt := m_cnt l1 + 1\<rparr> in
            if m_cnt l2 \<ge> m_check_every_N l2 then
              let l3 = l2\<lparr>m_cnt := 0\<rparr>;
                  (now, l4) = time_now l3;
                  current_period = now sdiv kRollPerSeconds * kRollPerSeconds
              in if current_period > m_start_of_period l4 then bind_res (rollFile l4) (\<lambda>(_, l5). Inr l5)
                 else if now - m_last_flush l4 > m_flush_interval l4 then
                   Inr (l4\<lparr>m_last_flush := now, m_file := Some (append_file_flush f')\<rparr>)
                 else Inr l4
            else Inr l2))"

definition log_file_flush :: "log_file \<Rightarrow> log_file res" where
  "log_file_flush l =
     (case m_file l of None \<Rightarrow> Inl Undefined_Behaviour | Some f \<Rightarrow> Inr (l\<lparr>m_file := Some (append_file_flush f)\<rparr>))"

text \<open>The constructor, from a record that holds its arguments and its environment.\<close>

definition new_log_file :: "log_file \<Rightarrow> log_file res" where
  "new_log_file env =
     bind_res (rollFile (env\<lparr>m_cnt := 0, m_start_of_period := 0, m_last_roll := 0, m_last_flush := 0,
       m_file := None, lf_closed := []\<rparr>)) (\<lambda>(_, l). Inr l)"

subsection \<open>The bytes of the log\<close>

definition log_bytes :: "log_file \<Rightarrow> string" where
  "log_bytes l = concat (map file_bytes (lf_closed l)) @ (case m_file l of None \<Rightarrow> [] | Some f \<Rightarrow> file_bytes (m_fp f))"

definition all_good :: "log_file \<Rightarrow> bool" where
  "all_good l \<longleftrightarrow> m_file l \<noteq> None \<and> (\<forall>a \<in> set (lf_fwrites l). a = Fw_All) \<and> (\<forall>n. lf_fopen l n)"

definition log_room :: "nat \<Rightarrow> log_file \<Rightarrow> bool" where
  "log_room n l \<longleftrightarrow> all_good l \<and> n \<le> length (lf_fwrites l)"

lemma file_bytes_fflush [simp]: "file_bytes (fflush f) = file_bytes f"
  by (simp add: file_bytes_def fflush_def)

lemma append_loop_good:
  "\<forall>a \<in> set as. a = Fw_All \<Longrightarrow> append_loop as msg 0 fp =
     (if msg = [] then Inr (0, as, fp) else case as of [] \<Rightarrow> Inl Script_Exhausted
      | a # as' \<Rightarrow> Inr (length msg, as', fp\<lparr>f_pending := f_pending fp @ msg\<rparr>))"
  by (cases as) (auto simp: append_loop.simps [of _ msg 0] append_loop.simps [of _ msg "length msg"] fwrite_def)

text \<open>What \<open>append_loop\<close> does with any answers: a prefix goes out, all of it unless the stream fails.\<close>

lemma append_loop_prefix:
  assumes "append_loop as msg w fp = Inr (w', as', fp')" "w \<le> length msg"
  shows "\<exists>k. w' \<le> k \<and> k \<le> length msg \<and> w \<le> w' \<and> file_bytes fp' = file_bytes fp @ seg w k msg \<and>
    (w' = k \<and> k = length msg \<or> f_error fp')"
  using assms
proof (induction as msg w fp rule: append_loop.induct)
  case (1 as msg w fp)
  show ?case
  proof (cases "w < length msg")
    case False
    with 1 show ?thesis by (auto simp: append_loop.simps [of as msg w])
  next
    case True
    with 1(2) obtain a as1 where as: "as = a # as1" by (cases as) (simp_all add: append_loop.simps [of "[]" msg w])
    obtain ret fp1 where f: "fwrite a (drop w msg) fp = (ret, fp1)" by fastforce
    have ret: "w + ret \<le> length msg" "file_bytes fp1 = file_bytes fp @ seg w (w + ret) msg"
      using f True by (auto simp: fwrite_def file_bytes_def seg_def Let_def split: fwrite_answer.splits)
    show ?thesis
    proof (cases "ret \<noteq> length msg - w \<and> f_error fp1")
      case T: True
      with 1(2) True as f have "w' = w" "fp' = fp1" by (auto simp: append_loop.simps [of "a # as1" msg w])
      with T ret show ?thesis by (intro exI [of _ "w + ret"]) simp
    next
      case F: False
      with 1(2) True as f have r: "append_loop as1 msg (w + ret) fp1 = Inr (w', as', fp')"
        by (auto simp: append_loop.simps [of "a # as1" msg w] split: if_splits)
      from 1(1) [OF True as refl refl f [symmetric] F r ret(1)] obtain k where
        k: "w' \<le> k" "k \<le> length msg" "w + ret \<le> w'" "file_bytes fp' = file_bytes fp1 @ seg (w + ret) k msg"
          "w' = k \<and> k = length msg \<or> f_error fp'" by blast
      have "seg w (w + ret) msg @ seg (w + ret) k msg = seg w k msg"
        using seg_split [of w "w + ret" k msg] k(1,3) by simp
      with k ret(2) show ?thesis by (intro exI [of _ k]) auto
    qed
  qed
qed

text \<open>An answer of nothing without an error is asked for again: such a stream is never left.\<close>

lemma append_loop_stuck:
  "w < length msg \<Longrightarrow> f_error fp = False \<Longrightarrow> append_loop (replicate n (Fw_Short 0 False)) msg w fp = Inl Script_Exhausted"
  by (induction n arbitrary: fp) (simp_all add: append_loop.simps [of _ msg w] fwrite_def)

lemma rollFile_law:
  assumes "all_good l"
  shows "\<exists>b t. rollFile l = Inr (b, t) \<and> log_bytes t = log_bytes l \<and> all_good t \<and> lf_fwrites t = lf_fwrites l \<and>
    m_roll_size t = m_roll_size l \<and> lf_clock t = lf_clock l \<and>
    (if m_last_roll l < lf_clock l (lf_ticks l) then \<exists>f. m_file t = Some f \<and> m_writed_bytes f = 0
     else m_file t = m_file l)"
  using assms
  by (auto simp: rollFile_def getLogFileName_def time_now_def new_append_file_def all_good_def log_bytes_def Let_def
      append_file_dtor_def file_bytes_def fflush_def)

lemma append_file_good:
  assumes "\<forall>a \<in> set as. a = Fw_All" "append_file_append as msg f = Inr (as', f')"
  shows "file_bytes (m_fp f') = file_bytes (m_fp f) @ msg" "\<forall>a \<in> set as'. a = Fw_All"
    "m_writed_bytes f' = m_writed_bytes f + int (length msg)" "length as - length msg \<le> length as'"
proof -
  note loop = append_loop_good [OF assms(1), of msg "m_fp f"]
  have "file_bytes (m_fp f') = file_bytes (m_fp f) @ msg \<and> (\<forall>a \<in> set as'. a = Fw_All) \<and>
    m_writed_bytes f' = m_writed_bytes f + int (length msg) \<and> length as - length msg \<le> length as'"
  proof (cases "msg = []")
    case True
    with assms loop show ?thesis by (auto simp: append_file_append_def)
  next
    case False
    then obtain a as1 where "as = a # as1" using assms(2) loop by (cases as) (auto simp: append_file_append_def)
    moreover have "1 \<le> length msg" using False by (cases msg) auto
    ultimately show ?thesis using assms loop False by (auto simp: append_file_append_def file_bytes_def)
  qed
  then show "file_bytes (m_fp f') = file_bytes (m_fp f) @ msg" "\<forall>a \<in> set as'. a = Fw_All"
    "m_writed_bytes f' = m_writed_bytes f + int (length msg)" "length as - length msg \<le> length as'" by blast+
qed

lemma log_file_append_good:
  assumes "all_good l" "m_file l = Some f" "append_file_append (lf_fwrites l) msg f = Inr (as, f')"
  shows "\<exists>t. log_file_append msg l = Inr t \<and> log_bytes t = log_bytes l @ msg \<and> all_good t \<and> lf_fwrites t = as"
proof -
  note g = append_file_good [OF _ assms(3)]
  have good: "\<forall>a \<in> set (lf_fwrites l). a = Fw_All" using assms(1) by (simp add: all_good_def)
  have new: "all_good u \<and> log_bytes u = log_bytes l @ msg \<and> lf_fwrites u = as"
    if "u = l\<lparr>m_file := Some h, lf_fwrites := as, m_cnt := c, m_last_flush := q, lf_ticks := n\<rparr>"
      "file_bytes (m_fp h) = file_bytes (m_fp f')" for u and h :: append_file and c q n
    using that assms(1,2) g(1,2) [OF good] by (auto simp: all_good_def log_bytes_def)
  let ?u = "l\<lparr>m_file := Some f', lf_fwrites := as\<rparr>"
  show ?thesis
  proof (cases "m_writed_bytes f' > m_roll_size l")
    case True
    have "all_good ?u" "log_bytes ?u = log_bytes l @ msg"
      using new [where u = ?u and h = f' and c = "m_cnt l" and q = "m_last_flush l" and n = "lf_ticks l"] by simp_all
    with rollFile_law [of ?u] True assms(2,3) show ?thesis by (auto simp: log_file_append_def Let_def)
  next
    case small: False
    show ?thesis
    proof (cases "m_cnt l + 1 \<ge> m_check_every_N l")
      case False
      with small assms(2,3) new [where u = "?u\<lparr>m_cnt := m_cnt l + 1\<rparr>" and h = f' and c = "m_cnt l + 1" and q = "m_last_flush l" and n = "lf_ticks l"]
      show ?thesis by (simp add: log_file_append_def)
    next
      case True
      let ?v = "?u\<lparr>m_cnt := 0, lf_ticks := lf_ticks l + 1\<rparr>" and ?now = "lf_clock l (lf_ticks l)"
      have v: "all_good ?v" "log_bytes ?v = log_bytes l @ msg"
        using new [where u = ?v and h = f' and c = 0 and q = "m_last_flush l" and n = "lf_ticks l + 1"] by simp_all
      have w: "all_good w \<and> log_bytes w = log_bytes l @ msg \<and> lf_fwrites w = as"
        if "w = ?v\<lparr>m_last_flush := ?now, m_file := Some (append_file_flush f')\<rparr>" for w
        using new [where u = w and h = "append_file_flush f'" and c = 0 and q = ?now and n = "lf_ticks l + 1"] that by (simp add: append_file_flush_def)
      from rollFile_law [OF v(1)] v w True small assms(2,3) show ?thesis
        by (auto simp: log_file_append_def Let_def time_now_def)
    qed
  qed
qed

interpretation logf: byte_sink log_file_append log_room log_bytes "\<lambda>_. True"
proof
  fix xs :: string and n l
  assume r: "log_room (length xs + n) l"
  then obtain f where f: "m_file l = Some f" "all_good l" by (auto simp: log_room_def all_good_def)
  have good: "\<forall>a \<in> set (lf_fwrites l). a = Fw_All" using f(2) by (simp add: all_good_def)
  have "\<exists>as f'. append_file_append (lf_fwrites l) xs f = Inr (as, f')"
    using r good by (cases "lf_fwrites l") (auto simp: append_file_append_def append_loop_good log_room_def)
  then obtain as f' where a: "append_file_append (lf_fwrites l) xs f = Inr (as, f')" by blast
  from log_file_append_good [OF f(2,1) a] append_file_good(4) [OF good a] r
  show "\<exists>s'. log_file_append xs l = Inr s' \<and> log_bytes s' = log_bytes l @ xs \<and> log_room n s'"
    by (auto simp: log_room_def)
qed

subsection \<open>Rolling\<close>

definition file_fits :: "int \<Rightarrow> append_file \<Rightarrow> bool" where
  "file_fits n f \<longleftrightarrow> m_writed_bytes f = int (length (file_bytes (m_fp f))) \<and> m_writed_bytes f \<le> n"

text \<open>Files of bounded size, while the clock advances between any two readings.\<close>

definition rolling :: "nat \<Rightarrow> log_file \<Rightarrow> bool" where
  "rolling M l \<longleftrightarrow> all_good l \<and> 0 \<le> m_roll_size l \<and> strict_mono (lf_clock l) \<and> m_last_roll l < lf_clock l (lf_ticks l) \<and>
     (\<forall>f. m_file l = Some f \<longrightarrow> file_fits (m_roll_size l) f) \<and>
     (\<forall>c \<in> set (lf_closed l). int (length (file_bytes c)) \<le> m_roll_size l + int M)"

lemma rolling_roll:
  assumes "all_good l" "0 \<le> m_roll_size l" "strict_mono (lf_clock l)" "m_last_roll l < lf_clock l (lf_ticks l)"
    and "\<forall>f. m_file l = Some f \<longrightarrow> file_fits (m_roll_size l + int M) f"
    and "\<forall>c \<in> set (lf_closed l). int (length (file_bytes c)) \<le> m_roll_size l + int M"
  shows "\<exists>b t. rollFile l = Inr (b, t) \<and> rolling M t"
proof -
  have "lf_clock l (lf_ticks l) < lf_clock l (Suc (lf_ticks l))" using assms(3) by (simp add: strict_mono_less)
  with assms show ?thesis
    by (auto simp: rolling_def rollFile_def getLogFileName_def time_now_def new_append_file_def all_good_def Let_def
        append_file_dtor_def file_fits_def) (simp add: file_bytes_def)
qed

lemma rolling_append:
  assumes r: "rolling M l" and m: "length msg \<le> M" and t: "log_file_append msg l = Inr t"
  shows "rolling M t"
proof -
  obtain f where f: "m_file l = Some f" using r by (auto simp: rolling_def all_good_def)
  with t obtain as f' where a: "append_file_append (lf_fwrites l) msg f = Inr (as, f')"
    by (auto simp: log_file_append_def bind_res_eq_Inr)
  have good: "\<forall>a \<in> set (lf_fwrites l). a = Fw_All" using r by (simp add: rolling_def all_good_def)
  note g = append_file_good [OF good a]
  let ?u = "l\<lparr>m_file := Some f', lf_fwrites := as\<rparr>" and ?now = "lf_clock l (lf_ticks l)"
  have fits: "file_fits (m_roll_size l + int M) f'" "m_writed_bytes f' \<le> m_roll_size l \<Longrightarrow> file_fits (m_roll_size l) f'"
    using r f g m by (auto simp: rolling_def file_fits_def)
  have good': "all_good ?u" using r g(2) by (simp add: rolling_def all_good_def)
  have later: "?now < lf_clock l (Suc (lf_ticks l))" using r by (simp add: rolling_def strict_mono_less)
  have R: "0 \<le> m_roll_size l" "strict_mono (lf_clock l)" "m_last_roll l < ?now"
    "\<forall>c \<in> set (lf_closed l). int (length (file_bytes c)) \<le> m_roll_size l + int M" using r by (simp_all add: rolling_def)
  show ?thesis
  proof (cases "m_writed_bytes f' > m_roll_size l")
    case True
    obtain b v where "rollFile ?u = Inr (b, v)" "rolling M v" using rolling_roll [of ?u M] good' R fits(1) by auto
    with True t f a show ?thesis by (simp add: log_file_append_def)
  next
    case False
    note fit = fits(2) [OF leI [OF False]]
    have keep: "rolling M (?u\<lparr>m_cnt := c\<rparr>)" for c using good' R fit by (simp add: rolling_def all_good_def)
    let ?v = "?u\<lparr>m_cnt := 0, lf_ticks := lf_ticks l + 1\<rparr>"
    have late: "m_last_roll l < lf_clock l (Suc (lf_ticks l))" using R(3) later by simp
    have v: "rolling M ?v" using good' R fit late by (simp add: rolling_def all_good_def)
    have w: "rolling M (?v\<lparr>m_last_flush := ?now, m_file := Some (append_file_flush f')\<rparr>)"
      using good' R fit late by (simp add: rolling_def all_good_def file_fits_def append_file_flush_def)
    obtain b x where x: "rollFile ?v = Inr (b, x)" "rolling M x"
      using rolling_roll [of ?v M] good' R fits(1) late by (auto simp: all_good_def)
    show ?thesis using t f a False keep [of "m_cnt l + 1"] v w x
      by (simp add: log_file_append_def Let_def time_now_def split: if_splits)
  qed
qed

lemma rolling_puts: "rolling M l \<Longrightarrow> \<forall>m \<in> set msgs. length m \<le> M \<Longrightarrow> puts log_file_append msgs l = Inr t \<Longrightarrow> rolling M t"
proof (induction msgs arbitrary: l)
  case Nil
  then show ?case by simp
next
  case (Cons m msgs)
  then obtain u where "log_file_append m l = Inr u" "puts log_file_append msgs u = Inr t"
    by (auto simp: bind_res_eq_Inr)
  with Cons rolling_append [of M l m u] show ?case by simp
qed

text \<open>The same with any clock: when the files were opened, and when the current one may be too long.\<close>

definition log_name :: "log_file \<Rightarrow> int \<Rightarrow> string" where
  "log_name l now = m_basename l @ lf_stamp l now @ take 255 (c_str (lf_host l)) @ ''.'' @ printed_int (lf_pid l) @ ''.log''"

definition opened_at :: "int list \<Rightarrow> log_file \<Rightarrow> bool" where
  "opened_at ts l \<longleftrightarrow> sorted_wrt (<) ts \<and> ts \<noteq> [] \<and> last ts = m_last_roll l \<and>
     (\<forall>f. m_file l = Some f \<longrightarrow> map f_name (lf_closed l @ [m_fp f]) = map (log_name l) ts)"

definition late_only :: "log_file \<Rightarrow> bool" where
  "late_only l \<longleftrightarrow> (\<forall>f. m_file l = Some f \<longrightarrow> m_writed_bytes f = int (length (file_bytes (m_fp f))) \<and>
     (m_roll_size l < m_writed_bytes f \<longrightarrow> lf_clock l (lf_ticks l - 1) \<le> m_last_roll l))"

definition dated :: "log_file \<Rightarrow> log_file \<Rightarrow> bool" where
  "dated env l \<longleftrightarrow> all_good l \<and> lf_clock l = lf_clock env \<and> log_name l = log_name env \<and> m_roll_size l = m_roll_size env \<and>
     (\<exists>ts. opened_at ts l) \<and> late_only l"

lemma log_name_cong:
  "m_basename l = m_basename k \<Longrightarrow> lf_stamp l = lf_stamp k \<Longrightarrow> lf_host l = lf_host k \<Longrightarrow> lf_pid l = lf_pid k \<Longrightarrow> log_name l = log_name k"
  by (simp add: log_name_def fun_eq_iff)

lemma log_name_simps [simp]:
  "log_name (l\<lparr>m_file := f\<rparr>) = log_name l" "log_name (l\<lparr>lf_fwrites := as\<rparr>) = log_name l" "log_name (l\<lparr>m_cnt := c\<rparr>) = log_name l"
  "log_name (l\<lparr>lf_ticks := n\<rparr>) = log_name l" "log_name (l\<lparr>m_last_flush := q\<rparr>) = log_name l"
  "log_name (l\<lparr>m_last_roll := q\<rparr>) = log_name l" "log_name (l\<lparr>m_start_of_period := q\<rparr>) = log_name l"
  "log_name (l\<lparr>lf_closed := cs\<rparr>) = log_name l"
  by (rule log_name_cong; simp)+

lemma sorted_wrt_snoc: "sorted_wrt (<) ts \<Longrightarrow> ts \<noteq> [] \<Longrightarrow> last ts < (x :: int) \<Longrightarrow> sorted_wrt (<) (ts @ [x])"
  by (induction ts) (auto simp: sorted_wrt_append split: if_splits, meson last_in_set less_trans)

lemma dated_roll:
  assumes "all_good l" "lf_clock l = lf_clock env" "log_name l = log_name env" "m_roll_size l = m_roll_size env" "opened_at ts l"
    and "\<forall>f. m_file l = Some f \<longrightarrow> m_writed_bytes f = int (length (file_bytes (m_fp f)))" "rollFile l = Inr (b, t)"
  shows "dated env t"
proof -
  obtain f where f: "m_file l = Some f" using assms(1) by (auto simp: all_good_def)
  let ?now = "lf_clock l (lf_ticks l)"
  show ?thesis
  proof (cases "?now > m_last_roll l")
    case True
    let ?g = "\<lparr>m_fp = \<lparr>f_name = log_name l ?now, f_pending = [], f_disk = [], f_error = False\<rparr>, m_writed_bytes = 0\<rparr>"
    have t: "t = l\<lparr>lf_ticks := lf_ticks l + 1, m_start_of_period := ?now sdiv kRollPerSeconds * kRollPerSeconds, m_last_roll := ?now,
        m_last_flush := ?now, m_file := Some ?g, lf_closed := lf_closed l @ [append_file_dtor f]\<rparr>"
      using assms(1,7) True f
      by (auto simp: rollFile_def getLogFileName_def time_now_def new_append_file_def all_good_def Let_def log_name_def)
    have "f_name (append_file_dtor f) = f_name (m_fp f)" by (simp add: append_file_dtor_def fflush_def)
    then have "opened_at (ts @ [?now]) t" using assms(5) f True by (simp add: opened_at_def t sorted_wrt_snoc)
    moreover have "late_only t" by (simp add: late_only_def t file_bytes_def)
    moreover have "all_good t" using assms(1) by (simp add: all_good_def t)
    ultimately show ?thesis using assms(2-4) by (auto simp: dated_def t)
  next
    case False
    then have t: "t = l\<lparr>lf_ticks := lf_ticks l + 1\<rparr>"
      using assms(7) by (auto simp: rollFile_def getLogFileName_def time_now_def Let_def)
    have "opened_at ts t" using assms(5) by (simp add: opened_at_def t)
    moreover have "late_only t" using assms(6) False by (simp add: late_only_def t)
    moreover have "all_good t" using assms(1) by (simp add: all_good_def t)
    ultimately show ?thesis using assms(2-4) by (auto simp: dated_def t)
  qed
qed

lemma append_file_name:
  assumes "\<forall>a \<in> set as. a = Fw_All" "append_file_append as msg f = Inr (as', f')"
  shows "f_name (m_fp f') = f_name (m_fp f)"
  using assms append_loop_good [OF assms(1), of msg "m_fp f"]
  by (auto simp: append_file_append_def bind_res_eq_Inr split: if_splits list.splits)

lemma dated_append:
  assumes d: "dated env l" and t: "log_file_append msg l = Inr t"
  shows "dated env t"
proof -
  obtain f ts where f: "m_file l = Some f" "opened_at ts l" using d by (auto simp: dated_def all_good_def)
  with t obtain as f' where a: "append_file_append (lf_fwrites l) msg f = Inr (as, f')"
    by (auto simp: log_file_append_def bind_res_eq_Inr)
  have good: "\<forall>a \<in> set (lf_fwrites l). a = Fw_All" using d by (simp add: dated_def all_good_def)
  note g = append_file_good [OF good a]
  have count: "m_writed_bytes f' = int (length (file_bytes (m_fp f')))" using d f(1) g(1,3) by (simp add: dated_def late_only_def)
  have name: "f_name (m_fp f') = f_name (m_fp f)" by (rule append_file_name [OF good a])
  let ?u = "l\<lparr>m_file := Some f', lf_fwrites := as\<rparr>" and ?now = "lf_clock l (lf_ticks l)"
  have u: "all_good ?u" "lf_clock ?u = lf_clock env" "log_name ?u = log_name env" "m_roll_size ?u = m_roll_size env" "opened_at ts ?u"
    using d f g(2) name by (simp_all add: dated_def all_good_def opened_at_def)
  show ?thesis
  proof (cases "m_writed_bytes f' > m_roll_size l")
    case True
    then obtain b where "rollFile ?u = Inr (b, t)" using t f(1) a by (auto simp: log_file_append_def bind_res_eq_Inr)
    from dated_roll [OF u _ this] count show ?thesis by simp
  next
    case False
    let ?v = "?u\<lparr>m_cnt := 0, lf_ticks := lf_ticks l + 1\<rparr>"
    have small: "dated env w" if "all_good w" "lf_clock w = lf_clock env" "log_name w = log_name env" "m_roll_size w = m_roll_size env"
        "opened_at ts w" "m_file w = Some h" "m_writed_bytes h = m_writed_bytes f'" "file_bytes (m_fp h) = file_bytes (m_fp f')" for w h
      using that False count d by (auto simp: dated_def late_only_def)
    have v: "all_good ?v" "opened_at ts ?v" using u(1,5) by (simp_all add: all_good_def opened_at_def)
    have roll: "dated env w" if "rollFile ?v = Inr (b, w)" for b w
      using dated_roll [OF v(1) _ _ _ v(2) _ that, of env] u(2-4) count by simp
    have keep: "dated env (?u\<lparr>m_cnt := c\<rparr>)" for c
      by (rule small [where h = f']) (use u in \<open>simp_all add: all_good_def opened_at_def\<close>)
    have stay: "dated env ?v" by (rule small [where h = f']) (use u v in simp_all)
    have "f_name (m_fp (append_file_flush f')) = f_name (m_fp f')" by (simp add: append_file_flush_def fflush_def)
    then have flush: "dated env (?v\<lparr>m_last_flush := ?now, m_file := Some (append_file_flush f')\<rparr>)"
      by (intro small [where h = "append_file_flush f'"]) (use u in \<open>simp_all add: all_good_def opened_at_def append_file_flush_def\<close>)
    show ?thesis
      using t f(1) a False keep [of "m_cnt l + 1"] stay flush roll
      by (auto simp: log_file_append_def Let_def time_now_def bind_res_eq_Inr split: if_splits)
  qed
qed

lemma dated_puts: "dated env l \<Longrightarrow> puts log_file_append msgs l = Inr t \<Longrightarrow> dated env t"
proof (induction msgs arbitrary: l)
  case (Cons m msgs)
  then obtain u where "log_file_append m l = Inr u" "puts log_file_append msgs u = Inr t" by (auto simp: bind_res_eq_Inr)
  with Cons dated_append [of env l m u] show ?case by simp
qed simp

text \<open>The files can be opened and take what they are given.\<close>

definition files_work :: "log_file \<Rightarrow> bool" where
  "files_work l \<longleftrightarrow> (\<forall>a \<in> set (lf_fwrites l). a = Fw_All) \<and> (\<forall>n. lf_fopen l n)"

lemma new_log_file_law:
  assumes "files_work env" "0 < lf_clock env (lf_ticks env)"
  shows "\<exists>l. new_log_file env = Inr l \<and> dated env l \<and> log_bytes l = [] \<and> lf_fwrites l = lf_fwrites env \<and>
    (strict_mono (lf_clock env) \<and> 0 \<le> m_roll_size env \<longrightarrow> rolling M l)"
proof -
  let ?now = "lf_clock env (lf_ticks env)"
  let ?g = "\<lparr>m_fp = \<lparr>f_name = log_name env ?now, f_pending = [], f_disk = [], f_error = False\<rparr>, m_writed_bytes = 0\<rparr>"
  let ?l = "env\<lparr>m_cnt := 0, m_start_of_period := ?now sdiv kRollPerSeconds * kRollPerSeconds, m_last_roll := ?now, m_last_flush := ?now,
    m_file := Some ?g, lf_closed := [], lf_ticks := lf_ticks env + 1\<rparr>"
  have n: "new_log_file env = Inr ?l"
    using assms by (simp add: new_log_file_def rollFile_def getLogFileName_def time_now_def new_append_file_def files_work_def Let_def log_name_def)
  have good: "all_good ?l" using assms(1) by (simp add: files_work_def all_good_def)
  have "opened_at [?now] ?l" by (simp add: opened_at_def)
  moreover have "late_only ?l" by (simp add: late_only_def file_bytes_def)
  ultimately have "dated env ?l" using good by (auto simp: dated_def)
  moreover have "rolling M ?l" if "strict_mono (lf_clock env) \<and> 0 \<le> m_roll_size env"
  proof -
    have "?now < lf_clock env (Suc (lf_ticks env))" using that by (simp add: strict_mono_less)
    with that good show ?thesis by (simp add: rolling_def file_fits_def file_bytes_def)
  qed
  ultimately show ?thesis using n by (intro exI [of _ ?l]) (simp add: log_bytes_def file_bytes_def)
qed

subsection \<open>Properties\<close>

lemma append_file_prefix:
  assumes "append_file_append as msg f = Inr (as', f')"
  shows "\<exists>k \<le> length msg. file_bytes (m_fp f') = file_bytes (m_fp f) @ take k msg \<and>
    m_writed_bytes f' - m_writed_bytes f \<le> int k \<and> (k < length msg \<longrightarrow> f_error (m_fp f'))"
proof -
  from assms obtain w fp where a: "append_loop as msg 0 (m_fp f) = Inr (w, as', fp)"
    "f' = f\<lparr>m_fp := fp, m_writed_bytes := m_writed_bytes f + int w\<rparr>"
    by (auto simp: append_file_append_def bind_res_eq_Inr)
  from append_loop_prefix [OF a(1)] a(2) show ?thesis by (auto simp: seg_def)
qed

text \<open>\<open>AppendFile::append\<close> under any answers of \<open>fwrite\<close>. It hands over a prefix of the message, the
  whole of it unless the stream reports an error, and never counts more bytes than it handed over; but a
  stream that takes nothing and reports no error keeps it asking forever.\<close>

theorem append_file_any_answers:
  "(append_file_append as msg f = Inr (as', f') \<longrightarrow>
      (\<exists>k \<le> length msg. file_bytes (m_fp f') = file_bytes (m_fp f) @ take k msg \<and>
        m_writed_bytes f' - m_writed_bytes f \<le> int k \<and> (k < length msg \<longrightarrow> f_error (m_fp f')))) \<and>
   (msg \<noteq> [] \<and> \<not> f_error (m_fp f) \<longrightarrow>
      append_file_append (replicate n (Fw_Short 0 False)) msg f = Inl Script_Exhausted)"
  using append_file_prefix [of as msg f as' f'] append_loop_stuck [of 0 msg "m_fp f" n]
  by (auto simp: append_file_append_def)

definition demo_file :: append_file where
  "demo_file = \<lparr>m_fp = \<lparr>f_name = ''f'', f_pending = [], f_disk = [], f_error = False\<rparr>, m_writed_bytes = 0\<rparr>"

theorem append_file_any_answers_witness:
  "\<exists>r. append_file_append [Fw_Short 1 False, Fw_All] ''abc'' demo_file = Inr r \<and> file_bytes (m_fp (snd r)) = ''abc''"
proof -
  let ?f' = "\<lparr>m_fp = \<lparr>f_name = ''f'', f_pending = ''abc'', f_disk = [], f_error = False\<rparr>, m_writed_bytes = 3\<rparr>"
  have r: "append_file_append [Fw_Short 1 False, Fw_All] ''abc'' demo_file = Inr ([], ?f')"
    by (simp add: append_file_append_def demo_file_def append_loop.simps fwrite_def)
  from append_file_any_answers [of "[Fw_Short 1 False, Fw_All]" "''abc''" demo_file "[]" ?f' 0] r
  obtain k where "k \<le> 3" "file_bytes (m_fp ?f') = take k ''abc''" "k < 3 \<longrightarrow> f_error (m_fp ?f')"
    by (auto simp: demo_file_def file_bytes_def)
  then have "file_bytes (m_fp ?f') = ''abc''" by auto
  with r show ?thesis by (metis snd_conv)
qed

text \<open>C38: the log file keeps everything and rolls. A new log file that can open and write its files keeps all
  messages, in order, whatever the clock does. Its files were opened at strictly increasing times, from
  which they have their names, so no file is opened twice; the current one was opened at \<open>m_last_roll\<close>. It
  exceeds the roll size only while the clock has not passed the second in which it was opened: the reading
  that was to roll it was not later. If each reading of the clock is later than the one before, no closed
  file exceeds the roll size by more than one message and the current one does not exceed it.\<close>

theorem log_file_rolls:
  assumes "files_work env" "0 < lf_clock env (lf_ticks env)" "length (concat msgs) \<le> length (lf_fwrites env)"
  shows "\<exists>l t f ts. new_log_file env = Inr l \<and> puts log_file_append msgs l = Inr t \<and> m_file t = Some f \<and>
    log_bytes t = concat msgs \<and>
    map f_name (lf_closed t @ [m_fp f]) = map (log_name env) ts \<and> sorted_wrt (<) ts \<and> last ts = m_last_roll t \<and>
    (m_roll_size env < int (length (file_bytes (m_fp f))) \<longrightarrow> lf_clock env (lf_ticks t - 1) \<le> m_last_roll t) \<and>
    (strict_mono (lf_clock env) \<and> 0 \<le> m_roll_size env \<and> (\<forall>m \<in> set msgs. length m \<le> M) \<longrightarrow>
       (\<forall>c \<in> set (lf_closed t). int (length (file_bytes c)) \<le> m_roll_size env + int M) \<and>
       int (length (file_bytes (m_fp f))) \<le> m_roll_size env)"
proof -
  obtain l where l: "new_log_file env = Inr l" "dated env l" "log_bytes l = []" "lf_fwrites l = lf_fwrites env"
    "strict_mono (lf_clock env) \<and> 0 \<le> m_roll_size env \<Longrightarrow> rolling M l" using new_log_file_law [OF assms(1,2)] by blast
  have "log_room (length (concat msgs) + 0) l" using l(2,4) assms(3) by (simp add: log_room_def dated_def)
  from logf.puts_law [OF this] obtain t where t: "puts log_file_append msgs l = Inr t" "log_bytes t = log_bytes l @ concat msgs"
    by blast
  note d = dated_puts [OF l(2) t(1)]
  then obtain f ts where f: "m_file t = Some f" "opened_at ts t" by (auto simp: dated_def all_good_def)
  have e: "lf_clock t = lf_clock env" "log_name t = log_name env" "m_roll_size t = m_roll_size env" using d by (simp_all add: dated_def)
  have n: "map f_name (lf_closed t @ [m_fp f]) = map (log_name env) ts" "sorted_wrt (<) ts" "last ts = m_last_roll t"
    using f by (simp_all add: opened_at_def e(2))
  have c: "m_roll_size env < int (length (file_bytes (m_fp f))) \<longrightarrow> lf_clock env (lf_ticks t - 1) \<le> m_last_roll t"
    using d f(1) by (auto simp: dated_def late_only_def e)
  have r: "(\<forall>c \<in> set (lf_closed t). int (length (file_bytes c)) \<le> m_roll_size env + int M) \<and>
      int (length (file_bytes (m_fp f))) \<le> m_roll_size env"
    if "strict_mono (lf_clock env) \<and> 0 \<le> m_roll_size env \<and> (\<forall>m \<in> set msgs. length m \<le> M)"
  proof -
    have "rolling M t" using rolling_puts [OF l(5) _ t(1)] that by blast
    with f(1) e(3) show ?thesis by (auto simp: rolling_def file_fits_def)
  qed
  have "log_bytes t = concat msgs" using t(2) l(3) by simp
  with l(1) t(1) f(1) n c r show ?thesis by blast
qed

definition demo_log :: log_file where
  "demo_log = \<lparr>m_basename = ''log'', m_roll_size = 3, m_flush_interval = 3, m_check_every_N = 1024, m_cnt = 0,
     m_start_of_period = 0, m_last_roll = 0, m_last_flush = 0, m_file = Some demo_file, lf_closed = [],
     lf_fwrites = replicate 99 Fw_All, lf_clock = (\<lambda>n. int n + 1), lf_ticks = 0, lf_fopen = (\<lambda>_. True),
     lf_stamp = (\<lambda>_. []), lf_host = [], lf_pid = 1\<rparr>"

theorem log_file_rolls_witness:
  "\<exists>l t. new_log_file demo_log = Inr l \<and> puts log_file_append [''abcd'', ''ef''] l = Inr t \<and> log_bytes t = ''abcdef''"
proof -
  have "files_work demo_log" "0 < lf_clock demo_log (lf_ticks demo_log)" "length (concat [''abcd'', ''ef'']) \<le> length (lf_fwrites demo_log)"
    by (simp_all add: files_work_def demo_log_def)
  from log_file_rolls [OF this, of 4] show ?thesis by auto
qed

end
