(* ===== verification/AsyncLog.thy ===== *)
theory AsyncLog
  imports LogStream LogFile
begin

text \<open>
  The asynchronous log (base/AsyncLog.h, base/AsyncLog.cpp): a front end that any thread appends to under
  a mutex, and a thread that writes full buffers to the log file.

  \<open>async_log\<close> holds the shared members, \<open>log_thread\<close> the local variables of \<open>threadFunc\<close>. A moved-from
  or swapped-out \<open>unique_ptr\<close> is \<open>None\<close>. One turn of \<open>threadFunc\<close> is two steps, the exchange of buffers
  under the mutex and the writing outside of it; the step relation \<open>async_step\<close> interleaves them with
  appends, with a flush and with \<open>stop\<close>. Every byte appended is recorded in \<open>sent\<close>, a history variable.
\<close>

record async_log =
  m_running :: bool
  m_flush :: bool
  m_cur_buffer :: "fixed_buffer option"
  m_next_buffer :: "fixed_buffer option"
  m_buffers :: "fixed_buffer option list"

record log_thread =
  log_output :: log_file
  new_buffer_1 :: "fixed_buffer option"
  new_buffer_2 :: "fixed_buffer option"
  write_to_file :: "fixed_buffer option list"

definition new_buffer :: fixed_buffer where
  "new_buffer = new_fixed kLargerBufferSize"

definition new_async_log :: async_log where
  "new_async_log = \<lparr>m_running = False, m_flush = False, m_cur_buffer = Some new_buffer,
     m_next_buffer = Some new_buffer, m_buffers = []\<rparr>"

definition async_start :: "async_log \<Rightarrow> async_log" where
  "async_start a = a\<lparr>m_running := True\<rparr>"

definition async_stop :: "async_log \<Rightarrow> async_log" where
  "async_stop a = a\<lparr>m_running := False\<rparr>"

definition append_to :: "string \<Rightarrow> nat \<Rightarrow> async_log \<Rightarrow> async_log res" where
  "append_to msg len a =
     (case m_cur_buffer a of
        None \<Rightarrow> Inl Undefined_Behaviour
      | Some b \<Rightarrow> bind_res (fb_append msg len b) (\<lambda>b'. Inr (a\<lparr>m_cur_buffer := Some b'\<rparr>)))"

text \<open>
  \<open>append\<close>. When the current buffer is full and there is no next one, a new buffer becomes the next one
  and the current pointer, just moved away, stays null.
\<close>

definition async_append :: "string \<Rightarrow> nat \<Rightarrow> async_log \<Rightarrow> async_log res" where
  "async_append msg len a =
     (case m_cur_buffer a of
        None \<Rightarrow> Inl Undefined_Behaviour
      | Some b \<Rightarrow>
          if available b \<ge> len then append_to msg len a
          else
            let a1 = a\<lparr>m_buffers := m_buffers a @ [m_cur_buffer a], m_cur_buffer := None\<rparr>;
                a2 = (case m_next_buffer a1 of
                        None \<Rightarrow> a1\<lparr>m_next_buffer := Some new_buffer\<rparr>
                      | Some n \<Rightarrow> a1\<lparr>m_cur_buffer := Some n, m_next_buffer := m_cur_buffer a1\<rparr>)
            in append_to msg len a2)"

text \<open>The first step of \<open>flush\<close>, before it waits.\<close>

definition ask_flush :: "async_log \<Rightarrow> async_log" where
  "ask_flush a = a\<lparr>m_flush := True\<rparr>"

subsection \<open>The log thread\<close>

definition thread_locals :: "log_file \<Rightarrow> log_thread" where
  "thread_locals l = \<lparr>log_output = l, new_buffer_1 = Some new_buffer, new_buffer_2 = Some new_buffer, write_to_file = []\<rparr>"

text \<open>The beginning of \<open>threadFunc\<close>, from a record that holds the arguments of the log file and its environment.\<close>

definition thread_begin :: "log_file \<Rightarrow> log_thread res" where
  "thread_begin env = bind_res (new_log_file env) (\<lambda>l. Inr (thread_locals l))"

text \<open>The exchange of buffers, under the mutex.\<close>

definition exchange_buffers :: "async_log \<times> log_thread \<Rightarrow> async_log \<times> log_thread" where
  "exchange_buffers = (\<lambda>(a, t).
     let bs = m_buffers a @ [m_cur_buffer a];
         a1 = a\<lparr>m_cur_buffer := new_buffer_1 t, m_buffers := write_to_file t\<rparr>;
         t1 = t\<lparr>new_buffer_1 := None, write_to_file := bs\<rparr>
     in if m_next_buffer a1 = None then
          (a1\<lparr>m_next_buffer := new_buffer_2 t1\<rparr>, t1\<lparr>new_buffer_2 := m_next_buffer a1\<rparr>)
        else (a1, t1))"

definition drop_notice :: "string \<Rightarrow> nat \<Rightarrow> string" where
  "drop_notice time_stamp n =
     take 255 (''Dropped log message at '' @ time_stamp @ '', '' @ decimal n @ '' larger buffers'' @ [LF])"

definition drop_backlog :: "string \<Rightarrow> log_thread \<Rightarrow> log_thread res" where
  "drop_backlog time_stamp t =
     (if length (write_to_file t) > 20 then
        bind_res (log_file_append (c_str (drop_notice time_stamp (length (write_to_file t) - 2))) (log_output t)) (\<lambda>l.
        Inr (t\<lparr>log_output := l, write_to_file := take 2 (write_to_file t)\<rparr>))
      else Inr t)"

fun write_all :: "fixed_buffer option list \<Rightarrow> log_file \<Rightarrow> log_file res" where
  "write_all [] l = Inr l"
| "write_all (None # bs) l = Inl Undefined_Behaviour"
| "write_all (Some b # bs) l =
     (if fb_length b \<le> length (m_buf b) then bind_res (log_file_append (take (fb_length b) (m_buf b)) l) (write_all bs)
      else Inl Undefined_Behaviour)"

text \<open>Taking back the last written buffer, emptied.\<close>

definition take_back :: "fixed_buffer option list \<Rightarrow> (fixed_buffer \<times> fixed_buffer option list) res" where
  "take_back bs =
     (if bs = [] then Inl Undefined_Behaviour
      else case last bs of None \<Rightarrow> Inl Undefined_Behaviour | Some b \<Rightarrow> Inr (fb_reset b, butlast bs))"

definition recycle :: "log_thread \<Rightarrow> log_thread res" where
  "recycle t =
     bind_res (if new_buffer_1 t = None then
         bind_res (take_back (write_to_file t)) (\<lambda>(b, bs). Inr (t\<lparr>new_buffer_1 := Some b, write_to_file := bs\<rparr>))
       else Inr t) (\<lambda>t1.
     if new_buffer_2 t1 = None then
       bind_res (take_back (write_to_file t1)) (\<lambda>(b, bs). Inr (t1\<lparr>new_buffer_2 := Some b, write_to_file := bs\<rparr>))
     else Inr t1)"

definition write_buffers :: "string \<Rightarrow> log_thread \<Rightarrow> log_thread res" where
  "write_buffers time_stamp t =
     bind_res (drop_backlog time_stamp t) (\<lambda>t1.
     bind_res (write_all (write_to_file t1) (log_output t1)) (\<lambda>l.
     let t2 = t1\<lparr>log_output := l\<rparr>;
         t3 = (if length (write_to_file t2) > 2 then t2\<lparr>write_to_file := take 2 (write_to_file t2)\<rparr> else t2)
     in bind_res (recycle t3) (\<lambda>t4.
        let t5 = t4\<lparr>write_to_file := []\<rparr> in
        bind_res (log_file_flush (log_output t5)) (\<lambda>l'. Inr (t5\<lparr>log_output := l'\<rparr>)))))"

definition after_write :: "async_log \<Rightarrow> async_log" where
  "after_write a = (if m_flush a then a\<lparr>m_running := False\<rparr> else a)"

subsection \<open>Threads together\<close>

datatype log_pc = At_Top | In_Wait | Writing | Finished

text \<open>The caller of \<open>flush\<close>: before it, between its two statements, waiting, woken.\<close>

datatype flusher = Not_Asked | Asked | Waiting_Flush | Flushed

record async_state =
  shared :: async_log
  thread :: log_thread
  log_pc :: log_pc
  flush_pc :: flusher
  sent :: string

definition async_init :: "async_state \<Rightarrow> bool" where
  "async_init s \<longleftrightarrow> (\<exists>l. all_good l \<and> s = \<lparr>shared = async_start new_async_log, thread = thread_locals l, log_pc = At_Top,
     flush_pc = Not_Asked, sent = log_bytes l\<rparr>)"

definition with_exchange :: "async_state \<Rightarrow> async_state" where
  "with_exchange s =
     (case exchange_buffers (shared s, thread s) of (a, t) \<Rightarrow> s\<lparr>shared := a, thread := t, log_pc := Writing\<rparr>)"

inductive async_step :: "async_state \<Rightarrow> async_state \<Rightarrow> bool" where
  front_append: "async_append msg len (shared s) = Inr a \<Longrightarrow> strncpy_bytes len msg = Inr bytes \<Longrightarrow>
    async_step s (s\<lparr>shared := a, sent := sent s @ bytes\<rparr>)"
| flush_ask: "flush_pc s = Not_Asked \<Longrightarrow> async_step s (s\<lparr>shared := ask_flush (shared s), flush_pc := Asked\<rparr>)"
| flush_wait: "flush_pc s = Asked \<Longrightarrow> async_step s (s\<lparr>flush_pc := Waiting_Flush\<rparr>)"
| stop_step: "async_step s (s\<lparr>shared := async_stop (shared s)\<rparr>)"
| wait_step: "log_pc s = At_Top \<Longrightarrow> m_running (shared s) \<Longrightarrow> m_buffers (shared s) = [] \<Longrightarrow>
    async_step s (s\<lparr>log_pc := In_Wait\<rparr>)"
| exchange_now: "log_pc s = At_Top \<Longrightarrow> m_running (shared s) \<Longrightarrow> m_buffers (shared s) \<noteq> [] \<Longrightarrow>
    async_step s (with_exchange s)"
| exchange_woken: "log_pc s = In_Wait \<Longrightarrow> async_step s (with_exchange s)"
| write_step: "log_pc s = Writing \<Longrightarrow> write_buffers time_stamp (thread s) = Inr t \<Longrightarrow>
    async_step s (s\<lparr>shared := after_write (shared s), thread := t, log_pc := At_Top\<rparr>)"
| finish_step: "log_pc s = At_Top \<Longrightarrow> \<not> m_running (shared s) \<Longrightarrow> log_file_flush (log_output (thread s)) = Inr l \<Longrightarrow>
    async_step s (s\<lparr>thread := (thread s)\<lparr>log_output := l\<rparr>, log_pc := Finished,
      flush_pc := (if m_flush (shared s) \<and> flush_pc s = Waiting_Flush then Flushed else flush_pc s)\<rparr>)"

subsection \<open>The invariant\<close>

definition good_buffer :: "fixed_buffer option \<Rightarrow> bool" where
  "good_buffer p \<longleftrightarrow> (\<exists>b. p = Some b \<and> fb_ok b \<and> length (m_buf b) = kLargerBufferSize)"

definition empty_buffer :: "fixed_buffer option \<Rightarrow> bool" where
  "empty_buffer p \<longleftrightarrow> (\<exists>b. p = Some b \<and> fb_ok b \<and> length (m_buf b) = kLargerBufferSize \<and> logged b = [])"

definition buffer_text :: "fixed_buffer option \<Rightarrow> string" where
  "buffer_text p = (case p of None \<Rightarrow> [] | Some b \<Rightarrow> logged b)"

definition buffers_text :: "fixed_buffer option list \<Rightarrow> string" where
  "buffers_text ps = concat (map buffer_text ps)"

definition pending_text :: "async_log \<Rightarrow> string" where
  "pending_text a = buffers_text (m_buffers a) @ buffer_text (m_cur_buffer a)"

text \<open>The next buffer is used up exactly when one full buffer waits for the thread.\<close>

definition front_ok :: "async_log \<Rightarrow> bool" where
  "front_ok a \<longleftrightarrow> good_buffer (m_cur_buffer a) \<and>
     (empty_buffer (m_next_buffer a) \<and> m_buffers a = [] \<or>
      m_next_buffer a = None \<and> (\<exists>p. good_buffer p \<and> m_buffers a = [p]))"

definition idle_ok :: "log_thread \<Rightarrow> bool" where
  "idle_ok t \<longleftrightarrow> empty_buffer (new_buffer_1 t) \<and> empty_buffer (new_buffer_2 t) \<and> write_to_file t = []"

definition writing_ok :: "log_thread \<Rightarrow> bool" where
  "writing_ok t \<longleftrightarrow> new_buffer_1 t = None \<and>
     (empty_buffer (new_buffer_2 t) \<and> (\<exists>p. good_buffer p \<and> write_to_file t = [p]) \<or>
      new_buffer_2 t = None \<and> (\<exists>p q. good_buffer p \<and> good_buffer q \<and> write_to_file t = [p, q]))"

definition async_ok :: "async_state \<Rightarrow> bool" where
  "async_ok s \<longleftrightarrow> front_ok (shared s) \<and> all_good (log_output (thread s)) \<and>
     (if log_pc s = Writing then writing_ok (thread s) else idle_ok (thread s)) \<and>
     sent s = log_bytes (log_output (thread s)) @ buffers_text (write_to_file (thread s)) @ pending_text (shared s)"

lemmas buffer_defs = good_buffer_def empty_buffer_def buffer_text_def buffers_text_def

lemma kLarger_small [simp]: "kLargerBufferSize < 2147483648" "0 < kLargerBufferSize"
  by (simp_all add: kLargerBufferSize_def)

lemma empty_good: "empty_buffer p \<Longrightarrow> good_buffer p"
  by (auto simp: buffer_defs)

lemma empty_text [simp]: "empty_buffer p \<Longrightarrow> buffer_text p = []"
  by (auto simp: buffer_defs)

lemma new_buffer_empty [simp]: "empty_buffer (Some new_buffer)"
  using new_fixed_ok [of kLargerBufferSize] by (simp add: empty_buffer_def new_buffer_def) (simp add: new_fixed_def)

lemma fb_free_empty: "fb_ok b \<Longrightarrow> logged b = [] \<Longrightarrow> fb_free b = length (m_buf b)"
  using length_logged [of b] by (simp add: fb_free_def)

subsection \<open>The front end\<close>

lemma append_to_law:
  assumes "m_cur_buffer a = Some b" "fb_ok b" "length (m_buf b) = kLargerBufferSize" "len \<le> fb_free b"
    and "strncpy_bytes len msg = Inr bytes"
  shows "\<exists>c. append_to msg len a = Inr (a\<lparr>m_cur_buffer := Some c\<rparr>) \<and> fb_ok c \<and> length (m_buf c) = kLargerBufferSize \<and>
    logged c = logged b @ bytes \<and> fb_free c = fb_free b - len"
proof -
  have "fb_room len b" using assms by (simp add: fb_room_def)
  from fb_append_law [OF this assms(5)] show ?thesis using assms(1,3) by (auto simp: append_to_def)
qed

text \<open>The three cases of \<open>append\<close>: it fits, the next buffer is used up, there is no next buffer.\<close>

lemma async_append_fits:
  assumes "front_ok a" "m_cur_buffer a = Some b" "len \<le> fb_free b" "strncpy_bytes len msg = Inr bytes"
  shows "\<exists>c. async_append msg len a = Inr (a\<lparr>m_cur_buffer := Some c\<rparr>) \<and> front_ok (a\<lparr>m_cur_buffer := Some c\<rparr>) \<and>
    pending_text (a\<lparr>m_cur_buffer := Some c\<rparr>) = pending_text a @ bytes \<and> fb_free c = fb_free b - len"
proof -
  have b: "fb_ok b" "length (m_buf b) = kLargerBufferSize" using assms(1,2) by (auto simp: front_ok_def good_buffer_def)
  from append_to_law [OF assms(2) b assms(3,4)] obtain c where
    c: "append_to msg len a = Inr (a\<lparr>m_cur_buffer := Some c\<rparr>)" "fb_ok c" "length (m_buf c) = kLargerBufferSize"
      "logged c = logged b @ bytes" "fb_free c = fb_free b - len" by blast
  then have "front_ok (a\<lparr>m_cur_buffer := Some c\<rparr>)" "pending_text (a\<lparr>m_cur_buffer := Some c\<rparr>) = pending_text a @ bytes"
    using assms(1,2) by (auto simp: front_ok_def pending_text_def buffer_defs)
  with c b assms(2,3) show ?thesis by (auto simp: async_append_def)
qed

lemma async_append_switches:
  assumes "front_ok a" "m_cur_buffer a = Some b" "fb_free b < len" "m_next_buffer a \<noteq> None" "len \<le> kLargerBufferSize"
    and "strncpy_bytes len msg = Inr bytes"
  shows "\<exists>t. async_append msg len a = Inr t \<and> front_ok t \<and> pending_text t = pending_text a @ bytes \<and>
    m_next_buffer t = None \<and> m_running t = m_running a \<and> m_flush t = m_flush a \<and>
    (\<exists>c. m_cur_buffer t = Some c \<and> fb_free c = kLargerBufferSize - len)"
proof -
  obtain n where n: "m_next_buffer a = Some n" "fb_ok n" "length (m_buf n) = kLargerBufferSize" "logged n = []" "m_buffers a = []"
    using assms(1,4) by (auto simp: front_ok_def empty_buffer_def)
  have b: "fb_ok b" "good_buffer (Some b)" using assms(1,2) by (auto simp: front_ok_def good_buffer_def)
  let ?a = "a\<lparr>m_buffers := [Some b], m_cur_buffer := Some n, m_next_buffer := None\<rparr>"
  have "len \<le> fb_free n" using assms(5) n fb_free_empty by simp
  from append_to_law [of ?a n, OF _ n(2,3) this assms(6)] n(4) obtain c where
    c: "append_to msg len ?a = Inr (?a\<lparr>m_cur_buffer := Some c\<rparr>)" "fb_ok c" "length (m_buf c) = kLargerBufferSize"
      "logged c = bytes" "fb_free c = fb_free n - len" by auto
  have "async_append msg len a = append_to msg len ?a" using assms(2,3) b n by (simp add: async_append_def Let_def)
  moreover have "front_ok (?a\<lparr>m_cur_buffer := Some c\<rparr>)" using b c by (auto simp: front_ok_def good_buffer_def)
  moreover have "pending_text (?a\<lparr>m_cur_buffer := Some c\<rparr>) = pending_text a @ bytes"
    using assms(2) c n by (simp add: pending_text_def buffer_defs)
  ultimately show ?thesis using c n fb_free_empty [OF n(2,4)] by auto
qed

lemma async_append_null:
  assumes "front_ok a" "m_cur_buffer a = Some b" "fb_free b < len" "m_next_buffer a = None"
  shows "async_append msg len a = Inl Undefined_Behaviour"
  using assms by (auto simp: async_append_def append_to_def front_ok_def good_buffer_def Let_def)

lemma append_to_long:
  assumes "m_cur_buffer a = Some b" "fb_ok b" "length (m_buf b) < len"
  shows "append_to msg len a = Inl Undefined_Behaviour"
  using fb_append_overflow [of b len msg] assms by (simp add: append_to_def fb_free_def)

lemma async_append_long:
  assumes "front_ok a" "kLargerBufferSize < len"
  shows "async_append msg len a = Inl Undefined_Behaviour"
proof -
  obtain b where b: "m_cur_buffer a = Some b" "fb_ok b" "length (m_buf b) = kLargerBufferSize"
    using assms(1) by (auto simp: front_ok_def good_buffer_def)
  then have full: "fb_free b < len" using assms(2) by (simp add: fb_free_def)
  show ?thesis
  proof (cases "m_next_buffer a")
    case None
    with async_append_null [OF assms(1) b(1) full] show ?thesis by simp
  next
    case (Some n)
    then have "fb_ok n" "length (m_buf n) = kLargerBufferSize" using assms(1) by (auto simp: front_ok_def empty_buffer_def)
    with Some b full assms(2) show ?thesis by (simp add: async_append_def Let_def append_to_long)
  qed
qed

lemma async_append_law:
  assumes "front_ok a" "async_append msg len a = Inr t" "strncpy_bytes len msg = Inr bytes"
  shows "front_ok t \<and> pending_text t = pending_text a @ bytes \<and> m_running t = m_running a \<and> m_flush t = m_flush a"
proof -
  obtain b where b: "m_cur_buffer a = Some b" using assms(1) by (auto simp: front_ok_def good_buffer_def)
  show ?thesis
  proof (cases "len \<le> fb_free b")
    case True
    with async_append_fits [OF assms(1) b True assms(3)] assms(2) show ?thesis by auto
  next
    case False
    then have f: "fb_free b < len" by simp
    have "m_next_buffer a \<noteq> None" using async_append_null [OF assms(1) b f, of msg] assms(2) by auto
    moreover have "len \<le> kLargerBufferSize" using async_append_long [OF assms(1)] assms(2) by (metis Inl_Inr_False not_less)
    ultimately show ?thesis using async_append_switches [OF assms(1) b f _ _ assms(3)] assms(2) by auto
  qed
qed

definition front_room :: "nat \<Rightarrow> async_log \<Rightarrow> bool" where
  "front_room n a \<longleftrightarrow> front_ok a \<and> (\<exists>b. m_cur_buffer a = Some b \<and> n \<le> fb_free b)"

interpretation alog: byte_sink "\<lambda>s. async_append (s @ [NUL]) (length s)" front_room pending_text no_nul
proof
  fix xs n a
  assume a: "front_room (length xs + n) a" "no_nul xs"
  then obtain b where b: "front_ok a" "m_cur_buffer a = Some b" "length xs + n \<le> fb_free b" by (auto simp: front_room_def)
  then have "length xs \<le> fb_free b" by simp
  from async_append_fits [OF b(1,2) this strncpy_string [OF a(2)]] b(3)
  show "\<exists>t. async_append (xs @ [NUL]) (length xs) a = Inr t \<and> pending_text t = pending_text a @ xs \<and> front_room n t"
    by (auto simp: front_room_def)
qed

subsection \<open>The back end\<close>

lemma log_file_append_keeps:
  assumes "all_good l" "log_file_append msg l = Inr t"
  shows "log_bytes t = log_bytes l @ msg \<and> all_good t"
proof -
  obtain f where f: "m_file l = Some f" using assms(1) by (auto simp: all_good_def)
  with assms(2) obtain as f' where "append_file_append (lf_fwrites l) msg f = Inr (as, f')"
    by (auto simp: log_file_append_def bind_res_eq_Inr)
  from log_file_append_good [OF assms(1) f this] assms(2) show ?thesis by auto
qed

lemma log_file_flush_keeps: "all_good l \<Longrightarrow> log_file_flush l = Inr t \<Longrightarrow> log_bytes t = log_bytes l \<and> all_good t"
  by (auto simp: log_file_flush_def all_good_def log_bytes_def append_file_flush_def split: option.splits)

lemma write_all_keeps:
  "all_good l \<Longrightarrow> \<forall>p \<in> set bs. good_buffer p \<Longrightarrow> write_all bs l = Inr t \<Longrightarrow> log_bytes t = log_bytes l @ buffers_text bs \<and> all_good t"
proof (induction bs l rule: write_all.induct)
  case (3 b bs l)
  have b: "fb_ok b" using 3(3) by (simp add: good_buffer_def)
  then have d: "take (fb_length b) (m_buf b) = logged b" by (simp add: length_logged) (simp add: logged_def)
  with 3(4) b obtain u where u: "log_file_append (logged b) l = Inr u" "write_all bs u = Inr t"
    by (auto simp: bind_res_eq_Inr split: if_splits)
  from log_file_append_keeps [OF 3(2) u(1)] 3(1) [of u] 3(3,4) u d show ?case
    by (auto simp: buffer_defs split: if_splits)
qed (auto simp: buffer_defs)

lemma take_back_law: "good_buffer p \<Longrightarrow> \<exists>b. take_back (bs @ [p]) = Inr (b, bs) \<and> empty_buffer (Some b)"
  using fb_reset_ok by (auto simp: take_back_def buffer_defs)

lemma recycle_law:
  assumes "writing_ok t"
  shows "\<exists>u. recycle t = Inr u \<and> empty_buffer (new_buffer_1 u) \<and> empty_buffer (new_buffer_2 u) \<and> log_output u = log_output t"
proof -
  have n1: "new_buffer_1 t = None" using assms by (simp add: writing_ok_def)
  show ?thesis
  proof (cases "new_buffer_2 t")
    case (Some x)
    then obtain p where p: "good_buffer p" "write_to_file t = [] @ [p]" "empty_buffer (new_buffer_2 t)" using assms by (auto simp: writing_ok_def)
    from take_back_law [OF p(1), of "[]"] p n1 Some show ?thesis by (auto simp: recycle_def)
  next
    case None
    then obtain p q where p: "good_buffer p" "good_buffer q" "write_to_file t = [p] @ [q]" "write_to_file t \<noteq> []"
      using assms by (auto simp: writing_ok_def empty_buffer_def)
    from take_back_law [OF p(2), of "[p]"] take_back_law [OF p(1), of "[]"] p n1 None show ?thesis by (auto simp: recycle_def)
  qed
qed

lemma writing_small: "writing_ok t \<Longrightarrow> length (write_to_file t) \<le> 2 \<and> (\<forall>p \<in> set (write_to_file t). good_buffer p)"
  by (auto simp: writing_ok_def)

lemma write_buffers_eq:
  assumes "writing_ok t"
  shows "write_buffers ts t = bind_res (write_all (write_to_file t) (log_output t)) (\<lambda>l.
    bind_res (recycle (t\<lparr>log_output := l\<rparr>)) (\<lambda>u. bind_res (log_file_flush l) (\<lambda>l'.
      Inr (u\<lparr>write_to_file := [], log_output := l'\<rparr>))))"
proof -
  have r: "recycle (t\<lparr>log_output := l\<rparr>) = Inr u \<Longrightarrow> log_output u = l" for l u
    using recycle_law [of "t\<lparr>log_output := l\<rparr>"] assms by (auto simp: writing_ok_def)
  show ?thesis
    using writing_small [OF assms] r
    by (auto simp: write_buffers_def drop_backlog_def Let_def bind_res_def split: sum.splits)
qed

lemma write_buffers_law:
  assumes "writing_ok t" "all_good (log_output t)" "write_buffers ts t = Inr u"
  shows "idle_ok u \<and> all_good (log_output u) \<and> log_bytes (log_output u) = log_bytes (log_output t) @ buffers_text (write_to_file t)"
proof -
  from assms(3) obtain l v l' where w: "write_all (write_to_file t) (log_output t) = Inr l"
    "recycle (t\<lparr>log_output := l\<rparr>) = Inr v" "log_file_flush l = Inr l'" "u = v\<lparr>write_to_file := [], log_output := l'\<rparr>"
    unfolding write_buffers_eq [OF assms(1)] by (auto simp: bind_res_eq_Inr)
  have "\<forall>p \<in> set (write_to_file t). good_buffer p" using writing_small [OF assms(1)] by blast
  from write_all_keeps [OF assms(2) this w(1)] log_file_flush_keeps [OF _ w(3)] recycle_law [of "t\<lparr>log_output := l\<rparr>"] assms(1) w(2,4)
  show ?thesis by (auto simp: writing_ok_def idle_ok_def)
qed

lemma exchange_law:
  assumes "front_ok a" "idle_ok t"
  shows "\<exists>b u. exchange_buffers (a, t) = (b, u) \<and> front_ok b \<and> writing_ok u \<and> log_output u = log_output t \<and>
    m_running b = m_running a \<and> m_flush b = m_flush a \<and>
    pending_text b = [] \<and> buffers_text (write_to_file u) = pending_text a"
  using assms
  by (auto simp: exchange_buffers_def Let_def front_ok_def idle_ok_def writing_ok_def pending_text_def empty_good)
     (auto simp: buffer_defs)

text \<open>The thread begins with an empty log file, on a disk that works and a clock past the epoch.\<close>

lemma thread_begin_law:
  assumes "\<forall>n. lf_fopen env n" "\<forall>a \<in> set (lf_fwrites env). a = Fw_All" "0 < lf_clock env (lf_ticks env)"
  shows "\<exists>l. thread_begin env = Inr (thread_locals l) \<and> all_good l \<and> log_bytes l = []"
  using assms
  by (auto simp: thread_begin_def new_log_file_def rollFile_def getLogFileName_def time_now_def new_append_file_def Let_def
      all_good_def log_bytes_def file_bytes_def)

subsection \<open>The invariant holds in every interleaving\<close>

lemma async_init_ok: "async_init s \<Longrightarrow> async_ok s"
  by (auto simp: async_init_def async_ok_def front_ok_def async_start_def new_async_log_def idle_ok_def thread_locals_def
      pending_text_def empty_good) (simp add: buffers_text_def)

lemma with_exchange_ok:
  assumes "async_ok s" "log_pc s \<noteq> Writing"
  shows "async_ok (with_exchange s)"
proof -
  from assms have i: "idle_ok (thread s)" "front_ok (shared s)" by (simp_all add: async_ok_def)
  from exchange_law [OF i(2,1)] obtain b u where "exchange_buffers (shared s, thread s) = (b, u)" "front_ok b" "writing_ok u"
    "log_output u = log_output (thread s)" "pending_text b = []" "buffers_text (write_to_file u) = pending_text (shared s)" by blast
  with assms i show ?thesis by (simp add: with_exchange_def async_ok_def idle_ok_def buffers_text_def)
qed

lemma async_step_ok: "async_step s t \<Longrightarrow> async_ok s \<Longrightarrow> async_ok t"
proof (induction rule: async_step.induct)
  case (front_append msg len s a bytes)
  from async_append_law [OF _ front_append(1,2)] front_append(3) show ?case by (simp add: async_ok_def)
next
  case (flush_ask s)
  then show ?case by (simp add: async_ok_def ask_flush_def front_ok_def pending_text_def)
next
  case (flush_wait s)
  then show ?case by (simp add: async_ok_def)
next
  case (stop_step s)
  then show ?case by (simp add: async_ok_def async_stop_def front_ok_def pending_text_def)
next
  case (wait_step s)
  then show ?case by (simp add: async_ok_def)
next
  case (exchange_now s)
  then show ?case by (simp add: with_exchange_ok)
next
  case (exchange_woken s)
  then show ?case by (simp add: with_exchange_ok)
next
  case (write_step s time_stamp t)
  then have w: "writing_ok (thread s)" "all_good (log_output (thread s))" by (simp_all add: async_ok_def)
  from write_buffers_law [OF w write_step(2)] have u: "idle_ok t" "all_good (log_output t)"
    "log_bytes (log_output t) = log_bytes (log_output (thread s)) @ buffers_text (write_to_file (thread s))" by simp_all
  have "front_ok (after_write (shared s)) = front_ok (shared s)" "pending_text (after_write (shared s)) = pending_text (shared s)"
    by (simp_all add: after_write_def front_ok_def pending_text_def)
  with write_step(3) u show ?case by (simp add: async_ok_def idle_ok_def buffers_text_def)
next
  case (finish_step s l)
  then have "all_good (log_output (thread s))" by (simp add: async_ok_def)
  from log_file_flush_keeps [OF this finish_step(3)] finish_step(1,4) show ?case by (simp add: async_ok_def idle_ok_def)
qed

interpretation alog_run: safety_machine async_init async_step async_ok
  by unfold_locales (auto intro: async_init_ok async_step_ok)

lemma exchange_step: "log_pc s \<in> {At_Top, In_Wait} \<Longrightarrow> m_running (shared s) \<Longrightarrow> async_step\<^sup>*\<^sup>* s (with_exchange s)"
proof -
  assume a: "log_pc s \<in> {At_Top, In_Wait}" "m_running (shared s)"
  show ?thesis
  proof (cases "log_pc s = In_Wait")
    case True
    then show ?thesis by (intro r_into_rtranclp exchange_woken)
  next
    case False
    then have top: "log_pc s = At_Top" using a by auto
    show ?thesis
    proof (cases "m_buffers (shared s) = []")
      case False
      then show ?thesis using exchange_now [OF top a(2)] by blast
    next
      case True
      let ?t = "s\<lparr>log_pc := In_Wait\<rparr>"
      have "async_step s ?t" using wait_step [OF top a(2) True] .
      moreover have "async_step ?t (with_exchange ?t)" by (rule exchange_woken) simp
      moreover have "with_exchange ?t = with_exchange s" by (simp add: with_exchange_def split: prod.splits)
      ultimately show ?thesis by (metis rtranclp.rtrancl_into_rtrancl r_into_rtranclp)
    qed
  qed
qed

lemma reach_star: "reach init step s \<Longrightarrow> step\<^sup>*\<^sup>* s t \<Longrightarrow> reach init step t"
  by (rotate_tac, induction rule: rtranclp_induct) (auto intro: reach_step)

text \<open>Writing succeeds while the disk does.\<close>

definition disk_room :: "nat \<Rightarrow> async_state \<Rightarrow> bool" where
  "disk_room n s \<longleftrightarrow> log_room n (log_output (thread s))"

lemma write_all_room:
  "log_room (length (buffers_text bs) + n) l \<Longrightarrow> \<forall>p \<in> set bs. good_buffer p \<Longrightarrow> \<exists>t. write_all bs l = Inr t \<and> log_room n t"
proof (induction bs l rule: write_all.induct)
  case (3 b bs l)
  have b: "fb_ok b" using 3(3) by (simp add: good_buffer_def)
  then have d: "take (fb_length b) (m_buf b) = logged b" "fb_length b \<le> length (m_buf b)"
    by (auto simp: length_logged) (auto simp: logged_def fb_ok_def)
  have "log_room (length (logged b) + (length (buffers_text bs) + n)) l" using 3(2) by (simp add: buffer_defs add.assoc)
  from logf.put_law [OF this] obtain u where "log_file_append (logged b) l = Inr u" "log_room (length (buffers_text bs) + n) u"
    by blast
  with 3(1) [OF d(2), of u] 3(3) d show ?case by simp
qed (auto simp: buffer_defs)

lemma write_buffers_room:
  assumes "writing_ok t" "log_room (length (buffers_text (write_to_file t)) + n) (log_output t)"
  shows "\<exists>u. write_buffers ts t = Inr u \<and> log_room n (log_output u)"
proof -
  have "\<forall>p \<in> set (write_to_file t). good_buffer p" using writing_small [OF assms(1)] by blast
  from write_all_room [OF assms(2) this] obtain l where l: "write_all (write_to_file t) (log_output t) = Inr l" "log_room n l" by blast
  have "writing_ok (t\<lparr>log_output := l\<rparr>)" using assms(1) by (simp add: writing_ok_def)
  from recycle_law [OF this] obtain v where v: "recycle (t\<lparr>log_output := l\<rparr>) = Inr v" by blast
  obtain f where f: "m_file l = Some f" using l(2) by (auto simp: log_room_def all_good_def)
  show ?thesis unfolding write_buffers_eq [OF assms(1)]
    using l v f by (auto simp: log_file_flush_def log_room_def all_good_def)
qed

definition all_flushed :: "log_file \<Rightarrow> bool" where
  "all_flushed l \<longleftrightarrow> (\<exists>f. m_file l = Some f \<and> f_pending (m_fp f) = [])"

lemma write_buffers_flushed: "writing_ok t \<Longrightarrow> write_buffers ts t = Inr u \<Longrightarrow> all_flushed (log_output u)"
  by (auto simp: write_buffers_eq bind_res_eq_Inr all_flushed_def log_file_flush_def append_file_flush_def fflush_def
      split: option.splits)

text \<open>The two halves of a turn.\<close>

lemma with_exchange_law:
  assumes "async_ok s" "log_pc s \<in> {At_Top, In_Wait}" "m_running (shared s)" "t = with_exchange s"
  shows "async_step\<^sup>*\<^sup>* s t" "log_pc t = Writing" "sent t = sent s" "flush_pc t = flush_pc s" "m_running (shared t)"
    "m_flush (shared t) = m_flush (shared s)" "log_output (thread t) = log_output (thread s)" "pending_text (shared t) = []"
    "buffers_text (write_to_file (thread t)) = pending_text (shared s)"
proof -
  have i: "front_ok (shared s)" "idle_ok (thread s)" using assms by (auto simp: async_ok_def)
  from exchange_law [OF this] assms show "log_pc t = Writing" "sent t = sent s" "flush_pc t = flush_pc s" "m_running (shared t)"
    "m_flush (shared t) = m_flush (shared s)" "log_output (thread t) = log_output (thread s)" "pending_text (shared t) = []"
    "buffers_text (write_to_file (thread t)) = pending_text (shared s)" by (auto simp: with_exchange_def)
  show "async_step\<^sup>*\<^sup>* s t" using exchange_step assms(2-4) by simp
qed

lemma write_half:
  assumes "async_ok s" "log_pc s = Writing" "log_room (length (buffers_text (write_to_file (thread s)))) (log_output (thread s))"
  shows "\<exists>t. async_step s t \<and> log_pc t = At_Top \<and> shared t = after_write (shared s) \<and> flush_pc t = flush_pc s \<and> sent t = sent s \<and>
    log_bytes (log_output (thread t)) = log_bytes (log_output (thread s)) @ buffers_text (write_to_file (thread s)) \<and>
    all_flushed (log_output (thread t))"
proof -
  have w: "writing_ok (thread s)" "all_good (log_output (thread s))" using assms by (auto simp: async_ok_def)
  from write_buffers_room [OF w(1), of 0 "[]"] assms(3) obtain u where u: "write_buffers [] (thread s) = Inr u" by auto
  from write_step [OF assms(2) u] write_buffers_law [OF w u] write_buffers_flushed [OF w(1) u] show ?thesis by fastforce
qed

lemma finish_half:
  assumes "async_ok s" "log_pc s = At_Top" "\<not> m_running (shared s)"
  shows "\<exists>t. async_step s t \<and> log_pc t = Finished \<and> shared t = shared s \<and> sent t = sent s \<and>
    log_bytes (log_output (thread t)) = log_bytes (log_output (thread s)) \<and>
    flush_pc t = (if m_flush (shared s) \<and> flush_pc s = Waiting_Flush then Flushed else flush_pc s)"
proof -
  have g: "all_good (log_output (thread s))" using assms by (simp add: async_ok_def)
  then obtain l where l: "log_file_flush (log_output (thread s)) = Inr l" by (auto simp: all_good_def log_file_flush_def)
  from finish_step [OF assms(2,3) l] log_file_flush_keeps [OF g l] show ?thesis by fastforce
qed

lemma turn_writes:
  assumes "async_ok s" "log_pc s \<in> {At_Top, In_Wait}" "m_running (shared s)"
    and "log_room (length (pending_text (shared s))) (log_output (thread s))"
  shows "\<exists>t. async_step\<^sup>*\<^sup>* s t \<and> log_pc t = At_Top \<and> sent t = sent s \<and> log_bytes (log_output (thread t)) = sent s \<and>
    all_flushed (log_output (thread t)) \<and> pending_text (shared t) = []"
proof -
  let ?u = "with_exchange s"
  note u = with_exchange_law [OF assms(1-3) refl]
  have ok: "async_ok ?u" using assms by (intro with_exchange_ok) auto
  from write_half [OF ok u(2)] u assms(4) obtain t where t: "async_step ?u t" "log_pc t = At_Top"
    "shared t = after_write (shared ?u)" "sent t = sent s"
    "log_bytes (log_output (thread t)) = log_bytes (log_output (thread s)) @ pending_text (shared s)"
    "all_flushed (log_output (thread t))" by auto
  have "sent s = log_bytes (log_output (thread s)) @ pending_text (shared s)"
    using assms(1,2) by (auto simp: async_ok_def idle_ok_def buffers_text_def)
  moreover have "pending_text (shared t) = []" using t(3) u(8) by (simp add: after_write_def pending_text_def)
  ultimately show ?thesis using t u(1) by (intro exI [of _ t]) auto
qed

definition demo_async :: async_state where
  "demo_async = \<lparr>shared = async_start new_async_log, thread = thread_locals demo_log, log_pc = At_Top,
     flush_pc = Not_Asked, sent = []\<rparr>"

lemma demo_log_good: "all_good demo_log" "log_bytes demo_log = []" "length (lf_fwrites demo_log) = 99"
  by (simp_all add: demo_log_def all_good_def log_bytes_def demo_file_def file_bytes_def)

lemma demo_async_init: "async_init demo_async"
  using demo_log_good by (auto simp: async_init_def demo_async_def)

lemma demo_async_reach: "reach async_init async_step demo_async"
  by (rule reach_init) (rule demo_async_init)

lemma init_room:
  assumes "async_init s"
  shows "front_room kLargerBufferSize (shared s)" "m_next_buffer (shared s) = Some new_buffer" "pending_text (shared s) = []"
    "log_pc s = At_Top" "m_running (shared s)" "\<not> m_flush (shared s)" "flush_pc s = Not_Asked" "sent s = log_bytes (log_output (thread s))"
proof -
  have "async_ok s" using assms by (rule async_init_ok)
  then show "front_room kLargerBufferSize (shared s)" "m_next_buffer (shared s) = Some new_buffer" "pending_text (shared s) = []"
    "log_pc s = At_Top" "m_running (shared s)" "\<not> m_flush (shared s)" "flush_pc s = Not_Asked" "sent s = log_bytes (log_output (thread s))"
    using assms new_fixed_ok [of kLargerBufferSize]
    by (auto simp: async_init_def async_start_def new_async_log_def front_room_def async_ok_def pending_text_def buffers_text_def
        thread_locals_def new_buffer_def buffer_text_def)
qed

text \<open>Two buffers full of messages without a turn in between, and one more byte.\<close>

lemma overrun:
  assumes "async_init s" "m = replicate kLargerBufferSize CHR ''m''"
  shows "\<exists>a b. async_append (m @ [NUL]) kLargerBufferSize (shared s) = Inr a \<and>
    async_append (m @ [NUL]) kLargerBufferSize a = Inr b \<and> async_append ''x'' 1 b = Inl Undefined_Behaviour"
proof -
  have m: "length m = kLargerBufferSize" "strncpy_bytes kLargerBufferSize (m @ [NUL]) = Inr m"
    using assms(2) strncpy_string [of m] by (simp_all add: no_nul_def)
  obtain x where x: "front_ok (shared s)" "m_cur_buffer (shared s) = Some x" "kLargerBufferSize \<le> fb_free x"
    "fb_free x = kLargerBufferSize"
    using init_room(1) [OF assms(1)] by (auto simp: front_room_def front_ok_def good_buffer_def fb_free_def)
  from async_append_fits [OF x(1-3) m(2)] x(4) obtain c where
    c: "async_append (m @ [NUL]) kLargerBufferSize (shared s) = Inr ((shared s)\<lparr>m_cur_buffer := Some c\<rparr>)"
      "front_ok ((shared s)\<lparr>m_cur_buffer := Some c\<rparr>)" "fb_free c = 0" by auto
  have "m_next_buffer ((shared s)\<lparr>m_cur_buffer := Some c\<rparr>) \<noteq> None" "fb_free c < kLargerBufferSize"
    using init_room(2) [OF assms(1)] c(3) by simp_all
  from async_append_switches [OF c(2) _ this(2,1) order_refl m(2)] obtain b y where
    b: "async_append (m @ [NUL]) kLargerBufferSize ((shared s)\<lparr>m_cur_buffer := Some c\<rparr>) = Inr b"
      "front_ok b" "m_next_buffer b = None" "m_cur_buffer b = Some y" "fb_free y = 0" by auto
  from async_append_null [OF b(2,4) _ b(3), of 1 "''x''"] b(5) c(1) b(1) show ?thesis by auto
qed

text \<open>A line that arrives while the thread writes, and the flush after it.\<close>

lemma lost_line:
  assumes "all_good l" "no_nul line" "length line \<le> kLargerBufferSize"
  shows "\<exists>t. reach async_init async_step t \<and> log_pc t = Finished \<and> flush_pc t = Flushed \<and>
    sent t = log_bytes l @ line \<and> log_bytes (log_output (thread t)) = log_bytes l"
proof -
  let ?s = "\<lparr>shared = async_start new_async_log, thread = thread_locals l, log_pc = At_Top, flush_pc = Not_Asked, sent = log_bytes l\<rparr>"
  have init: "async_init ?s" using assms(1) by (auto simp: async_init_def)
  note i = init_room [OF init] async_init_ok [OF init]
  define u where "u = with_exchange ?s"
  have u0: "log_pc ?s \<in> {At_Top, In_Wait}" "m_running (shared ?s)" by (simp_all add: async_start_def)
  note u = with_exchange_law [OF i(9) u0 u_def]
  have R: "reach async_init async_step u" using reach_star [OF reach_init [of async_init, OF init] u(1)] .
  then have uok: "async_ok u" by (rule alog_run.reach_inv)
  have fu: "m_cur_buffer (shared u) = Some new_buffer"
    by (simp add: u_def with_exchange_def exchange_buffers_def async_start_def new_async_log_def thread_locals_def Let_def)
  have "fb_free new_buffer = kLargerBufferSize" using new_fixed_ok [of kLargerBufferSize] by (simp add: new_buffer_def)
  then have "length line \<le> fb_free new_buffer" using assms(3) by simp
  from async_append_fits [OF _ fu this strncpy_string [OF assms(2)]] uok obtain a where
    a: "async_append (line @ [NUL]) (length line) (shared u) = Inr a"
    by (auto simp: async_ok_def)
  define v where "v = u\<lparr>shared := a, sent := sent u @ line\<rparr>"
  define w where "w = v\<lparr>shared := ask_flush (shared v), flush_pc := Asked\<rparr>"
  define x where "x = w\<lparr>flush_pc := Waiting_Flush\<rparr>"
  have "async_step u v" unfolding v_def by (rule front_append [OF a strncpy_string [OF assms(2)]])
  then have R2: "reach async_init async_step v" by (rule reach_step [OF R])
  have "async_step v w" unfolding w_def by (rule flush_ask) (simp add: v_def u(4))
  then have R3: "reach async_init async_step w" by (rule reach_step [OF R2])
  have "async_step w x" unfolding x_def by (rule flush_wait) (simp add: w_def)
  then have R4: "reach async_init async_step x" by (rule reach_step [OF R3])
  then have xok: "async_ok x" by (rule alog_run.reach_inv)
  have wx: "buffers_text (write_to_file (thread x)) = []" "log_output (thread x) = l" "log_pc x = Writing"
    "flush_pc x = Waiting_Flush" "sent x = log_bytes l @ line" "m_flush (shared x)"
    using u(2,3,7,9) i(3) by (simp_all add: x_def w_def v_def thread_locals_def ask_flush_def)
  have "log_room (length (buffers_text (write_to_file (thread x)))) (log_output (thread x))"
    using wx assms(1) by (simp add: log_room_def)
  from write_half [OF xok wx(3) this] wx obtain y where y: "async_step x y" "log_pc y = At_Top"
    "shared y = after_write (shared x)" "flush_pc y = Waiting_Flush" "sent y = log_bytes l @ line"
    "log_bytes (log_output (thread y)) = log_bytes l"
    by auto
  have R5: "reach async_init async_step y" using reach_step [OF R4 y(1)] .
  have ny: "\<not> m_running (shared y)" "m_flush (shared y)" using y(3) wx(6) by (simp_all add: after_write_def)
  from finish_half [OF alog_run.reach_inv [OF R5] y(2) ny(1)] obtain z where
    z: "async_step y z" "log_pc z = Finished" "sent z = sent y" "log_bytes (log_output (thread z)) = log_bytes (log_output (thread y))"
      "flush_pc z = Flushed" using ny(2) y(4) by auto
  show ?thesis using reach_step [OF R5 z(1)] z y by (intro exI [of _ z]) simp
qed

lemma finished_stays: "async_step s t \<Longrightarrow> log_pc s = Finished \<and> flush_pc s = Waiting_Flush \<Longrightarrow>
    log_pc t = Finished \<and> flush_pc t = Waiting_Flush"
  by (induction rule: async_step.induct) simp_all

lemma waits_forever: "async_step\<^sup>*\<^sup>* s t \<Longrightarrow> log_pc s = Finished \<and> flush_pc s = Waiting_Flush \<Longrightarrow>
    log_pc t = Finished \<and> flush_pc t = Waiting_Flush"
  by (induction rule: rtranclp_induct) (auto dest: finished_stays)

text \<open>The log thread signals before the caller of \<open>flush\<close> waits.\<close>

lemma missed_signal:
  assumes "all_good l"
  shows "\<exists>t. reach async_init async_step t \<and> log_pc t = Finished \<and> flush_pc t = Waiting_Flush"
proof -
  let ?s = "\<lparr>shared = async_start new_async_log, thread = thread_locals l, log_pc = At_Top, flush_pc = Not_Asked, sent = log_bytes l\<rparr>"
  have init: "async_init ?s" using assms by (auto simp: async_init_def)
  define u where "u = ?s\<lparr>shared := ask_flush (shared ?s), flush_pc := Asked\<rparr>"
  have "async_step ?s u" unfolding u_def by (rule flush_ask) simp
  then have R: "reach async_init async_step u" by (rule reach_step [OF reach_init [of async_init, OF init]])
  then have ok: "async_ok u" by (rule alog_run.reach_inv)
  have u0: "log_pc u \<in> {At_Top, In_Wait}" "m_running (shared u)" "m_flush (shared u)" "flush_pc u = Asked"
    "pending_text (shared u) = []" "log_output (thread u) = l"
    using init_room(3) [OF init] by (simp_all add: u_def ask_flush_def async_start_def pending_text_def thread_locals_def)
  define x where "x = with_exchange u"
  note x = with_exchange_law [OF ok u0(1,2) x_def]
  have R2: "reach async_init async_step x" using reach_star [OF R x(1)] .
  have "log_room (length (buffers_text (write_to_file (thread x)))) (log_output (thread x))"
    using x(7,9) u0(5,6) assms by (simp add: log_room_def)
  from write_half [OF alog_run.reach_inv [OF R2] x(2) this] x(4,6) u0(3,4) obtain y where
    y: "async_step x y" "log_pc y = At_Top" "\<not> m_running (shared y)" "flush_pc y = Asked" by (auto simp: after_write_def)
  have R3: "reach async_init async_step y" using reach_step [OF R2 y(1)] .
  from finish_half [OF alog_run.reach_inv [OF R3] y(2,3)] y(4) obtain z where
    z: "async_step y z" "log_pc z = Finished" "flush_pc z = Asked" by auto
  have "reach async_init async_step (z\<lparr>flush_pc := Waiting_Flush\<rparr>)"
    using reach_step [OF reach_step [OF R3 z(1)] flush_wait [OF z(3)]] .
  then show ?thesis using z(2) by (intro exI [of _ "z\<lparr>flush_pc := Waiting_Flush\<rparr>"]) simp
qed

subsection \<open>Properties\<close>

text \<open>C15: no interleaving loses, repeats or reorders a logged byte, as long as the files of the log can be opened and
  written (\<open>async_init\<close>: every \<open>fopen\<close> succeeds and every \<open>fwrite\<close> takes all; what an error loses is in theory
  LogFile). In every reachable state of the front ends, the log thread, a flush and a stop, the bytes appended so far are those in the log files, then
  those the thread is writing, then those of the full and of the current buffer; the thread never holds
  more than two buffers, so the branch that drops a backlog of more than twenty is dead code.\<close>

theorem log_bytes_conserved:
  assumes "reach async_init async_step s"
  shows "sent s = log_bytes (log_output (thread s)) @ buffers_text (write_to_file (thread s)) @ pending_text (shared s) \<and>
    length (write_to_file (thread s)) \<le> 2 \<and> drop_backlog ts (thread s) = Inr (thread s)"
proof -
  have ok: "async_ok s" using assms by (rule alog_run.reach_inv)
  then have "length (write_to_file (thread s)) \<le> 2"
    using writing_small [of "thread s"] by (auto simp: async_ok_def idle_ok_def split: if_splits)
  with ok show ?thesis by (simp add: async_ok_def drop_backlog_def)
qed

theorem log_bytes_conserved_witness:
  "\<exists>a. async_append ''ab'' 2 (shared demo_async) = Inr a \<and> pending_text a = ''ab''"
proof -
  have "front_room kLargerBufferSize (shared demo_async)" by (rule init_room(1) [OF demo_async_init])
  then obtain b where b: "front_ok (shared demo_async)" "m_cur_buffer (shared demo_async) = Some b" "kLargerBufferSize \<le> fb_free b"
    by (auto simp: front_room_def)
  have n: "strncpy_bytes 2 ''ab'' = Inr ''ab''" by (simp add: strncpy_bytes_def c_str_def)
  have "2 \<le> fb_free b" using b(3) by (simp add: kLargerBufferSize_def)
  from async_append_fits [OF b(1,2) this n] obtain c where
    a: "async_append ''ab'' 2 (shared demo_async) = Inr ((shared demo_async)\<lparr>m_cur_buffer := Some c\<rparr>)" by blast
  define t where "t = demo_async\<lparr>shared := (shared demo_async)\<lparr>m_cur_buffer := Some c\<rparr>, sent := sent demo_async @ ''ab''\<rparr>"
  have "async_step demo_async t" unfolding t_def by (rule front_append [OF a n])
  then have "reach async_init async_step t" by (rule reach_step [OF demo_async_reach])
  from log_bytes_conserved [OF this, of "[]"] demo_log_good(2) have "pending_text (shared t) = ''ab''"
    by (simp add: t_def demo_async_def thread_locals_def buffers_text_def)
  with a show ?thesis by (simp add: t_def)
qed

text \<open>A turn of the log thread brings everything to the disk. From every reachable state in which the
  thread is at the top of its loop or waits, while the log runs and the writes succeed, its next exchange
  and writing leave every byte appended so far in the log file, flushed, and nothing in the buffers.\<close>

theorem log_turn_complete:
  assumes "reach async_init async_step s" "log_pc s \<in> {At_Top, In_Wait}" "m_running (shared s)"
    and "log_room (length (pending_text (shared s))) (log_output (thread s))"
  shows "\<exists>t. async_step\<^sup>*\<^sup>* s t \<and> log_pc t = At_Top \<and> sent t = sent s \<and> log_bytes (log_output (thread t)) = sent s \<and>
    all_flushed (log_output (thread t)) \<and> pending_text (shared t) = []"
  using turn_writes [OF alog_run.reach_inv [OF assms(1)] assms(2-4)] .

theorem log_turn_complete_witness:
  "\<exists>t. async_step\<^sup>*\<^sup>* demo_async t \<and> log_pc t = At_Top \<and> all_flushed (log_output (thread t))"
proof -
  have "log_pc demo_async \<in> {At_Top, In_Wait}" "m_running (shared demo_async)"
    "log_room (length (pending_text (shared demo_async))) (log_output (thread demo_async))"
    using init_room(3) [OF demo_async_init] demo_log_good
    by (simp_all add: log_room_def) (simp_all add: demo_async_def async_start_def thread_locals_def)
  from log_turn_complete [OF demo_async_reach this] show ?thesis by blast
qed

text \<open>C16: exactly when \<open>append\<close> goes through a null pointer or past a buffer. In every reachable state a
  message the buffers can hold is undefined behaviour exactly when it does not fit the current buffer and
  the next one is used up, one longer than a buffer always; so a log that fills two buffers within one
  turn of its thread brings the server down.\<close>

theorem append_overruns:
  assumes "reach async_init async_step s" "m_cur_buffer (shared s) = Some b" "strncpy_bytes len msg = Inr bytes"
  shows "(async_append msg len (shared s) = Inl Undefined_Behaviour \<longleftrightarrow>
      fb_free b < len \<and> (m_next_buffer (shared s) = None \<or> kLargerBufferSize < len)) \<and>
    (async_init s \<longrightarrow> (\<exists>m u v. length m = kLargerBufferSize \<and> async_append (m @ [NUL]) kLargerBufferSize (shared s) = Inr u \<and>
      async_append (m @ [NUL]) kLargerBufferSize u = Inr v \<and> async_append ''x'' 1 v = Inl Undefined_Behaviour))"
proof -
  have f: "front_ok (shared s)" using alog_run.reach_inv [OF assms(1)] by (simp add: async_ok_def)
  then have b: "fb_ok b" "length (m_buf b) = kLargerBufferSize" using assms(2) by (auto simp: front_ok_def good_buffer_def)
  have "async_append msg len (shared s) = Inl Undefined_Behaviour \<longleftrightarrow>
      fb_free b < len \<and> (m_next_buffer (shared s) = None \<or> kLargerBufferSize < len)"
  proof (cases "fb_free b < len")
    case False
    with async_append_fits [OF f assms(2) _ assms(3)] show ?thesis by auto
  next
    case full: True
    show ?thesis
    proof (cases "m_next_buffer (shared s) = None \<or> kLargerBufferSize < len")
      case True
      with async_append_null [OF f assms(2) full, of msg] async_append_long [OF f, of len msg] full show ?thesis by blast
    next
      case False
      with async_append_switches [OF f assms(2) full _ _ assms(3)] show ?thesis by auto
    qed
  qed
  with overrun [of s "replicate kLargerBufferSize CHR ''m''", OF _ refl] show ?thesis
    by (metis length_replicate)
qed

theorem append_overruns_witness:
  "async_append ''x'' 1 (shared demo_async) \<noteq> Inl Undefined_Behaviour \<and>
   (\<exists>m u v. length m = kLargerBufferSize \<and> async_append (m @ [NUL]) kLargerBufferSize (shared demo_async) = Inr u \<and>
      async_append (m @ [NUL]) kLargerBufferSize u = Inr v \<and> async_append ''x'' 1 v = Inl Undefined_Behaviour)"
proof -
  have "m_cur_buffer (shared demo_async) = Some new_buffer" by (simp add: demo_async_def async_start_def new_async_log_def)
  moreover have "strncpy_bytes 1 ''x'' = Inr ''x''" by (simp add: strncpy_bytes_def c_str_def)
  moreover have "\<not> fb_free new_buffer < 1" using new_fixed_ok [of kLargerBufferSize] kLarger_small by (simp add: new_buffer_def)
  ultimately show ?thesis using append_overruns [OF demo_async_reach, of new_buffer 1 "''x''" "''x''"] demo_async_init by blast
qed

text \<open>C17: the flush of a FATAL line need not write it. A line appended while the thread is writing, with the
  flush requested before the thread looks, is still in the buffer when the thread has ended and the
  caller of \<open>flush\<close> is woken to abort; and when the thread signals before the caller waits, the caller
  waits forever.\<close>

theorem fatal_line_lost:
  assumes "all_good l" "no_nul line" "length line \<le> kLargerBufferSize"
  shows "(\<exists>t. reach async_init async_step t \<and> log_pc t = Finished \<and> flush_pc t = Flushed \<and>
      sent t = log_bytes l @ line \<and> log_bytes (log_output (thread t)) = log_bytes l) \<and>
    (\<exists>t. reach async_init async_step t \<and> flush_pc t = Waiting_Flush \<and>
      (\<forall>u. async_step\<^sup>*\<^sup>* t u \<longrightarrow> flush_pc u = Waiting_Flush))"
  using lost_line [OF assms] missed_signal [OF assms(1)] waits_forever by blast

theorem fatal_line_lost_witness:
  "\<exists>t. reach async_init async_step t \<and> log_pc t = Finished \<and> flush_pc t = Flushed \<and> sent t = ''fatal'' \<and>
    log_bytes (log_output (thread t)) = []"
proof -
  have "no_nul ''fatal''" "length ''fatal'' \<le> kLargerBufferSize" by (simp_all add: no_nul_def kLargerBufferSize_def)
  from fatal_line_lost [OF demo_log_good(1) this] demo_log_good(2) show ?thesis by auto
qed

end
