(* ===== verification/GlobalLog.thy ===== *)
theory GlobalLog
  imports Logging AsyncLog
begin

text \<open>
  The log of the process (base/Logging.cpp, base/AsyncLog.h): the global level, the one \<open>AsyncLog\<close>, which the
  first line creates under \<open>pthread_once\<close>, and the functions behind \<open>g_output\<close> and \<open>g_flush\<close>.

  \<open>log_env\<close> holds what the environment answers: whether \<open>pthread_create\<close> succeeds, the clock, file system
  and host of the log file, and the stamp and thread data of a line printed while the log is being made.
  The blocking end of \<open>flush\<close> is in the theory AsyncLog: \<open>defaultFlushFunc\<close> goes as far as its wait.
  \<open>proc_step\<close> interleaves the log statements of the program with the steps of the log thread.
\<close>

subsection \<open>The one log\<close>

definition kRollSize :: int where
  "kRollSize = 500 * 1000 * 1000"

datatype once = Once_Init | Once_Running | Once_Done

record log_process =
  g_loglevel :: log_level
  once_control :: once
  g_asylog :: "async_state option"

record log_env =
  le_created :: bool
  le_file :: log_file
  le_stamp :: string
  le_thread :: current_thread

definition new_process :: log_process where
  "new_process = \<lparr>g_loglevel = INFO, once_control = Once_Init, g_asylog = None\<rparr>"

definition setLogLevel :: "log_level \<Rightarrow> log_process \<Rightarrow> log_process" where
  "setLogLevel level p = p\<lparr>g_loglevel := level\<rparr>"

text \<open>A call from inside of the routine waits for the routine to end.\<close>

definition pthread_once :: "(log_process \<Rightarrow> log_process res) \<Rightarrow> log_process \<Rightarrow> log_process res" where
  "pthread_once routine p =
     (case once_control p of
        Once_Done \<Rightarrow> Inr p
      | Once_Running \<Rightarrow> Inl Endless_Loop
      | Once_Init \<Rightarrow> bind_res (routine (p\<lparr>once_control := Once_Running\<rparr>)) (\<lambda>q. Inr (q\<lparr>once_control := Once_Done\<rparr>)))"

text \<open>The arguments of the log file, with the default ones; the log before its thread runs.\<close>

definition log_args :: "log_env \<Rightarrow> log_file" where
  "log_args e = (le_file e)\<lparr>m_basename := ''Logging.cpp'', m_roll_size := kRollSize, m_flush_interval := 3, m_check_every_N := 1024\<rparr>"

definition made_log :: "log_env \<Rightarrow> async_state" where
  "made_log e = \<lparr>shared = new_async_log, thread = thread_locals (log_args e), log_pc = Finished, flush_pc = Not_Asked, sent = []\<rparr>"

text \<open>\<open>AsyncLog::start\<close>; \<open>fatal\<close> is the \<open>LOG_FATAL\<close> of \<open>Thread::start\<close>. The thread begins with its log file.\<close>

definition log_start :: "(log_process \<Rightarrow> log_process res) \<Rightarrow> log_env \<Rightarrow> async_state \<Rightarrow> log_process \<Rightarrow> log_process res" where
  "log_start fatal e l p =
     (let l1 = l\<lparr>shared := async_start (shared l)\<rparr>; p1 = p\<lparr>g_asylog := Some l1\<rparr> in
      if le_created e then
        bind_res (thread_begin (log_args e)) (\<lambda>t. Inr (p1\<lparr>g_asylog := Some (l1\<lparr>thread := t, log_pc := At_Top\<rparr>)\<rparr>))
      else fatal p1)"

definition init_routine :: "(log_process \<Rightarrow> log_process res) \<Rightarrow> log_env \<Rightarrow> log_process \<Rightarrow> log_process res" where
  "init_routine fatal e p = (let l = made_log e in log_start fatal e l (p\<lparr>g_asylog := Some l\<rparr>))"

text \<open>\<open>AsyncLog::append\<close> on the global log; \<open>sent\<close> records the bytes.\<close>

definition hand_over :: "string \<Rightarrow> nat \<Rightarrow> log_process \<Rightarrow> log_process res" where
  "hand_over msg len p =
     (case g_asylog p of
        None \<Rightarrow> Inl Undefined_Behaviour
      | Some l \<Rightarrow>
          bind_res (async_append msg len (shared l)) (\<lambda>a.
          bind_res (strncpy_bytes len msg) (\<lambda>bytes.
          Inr (p\<lparr>g_asylog := Some (l\<lparr>shared := a, sent := sent l @ bytes\<rparr>)\<rparr>))))"

definition output_with :: "(log_process \<Rightarrow> log_process res) \<Rightarrow> log_env \<Rightarrow> string \<Rightarrow> nat \<Rightarrow> log_process \<Rightarrow> log_process res" where
  "output_with fatal e msg len p = bind_res (pthread_once (init_routine fatal e) p) (hand_over msg len)"

definition defaultFlushFunc :: "log_process \<Rightarrow> log_process res" where
  "defaultFlushFunc p =
     (case g_asylog p of
        None \<Rightarrow> Inl Undefined_Behaviour
      | Some l \<Rightarrow> Inr (p\<lparr>g_asylog := Some (l\<lparr>shared := ask_flush (shared l), flush_pc := Asked\<rparr>)\<rparr>))"

fun ended :: "'o log_end \<Rightarrow> 'o res" where
  "ended (Returned p) = Inr p"
| "ended (Aborted p) = Inl Process_Abort"
| "ended (Failed f) = Inl f"

text \<open>The \<open>LOG_FATAL\<close> of \<open>Thread::start\<close>, with the output function of that moment.\<close>

definition start_fatal :: "(string \<Rightarrow> nat \<Rightarrow> log_process \<Rightarrow> log_process res) \<Rightarrow> log_env \<Rightarrow> log_process \<Rightarrow> log_process res" where
  "start_fatal out e p =
     ended (log_statement out defaultFlushFunc (g_loglevel p) (le_stamp e) (le_thread e) FATAL ''Thread.cpp'' 65 ''start''
       [It_cstr ''pthread_create() failed!''] p)"

text \<open>
  \<open>defaultOutputFunc\<close> calls itself through that statement. The inner call finds \<open>pthread_once\<close> running, so
  two levels are all there are (\<open>defaultOutputFunc_unfold\<close>).
\<close>

fun output_nested :: "nat \<Rightarrow> log_env \<Rightarrow> string \<Rightarrow> nat \<Rightarrow> log_process \<Rightarrow> log_process res" where
  "output_nested 0 e msg len p = Inl Endless_Loop"
| "output_nested (Suc n) e msg len p = output_with (start_fatal (output_nested n e) e) e msg len p"

definition defaultOutputFunc :: "log_env \<Rightarrow> string \<Rightarrow> nat \<Rightarrow> log_process \<Rightarrow> log_process res" where
  "defaultOutputFunc e = output_nested 2 e"

lemma output_running: "once_control p = Once_Running \<Longrightarrow> output_with fatal e msg len p = Inl Endless_Loop"
  by (simp add: output_with_def pthread_once_def)

lemma output_running_nested: "once_control p = Once_Running \<Longrightarrow> output_nested n e msg len p = Inl Endless_Loop"
  by (cases n) (simp_all add: output_running)

text \<open>A \<open>LOG_FATAL\<close> asks its output function once, in the state in which it is called.\<close>

lemma start_fatal_cong:
  assumes "\<And>msg len. out msg len p = out' msg len p"
  shows "start_fatal out e p = start_fatal out' e p"
  using assms by (simp add: start_fatal_def log_statement_def logger_dtor_def cong: if_cong sum.case_cong)

lemma log_start_cong:
  assumes "once_control p = Once_Running" "\<And>q. once_control q = Once_Running \<Longrightarrow> fatal q = fatal' q"
  shows "log_start fatal e l p = log_start fatal' e l p"
  using assms by (simp add: log_start_def Let_def)

lemma output_with_cong:
  assumes "\<And>q. once_control q = Once_Running \<Longrightarrow> fatal q = fatal' q"
  shows "output_with fatal e msg len p = output_with fatal' e msg len p"
proof -
  have "init_routine fatal e (p\<lparr>once_control := Once_Running\<rparr>) = init_routine fatal' e (p\<lparr>once_control := Once_Running\<rparr>)"
    unfolding init_routine_def Let_def by (rule log_start_cong [OF _ assms]) simp_all
  then show ?thesis by (simp add: output_with_def pthread_once_def split: once.split)
qed

lemma defaultOutputFunc_unfold:
  "defaultOutputFunc e msg len p = output_with (start_fatal (defaultOutputFunc e) e) e msg len p"
proof -
  have "start_fatal (output_nested (Suc 0) e) e q = start_fatal (defaultOutputFunc e) e q" if "once_control q = Once_Running" for q
    by (rule start_fatal_cong) (simp add: output_running_nested [OF that] defaultOutputFunc_def)
  then have "output_with (start_fatal (output_nested (Suc 0) e) e) e msg len p = output_with (start_fatal (defaultOutputFunc e) e) e msg len p"
    by (rule output_with_cong)
  then show ?thesis by (simp add: defaultOutputFunc_def numeral_2_eq_2)
qed

subsection \<open>Log statements of the process\<close>

record log_call =
  lc_stamp :: string
  lc_thread :: current_thread
  lc_level :: log_level
  lc_file :: string
  lc_line :: int
  lc_func :: string
  lc_items :: "item list"

definition run_log :: "log_env \<Rightarrow> log_call \<Rightarrow> log_process \<Rightarrow> log_process log_end" where
  "run_log e c p = log_statement (defaultOutputFunc e) defaultFlushFunc (g_loglevel p) (lc_stamp c) (lc_thread c) (lc_level c)
     (lc_file c) (lc_line c) (lc_func c) (lc_items c) p"

definition call_line :: "log_call \<Rightarrow> string" where
  "call_line c = log_line (lc_stamp c) (lc_thread c) (lc_level c) (lc_file c) (lc_line c) (lc_func c) (lc_items c)"

text \<open>Texts without NUL, no negative integer, and a line that leaves 48 of its 4000 bytes free.\<close>

definition call_ok :: "log_call \<Rightarrow> bool" where
  "call_ok c \<longleftrightarrow> (\<forall>i \<in> set (lc_items c). item_ok i) \<and> no_nul (lc_stamp c) \<and> no_nul (lc_file c) \<and> 0 \<le> lc_line c \<and> lc_line c < 2 ^ 31 \<and>
     length (call_line c) + kMaxNumericSize < kSmallBufferSize \<and> no_nul (call_line c)"

definition env_good :: "log_env \<Rightarrow> bool" where
  "env_good e \<longleftrightarrow> le_created e \<and> (\<forall>n. lf_fopen (le_file e) n) \<and> (\<forall>a \<in> set (lf_fwrites (le_file e)). a = Fw_All) \<and>
     0 < lf_clock (le_file e) (lf_ticks (le_file e))"

text \<open>Before the first line there is no log; afterwards there is one, in a reachable state.\<close>

definition process_ok :: "log_process \<Rightarrow> bool" where
  "process_ok p \<longleftrightarrow> once_control p = Once_Init \<and> g_asylog p = None \<or>
     once_control p = Once_Done \<and> (\<exists>l. g_asylog p = Some l \<and> reach async_init async_step l)"

lemma strncpy_prefix:
  assumes "n \<le> length buf" "no_nul (take n buf)"
  shows "strncpy_bytes n buf = Inr (take n buf)"
proof -
  have "c_str buf = take n buf @ c_str (drop n buf)"
    using assms(2) takeWhile_append2 [of "take n buf" "\<lambda>c. c \<noteq> NUL" "drop n buf"]
    unfolding c_str_def no_nul_def by (metis append_take_drop_id)
  with assms(1) show ?thesis by (simp add: strncpy_bytes_def)
qed

lemma made_log_law:
  assumes "env_good e"
  shows "\<exists>l. async_init l \<and> sent l = [] \<and> lf_fwrites (log_output (thread l)) = lf_fwrites (le_file e) \<and>
    init_routine fatal e p = Inr (p\<lparr>g_asylog := Some l\<rparr>)"
proof -
  let ?f = "log_args e"
  have f: "\<forall>n. lf_fopen ?f n" "\<forall>a \<in> set (lf_fwrites ?f). a = Fw_All" "0 < lf_clock ?f (lf_ticks ?f)" "lf_fwrites ?f = lf_fwrites (le_file e)"
    using assms by (simp_all add: env_good_def log_args_def)
  from thread_begin_law [OF f(1-3)] obtain l where l: "thread_begin ?f = Inr (thread_locals l)" "all_good l" "log_bytes l = []" by blast
  have w: "lf_fwrites l = lf_fwrites ?f"
    using l(1) f by (auto simp: thread_begin_def new_log_file_def rollFile_def getLogFileName_def time_now_def new_append_file_def
        Let_def thread_locals_def)
  define s where "s = \<lparr>shared = async_start new_async_log, thread = thread_locals l, log_pc = At_Top, flush_pc = Not_Asked, sent = []\<rparr>"
  have "async_init s" using l(2,3) by (auto simp: async_init_def s_def)
  moreover have "init_routine fatal e p = Inr (p\<lparr>g_asylog := Some s\<rparr>)"
    using assms l(1) by (simp add: init_routine_def log_start_def made_log_def s_def env_good_def Let_def)
  ultimately show ?thesis using w f(4) by (intro exI [of _ s]) (simp add: s_def thread_locals_def)
qed

lemma created_fatal: "le_created e \<Longrightarrow> init_routine fatal e = init_routine fatal' e"
  by (rule ext) (simp add: init_routine_def log_start_def)

text \<open>The log a statement finds, or makes.\<close>

lemma log_found:
  assumes "process_ok p" "env_good e"
  shows "\<exists>l q. pthread_once (init_routine fatal e) p = Inr q \<and> q = p\<lparr>g_asylog := Some l, once_control := Once_Done\<rparr> \<and>
    reach async_init async_step l \<and>
    (if g_asylog p = None then async_init l \<and> sent l = [] \<and> lf_fwrites (log_output (thread l)) = lf_fwrites (le_file e) else g_asylog p = Some l)"
proof (cases "once_control p = Once_Init")
  case True
  then have n: "g_asylog p = None" using assms(1) by (auto simp: process_ok_def)
  obtain l where "async_init l" "sent l = []" "lf_fwrites (log_output (thread l)) = lf_fwrites (le_file e)"
    "init_routine fatal e (p\<lparr>once_control := Once_Running\<rparr>) = Inr (p\<lparr>once_control := Once_Running, g_asylog := Some l\<rparr>)"
    using made_log_law [OF assms(2)] by blast
  with True n show ?thesis by (auto simp: pthread_once_def intro: reach_init)
next
  case False
  with assms(1) obtain l where "once_control p = Once_Done" "g_asylog p = Some l" "reach async_init async_step l"
    by (auto simp: process_ok_def)
  then show ?thesis by (auto simp: pthread_once_def)
qed

text \<open>What a statement below FATAL does.\<close>

lemma run_log_law:
  assumes "call_ok c" "process_ok p" "env_good e" "lc_level c \<noteq> FATAL" "log_enabled (g_loglevel p) (lc_level c)"
  shows "\<exists>l buf. pthread_once (init_routine fatal e) p = Inr (p\<lparr>g_asylog := Some l, once_control := Once_Done\<rparr>) \<and>
    reach async_init async_step l \<and>
    (if g_asylog p = None then async_init l \<and> sent l = [] \<and> lf_fwrites (log_output (thread l)) = lf_fwrites (le_file e) else g_asylog p = Some l) \<and>
    strncpy_bytes (length (call_line c)) buf = Inr (call_line c) \<and>
    run_log e c p = end_of (bind_res (async_append buf (length (call_line c)) (shared l)) (\<lambda>a.
      Inr (p\<lparr>g_asylog := Some (l\<lparr>shared := a, sent := sent l @ call_line c\<rparr>), once_control := Once_Done\<rparr>))) Returned"
proof -
  let ?L = "call_line c"
  note c = assms(1) [unfolded call_ok_def]
  from log_statement_law [of "lc_items c" "lc_stamp c" "lc_file c" "lc_line c" "lc_thread c" "lc_level c" "lc_func c" "g_loglevel p" "defaultOutputFunc e" defaultFlushFunc p] c assms(4,5)
  obtain buf n where b: "take n buf = ?L" "n \<le> length buf" "run_log e c p = end_of (defaultOutputFunc e buf n p) Returned"
    unfolding run_log_def call_line_def by auto
  have n: "n = length ?L" using b(1,2) by (metis length_take min.absorb2)
  have cp: "strncpy_bytes (length ?L) buf = Inr ?L" using strncpy_prefix [OF b(2)] b(1) c unfolding n by simp
  obtain l where l: "pthread_once (init_routine (start_fatal (defaultOutputFunc e) e) e) p = Inr (p\<lparr>g_asylog := Some l, once_control := Once_Done\<rparr>)"
    using log_found [OF assms(2,3)] by blast
  obtain l' where l': "pthread_once (init_routine fatal e) p = Inr (p\<lparr>g_asylog := Some l', once_control := Once_Done\<rparr>)"
    "reach async_init async_step l'"
    "if g_asylog p = None then async_init l' \<and> sent l' = [] \<and> lf_fwrites (log_output (thread l')) = lf_fwrites (le_file e) else g_asylog p = Some l'"
    using log_found [OF assms(2,3), of fatal] by blast
  have "le_created e" using assms(3) by (simp add: env_good_def)
  from created_fatal [OF this, of "start_fatal (defaultOutputFunc e) e" fatal] l l'(1)
  have "p\<lparr>g_asylog := Some l, once_control := Once_Done\<rparr> = p\<lparr>g_asylog := Some l', once_control := Once_Done\<rparr>" by simp
  from arg_cong [OF this, of g_asylog] have "l = l'" by simp
  have "defaultOutputFunc e buf n p = bind_res (async_append buf n (shared l)) (\<lambda>a.
      Inr (p\<lparr>g_asylog := Some (l\<lparr>shared := a, sent := sent l @ ?L\<rparr>), once_control := Once_Done\<rparr>))"
    unfolding defaultOutputFunc_unfold [of e buf] output_with_def l by (cases p) (simp add: hand_over_def cp n)
  then have "run_log e c p = end_of (bind_res (async_append buf (length ?L) (shared l')) (\<lambda>a.
      Inr (p\<lparr>g_asylog := Some (l'\<lparr>shared := a, sent := sent l' @ ?L\<rparr>), once_control := Once_Done\<rparr>))) Returned"
    using b(3) unfolding \<open>l = l'\<close> n by simp
  with l' cp show ?thesis by (intro exI [of _ l'] exI [of _ buf] conjI)
qed

lemma run_log_returned:
  assumes "call_ok c" "process_ok p" "env_good e" "run_log e c p = Returned q"
  shows "if log_enabled (g_loglevel p) (lc_level c) then
      \<exists>l l'. process_ok q \<and> (if g_asylog p = None then async_init l \<and> sent l = [] else g_asylog p = Some l) \<and>
        g_asylog q = Some l' \<and> async_step l l' \<and> sent l' = sent l @ call_line c
    else q = p"
proof (cases "log_enabled (g_loglevel p) (lc_level c)")
  case False
  with assms(4) show ?thesis by (simp add: run_log_def log_statement_def)
next
  case True
  note c = assms(1) [unfolded call_ok_def]
  have "lc_level c \<noteq> FATAL"
  proof
    assume f: "lc_level c = FATAL"
    from log_statement_law [of "lc_items c" "lc_stamp c" "lc_file c" "lc_line c" "lc_thread c" "lc_level c" "lc_func c" "g_loglevel p" "defaultOutputFunc e" defaultFlushFunc p] c True
    obtain buf n where "run_log e c p = end_of (defaultOutputFunc e buf n p) (\<lambda>out'. end_of (defaultFlushFunc out') Aborted)"
      unfolding run_log_def call_line_def f by auto
    with assms(4) show False
      by (cases "defaultOutputFunc e buf n p"; simp; cases "defaultFlushFunc (projr (defaultOutputFunc e buf n p))"; simp)
  qed
  from run_log_law [OF assms(1-3) this True] obtain l buf where l: "reach async_init async_step l"
    "if g_asylog p = None then async_init l \<and> sent l = [] \<and> lf_fwrites (log_output (thread l)) = lf_fwrites (le_file e) else g_asylog p = Some l"
    "strncpy_bytes (length (call_line c)) buf = Inr (call_line c)"
    "run_log e c p = end_of (bind_res (async_append buf (length (call_line c)) (shared l)) (\<lambda>a.
      Inr (p\<lparr>g_asylog := Some (l\<lparr>shared := a, sent := sent l @ call_line c\<rparr>), once_control := Once_Done\<rparr>))) Returned" by blast
  then obtain a where a: "async_append buf (length (call_line c)) (shared l) = Inr a"
    "q = p\<lparr>g_asylog := Some (l\<lparr>shared := a, sent := sent l @ call_line c\<rparr>), once_control := Once_Done\<rparr>"
    using assms(4) by (cases "async_append buf (length (call_line c)) (shared l)") auto
  let ?l = "l\<lparr>shared := a, sent := sent l @ call_line c\<rparr>"
  have s: "async_step l ?l" by (rule front_append [OF a(1) l(3)])
  then have "process_ok q" using reach_step [OF l(1)] by (auto simp: process_ok_def a(2))
  moreover have "if g_asylog p = None then async_init l \<and> sent l = [] else g_asylog p = Some l" using l(2) by (simp split: if_splits)
  ultimately show ?thesis using True s a(2) by auto
qed

subsection \<open>The process and its log thread\<close>

text \<open>A state of the process, with the lines its statements printed so far.\<close>

inductive proc_step :: "log_env \<Rightarrow> log_process \<times> string list \<Rightarrow> log_process \<times> string list \<Rightarrow> bool" for e where
  statement: "call_ok c \<Longrightarrow> run_log e c p = Returned q \<Longrightarrow>
    proc_step e (p, ls) (q, if log_enabled (g_loglevel p) (lc_level c) then ls @ [call_line c] else ls)"
| set_level: "proc_step e (p, ls) (setLogLevel level p, ls)"
| log_thread: "g_asylog p = Some l \<Longrightarrow> async_step l l' \<Longrightarrow> sent l' = sent l \<Longrightarrow> proc_step e (p, ls) (p\<lparr>g_asylog := Some l'\<rparr>, ls)"

definition proc_init :: "log_process \<times> string list \<Rightarrow> bool" where
  "proc_init s \<longleftrightarrow> s = (new_process, [])"

definition lines_kept :: "log_process \<times> string list \<Rightarrow> bool" where
  "lines_kept s \<longleftrightarrow> process_ok (fst s) \<and> concat (snd s) = (case g_asylog (fst s) of None \<Rightarrow> [] | Some l \<Rightarrow> sent l)"

lemma lines_kept_step:
  assumes "proc_step e s t" "lines_kept s" "env_good e"
  shows "lines_kept t"
  using assms(1)
proof cases
  case (statement c p q ls)
  have k: "process_ok p" "concat ls = (case g_asylog p of None \<Rightarrow> [] | Some l \<Rightarrow> sent l)"
    using assms(2) by (simp_all add: lines_kept_def statement(1))
  from run_log_returned [OF statement(3) k(1) assms(3) statement(4)] k show ?thesis
    unfolding statement(2) lines_kept_def by (auto split: if_splits)
next
  case (set_level p ls level)
  with assms(2) show ?thesis by (simp add: lines_kept_def process_ok_def setLogLevel_def)
next
  case (log_thread p l l' ls)
  with assms(2) show ?thesis by (auto simp: lines_kept_def process_ok_def intro: reach_step)
qed

lemma proc_machine:
  assumes "env_good e"
  shows "safety_machine proc_init (proc_step e) lines_kept"
proof
  show "lines_kept s" if "proc_init s" for s using that by (simp add: proc_init_def new_process_def lines_kept_def process_ok_def)
  show "lines_kept t" if "proc_step e s t" "lines_kept s" for s t using that assms by (rule lines_kept_step)
qed

lemma proc_reach: "env_good e \<Longrightarrow> reach proc_init (proc_step e) s \<Longrightarrow> lines_kept s"
  by (rule safety_machine.reach_inv [OF proc_machine])

text \<open>An environment and calls to evaluate.\<close>

definition demo_env :: "bool \<Rightarrow> log_env" where
  "demo_env created = \<lparr>le_created = created, le_file = demo_log\<lparr>lf_clock := \<lambda>n. int n + 1\<rparr>, le_stamp = ''now'', le_thread = new_thread_data\<rparr>"

definition demo_call :: log_call where
  "demo_call = \<lparr>lc_stamp = ''now'', lc_thread = new_thread_data, lc_level = ERROR, lc_file = ''f'', lc_line = 7, lc_func = ''g'',
     lc_items = [It_cstr ''x'']\<rparr>"

lemma demo_env_good: "env_good (demo_env True)" "length (lf_fwrites (le_file (demo_env b))) = 99"
  using demo_log_good by (simp_all add: env_good_def demo_env_def all_good_def)

lemma demo_line: "call_line demo_call = ''now  ERROR g x - f:7'' @ [LF]"
  by (simp add: call_line_def demo_call_def log_line_def new_thread_data_def tidString_def c_str_def printed_int_def decimal.simps [of 7])
    (simp add: char_of_def bit_simps)

lemma demo_call_ok: "call_ok demo_call" "lc_level demo_call = ERROR"
  unfolding call_ok_def demo_line by (simp_all add: demo_call_def no_nul_def kMaxNumericSize_def kSmallBufferSize_def)

text \<open>A line that fits is handed over.\<close>

lemma run_log_fits:
  assumes "call_ok c" "process_ok p" "env_good e" "lc_level c \<noteq> FATAL" "log_enabled (g_loglevel p) (lc_level c)"
    and "\<forall>l. g_asylog p = Some l \<longrightarrow> m_next_buffer (shared l) \<noteq> None"
  shows "\<exists>q l t. run_log e c p = Returned q \<and> g_asylog q = Some t \<and> async_step l t \<and> reach async_init async_step l \<and>
    (if g_asylog p = None then async_init l \<and> sent l = [] \<and> lf_fwrites (log_output (thread l)) = lf_fwrites (le_file e) else g_asylog p = Some l) \<and>
    (\<exists>a. t = l\<lparr>shared := a, sent := sent l @ call_line c\<rparr> \<and> pending_text a = pending_text (shared l) @ call_line c \<and> m_running a = m_running (shared l))"
proof -
  let ?L = "call_line c"
  from run_log_law [OF assms(1-5)] obtain l buf where l: "reach async_init async_step l"
    "if g_asylog p = None then async_init l \<and> sent l = [] \<and> lf_fwrites (log_output (thread l)) = lf_fwrites (le_file e) else g_asylog p = Some l"
    "strncpy_bytes (length ?L) buf = Inr ?L"
    "run_log e c p = end_of (bind_res (async_append buf (length ?L) (shared l)) (\<lambda>a.
      Inr (p\<lparr>g_asylog := Some (l\<lparr>shared := a, sent := sent l @ ?L\<rparr>), once_control := Once_Done\<rparr>))) Returned" by blast
  have ok: "front_ok (shared l)" using alog_run.reach_inv [OF l(1)] by (simp add: async_ok_def)
  then obtain b where b: "m_cur_buffer (shared l) = Some b" by (auto simp: front_ok_def good_buffer_def)
  have m: "m_next_buffer (shared l) \<noteq> None" using l(2) assms(6) init_room(2) by (auto split: if_splits)
  have n: "length ?L \<le> kLargerBufferSize" using assms(1) by (simp add: call_ok_def kLargerBufferSize_def kSmallBufferSize_def)
  obtain a where a: "async_append buf (length ?L) (shared l) = Inr a"
    using async_append_fits [OF ok b _ l(3)] async_append_switches [OF ok b _ m n l(3)] by (metis not_less)
  define t where "t = l\<lparr>shared := a, sent := sent l @ ?L\<rparr>"
  have "run_log e c p = Returned (p\<lparr>g_asylog := Some t, once_control := Once_Done\<rparr>)" using l(4) by (simp add: a t_def)
  moreover have "async_step l t" unfolding t_def by (rule front_append [OF a l(3)])
  moreover have "g_asylog (p\<lparr>g_asylog := Some t, once_control := Once_Done\<rparr>) = Some t" by simp
  ultimately show ?thesis using async_append_law [OF ok a l(3)] l(1,2) t_def by blast
qed

lemma demo_run: "\<exists>q t. run_log (demo_env True) demo_call new_process = Returned q \<and> g_asylog q = Some t"
proof -
  have "process_ok new_process" "lc_level demo_call \<noteq> FATAL" "log_enabled (g_loglevel new_process) (lc_level demo_call)"
    "\<forall>l. g_asylog new_process = Some l \<longrightarrow> m_next_buffer (shared l) \<noteq> None"
    by (simp_all add: process_ok_def new_process_def demo_call_ok log_enabled_def)
  from run_log_fits [OF demo_call_ok(1) this(1) demo_env_good(1) this(2-4)] show ?thesis by blast
qed

subsection \<open>Properties\<close>

text \<open>C20: the process never loses, repeats or reorders a line, as long as its log thread can be created and its log
  files opened and written (\<open>env_good\<close>). Whatever log statements below FATAL that fit their buffers (\<open>call_ok\<close>) the threads of
  the program run, interleaved in any way with the log thread and with changes of the level: the first line
  that is enabled makes the one \<open>AsyncLog\<close>, no later one makes another, and the enabled lines, in their order,
  are what is in the log files, then what the thread is writing, then what is still buffered.\<close>

theorem process_lines_kept:
  assumes "env_good e" "reach proc_init (proc_step e) (p, ls)"
  shows "case g_asylog p of
      None \<Rightarrow> once_control p = Once_Init \<and> concat ls = []
    | Some l \<Rightarrow> once_control p = Once_Done \<and> reach async_init async_step l \<and>
        concat ls = log_bytes (log_output (thread l)) @ buffers_text (write_to_file (thread l)) @ pending_text (shared l)"
proof -
  have k: "process_ok p" "concat ls = (case g_asylog p of None \<Rightarrow> [] | Some l \<Rightarrow> sent l)"
    using proc_reach [OF assms] by (simp_all add: lines_kept_def)
  have "async_ok l" if "reach async_init async_step l" for l using that by (rule alog_run.reach_inv)
  with k show ?thesis by (auto simp: process_ok_def async_ok_def)
qed

theorem process_lines_kept_witness:
  "\<exists>q t. run_log (demo_env True) demo_call new_process = Returned q \<and> g_asylog q = Some t \<and> call_line demo_call =
    log_bytes (log_output (thread t)) @ buffers_text (write_to_file (thread t)) @ pending_text (shared t)"
proof -
  obtain q t where q: "run_log (demo_env True) demo_call new_process = Returned q" "g_asylog q = Some t" using demo_run by blast
  have "reach proc_init (proc_step (demo_env True)) (new_process, [])" by (rule reach_init) (simp add: proc_init_def)
  from reach_step [OF this statement [OF demo_call_ok(1) q(1)]]
  have "reach proc_init (proc_step (demo_env True)) (q, [call_line demo_call])" by (simp add: demo_call_ok(2) log_enabled_def)
  from process_lines_kept [OF demo_env_good(1) this] q show ?thesis by simp
qed

text \<open>C19: a log line reaches the disk, if log thread and files work (\<open>env_good\<close>). In any state that the process can reach (also before its first line), a
  statement below FATAL that is enabled and fits the buffers returns; and the next turn of the log thread
  leaves on the disk all lines printed before and then exactly this one.\<close>

theorem log_line_reaches_disk:
  assumes "env_good e" "reach proc_init (proc_step e) (p, ls)"
    and "call_ok c" "lc_level c \<noteq> FATAL" "log_enabled (g_loglevel p) (lc_level c)"
    and "\<forall>l. g_asylog p = Some l \<longrightarrow> log_pc l \<in> {At_Top, In_Wait} \<and> m_running (shared l) \<and> m_next_buffer (shared l) \<noteq> None \<and>
      log_room (length (pending_text (shared l)) + length (call_line c)) (log_output (thread l))"
    and "g_asylog p = None \<longrightarrow> length (call_line c) \<le> length (lf_fwrites (le_file e))"
  shows "\<exists>q t u. run_log e c p = Returned q \<and> g_asylog q = Some t \<and> async_step\<^sup>*\<^sup>* t u \<and>
    log_bytes (log_output (thread u)) = concat (ls @ [call_line c]) \<and> all_flushed (log_output (thread u))"
proof -
  have k: "process_ok p" "concat ls = (case g_asylog p of None \<Rightarrow> [] | Some l \<Rightarrow> sent l)"
    using proc_reach [OF assms(1,2)] by (simp_all add: lines_kept_def)
  obtain q l t a where r: "run_log e c p = Returned q" "g_asylog q = Some t" "async_step l t" "reach async_init async_step l"
    "if g_asylog p = None then async_init l \<and> sent l = [] \<and> lf_fwrites (log_output (thread l)) = lf_fwrites (le_file e) else g_asylog p = Some l"
    "t = l\<lparr>shared := a, sent := sent l @ call_line c\<rparr>" "pending_text a = pending_text (shared l) @ call_line c" "m_running a = m_running (shared l)"
    using run_log_fits [OF assms(3) k(1) assms(1,4,5)] assms(6) by blast
  have ok: "async_ok l" "async_ok t" using alog_run.reach_inv [OF r(4)] async_step_ok [OF r(3)] by simp_all
  have c: "sent l = concat ls" using k(2) r(5) by (simp split: if_splits)
  let ?s = "log_pc l \<in> {At_Top, In_Wait} \<and> m_running (shared l) \<and>
    log_room (length (pending_text (shared l)) + length (call_line c)) (log_output (thread l))"
  have s: ?s
  proof (cases "g_asylog p")
    case None
    then have i: "async_init l" "length (call_line c) \<le> length (lf_fwrites (log_output (thread l)))" using r(5) assms(7) by simp_all
    from init_room [OF i(1)] i(2) ok(1) show ?s by (simp add: log_room_def async_ok_def)
  next
    case (Some l')
    then show ?s using r(5) assms(6) by simp
  qed
  from turn_writes [OF ok(2)] s r(6-8) obtain u where
    "async_step\<^sup>*\<^sup>* t u" "log_bytes (log_output (thread u)) = sent t" "all_flushed (log_output (thread u))" by auto
  with r(1,2,6) c show ?thesis by auto
qed

theorem log_line_reaches_disk_witness:
  "\<exists>q t (u :: async_state). run_log (demo_env True) demo_call new_process = Returned q \<and> g_asylog q = Some t \<and>
    log_bytes (log_output (thread u)) = ''now  ERROR g x - f:7'' @ [LF] \<and> all_flushed (log_output (thread u))"
proof -
  have r: "reach proc_init (proc_step (demo_env True)) (new_process, [])" by (rule reach_init) (simp add: proc_init_def)
  have p: "g_asylog new_process = None" "lc_level demo_call \<noteq> FATAL" "log_enabled (g_loglevel new_process) (lc_level demo_call)"
    by (simp_all add: new_process_def demo_call_ok(2) log_enabled_def)
  have l: "length (call_line demo_call) \<le> length (lf_fwrites (le_file (demo_env True)))" by (simp add: demo_env_good(2) demo_line)
  have q: "\<forall>l. g_asylog new_process = Some l \<longrightarrow> log_pc l \<in> {At_Top, In_Wait} \<and> m_running (shared l) \<and> m_next_buffer (shared l) \<noteq> None \<and>
      log_room (length (pending_text (shared l)) + length (call_line demo_call)) (log_output (thread l))"
    and n: "g_asylog new_process = None \<longrightarrow> length (call_line demo_call) \<le> length (lf_fwrites (le_file (demo_env True)))"
    using p(1) l by simp_all
  from log_line_reaches_disk [OF demo_env_good(1) r demo_call_ok(1) p(2,3) q n] show ?thesis unfolding demo_line by auto
qed

text \<open>The \<open>LOG_FATAL\<close> of \<open>Thread::start\<close> as a call.\<close>

definition start_call :: "log_env \<Rightarrow> log_call" where
  "start_call e = \<lparr>lc_stamp = le_stamp e, lc_thread = le_thread e, lc_level = FATAL, lc_file = ''Thread.cpp'', lc_line = 65,
     lc_func = ''start'', lc_items = [It_cstr ''pthread_create() failed!'']\<rparr>"

text \<open>C23: when the log thread cannot be created, the process hangs instead of aborting. The first line that is
  enabled runs \<open>init_routine\<close>, whose \<open>LOG_FATAL\<close> prints a line of its own and so waits, in
  \<open>pthread_once\<close>, for the very routine it is called from.\<close>

theorem log_start_failure_hangs:
  assumes "call_ok c" "call_ok (start_call e)" "\<not> le_created e" "once_control p = Once_Init" "log_enabled (g_loglevel p) (lc_level c)"
  shows "run_log e c p = Failed Endless_Loop"
proof -
  have inner: "start_fatal (defaultOutputFunc e) e q = Inl Endless_Loop" if q: "once_control q = Once_Running" for q
  proof -
    note c = assms(2) [unfolded call_ok_def call_line_def start_call_def log_call.simps]
    from log_statement_law [of "[It_cstr ''pthread_create() failed!'']" "le_stamp e" "''Thread.cpp''" 65 "le_thread e" FATAL "''start''" "g_loglevel q" "defaultOutputFunc e" defaultFlushFunc q] c
    obtain buf n where "start_fatal (defaultOutputFunc e) e q = ended (end_of (defaultOutputFunc e buf n q) (\<lambda>out'. end_of (defaultFlushFunc out') Aborted))"
      unfolding start_fatal_def by (auto simp: log_enabled_def)
    then show ?thesis by (simp add: defaultOutputFunc_def output_running_nested [OF q])
  qed
  have out: "defaultOutputFunc e buf n p = Inl Endless_Loop" for buf n
    using assms(3,4) inner by (simp add: defaultOutputFunc_unfold [of e buf] output_with_def pthread_once_def init_routine_def log_start_def Let_def)
  note c = assms(1) [unfolded call_ok_def]
  from log_statement_law [of "lc_items c" "lc_stamp c" "lc_file c" "lc_line c" "lc_thread c" "lc_level c" "lc_func c" "g_loglevel p" "defaultOutputFunc e" defaultFlushFunc p] c assms(5)
  obtain buf n f where "run_log e c p = end_of (defaultOutputFunc e buf n p) f"
    unfolding run_log_def call_line_def by auto
  then show ?thesis by (simp add: out)
qed

theorem log_start_failure_hangs_witness: "run_log (demo_env False) demo_call new_process = Failed Endless_Loop"
proof (rule log_start_failure_hangs)
  have "length (call_line (start_call (demo_env False))) < 100" "no_nul (call_line (start_call (demo_env False)))"
    by (simp_all add: call_line_def start_call_def demo_env_def log_line_def new_thread_data_def tidString_def c_str_def printed_int_def
        decimal.simps [of 65] decimal.simps [of 6] no_nul_def char_of_def bit_simps)
  then show "call_ok (start_call (demo_env False))"
    by (simp add: call_ok_def kMaxNumericSize_def kSmallBufferSize_def)
      (simp add: start_call_def demo_env_def no_nul_def)
qed (simp_all add: demo_call_ok demo_env_def new_process_def log_enabled_def)

end
