(* ===== verification/Threads.thy ===== *)
theory Threads
  imports Prelude "HOL-Library.Signed_Division"
begin

text \<open>
  Starting a thread with a loop of its own: \<open>CountDownLatch\<close> and \<open>Condition\<close> (base/CountDownLatch.h,
  base/CountDownLatch.cpp, base/Condition.h), \<open>Thread\<close> (Thread.h, Thread.cpp) and \<open>EventLoopThread\<close>
  (EventLoopThread.h, EventLoopThread.cpp).

  A thread blocked in a condition variable is a flag \<open>waiting\<close>; a signal or a broadcast clears it, and so
  may a spurious wake-up. A critical section is one step, since the mutex makes it so. The step relation
  runs the caller of \<open>startLoop\<close> and the new thread; its lemmas show that the caller gets the loop of the
  new thread, and what the destructor of the thread object risks.
\<close>

subsection \<open>Deadlines\<close>

text \<open>\<open>waitForSeconds\<close>: the time until which it waits, from the time \<open>clock_gettime\<close> gave.\<close>

record timespec =
  tv_sec :: int
  tv_nsec :: int

definition kNanoSecondsPerSecond :: int where
  "kNanoSecondsPerSecond = 1000000000"

definition deadline :: "int \<Rightarrow> timespec \<Rightarrow> timespec" where
  "deadline seconds abstime =
     (let nano_seconds = seconds * kNanoSecondsPerSecond;
          abstime1 = abstime\<lparr>tv_sec := tv_sec abstime + (tv_nsec abstime + nano_seconds) sdiv kNanoSecondsPerSecond\<rparr>
      in abstime1\<lparr>tv_nsec := (tv_nsec abstime1 + nano_seconds) smod kNanoSecondsPerSecond\<rparr>)"

text \<open>\<open>pthread_cond_timedwait\<close> accepts it when the nanoseconds are those of a second.\<close>

definition valid_time :: "timespec \<Rightarrow> bool" where
  "valid_time t \<longleftrightarrow> 0 \<le> tv_nsec t \<and> tv_nsec t < kNanoSecondsPerSecond"

definition nanoseconds :: "timespec \<Rightarrow> int" where
  "nanoseconds t = tv_sec t * kNanoSecondsPerSecond + tv_nsec t"

lemma deadline_exact:
  assumes "valid_time t" "0 \<le> seconds"
  shows "valid_time (deadline seconds t)" "nanoseconds (deadline seconds t) = nanoseconds t + seconds * kNanoSecondsPerSecond"
    "tv_sec (deadline seconds t) = tv_sec t + seconds"
proof -
  let ?n = "tv_nsec t + seconds * kNanoSecondsPerSecond"
  have n: "0 \<le> ?n" using assms by (simp add: valid_time_def kNanoSecondsPerSecond_def)
  have d: "?n div kNanoSecondsPerSecond = seconds" "?n mod kNanoSecondsPerSecond = tv_nsec t"
    using assms by (simp_all add: valid_time_def kNanoSecondsPerSecond_def)
  have s: "?n sdiv kNanoSecondsPerSecond = ?n div kNanoSecondsPerSecond"
    using n by (cases "?n = 0") (simp_all add: signed_divide_int_def kNanoSecondsPerSecond_def)
  have m: "?n smod kNanoSecondsPerSecond = ?n mod kNanoSecondsPerSecond"
    using n by (simp add: smod_mod_positive kNanoSecondsPerSecond_def)
  from s m d have e: "deadline seconds t = t\<lparr>tv_sec := tv_sec t + seconds, tv_nsec := tv_nsec t\<rparr>"
    by (simp add: deadline_def Let_def)
  show "tv_sec (deadline seconds t) = tv_sec t + seconds" by (simp add: e)
  show "valid_time (deadline seconds t)" using assms by (simp add: e valid_time_def)
  show "nanoseconds (deadline seconds t) = nanoseconds t + seconds * kNanoSecondsPerSecond"
    by (simp add: e nanoseconds_def distrib_right)
qed

subsection \<open>CountDownLatch\<close>

record latch =
  latch_count :: int
  waiting :: bool

definition new_latch :: "int \<Rightarrow> latch" where
  "new_latch count = \<lparr>latch_count = count, waiting = False\<rparr>"

text \<open>One round of the loop of \<open>wait\<close>: does the caller pass, or does it block?\<close>

definition latch_wait :: "latch \<Rightarrow> bool \<times> latch" where
  "latch_wait l = (if latch_count l > 0 then (False, l\<lparr>waiting := True\<rparr>) else (True, l))"

definition countDown :: "latch \<Rightarrow> latch" where
  "countDown l =
     (let l' = l\<lparr>latch_count := latch_count l - 1\<rparr> in if latch_count l' = 0 then l'\<lparr>waiting := False\<rparr> else l')"

definition getCount :: "latch \<Rightarrow> int" where
  "getCount l = latch_count l"

subsection \<open>Thread and EventLoopThread\<close>

text \<open>Where the caller of \<open>startLoop\<close> and the new thread stand.\<close>

datatype starter =
    St_Call
  | St_Latch
  | St_Check
  | St_Return
  | St_Returned "nat option"
  | St_Fatal
  | St_Gone

datatype child = Ch_None | Ch_New | Ch_Latch | Ch_Func | Ch_Running | Ch_Ended | Ch_Fault

text \<open>
  The members of the \<open>EventLoopThread\<close> and of its \<open>Thread\<close>, the flag of the condition variable \<open>m_cond\<close>,
  and whether the loop was told to quit.
\<close>

record loop_thread =
  m_thread_started :: bool
  m_thread_tid :: int
  m_latch :: latch
  m_loop :: "nat option"
  m_cond_waiting :: bool
  starter :: starter
  child :: child
  loop_quit :: bool

definition new_loop_thread :: loop_thread where
  "new_loop_thread = \<lparr>m_thread_started = False, m_thread_tid = 0, m_latch = new_latch 1, m_loop = None,
     m_cond_waiting = False, starter = St_Call, child = Ch_None, loop_quit = False\<rparr>"

text \<open>\<open>startLoop\<close> up to \<open>pthread_create\<close>, whose success is an argument.\<close>

definition start_thread :: "bool \<Rightarrow> loop_thread \<Rightarrow> loop_thread" where
  "start_thread created s =
     (if m_thread_started s then s\<lparr>starter := St_Fatal\<rparr>
      else if created then s\<lparr>m_thread_started := True, child := Ch_New, starter := St_Latch\<rparr>
      else s\<lparr>m_thread_started := True, starter := St_Fatal\<rparr>)"

text \<open>The rest of \<open>Thread::start\<close>: waiting at the latch, checking the id.\<close>

definition pass_latch :: "loop_thread \<Rightarrow> loop_thread" where
  "pass_latch s =
     (case latch_wait (m_latch s) of
        (False, l) \<Rightarrow> s\<lparr>m_latch := l\<rparr>
      | (True, l) \<Rightarrow> if m_thread_tid s \<le> 0 then s\<lparr>m_latch := l, starter := St_Fatal\<rparr> else s\<lparr>m_latch := l, starter := St_Check\<rparr>)"

text \<open>One round of the loop of \<open>startLoop\<close>.\<close>

definition check_loop :: "loop_thread \<Rightarrow> loop_thread" where
  "check_loop s = (if m_loop s = None then s\<lparr>m_cond_waiting := True\<rparr> else s\<lparr>starter := St_Return\<rparr>)"

definition return_loop :: "loop_thread \<Rightarrow> loop_thread" where
  "return_loop s = s\<lparr>starter := St_Returned (m_loop s)\<rparr>"

text \<open>\<open>ThreadData::runInThread\<close>: the id, the latch, then the function.\<close>

definition child_tid :: "int \<Rightarrow> loop_thread \<Rightarrow> loop_thread" where
  "child_tid gettid s = s\<lparr>m_thread_tid := gettid, child := Ch_Latch\<rparr>"

definition child_latch :: "loop_thread \<Rightarrow> loop_thread" where
  "child_latch s = s\<lparr>m_latch := countDown (m_latch s), child := Ch_Func\<rparr>"

text \<open>\<open>threadFunc\<close>: handing out the address of the loop, and its end.\<close>

definition child_assign :: "nat \<Rightarrow> loop_thread \<Rightarrow> loop_thread" where
  "child_assign addr s = s\<lparr>m_loop := Some addr, m_cond_waiting := False, child := Ch_Running\<rparr>"

text \<open>The assignment after the loop goes to the thread object, which may be gone.\<close>

definition child_end :: "loop_thread \<Rightarrow> loop_thread" where
  "child_end s = (if starter s = St_Gone then s\<lparr>child := Ch_Fault\<rparr> else s\<lparr>m_loop := None, child := Ch_Ended\<rparr>)"

text \<open>\<open>~EventLoopThread\<close>.\<close>

definition loop_thread_dtor :: "loop_thread \<Rightarrow> loop_thread" where
  "loop_thread_dtor s =
     (let s1 = (if m_loop s \<noteq> None then s\<lparr>loop_quit := True\<rparr> else s) in s1\<lparr>starter := St_Gone\<rparr>)"

inductive thread_step :: "bool \<Rightarrow> int \<Rightarrow> nat \<Rightarrow> loop_thread \<Rightarrow> loop_thread \<Rightarrow> bool"
  for created gettid addr where
  call: "starter s = St_Call \<Longrightarrow> thread_step created gettid addr s (start_thread created s)"
| latch: "starter s = St_Latch \<Longrightarrow> \<not> waiting (m_latch s) \<Longrightarrow> thread_step created gettid addr s (pass_latch s)"
| check: "starter s = St_Check \<Longrightarrow> \<not> m_cond_waiting s \<Longrightarrow> thread_step created gettid addr s (check_loop s)"
| ret: "starter s = St_Return \<Longrightarrow> thread_step created gettid addr s (return_loop s)"
| dtor: "starter s = St_Returned r \<Longrightarrow> thread_step created gettid addr s (loop_thread_dtor s)"
| c_tid: "child s = Ch_New \<Longrightarrow> thread_step created gettid addr s (child_tid gettid s)"
| c_latch: "child s = Ch_Latch \<Longrightarrow> thread_step created gettid addr s (child_latch s)"
| c_assign: "child s = Ch_Func \<Longrightarrow> thread_step created gettid addr s (child_assign addr s)"
| c_end: "child s = Ch_Running \<Longrightarrow> loop_quit s \<Longrightarrow> thread_step created gettid addr s (child_end s)"

text \<open>Wake-ups nobody sent.\<close>

inductive spurious_step :: "loop_thread \<Rightarrow> loop_thread \<Rightarrow> bool" where
  spurious_latch: "waiting (m_latch s) \<Longrightarrow> spurious_step s (s\<lparr>m_latch := (m_latch s)\<lparr>waiting := False\<rparr>\<rparr>)"
| spurious_cond: "m_cond_waiting s \<Longrightarrow> spurious_step s (s\<lparr>m_cond_waiting := False\<rparr>)"

definition any_step :: "int \<Rightarrow> nat \<Rightarrow> loop_thread \<Rightarrow> loop_thread \<Rightarrow> bool" where
  "any_step gettid addr s t \<longleftrightarrow> thread_step True gettid addr s t \<or> spurious_step s t"

definition thread_init :: "loop_thread \<Rightarrow> bool" where
  "thread_init s \<longleftrightarrow> s = new_loop_thread"

subsection \<open>The handshake\<close>

definition caller_inside :: "loop_thread \<Rightarrow> bool" where
  "caller_inside s \<longleftrightarrow> starter s \<in> {St_Latch, St_Check, St_Return}"

text \<open>
  The conjuncts: how far the new thread is; nobody sleeps on a condition that already holds; what the
  caller may rely on; the caller fails nowhere; the loop runs as long as nobody who got it stops it.
\<close>

definition child_facts :: "int \<Rightarrow> nat \<Rightarrow> loop_thread \<Rightarrow> bool" where
  "child_facts gettid addr s \<longleftrightarrow>
     (case child s of
        Ch_None \<Rightarrow> starter s = St_Call \<and> s = new_loop_thread
      | Ch_New \<Rightarrow> latch_count (m_latch s) = 1 \<and> m_loop s = None \<and> starter s = St_Latch
      | Ch_Latch \<Rightarrow> latch_count (m_latch s) = 1 \<and> m_thread_tid s = gettid \<and> m_loop s = None \<and> starter s = St_Latch
      | Ch_Func \<Rightarrow> latch_count (m_latch s) = 0 \<and> \<not> waiting (m_latch s) \<and> m_thread_tid s = gettid \<and> m_loop s = None \<and>
          starter s \<in> {St_Latch, St_Check}
      | Ch_Running \<Rightarrow> latch_count (m_latch s) = 0 \<and> \<not> waiting (m_latch s) \<and> m_thread_tid s = gettid \<and> m_loop s = Some addr \<and>
          \<not> m_cond_waiting s
      | Ch_Ended \<Rightarrow> \<not> caller_inside s
      | Ch_Fault \<Rightarrow> starter s = St_Gone)"

definition thread_ok :: "int \<Rightarrow> nat \<Rightarrow> loop_thread \<Rightarrow> bool" where
  "thread_ok gettid addr s \<longleftrightarrow> child_facts gettid addr s \<and>
     starter s \<noteq> St_Fatal \<and> (\<forall>r. starter s = St_Returned r \<longrightarrow> r = Some addr) \<and>
     (loop_quit s \<longrightarrow> starter s = St_Gone) \<and> (starter s = St_Call \<longrightarrow> child s = Ch_None)"

lemmas thread_defs = start_thread_def pass_latch_def check_loop_def return_loop_def child_tid_def child_latch_def
  child_assign_def child_end_def loop_thread_dtor_def latch_wait_def countDown_def Let_def

lemma thread_step_ok:
  assumes "0 < gettid"
  shows "thread_step True gettid addr s t \<Longrightarrow> thread_ok gettid addr s \<Longrightarrow> thread_ok gettid addr t"
proof (induction rule: thread_step.induct)
  case (call s)
  with assms show ?case by (cases "child s") (auto simp: thread_ok_def child_facts_def thread_defs new_loop_thread_def new_latch_def caller_inside_def)
next
  case (latch s)
  with assms show ?case by (cases "child s") (auto simp: thread_ok_def child_facts_def thread_defs new_loop_thread_def new_latch_def caller_inside_def)
next
  case (check s)
  with assms show ?case by (cases "child s") (auto simp: thread_ok_def child_facts_def thread_defs new_loop_thread_def new_latch_def caller_inside_def)
next
  case (ret s)
  with assms show ?case by (cases "child s") (auto simp: thread_ok_def child_facts_def thread_defs new_loop_thread_def new_latch_def caller_inside_def)
next
  case (dtor s r)
  with assms show ?case by (cases "child s") (auto simp: thread_ok_def child_facts_def thread_defs new_loop_thread_def new_latch_def caller_inside_def)
next
  case (c_tid s)
  with assms show ?case by (cases "child s") (auto simp: thread_ok_def child_facts_def thread_defs new_loop_thread_def new_latch_def caller_inside_def)
next
  case (c_latch s)
  with assms show ?case by (cases "child s") (auto simp: thread_ok_def child_facts_def thread_defs new_loop_thread_def new_latch_def caller_inside_def)
next
  case (c_assign s)
  with assms show ?case by (cases "child s") (auto simp: thread_ok_def child_facts_def thread_defs new_loop_thread_def new_latch_def caller_inside_def)
next
  case (c_end s)
  with assms show ?case by (cases "child s") (auto simp: thread_ok_def child_facts_def thread_defs new_loop_thread_def new_latch_def caller_inside_def)
qed

lemma spurious_step_ok: "spurious_step s t \<Longrightarrow> thread_ok gettid addr s \<Longrightarrow> thread_ok gettid addr t"
  by (induction rule: spurious_step.induct)
     (auto simp: thread_ok_def child_facts_def new_loop_thread_def new_latch_def caller_inside_def split: child.splits)

lemma thread_init_ok: "thread_init s \<Longrightarrow> thread_ok gettid addr s"
  by (simp add: thread_init_def thread_ok_def child_facts_def new_loop_thread_def)

lemma any_step_ok: "0 < gettid \<Longrightarrow> any_step gettid addr s t \<Longrightarrow> thread_ok gettid addr s \<Longrightarrow> thread_ok gettid addr t"
  unfolding any_step_def using thread_step_ok spurious_step_ok by blast

text \<open>A thread id as the kernel gives them.\<close>

definition good_tid :: "int \<Rightarrow> int" where
  "good_tid i = \<bar>i\<bar> + 1"

interpretation thread_run: safety_machine thread_init "any_step (good_tid i) addr" "thread_ok (good_tid i) addr"
proof
  show "thread_init s \<Longrightarrow> thread_ok (good_tid i) addr s" for s by (rule thread_init_ok)
  show "any_step (good_tid i) addr s t \<Longrightarrow> thread_ok (good_tid i) addr s \<Longrightarrow> thread_ok (good_tid i) addr t" for s t
    by (rule any_step_ok) (simp_all add: good_tid_def)
qed

lemma reach_thread_ok: "0 < gettid \<Longrightarrow> reach thread_init (any_step gettid addr) s \<Longrightarrow> thread_ok gettid addr s"
  using thread_run.reach_inv [of "gettid - 1" addr s] by (simp add: good_tid_def)

text \<open>How many steps are left at most, spurious wake-ups apart.\<close>

fun starter_left :: "starter \<Rightarrow> nat" where
  "starter_left St_Call = 20"
| "starter_left St_Latch = 6"
| "starter_left St_Check = 4"
| "starter_left St_Return = 2"
| "starter_left (St_Returned r) = 1"
| "starter_left St_Fatal = 0"
| "starter_left St_Gone = 0"

fun child_left :: "child \<Rightarrow> nat" where
  "child_left Ch_None = 0"
| "child_left Ch_New = 9"
| "child_left Ch_Latch = 6"
| "child_left Ch_Func = 3"
| "child_left Ch_Running = 1"
| "child_left Ch_Ended = 0"
| "child_left Ch_Fault = 0"

definition steps_left :: "loop_thread \<Rightarrow> nat" where
  "steps_left s = starter_left (starter s) + child_left (child s) -
     (if starter s = St_Latch \<and> waiting (m_latch s) \<or> starter s = St_Check \<and> m_cond_waiting s then 1 else 0)"

lemma steps_left_decreases: "thread_step True gettid addr s t \<Longrightarrow> thread_ok gettid addr s \<Longrightarrow> steps_left t < steps_left s"
  by (induction rule: thread_step.induct)
     (auto simp: thread_ok_def steps_left_def thread_defs new_loop_thread_def split: if_splits)

lemma steps_left_bound: "thread_ok gettid addr s \<Longrightarrow> steps_left s \<le> 20"
  by (cases "child s"; cases "starter s") (auto simp: thread_ok_def child_facts_def steps_left_def)

definition caller_back :: "loop_thread \<Rightarrow> bool" where
  "caller_back s \<longleftrightarrow> starter s = St_Gone \<or> (\<exists>r. starter s = St_Returned r)"

lemma handshake_progress:
  assumes "thread_ok gettid addr s" "\<not> caller_back s"
  shows "\<exists>t. thread_step True gettid addr s t"
proof (cases "starter s")
  case St_Call
  then show ?thesis by (blast intro: call)
next
  case St_Latch
  show ?thesis
  proof (cases "waiting (m_latch s)")
    case True
    then have "child s = Ch_New \<or> child s = Ch_Latch"
      using assms St_Latch by (cases "child s") (auto simp: thread_ok_def child_facts_def caller_inside_def)
    then show ?thesis by (blast intro: c_tid c_latch)
  next
    case False
    with St_Latch show ?thesis by (blast intro: latch)
  qed
next
  case St_Check
  show ?thesis
  proof (cases "m_cond_waiting s")
    case True
    then have "child s = Ch_Func"
      using assms St_Check by (cases "child s") (auto simp: thread_ok_def child_facts_def caller_inside_def)
    then show ?thesis by (blast intro: c_assign)
  next
    case False
    with St_Check show ?thesis by (blast intro: check)
  qed
next
  case St_Return
  then show ?thesis by (blast intro: ret)
qed (use assms in \<open>auto simp: caller_back_def thread_ok_def\<close>)

lemma handshake_returns:
  assumes "0 < gettid"
  shows "thread_ok gettid addr s \<Longrightarrow> \<exists>t. (thread_step True gettid addr)\<^sup>*\<^sup>* s t \<and> caller_back t"
proof (induction "steps_left s" arbitrary: s rule: less_induct)
  case less
  show ?case
  proof (cases "caller_back s")
    case True
    then show ?thesis by blast
  next
    case False
    from handshake_progress [OF less.prems False] obtain u where u: "thread_step True gettid addr s u" by blast
    from less.hyps [OF steps_left_decreases [OF u less.prems] thread_step_ok [OF assms u less.prems]] u
    show ?thesis by (blast intro: converse_rtranclp_into_rtranclp)
  qed
qed

text \<open>A run to the end, step by step.\<close>

lemma run_to_fault:
  assumes "0 < gettid"
  shows "\<exists>s. reach thread_init (any_step gettid addr) s \<and> starter s = St_Gone \<and> child s = Ch_Fault"
proof -
  note st = reach_step [where step = "any_step gettid addr", OF _ any_step_def [THEN iffD2, OF disjI1]]
  define a where "a = start_thread True new_loop_thread"
  define b where "b = child_latch (child_tid gettid a)"
  define c where "c = pass_latch b"
  define d where "d = child_assign addr c"
  define e where "e = return_loop (check_loop d)"
  define f where "f = child_end (loop_thread_dtor e)"
  note ds = a_def b_def c_def d_def e_def f_def thread_defs new_loop_thread_def new_latch_def
  have 0: "reach thread_init (any_step gettid addr) new_loop_thread" by (rule reach_init) (simp add: thread_init_def)
  have 1: "reach thread_init (any_step gettid addr) a" unfolding a_def by (rule st [OF 0 call]) (simp add: new_loop_thread_def)
  have 2: "reach thread_init (any_step gettid addr) (child_tid gettid a)" by (rule st [OF 1 c_tid]) (simp add: ds)
  have 3: "reach thread_init (any_step gettid addr) b" unfolding b_def by (rule st [OF 2 c_latch]) (simp add: child_tid_def)
  have 4: "reach thread_init (any_step gettid addr) c" unfolding c_def by (rule st [OF 3 latch]) (simp_all add: ds)
  have 5: "reach thread_init (any_step gettid addr) d" unfolding d_def by (rule st [OF 4 c_assign]) (simp add: ds)
  have 6: "reach thread_init (any_step gettid addr) (check_loop d)" by (rule st [OF 5 check]) (use assms in \<open>simp_all add: ds\<close>)
  have 7: "reach thread_init (any_step gettid addr) e" unfolding e_def by (rule st [OF 6 ret]) (use assms in \<open>simp add: ds\<close>)
  have r: "starter e = St_Returned (Some addr)" using assms by (simp add: ds)
  have 8: "reach thread_init (any_step gettid addr) (loop_thread_dtor e)" by (rule st [OF 7 dtor [OF r]])
  have 9: "reach thread_init (any_step gettid addr) f" unfolding f_def by (rule st [OF 8 c_end]) (use assms in \<open>simp_all add: ds\<close>)
  show ?thesis using 9 assms by (intro exI [of _ f]) (simp add: ds)
qed

subsection \<open>Properties\<close>

text \<open>C18: \<open>startLoop\<close> returns the loop of the new thread. In every interleaving of the caller and the new
  thread, spurious wake-ups included, the caller never fails and never gets anything but the address of
  the running loop; until it is back some thread can go on, every step but a spurious wake-up brings it closer, at most
  twenty such steps are left, and from every reachable state they do bring it back.\<close>

theorem startLoop_returns:
  assumes "0 < gettid" "reach thread_init (any_step gettid addr) s"
  shows "(\<forall>r. starter s = St_Returned r \<longrightarrow> r = Some addr) \<and> starter s \<noteq> St_Fatal \<and>
    (\<not> caller_back s \<longrightarrow> (\<exists>t. thread_step True gettid addr s t)) \<and>
    (\<forall>t. thread_step True gettid addr s t \<longrightarrow> steps_left t < steps_left s) \<and> steps_left s \<le> 20 \<and>
    (\<exists>t. (thread_step True gettid addr)\<^sup>*\<^sup>* s t \<and> caller_back t)"
proof -
  have ok: "thread_ok gettid addr s" using assms by (rule reach_thread_ok)
  then show ?thesis
    using handshake_progress [OF ok] steps_left_decreases [OF _ ok] steps_left_bound [OF ok] handshake_returns [OF assms(1) ok]
    unfolding thread_ok_def by blast
qed

theorem startLoop_returns_witness: "\<exists>t. (thread_step True 7 1)\<^sup>*\<^sup>* new_loop_thread t \<and> caller_back t"
proof -
  have "reach thread_init (any_step 7 1) new_loop_thread" by (rule reach_init) (simp add: thread_init_def)
  from startLoop_returns [OF _ this] show ?thesis by simp
qed

text \<open>The thread object can be used after its destruction. The destructor tells the loop to quit but
  does not wait for the thread, which after its loop assigns to a member of the destroyed object.\<close>

theorem thread_outlives_object:
  assumes "0 < gettid"
  shows "\<exists>s. reach thread_init (any_step gettid addr) s \<and> starter s = St_Gone \<and> child s = Ch_Fault"
  by (rule run_to_fault [OF assms])

theorem thread_outlives_object_witness: "\<exists>s. reach thread_init (any_step 7 1) s \<and> child s = Ch_Fault"
  using thread_outlives_object [of 7 1] by auto

end
