(* ===== verification/Monitor.thy ===== *)
theory Monitor
  imports Threads
begin

text \<open>
  The critical sections of the latch in single steps: \<open>MutexLock\<close>, \<open>MutexLockGuard\<close> (base/Mutex.h),
  \<open>Condition\<close> (base/Condition.h) and the three operations of \<open>CountDownLatch\<close> (base/CountDownLatch.cpp) over
  them, run by any number of threads.

  A thread is a program counter. \<open>latch_move i\<close> is the next step of thread \<open>i\<close>, \<open>None\<close> when it is blocked: by
  the holder of the mutex, or asleep in the condition variable. The pthread calls do what their manual
  pages say and do not fail (the mutex has default attributes and is used correctly, as \<open>latch_ok\<close> shows), so
  their return codes, which the code only prints, are left out.

  The lemmas show mutual exclusion, that no wake-up is lost, that every run ends with all threads returned,
  and that each critical section acts as the single step that the theory Threads takes it for.
\<close>

subsection \<open>Mutex and condition variable\<close>

text \<open>A mutex is its holder; a condition variable the threads asleep in it.\<close>

record monitor =
  m_holder :: "nat option"
  m_sleepers :: "nat list"

definition mutex_lock :: "nat \<Rightarrow> 'z monitor_scheme \<Rightarrow> 'z monitor_scheme option" where
  "mutex_lock i m = (if m_holder m = None then Some (m\<lparr>m_holder := Some i\<rparr>) else None)"

definition mutex_unlock :: "'z monitor_scheme \<Rightarrow> 'z monitor_scheme" where
  "mutex_unlock m = m\<lparr>m_holder := None\<rparr>"

text \<open>\<open>wait\<close>: falling asleep releases the mutex; a thread that was woken must lock it again.\<close>

definition cond_sleep :: "nat \<Rightarrow> 'z monitor_scheme \<Rightarrow> 'z monitor_scheme" where
  "cond_sleep i m = (mutex_unlock m)\<lparr>m_sleepers := m_sleepers m @ [i]\<rparr>"

definition cond_resume :: "nat \<Rightarrow> 'z monitor_scheme \<Rightarrow> 'z monitor_scheme option" where
  "cond_resume i m = (if i \<in> set (m_sleepers m) then None else mutex_lock i m)"

definition broadcast :: "'z monitor_scheme \<Rightarrow> 'z monitor_scheme" where
  "broadcast m = m\<lparr>m_sleepers := []\<rparr>"

text \<open>\<open>signal\<close> wakes one sleeper, whichever the system picks.\<close>

definition cond_signal :: "nat \<Rightarrow> 'z monitor_scheme \<Rightarrow> 'z monitor_scheme" where
  "cond_signal i m = m\<lparr>m_sleepers := removeAll i (m_sleepers m)\<rparr>"

subsection \<open>CountDownLatch\<close>

datatype latch_pc =
    Wait_Lock | Wait_Test | Wait_Sleep | Wait_Unlock
  | Down_Lock | Down_Dec | Down_Cast | Down_Unlock
  | Get_Lock | Get_Read | Get_Unlock int
  | Returned

record latch_run = monitor +
  m_count :: int
  m_pcs :: "nat \<Rightarrow> latch_pc"

definition goto :: "nat \<Rightarrow> latch_pc \<Rightarrow> latch_run \<Rightarrow> latch_run" where
  "goto i c s = s\<lparr>m_pcs := (m_pcs s)(i := c)\<rparr>"

fun latch_at :: "latch_pc \<Rightarrow> nat \<Rightarrow> latch_run \<Rightarrow> latch_run option" where
  "latch_at Wait_Lock i s = map_option (goto i Wait_Test) (mutex_lock i s)"
| "latch_at Wait_Test i s = Some (if m_count s > 0 then goto i Wait_Sleep (cond_sleep i s) else goto i Wait_Unlock s)"
| "latch_at Wait_Sleep i s = map_option (goto i Wait_Test) (cond_resume i s)"
| "latch_at Wait_Unlock i s = Some (goto i Returned (mutex_unlock s))"
| "latch_at Down_Lock i s = map_option (goto i Down_Dec) (mutex_lock i s)"
| "latch_at Down_Dec i s = Some (goto i Down_Cast (s\<lparr>m_count := m_count s - 1\<rparr>))"
| "latch_at Down_Cast i s = Some (goto i Down_Unlock (if m_count s = 0 then broadcast s else s))"
| "latch_at Down_Unlock i s = Some (goto i Returned (mutex_unlock s))"
| "latch_at Get_Lock i s = map_option (goto i Get_Read) (mutex_lock i s)"
| "latch_at Get_Read i s = Some (goto i (Get_Unlock (m_count s)) s)"
| "latch_at (Get_Unlock n) i s = Some (goto i Returned (mutex_unlock s))"
| "latch_at Returned i s = None"

definition latch_move :: "nat \<Rightarrow> latch_run \<Rightarrow> latch_run option" where
  "latch_move i s = latch_at (m_pcs s i) i s"

definition latch_step :: "latch_run \<Rightarrow> latch_run \<Rightarrow> bool" where
  "latch_step s t \<longleftrightarrow> (\<exists>i. latch_move i s = Some t)"

text \<open>Wake-ups nobody sent act as signals.\<close>

definition spurious_wake :: "nat \<Rightarrow> latch_run \<Rightarrow> latch_run" where
  "spurious_wake = cond_signal"

definition latch_any :: "latch_run \<Rightarrow> latch_run \<Rightarrow> bool" where
  "latch_any s t \<longleftrightarrow> latch_step s t \<or> (\<exists>i. t = spurious_wake i s)"

text \<open>A latch on which each thread is about to call one operation.\<close>

definition latch_begin :: "latch_run \<Rightarrow> bool" where
  "latch_begin s \<longleftrightarrow> m_holder s = None \<and> m_sleepers s = [] \<and> (\<forall>i. m_pcs s i \<in> {Wait_Lock, Down_Lock, Get_Lock, Returned})"

subsection \<open>Mutual exclusion and no lost wake-up\<close>

fun inside :: "latch_pc \<Rightarrow> bool" where
  "inside (Get_Unlock n) = True"
| "inside c = (c \<in> {Wait_Test, Wait_Unlock, Down_Dec, Down_Cast, Down_Unlock, Get_Read})"

definition latch_ok :: "latch_run \<Rightarrow> bool" where
  "latch_ok s \<longleftrightarrow> (\<forall>i. inside (m_pcs s i) \<longleftrightarrow> m_holder s = Some i) \<and> (\<forall>i \<in> set (m_sleepers s). m_pcs s i = Wait_Sleep) \<and>
     (m_sleepers s \<noteq> [] \<longrightarrow> 0 < m_count s \<or> m_count s = 0 \<and> (\<exists>j. m_holder s = Some j \<and> m_pcs s j = Down_Cast))"

lemmas latch_defs = goto_def mutex_lock_def mutex_unlock_def cond_sleep_def cond_resume_def broadcast_def

lemma latch_begin_ok: "latch_begin s \<Longrightarrow> latch_ok s"
proof -
  assume b: "latch_begin s"
  have "\<not> inside (m_pcs s i)" for i
  proof -
    have "m_pcs s i \<in> {Wait_Lock, Down_Lock, Get_Lock, Returned}" using b by (simp add: latch_begin_def)
    then show ?thesis by auto
  qed
  with b show ?thesis by (simp add: latch_ok_def latch_begin_def)
qed

lemma latch_move_ok:
  assumes "latch_move i s = Some t" "latch_ok s"
  shows "latch_ok t"
proof -
  have o: "\<And>j. inside (m_pcs s j) \<longleftrightarrow> m_holder s = Some j" "\<And>j. j \<in> set (m_sleepers s) \<Longrightarrow> m_pcs s j = Wait_Sleep"
    "m_sleepers s \<noteq> [] \<Longrightarrow> 0 < m_count s \<or> m_count s = 0 \<and> (\<exists>j. m_holder s = Some j \<and> m_pcs s j = Down_Cast)"
    using assms(2) by (auto simp: latch_ok_def)
  have sl: "i \<notin> set (m_sleepers s)" if "m_pcs s i \<noteq> Wait_Sleep" using o(2) that by blast
  show ?thesis
    by (cases "m_pcs s i"; use assms(1) sl o o(1) [of i] in \<open>auto simp: latch_ok_def latch_move_def latch_defs split: if_splits\<close>)
qed

lemma spurious_ok: "latch_ok s \<Longrightarrow> latch_ok (spurious_wake i s)"
  by (auto simp: latch_ok_def spurious_wake_def cond_signal_def)

lemma latch_any_ok: "latch_any s t \<Longrightarrow> latch_ok s \<Longrightarrow> latch_ok t"
  unfolding latch_any_def latch_step_def using latch_move_ok spurious_ok by blast

interpretation latch_safe: safety_machine latch_begin latch_any latch_ok
  by unfold_locales (auto intro: latch_begin_ok latch_any_ok)

subsection \<open>Critical sections as single steps\<close>

text \<open>
  The latch as the theory Threads has it, seen by its one waiter \<open>w\<close>: a count that a \<open>countDown\<close> has taken
  down counts only when its broadcast is done.
\<close>

definition seen_latch :: "nat \<Rightarrow> latch_run \<Rightarrow> latch" where
  "seen_latch w s = \<lparr>latch_count = (case m_holder s of
       Some j \<Rightarrow> if m_pcs s j = Down_Cast then m_count s + 1 else m_count s | None \<Rightarrow> m_count s),
     waiting = (w \<in> set (m_sleepers s))\<rparr>"

lemma move_seen:
  assumes "latch_move i s = Some t" "latch_ok s"
  shows "(if m_pcs s i = Wait_Test \<and> i = w then latch_wait (seen_latch w s) = (m_pcs t w = Wait_Unlock, seen_latch w t)
      else if m_pcs s i = Down_Cast then seen_latch w t = countDown (seen_latch w s)
      else seen_latch w t = seen_latch w s) \<and>
    (m_pcs s i = Get_Read \<longrightarrow> m_pcs t i = Get_Unlock (getCount (seen_latch w s))) \<and>
    (i = w \<and> m_pcs s w = Wait_Sleep \<longrightarrow> \<not> waiting (seen_latch w s))"
proof -
  have o: "\<And>j. inside (m_pcs s j) \<longleftrightarrow> m_holder s = Some j" "\<And>j. j \<in> set (m_sleepers s) \<Longrightarrow> m_pcs s j = Wait_Sleep"
    using assms(2) by (auto simp: latch_ok_def)
  have sl: "i \<notin> set (m_sleepers s)" if "m_pcs s i \<noteq> Wait_Sleep" using o(2) that by blast
  have h: "m_holder s = Some i" if "inside (m_pcs s i)" using o(1) that by simp
  show ?thesis
    by (cases "m_pcs s i"; use assms(1) sl h in \<open>auto simp: latch_move_def latch_defs seen_latch_def latch_wait_def countDown_def
        getCount_def Let_def split: if_splits option.splits\<close>)
qed

subsection \<open>Every run ends with all threads returned\<close>

definition outside :: "nat set \<Rightarrow> latch_run \<Rightarrow> bool" where
  "outside A s \<longleftrightarrow> finite A \<and> (\<forall>i. i \<notin> A \<longrightarrow> m_pcs s i = Returned)"

fun going_down :: "latch_pc \<Rightarrow> bool" where
  "going_down c = (c \<in> {Down_Lock, Down_Dec, Down_Cast})"

text \<open>Steps a thread has before it at most, until the next broadcast.\<close>

fun moves_left :: "latch_pc \<Rightarrow> bool \<Rightarrow> nat" where
  "moves_left Wait_Lock b = 5"
| "moves_left Wait_Test b = 4"
| "moves_left Wait_Sleep b = (if b then 0 else 5)"
| "moves_left Wait_Unlock b = 1"
| "moves_left Down_Lock b = 4"
| "moves_left Down_Dec b = 3"
| "moves_left Down_Cast b = 2"
| "moves_left Down_Unlock b = 1"
| "moves_left Get_Lock b = 3"
| "moves_left Get_Read b = 2"
| "moves_left (Get_Unlock n) b = 1"
| "moves_left Returned b = 0"

definition work_left :: "nat set \<Rightarrow> latch_run \<Rightarrow> nat \<Rightarrow> nat" where
  "work_left A s i = (if going_down (m_pcs s i) then 5 * card A else 0) + moves_left (m_pcs s i) (i \<in> set (m_sleepers s))"

lemma moves_left_bound: "moves_left c b \<le> 5"
  by (cases c) auto

lemma work_left_bound: "work_left A s i \<le> 5 * card A + 5"
  using moves_left_bound [of "m_pcs s i" "i \<in> set (m_sleepers s)"] by (simp add: work_left_def)

lemma sum_less_one:
  fixes f g :: "nat \<Rightarrow> nat"
  assumes "finite A" "i \<in> A" "f i < g i" "\<And>j. j \<in> A \<Longrightarrow> j \<noteq> i \<Longrightarrow> f j = g j"
  shows "sum f A < sum g A"
  using assms by (intro sum_strict_mono_ex1) (auto simp: le_less)

lemma sum_less_paid:
  fixes f g :: "nat \<Rightarrow> nat"
  assumes "finite A" "i \<in> A" "f i + 5 * card A < g i + 5" "\<And>j. j \<in> A \<Longrightarrow> j \<noteq> i \<Longrightarrow> f j \<le> g j + 5"
  shows "sum f A < sum g A"
proof -
  have "sum f (A - {i}) \<le> (\<Sum>j \<in> A - {i}. g j + 5)" by (rule sum_mono) (use assms(4) in auto)
  also have "\<dots> = sum g (A - {i}) + 5 * card (A - {i})" by (simp add: sum.distrib)
  finally have "sum f (A - {i}) + 5 \<le> sum g (A - {i}) + 5 * card A"
    using assms(1,2) card_gt_0_iff [of A] by (auto simp: card_Diff_singleton diff_mult_distrib2)
  moreover have "sum f A = f i + sum f (A - {i})" "sum g A = g i + sum g (A - {i})" using assms(1,2) by (simp_all add: sum.remove)
  ultimately show ?thesis using assms(3) by linarith
qed

lemma move_works:
  assumes "latch_move i s = Some t" "latch_ok s" "outside A s"
  shows "sum (work_left A t) A < sum (work_left A s) A"
proof -
  have fin: "finite A" using assms(3) by (simp add: outside_def)
  have i: "i \<in> A" using assms(1,3) by (auto simp: outside_def latch_move_def)
  have sl: "i \<notin> set (m_sleepers s)" if "m_pcs s i \<noteq> Wait_Sleep" using assms(2) that by (auto simp: latch_ok_def)
  show ?thesis
  proof (cases "m_pcs s i = Down_Cast \<and> m_count s = 0")
    case True
    then have t: "t = goto i Down_Unlock (broadcast s)" using assms(1) by (simp add: latch_move_def)
    have "work_left A t i + 5 * card A < work_left A s i + 5" using True by (simp add: t latch_defs work_left_def)
    moreover have "work_left A t j \<le> work_left A s j + 5" if "j \<noteq> i" for j
      using that moves_left_bound [of "m_pcs s j" False] by (simp add: t latch_defs work_left_def)
    ultimately show ?thesis using fin i by (rule_tac sum_less_paid) auto
  next
    case False
    have "work_left A t i < work_left A s i"
      by (cases "m_pcs s i"; use assms(1) False sl in \<open>auto simp: latch_move_def latch_defs work_left_def split: if_splits\<close>)
    moreover have "work_left A t j = work_left A s j" if "j \<noteq> i" for j
      by (cases "m_pcs s i"; use assms(1) False that in \<open>auto simp: latch_move_def latch_defs work_left_def split: if_splits\<close>)
    ultimately show ?thesis using fin i by (intro sum_less_one) auto
  qed
qed

text \<open>What holds along a run from \<open>s0\<close>: threads stay in their operation, and the count is what it was less the
  decrements done. A wait that passed saw a count that is not positive, which it stays.\<close>

fun same_call :: "latch_pc \<Rightarrow> latch_pc \<Rightarrow> bool" where
  "same_call Wait_Lock c = (c \<in> {Wait_Lock, Wait_Test, Wait_Sleep, Wait_Unlock, Returned})"
| "same_call Down_Lock c = (c \<in> {Down_Lock, Down_Dec, Down_Cast, Down_Unlock, Returned})"
| "same_call Get_Lock c = ((case c of Get_Unlock n \<Rightarrow> True | _ \<Rightarrow> c \<in> {Get_Lock, Get_Read, Returned}))"
| "same_call p c = (c = Returned)"

definition to_count :: "nat set \<Rightarrow> latch_run \<Rightarrow> nat" where
  "to_count A s = card {i \<in> A. m_pcs s i \<in> {Down_Lock, Down_Dec}}"

definition run_facts :: "nat set \<Rightarrow> latch_run \<Rightarrow> latch_run \<Rightarrow> bool" where
  "run_facts A s0 s \<longleftrightarrow> latch_ok s \<and> outside A s \<and> m_count s - int (to_count A s) = m_count s0 - int (to_count A s0) \<and>
     (\<forall>i. same_call (m_pcs s0 i) (m_pcs s i)) \<and>
     (\<forall>i. m_pcs s0 i = Wait_Lock \<and> m_pcs s i \<in> {Wait_Unlock, Returned} \<longrightarrow> m_count s \<le> 0)"

lemma run_facts_begin: "latch_begin s \<Longrightarrow> outside A s \<Longrightarrow> run_facts A s s"
proof -
  assume b: "latch_begin s" "outside A s"
  have "m_pcs s i \<in> {Wait_Lock, Down_Lock, Get_Lock, Returned}" for i using b(1) by (simp add: latch_begin_def)
  then have "same_call (m_pcs s i) (m_pcs s i)" for i by (metis insert_iff empty_iff same_call.simps(1-3,12) latch_pc.simps)
  with b latch_begin_ok show ?thesis by (auto simp: run_facts_def)
qed

lemma to_count_move:
  assumes "latch_move i s = Some t" "outside A s"
  shows "to_count A s = (if m_pcs s i = Down_Dec then to_count A t + 1 else to_count A t)"
proof -
  have fin: "finite A" and i: "i \<in> A" using assms by (auto simp: outside_def latch_move_def)
  let ?B = "\<lambda>u. {j \<in> A. m_pcs u j \<in> {Down_Lock, Down_Dec}}"
  show ?thesis
  proof (cases "m_pcs s i = Down_Dec")
    case True
    then have "?B s = insert i (?B t)" "i \<notin> ?B t" using assms(1) i by (auto simp: latch_move_def latch_defs split: if_splits)
    then show ?thesis using True fin by (simp add: to_count_def)
  next
    case False
    then have "m_pcs t j \<in> {Down_Lock, Down_Dec} \<longleftrightarrow> m_pcs s j \<in> {Down_Lock, Down_Dec}" for j
      by (cases "m_pcs s i"; use assms(1) in \<open>auto simp: latch_move_def latch_defs split: if_splits\<close>)
    then show ?thesis using False by (simp add: to_count_def)
  qed
qed

lemma run_facts_move:
  assumes "latch_move i s = Some t" "run_facts A s0 s"
  shows "run_facts A s0 t"
proof -
  have f: "latch_ok s" "outside A s" "m_count s - int (to_count A s) = m_count s0 - int (to_count A s0)"
    "\<And>i. same_call (m_pcs s0 i) (m_pcs s i)"
    "\<And>i. m_pcs s0 i = Wait_Lock \<Longrightarrow> m_pcs s i \<in> {Wait_Unlock, Returned} \<Longrightarrow> m_count s \<le> 0"
    using assms(2) by (auto simp: run_facts_def)
  have c: "m_count t = (if m_pcs s i = Down_Dec then m_count s - 1 else m_count s)"
    by (cases "m_pcs s i"; use assms(1) in \<open>auto simp: latch_move_def latch_defs split: if_splits\<close>)
  have p: "m_pcs t j = m_pcs s j" if "j \<noteq> i" for j
    by (cases "m_pcs s i"; use assms(1) that in \<open>auto simp: latch_move_def latch_defs split: if_splits\<close>)
  have "outside A t" using f(2) p assms(1) unfolding outside_def by (metis latch_at.simps(12) latch_move_def option.distinct(1))
  moreover have "m_count t - int (to_count A t) = m_count s0 - int (to_count A s0)" using f(3) c to_count_move [OF assms(1) f(2)] by (simp split: if_splits)
  moreover have "same_call (m_pcs s0 j) (m_pcs t j)" for j
  proof (cases "j = i")
    case True
    show ?thesis unfolding True
      by (cases "m_pcs s i"; cases "m_pcs s0 i"; use assms(1) f(4) [of i] in \<open>auto simp: latch_move_def latch_defs split: if_splits\<close>)
  qed (use p f(4) in simp)
  moreover have "m_count t \<le> 0" if j: "m_pcs s0 j = Wait_Lock" "m_pcs t j \<in> {Wait_Unlock, Returned}" for j
  proof (cases "j = i")
    case True
    show ?thesis
      by (cases "m_pcs s i"; use assms(1) f(4) [of i] f(5) [of i] j True c in \<open>auto simp: latch_move_def latch_defs split: if_splits\<close>)
  next
    case False
    then show ?thesis using p [of j] f(5) [of j] j c by (simp split: if_splits)
  qed
  ultimately show ?thesis using latch_move_ok [OF assms(1) f(1)] by (auto simp add: run_facts_def)
qed

lemma run_facts_steps: "(latch_step ^^ k) s0 s \<Longrightarrow> run_facts A s0 s0 \<Longrightarrow> run_facts A s0 s \<and> k + sum (work_left A s) A \<le> sum (work_left A s0) A"
proof (induction k arbitrary: s)
  case (Suc k)
  then obtain u where u: "(latch_step ^^ k) s0 u" "latch_step u s" by auto
  from Suc.IH [OF u(1) Suc.prems(2)] have f: "run_facts A s0 u" "k + sum (work_left A u) A \<le> sum (work_left A s0) A" by simp_all
  obtain i where i: "latch_move i u = Some s" using u(2) by (auto simp: latch_step_def)
  have "latch_ok u" "outside A u" using f(1) by (simp_all add: run_facts_def)
  from move_works [OF i this] f(2) run_facts_move [OF i f(1)] show ?case by simp
qed simp

text \<open>Where no thread can move.\<close>

lemma stuck_returned:
  assumes "run_facts A s0 s" "m_count s0 \<le> int (to_count A s0)" "\<forall>i. latch_move i s = None"
  shows "m_pcs s i = Returned"
proof -
  have ok: "latch_ok s" "m_count s - int (to_count A s) = m_count s0 - int (to_count A s0)" using assms(1) by (simp_all add: run_facts_def)
  have no: "\<not> inside (m_pcs s i)" for i
    using assms(3) [rule_format, of i] by (cases "m_pcs s i") (auto simp: latch_move_def)
  then have free: "m_holder s = None" using ok(1) by (cases "m_holder s") (auto simp: latch_ok_def)
  have left: "m_pcs s i = Returned \<or> m_pcs s i = Wait_Sleep \<and> i \<in> set (m_sleepers s)" for i
    using assms(3) [rule_format, of i] no [of i] free
    by (cases "m_pcs s i") (auto simp: latch_move_def mutex_lock_def cond_resume_def split: if_splits)
  have none: "{i \<in> A. m_pcs s i \<in> {Down_Lock, Down_Dec}} = {}" using left by (metis (mono_tags, lifting) empty_Collect_eq insert_iff empty_iff latch_pc.simps)
  then have "to_count A s = 0" unfolding to_count_def none by simp
  with ok(2) assms(2) have "m_count s \<le> 0" by simp
  with ok(1) free have "m_sleepers s = []" by (auto simp: latch_ok_def)
  with left [of i] show ?thesis by simp
qed

subsection \<open>Properties\<close>

text \<open>C21: the critical sections of the latch are atomic. In every interleaving of any number of threads, spurious
  wake-ups included, each step of the code, mutex and condition variable is the step that \<open>latch_wait\<close>,
  \<open>countDown\<close> or \<open>getCount\<close> takes at once on the abstract latch, or does not change it; and the waiter leaves
  the condition variable only when the abstract latch no longer holds it.\<close>

theorem latch_sections_atomic:
  assumes "reach latch_begin latch_any s" "latch_move i s = Some t"
  shows "(if m_pcs s i = Wait_Test \<and> i = w then latch_wait (seen_latch w s) = (m_pcs t w = Wait_Unlock, seen_latch w t)
      else if m_pcs s i = Down_Cast then seen_latch w t = countDown (seen_latch w s)
      else seen_latch w t = seen_latch w s) \<and>
    (m_pcs s i = Get_Read \<longrightarrow> m_pcs t i = Get_Unlock (getCount (seen_latch w s))) \<and>
    (i = w \<and> m_pcs s w = Wait_Sleep \<longrightarrow> \<not> waiting (seen_latch w s))"
  using move_seen [OF assms(2) latch_safe.reach_inv [OF assms(1)]] .

text \<open>Thread 0 waits, thread 1 counts down.\<close>

definition demo_latch :: latch_run where
  "demo_latch = \<lparr>m_holder = None, m_sleepers = [], m_count = 1, m_pcs = (\<lambda>_. Returned)(0 := Wait_Lock, 1 := Down_Lock)\<rparr>"

lemma demo_latch_begin: "latch_begin demo_latch" "outside {0, 1} demo_latch" "to_count {0, 1} demo_latch = 1"
proof -
  show "latch_begin demo_latch" "outside {0, 1} demo_latch" by (simp_all add: latch_begin_def demo_latch_def outside_def)
  have "{i \<in> {0 :: nat, 1}. m_pcs demo_latch i \<in> {Down_Lock, Down_Dec}} = {1}" by (auto simp: demo_latch_def)
  then show "to_count {0, 1} demo_latch = 1" unfolding to_count_def by simp
qed

theorem latch_sections_atomic_witness:
  "\<exists>s t. latch_move 0 s = Some t \<and> m_pcs s 0 = Wait_Test \<and> latch_wait (seen_latch 0 s) = (False, seen_latch 0 t)"
proof -
  let ?s = "goto 0 Wait_Test (demo_latch\<lparr>m_holder := Some 0\<rparr>)"
  let ?t = "goto 0 Wait_Sleep (cond_sleep 0 ?s)"
  have m: "latch_move 0 demo_latch = Some ?s" "latch_move 0 ?s = Some ?t"
    by (simp_all add: latch_move_def demo_latch_def mutex_lock_def goto_def)
  have "latch_any demo_latch ?s" using m(1) unfolding latch_any_def latch_step_def by blast
  then have "reach latch_begin latch_any ?s" by (rule reach_step [OF reach_init [where init = latch_begin, OF demo_latch_begin(1)]])
  from latch_sections_atomic [OF this m(2), of 0] m(2) show ?thesis
    by (intro exI [of _ ?s] exI [of _ ?t]) (simp add: goto_def)
qed

text \<open>C22: every call on the latch returns. Finitely many threads call \<open>wait\<close>, \<open>countDown\<close> and \<open>getCount\<close>, each
  once, at least as many of them \<open>countDown\<close> as the latch counts. However they are interleaved: a run has at
  most 5 n^2 + 5 n steps, when no thread can step all have returned, and no \<open>wait\<close> has passed while the
  count is positive.\<close>

theorem latch_calls_return:
  assumes "latch_begin s0" "outside A s0" "m_count s0 \<le> int (card {i \<in> A. m_pcs s0 i = Down_Lock})" "(latch_step ^^ k) s0 s"
  shows "k \<le> 5 * card A * card A + 5 * card A \<and> ((\<forall>i. latch_move i s = None) \<longrightarrow> (\<forall>i. m_pcs s i = Returned)) \<and>
    (\<forall>i. m_pcs s0 i = Wait_Lock \<and> m_pcs s i \<in> {Wait_Unlock, Returned} \<longrightarrow> m_count s \<le> 0)"
proof -
  from run_facts_steps [OF assms(4) run_facts_begin [OF assms(1,2)]]
  have r: "run_facts A s0 s" "k + sum (work_left A s) A \<le> sum (work_left A s0) A" by simp_all
  have "m_pcs s0 i \<noteq> Down_Dec" for i
  proof -
    have "m_pcs s0 i \<in> {Wait_Lock, Down_Lock, Get_Lock, Returned}" using assms(1) by (simp add: latch_begin_def)
    then show ?thesis by auto
  qed
  then have "m_count s0 \<le> int (to_count A s0)" using assms(3) by (simp add: to_count_def)
  moreover have "sum (work_left A s0) A \<le> (\<Sum>i \<in> A. 5 * card A + 5)" by (rule sum_mono) (rule work_left_bound)
  then have "k \<le> 5 * card A * card A + 5 * card A" using r(2) by (simp add: algebra_simps)
  ultimately show ?thesis using r(1) stuck_returned [OF r(1)] by (auto simp: run_facts_def)
qed

theorem latch_calls_return_witness:
  "\<exists>s. (latch_step ^^ 2) demo_latch s \<and> m_pcs s 0 = Wait_Sleep \<and> (\<exists>i. latch_move i s \<noteq> None)"
proof -
  let ?s = "goto 0 Wait_Test (demo_latch\<lparr>m_holder := Some 0\<rparr>)"
  let ?t = "goto 0 Wait_Sleep (cond_sleep 0 ?s)"
  have "latch_step demo_latch ?s" "latch_step ?s ?t" unfolding latch_step_def
    by (rule exI [of _ 0], simp add: latch_move_def demo_latch_def mutex_lock_def goto_def)+
  then have r: "(latch_step ^^ 2) demo_latch ?t" by (metis numeral_2_eq_2 relpowp_1 relpowp_Suc_I One_nat_def)
  have "{i \<in> {0 :: nat, 1}. m_pcs demo_latch i = Down_Lock} = {1}" by (auto simp: demo_latch_def)
  then have "m_count demo_latch \<le> int (card {i \<in> {0, 1}. m_pcs demo_latch i = Down_Lock})" by (simp add: demo_latch_def)
  moreover have p: "m_pcs ?t 0 = Wait_Sleep" by (simp add: goto_def)
  ultimately have "\<exists>i. latch_move i ?t \<noteq> None"
    using latch_calls_return [OF demo_latch_begin(1,2) _ r] by (metis latch_pc.distinct(43) latch_pc.simps)
  with r p show ?thesis by blast
qed

end
