(* ===== verification/LoopTurns.thy ===== *)
theory LoopTurns
  imports LoopRegistry
begin

text \<open>
  Turns of a loop (\<open>EventLoop::loop\<close>) as their clients see them.

  The poller stores the reported events into a channel and \<open>handleEvent\<close> marks it; \<open>alike\<close> relates two
  loops that differ only in such marks and in what a turn keeps about itself, and everything the registry
  promises is the same for both. \<open>rests\<close>: a loop between two turns, with nothing queued. The two laws
  give a turn in which one channel is readable, and one in which the loop was woken for a functor.
\<close>

definition calm :: "'h channel \<Rightarrow> 'h channel" where
  "calm ch = ch\<lparr>m_revents := 0, m_event_handling := False\<rparr>"

definition alike :: "('f, 'h) loop \<Rightarrow> ('f, 'h) loop \<Rightarrow> bool" where
  "alike lp lp' \<longleftrightarrow> m_epoll lp' = m_epoll lp \<and> m_tid lp' = m_tid lp \<and> lp_id lp' = lp_id lp \<and> m_timer_heap lp' = m_timer_heap lp \<and>
     (\<forall>a. map_option calm (lp_objects lp' a) = map_option calm (lp_objects lp a))"

lemma calm_simps [simp]:
  "m_id (calm ch) = m_id ch" "m_loop (calm ch) = m_loop ch" "m_fd (calm ch) = m_fd ch" "m_events (calm ch) = m_events ch"
  "m_index (calm ch) = m_index ch" "m_read_handler (calm ch) = m_read_handler ch" "m_write_handler (calm ch) = m_write_handler ch"
  "m_error_handler (calm ch) = m_error_handler ch" "m_close_callback (calm ch) = m_close_callback ch"
  "calm (ch\<lparr>m_revents := ev\<rparr>) = calm ch" "calm (ch\<lparr>m_event_handling := b\<rparr>) = calm ch"
  by (simp_all add: calm_def)

lemma calm_eqD:
  assumes "calm ch = calm ch'"
  shows "m_id ch = m_id ch'" "m_loop ch = m_loop ch'" "m_fd ch = m_fd ch'" "m_events ch = m_events ch'" "m_index ch = m_index ch'"
    "m_read_handler ch = m_read_handler ch'"
  using assms by (metis calm_simps)+

lemma alike_refl [simp]: "alike lp lp"
  by (simp add: alike_def)

lemma alike_sym: "alike lp lp' \<Longrightarrow> alike lp' lp"
  by (simp add: alike_def)

lemma alike_trans [trans]: "alike lp lp' \<Longrightarrow> alike lp' lp'' \<Longrightarrow> alike lp lp''"
  by (simp add: alike_def)

lemma alike_object:
  assumes "alike lp lp'" "lp_objects lp' a = Some ch'"
  shows "\<exists>ch. lp_objects lp a = Some ch \<and> calm ch = calm ch'"
proof -
  have "map_option calm (lp_objects lp' a) = map_option calm (lp_objects lp a)" using assms(1) by (simp add: alike_def)
  with assms(2) show ?thesis by (cases "lp_objects lp a") auto
qed

lemma alike_None: "alike lp lp' \<Longrightarrow> lp_objects lp' a = None \<longleftrightarrow> lp_objects lp a = None"
  by (metis alike_object alike_sym not_None_eq)

lemma alike_epoll_inv:
  assumes "alike lp lp'" "epoll_inv (lp_objects lp) (m_epoll lp)"
  shows "epoll_inv (lp_objects lp') (m_epoll lp')"
  unfolding epoll_inv_def
proof (intro conjI allI impI)
  have e: "m_epoll lp' = m_epoll lp" using assms(1) by (simp add: alike_def)
  fix a ch' assume "lp_objects lp' a = Some ch'"
  from alike_object [OF assms(1) this] obtain ch where c: "lp_objects lp a = Some ch" "calm ch = calm ch'" by blast
  with epoll_invD [OF assms(2) c(1)] calm_eqD [OF c(2)] e show "channel_ok (m_epoll lp') a ch'" by (simp add: channel_ok_def)
next
  fix fd a assume "m_channels (m_epoll lp') fd = Some a"
  then have "m_channels (m_epoll lp) fd = Some a" using assms(1) by (simp add: alike_def)
  with assms(2) obtain ch where c: "lp_objects lp a = Some ch" "m_fd ch = fd" "m_index ch \<noteq> kNew"
    unfolding epoll_inv_def by blast
  from alike_object [OF alike_sym [OF assms(1)] c(1)] obtain ch' where "lp_objects lp' a = Some ch'" "calm ch' = calm ch" by blast
  with c calm_eqD [OF this(2)] show "\<exists>ch. lp_objects lp' a = Some ch \<and> m_fd ch = fd \<and> m_index ch \<noteq> kNew" by auto
next
  fix fd assume "interest (ctl_calls (m_epoll lp')) fd \<noteq> None"
  with assms show "m_channels (m_epoll lp') fd \<noteq> None" by (simp add: epoll_inv_def alike_def)
qed

lemma alike_loop_ok:
  assumes "alike lp lp'" "loop_ok tid kctl lp"
  shows "loop_ok tid kctl lp'"
  unfolding loop_ok_def
proof (intro conjI allI impI)
  show "kernel_obeys kctl" "m_tid lp' = tid" using assms by (simp_all add: loop_ok_def alike_def)
  show "epoll_inv (lp_objects lp') (m_epoll lp')" by (rule alike_epoll_inv [OF assms(1) loop_okD(3) [OF assms(2)]])
  fix a ch' assume "lp_objects lp' a = Some ch'"
  from alike_object [OF assms(1) this] obtain ch where c: "lp_objects lp a = Some ch" "calm ch = calm ch'" by blast
  with loop_okD(4) [OF assms(2) c(1)] calm_eqD [OF c(2)] assms(1) show "m_loop ch' = lp_id lp'" by (simp add: alike_def)
next
  fix a b ch ch' assume o: "lp_objects lp' a = Some ch" "lp_objects lp' b = Some ch'" "m_fd ch = m_fd ch'"
  obtain c where c: "lp_objects lp a = Some c" "calm c = calm ch" using alike_object [OF assms(1) o(1)] by blast
  obtain c' where c': "lp_objects lp b = Some c'" "calm c' = calm ch'" using alike_object [OF assms(1) o(2)] by blast
  show "a = b" using assms(2) c c' o(3) calm_eqD(3) [OF c(2)] calm_eqD(3) [OF c'(2)] unfolding loop_ok_def by metis
qed

lemma alike_views:
  assumes "alike lp lp'"
  shows "watched lp' = watched lp" "owned lp' = owned lp" "fd_used lp' = fd_used lp"
    "m_tid lp' = m_tid lp" "m_epoll lp' = m_epoll lp" "lp_id lp' = lp_id lp" "m_timer_heap lp' = m_timer_heap lp"
proof -
  have e: "m_epoll lp' = m_epoll lp" using assms by (simp add: alike_def)
  show "watched lp' = watched lp"
  proof
    fix a
    show "watched lp' a = watched lp a"
    proof (cases "lp_objects lp' a")
      case None
      with alike_None [OF assms, of a] show ?thesis by (simp add: watched_def)
    next
      case (Some ch')
      with alike_object [OF assms Some] e show ?thesis by (auto simp: watched_def dest: calm_eqD(3))
    qed
  qed
  show "owned lp' = owned lp" using alike_None [OF assms] by (auto simp: owned_def fun_eq_iff)
  show "fd_used lp' = fd_used lp" unfolding fun_eq_iff fd_used_def
    by (metis alike_object [OF assms] alike_object [OF alike_sym [OF assms]] calm_eqD(3))
  show "m_tid lp' = m_tid lp" "m_epoll lp' = m_epoll lp" "lp_id lp' = lp_id lp" "m_timer_heap lp' = m_timer_heap lp"
    using assms by (simp_all add: alike_def)
qed

text \<open>The channel at \<open>x\<close> reads with the handler \<open>h\<close>.\<close>

definition reads :: "('f, 'h) loop \<Rightarrow> nat \<Rightarrow> 'h \<Rightarrow> bool" where
  "reads lp x h \<longleftrightarrow> (\<exists>ch. lp_objects lp x = Some ch \<and> m_read_handler ch = Some h)"

lemma alike_reads: "alike lp lp' \<Longrightarrow> reads lp' x h = reads lp x h"
  unfolding reads_def by (metis alike_object alike_sym calm_eqD(6))

lemma alike_mark:
  "lp_objects lp x = Some ch \<Longrightarrow> calm ch' = calm ch \<Longrightarrow> alike lp (store_object x ch' lp)"
  by (simp add: alike_def) (simp add: store_object_def)

subsection \<open>Turns\<close>

definition rests :: "('f, 'h) loop \<Rightarrow> bool" where
  "rests lp \<longleftrightarrow> idle lp \<and> m_pending_functors lp = [] \<and> 1 < m_events_size (m_epoll lp)"

text \<open>The loop when it calls the read handler of the channel \<open>x\<close>, the only one reported, and the loop
  when the turn goes on to the functors.\<close>

definition reporting :: "nat \<Rightarrow> ('f, 'h) loop \<Rightarrow> ('f, 'h) loop" where
  "reporting x lp =
     (case lp_objects lp x of
        None \<Rightarrow> lp
      | Some ch \<Rightarrow> lp\<lparr>m_active_channels := [x], m_loop_event_handling := True, m_current_active_channel := Some x,
          lp_objects := (lp_objects lp)(x \<mapsto> ch\<lparr>m_revents := EPOLLIN, m_event_handling := True\<rparr>)\<rparr>)"

definition reported :: "nat \<Rightarrow> ('f, 'h) loop \<Rightarrow> ('f, 'h) loop" where
  "reported x lp =
     (case lp_objects lp x of
        None \<Rightarrow> lp
      | Some ch \<Rightarrow> lp\<lparr>m_current_active_channel := None, m_loop_event_handling := False,
          lp_objects := (lp_objects lp)(x \<mapsto> ch\<lparr>m_event_handling := False\<rparr>)\<rparr>)"

lemma reporting_simps [simp]:
  "alike lp (reporting x lp)" "m_pending_functors (reporting x lp) = m_pending_functors lp"
  by (auto simp: reporting_def alike_def split: option.splits)

lemma reported_simps [simp]:
  "alike lp (reported x lp)" "m_pending_functors (reported x lp) = m_pending_functors lp"
  "owned lp x \<Longrightarrow> idle (reported x lp)"
  by (auto simp: reported_def alike_def idle_def owned_def split: option.splits)

lemma readable_turn:
  assumes "reads lp x h" "1 < m_events_size (m_epoll lp)"
    and "run h (reporting x lp, w) = Inr (lp2, w2)" "owned lp2 x"
  shows "loop_turn run exec (Wt_Events [(x, EPOLLIN)]) (lp, w) = doPendingFunctors exec (reported x lp2, w2)"
proof -
  from assms(1) obtain ch where ch: "lp_objects lp x = Some ch" "m_read_handler ch = Some h" by (auto simp: reads_def)
  from assms(4) obtain ch2 where ch2: "lp_objects lp2 x = Some ch2" by (auto simp: owned_def)
  let ?ch = "ch\<lparr>m_revents := EPOLLIN\<rparr>"
  let ?lp = "lp\<lparr>m_active_channels := [x], lp_objects := (lp_objects lp)(x \<mapsto> ?ch), m_loop_event_handling := True,
    m_current_active_channel := Some x\<rparr>"
  have "store_object x (?ch\<lparr>m_event_handling := True\<rparr>) ?lp = reporting x lp"
    using ch by (simp add: reporting_def store_object_def)
  with assms(3) have r: "run h (store_object x (?ch\<lparr>m_event_handling := True\<rparr>) ?lp, w) = Inr (lp2, w2)" by simp
  have due: "due_handlers ?ch = [Some h]" using ch(2) by (simp add: due_handlers_def epoll_bits)
  have p: "poll (Wt_Events [(x, EPOLLIN)]) (lp_objects lp) (m_epoll lp) [] = Inr ([x], (lp_objects lp)(x \<mapsto> ?ch), m_epoll lp)"
    using ch(1) assms(2) by (simp add: poll_def)
  have "handleEvent run (mark_object x) ?ch (?lp, w) = Inr (store_object x (ch2\<lparr>m_event_handling := False\<rparr>) lp2, w2)"
    using r ch2 by (simp add: handleEvent_due due call_def mark_object_def object_def)
  then have d: "dispatch run x (lp\<lparr>m_active_channels := [x], lp_objects := (lp_objects lp)(x \<mapsto> ?ch),
      m_loop_event_handling := True\<rparr>, w) = Inr (store_object x (ch2\<lparr>m_event_handling := False\<rparr>) lp2, w2)"
    by (simp add: dispatch_def Let_def object_def)
  have same: "lp\<lparr>m_active_channels := xs, lp_objects := st, m_epoll := m_epoll lp, m_loop_event_handling := b\<rparr> =
      lp\<lparr>m_active_channels := xs, lp_objects := st, m_loop_event_handling := b\<rparr>" for xs st b by simp
  have "(store_object x (ch2\<lparr>m_event_handling := False\<rparr>) lp2)\<lparr>m_current_active_channel := None, m_loop_event_handling := False\<rparr> = reported x lp2"
    using ch2 by (simp add: reported_def store_object_def)
  with d show ?thesis by (simp add: loop_turn_def p Let_def same)
qed

lemma doPendingFunctors_none:
  "m_pending_functors lp = [] \<Longrightarrow> doPendingFunctors exec (lp, w) = Inr (lp\<lparr>m_calling_pending_functors := False, m_pending_functors := []\<rparr>, w)"
  by (simp add: doPendingFunctors_def swap_functors_def)

lemma doPendingFunctors_one:
  "m_pending_functors lp = [f] \<Longrightarrow> doPendingFunctors exec (lp, w) =
    bind_res (exec f (lp\<lparr>m_calling_pending_functors := True, m_pending_functors := []\<rparr>, w)) (\<lambda>(lp2, w). Inr (lp2\<lparr>m_calling_pending_functors := False\<rparr>, w))"
  by (simp add: doPendingFunctors_def swap_functors_def bind_res_def split: sum.splits)

lemma alike_flags [simp]:
  "alike lp (lp'\<lparr>m_calling_pending_functors := b\<rparr>) = alike lp lp'" "alike lp (lp'\<lparr>m_pending_functors := fs\<rparr>) = alike lp lp'"
  "alike lp (lp'\<lparr>m_wakeups := n\<rparr>) = alike lp lp'"
  by (simp_all add: alike_def)

text \<open>Something is readable while nothing is queued.\<close>

lemma event_turn:
  assumes "reads lp x h" "rests lp" "run h (reporting x lp, w) = Inr (lp2, w2)" "owned lp2 x" "m_pending_functors lp2 = []"
  shows "\<exists>lp3. loop_turn run exec (Wt_Events [(x, EPOLLIN)]) (lp, w) = Inr (lp3, w2) \<and> alike lp2 lp3 \<and>
    idle lp3 \<and> m_pending_functors lp3 = []"
proof -
  have "1 < m_events_size (m_epoll lp)" using assms(2) by (simp add: rests_def)
  from readable_turn [where run = run and exec = exec and w = w, OF assms(1) this assms(3,4)]
    doPendingFunctors_none [of "reported x lp2" exec w2] assms(5) reported_simps(1) [of lp2 x] reported_simps(3) [OF assms(4)]
  show ?thesis by (auto simp: idle_def)
qed

text \<open>The loop was woken, for the functor \<open>f\<close>.\<close>

lemma wake_turn:
  assumes "reads lp x h" "rests lp" "\<forall>lp. run h (lp, w) = Inr (loop_handleRead lp, w)" "alike lp lp'" "m_pending_functors lp' = [f]"
  shows "\<exists>lp3. alike lp lp3 \<and> idle lp3 \<and> m_pending_functors lp3 = [] \<and>
    loop_turn run exec (Wt_Events [(x, EPOLLIN)]) (lp', w) =
      bind_res (exec f (lp3, w)) (\<lambda>(lp4, w2). Inr (lp4\<lparr>m_calling_pending_functors := False\<rparr>, w2))"
proof -
  let ?lp2 = "loop_handleRead (reporting x lp')"
  have r: "reads lp' x h" "1 < m_events_size (m_epoll lp')"
    using assms(1,2,4) alike_reads [OF assms(4)] alike_views(5) [OF assms(4)] by (auto simp: rests_def)
  have a2: "alike lp' ?lp2" by (simp add: loop_handleRead_def)
  have o: "owned ?lp2 x" using r(1) alike_views(2) [OF a2] by (auto simp: reads_def owned_def)
  let ?lp3 = "(reported x ?lp2)\<lparr>m_calling_pending_functors := True, m_pending_functors := []\<rparr>"
  have "alike lp ?lp3" using alike_trans [OF alike_trans [OF assms(4) a2] reported_simps(1)] by simp
  moreover have "m_pending_functors (reported x ?lp2) = [f]" using assms(5) by (simp add: loop_handleRead_def)
  moreover have "idle ?lp3" using reported_simps(3) [OF o] by (simp add: idle_def)
  ultimately show ?thesis
    using readable_turn [where run = run and exec = exec, OF r, of w ?lp2 w] assms(3) o doPendingFunctors_one [of "reported x ?lp2" f]
    by (intro exI [of _ ?lp3]) simp
qed

end
