(* ===== verification/ServerSystem.thy ===== *)
theory ServerSystem
  imports LoopTurns TcpSpec TcpServer
begin

text \<open>
  The server with everything it owns: the acceptor, the connections and the loops, and what the handlers
  and functors of the loops do to it (the \<open>std::bind\<close>s of Acceptor.cpp, TcpConnection.cpp, TcpServer.cpp,
  EventLoop.cpp and TimerHeap.cpp).

  \<open>system\<close> extends the record of the server. A turn of the loop \<open>l\<close> (\<open>sys_turn\<close>) takes the loop out of
  \<open>sv_loops\<close>, lets it run its handlers and functors over the rest, and puts it back. While a connection
  handles an event its loop is in \<open>cs_loop\<close>, and its call back works on the other loops: the call back
  hands work to the main loop, which is never a loop of the pool (\<open>server_ok\<close>).

  The addresses of a new connection and of its channel, and the answers of \<open>read\<close> and \<open>write\<close> on its
  descriptor, come from the list \<open>sy_news\<close>. \<open>sys_env\<close> holds the kernel's side of \<open>epoll_ctl\<close>, the time and
  its text, and the garbage in uninitialised members.
\<close>

record conn_part =
  cp_conn :: conn
  cp_in :: "sys_read list"
  cp_out :: "sys_write list"
  cp_sent :: string

record new_object =
  no_conn :: nat
  no_channel :: nat
  no_reads :: "sys_read list"
  no_writes :: "sys_write list"

record system = server +
  m_acceptor :: acceptor
  sy_conns :: "nat \<rightharpoonup> conn_part"
  sy_accepts :: "sys_accept list"
  sy_refused :: "int list"
  sy_news :: "new_object list"

record sys_env =
  se_kctl :: ctl_kernel
  se_now :: int
  se_stamp :: string
  se_flag :: bool
  se_status :: HttpStatusCode

text \<open>An operation of the server, called while the loop \<open>l\<close> is out.\<close>

definition on_server :: "(system \<Rightarrow> system res) \<Rightarrow> nat \<Rightarrow> io_loop \<times> system \<Rightarrow> (io_loop \<times> system) res" where
  "on_server f l = (\<lambda>(lp, s).
     bind_res (f (put_loop l lp s)) (\<lambda>t. bind_res (the_loop l t) (\<lambda>lp'. Inr (lp', t))))"

subsection \<open>Connections\<close>

definition join_conn :: "io_loop \<Rightarrow> conn_part \<Rightarrow> 'w \<Rightarrow> (functor_name, event_handler, 'w) conn_state" where
  "join_conn lp p w = \<lparr>cs_loop = lp, cs_conn = cp_conn p, cs_in = cp_in p, cs_out = cp_out p, cs_sent = cp_sent p, cs_world = w\<rparr>"

definition conn_part_of :: "(functor_name, event_handler, 'w) conn_state \<Rightarrow> conn_part" where
  "conn_part_of c = \<lparr>cp_conn = cs_conn c, cp_in = cs_in c, cp_out = cs_out c, cp_sent = cs_sent c\<rparr>"

definition on_conn ::
  "((functor_name, event_handler, system) conn_state \<Rightarrow> (functor_name, event_handler, system) conn_state res) \<Rightarrow> nat \<Rightarrow>
   io_loop \<times> system \<Rightarrow> (io_loop \<times> system) res" where
  "on_conn f a = (\<lambda>(lp, s).
     case sy_conns s a of
       None \<Rightarrow> Inl Undefined_Behaviour
     | Some p \<Rightarrow>
         bind_res (f (join_conn lp p s)) (\<lambda>c.
         Inr (cs_loop c, (cs_world c)\<lparr>sy_conns := (sy_conns (cs_world c))(a \<mapsto> conn_part_of c)\<rparr>)))"

text \<open>
  What \<open>removeConnection\<close> may run at once (in the main thread), and what \<open>newConnection\<close> may: a pool's
  loop never runs in the main thread.
\<close>

fun run_removal :: "nat \<Rightarrow> functor_name \<Rightarrow> system \<Rightarrow> system res" where
  "run_removal tid (Fn_removeConnectionInLoop a) s = removeConnectionInLoop tid a s"
| "run_removal tid f s = Inl Undefined_Behaviour"

definition run_nothing :: "functor_name \<Rightarrow> system \<Rightarrow> system res" where
  "run_nothing f s = Inl Undefined_Behaviour"

text \<open>What the connection \<open>a\<close> binds.\<close>

definition env_for :: "sys_env \<Rightarrow> nat \<Rightarrow> nat \<Rightarrow> (functor_name, system) conn_env" where
  "env_for e tid a =
     \<lparr>e_tid = tid, e_kctl = se_kctl e, e_now = se_now e, e_stamp = se_stamp e, e_add_timer = Fn_addTimer,
      e_close_long = Fn_closeLongConnection a, e_shutdown_in_loop = Fn_shutdownInLoop a,
      e_close_callback = (\<lambda>c. removeConnection (run_removal tid) tid a)\<rparr>"

text \<open>
  The acceptor's call back. The server's \<open>newConnection\<close> is followed by the constructor of the connection,
  which places the connection's channel on its loop; the functor that uses both has only been queued.
\<close>

definition new_connection :: "sys_env \<Rightarrow> nat \<Rightarrow> nat \<Rightarrow> int \<Rightarrow> io_loop \<times> system \<Rightarrow> (io_loop \<times> system) res" where
  "new_connection e tid l fd = (\<lambda>(lp, s).
     case sy_news s of
       [] \<Rightarrow> Inl Script_Exhausted
     | n # news \<Rightarrow>
         bind_res (on_server (newConnection run_nothing tid (no_conn n) fd) l (lp, s\<lparr>sy_news := news\<rparr>)) (\<lambda>(lp1, t).
         case sv_conns t (no_conn n) of
           None \<Rightarrow> Inl Undefined_Behaviour
         | Some c \<Rightarrow>
             bind_res (the_loop (cr_loop c) t) (\<lambda>io.
             let ch = new_conn_channel (se_flag e) (no_channel n) (lp_id io) fd (H_conn (no_conn n) Ev_Read)
                        (H_conn (no_conn n) Ev_Write) (H_conn (no_conn n) Ev_Error) (H_conn (no_conn n) Ev_Close);
                 p = \<lparr>cp_conn = new_conn (se_status e) (cr_name c) fd (no_channel n), cp_in = no_reads n,
                      cp_out = no_writes n, cp_sent = []\<rparr>
             in Inr (lp1, (put_loop (cr_loop c) (store_object (no_channel n) ch io) t)
                  \<lparr>sy_conns := (sy_conns t)(no_conn n \<mapsto> p)\<rparr>))))"

subsection \<open>Handlers and functors\<close>

fun sys_handler :: "sys_env \<Rightarrow> nat \<Rightarrow> nat \<Rightarrow> event_handler \<Rightarrow> io_loop \<times> system \<Rightarrow> (io_loop \<times> system) res" where
  "sys_handler e tid l H_wakeup (lp, s) = Inr (loop_handleRead lp, s)"
| "sys_handler e tid l H_timer (lp, s) =
     bind_res (timer_handleRead Fn_handleTimeoutEvents tid lp) (\<lambda>lp'. Inr (lp', s))"
| "sys_handler e tid l H_accept (lp, s) =
     bind_res (acceptor_handleRead tid lp (m_acceptor s) (new_connection e tid l) (sy_accepts s) (lp, s))
       (\<lambda>((lp', t), refused, rest). Inr (lp', t\<lparr>sy_accepts := rest, sy_refused := sy_refused t @ refused\<rparr>))"
| "sys_handler e tid l (H_conn a ev) (lp, s) = on_conn (conn_exec (env_for e tid a) ev) a (lp, s)"

text \<open>The functors; \<open>handleTimeoutEvents\<close> runs others, but is never the call back of a timer itself.\<close>

fun sys_call :: "sys_env \<Rightarrow> nat \<Rightarrow> nat \<Rightarrow> functor_name \<Rightarrow> io_loop \<times> system \<Rightarrow> (io_loop \<times> system) res" where
  "sys_call e tid l (Fn_connectEstablished a) (lp, s) = on_conn (connectEstablished (env_for e tid a)) a (lp, s)"
| "sys_call e tid l (Fn_connectDestroyed a) (lp, s) = on_conn (connectDestroyed (env_for e tid a)) a (lp, s)"
| "sys_call e tid l (Fn_removeConnectionInLoop a) (lp, s) = on_server (removeConnectionInLoop tid a) l (lp, s)"
| "sys_call e tid l Fn_listen (lp, s) =
     bind_res (acceptor_listen tid (se_kctl e) (m_acceptor s, lp)) (\<lambda>(acc, lp'). Inr (lp', s\<lparr>m_acceptor := acc\<rparr>))"
| "sys_call e tid l (Fn_closeLongConnection a) (lp, s) = on_conn (closeLongConnection (env_for e tid a)) a (lp, s)"
| "sys_call e tid l (Fn_shutdownInLoop a) (lp, s) = on_conn (shutdownInLoop (env_for e tid a)) a (lp, s)"
| "sys_call e tid l (Fn_addTimer f delay) (lp, s) =
     Inr (lp\<lparr>m_timer_heap := addTimerInLoop (se_now e) f delay (m_timer_heap lp)\<rparr>, s)"
| "sys_call e tid l Fn_handleTimeoutEvents (lp, s) = Inl Undefined_Behaviour"

definition sys_functor :: "sys_env \<Rightarrow> nat \<Rightarrow> nat \<Rightarrow> functor_name \<Rightarrow> io_loop \<times> system \<Rightarrow> (io_loop \<times> system) res" where
  "sys_functor e tid l f s =
     (if f = Fn_handleTimeoutEvents then run_timeouts (sys_call e tid l) (se_now e) s else sys_call e tid l f s)"

subsection \<open>Turns\<close>

text \<open>One turn of the loop \<open>l\<close> in its own thread, given the answer of \<open>epoll_wait\<close>.\<close>

definition sys_turn :: "sys_env \<Rightarrow> nat \<Rightarrow> sys_wait \<Rightarrow> system \<Rightarrow> system res" where
  "sys_turn e l ans s =
     bind_res (the_loop l s) (\<lambda>lp.
     bind_res (loop_turn (sys_handler e (m_tid lp) l) (sys_functor e (m_tid lp) l) ans (lp, s)) (\<lambda>(lp', t).
     Inr (put_loop l lp' t)))"

fun sys_turns :: "(sys_env \<times> nat \<times> sys_wait) list \<Rightarrow> system \<Rightarrow> system res" where
  "sys_turns [] s = Inr s"
| "sys_turns ((e, l, ans) # ts) s = bind_res (sys_turn e l ans s) (sys_turns ts)"

text \<open>The last owner of the connection \<open>a\<close> lets go: its destructor, and what is left of its socket.\<close>

definition drop_conn :: "nat \<Rightarrow> system \<Rightarrow> (socket \<times> system) res" where
  "drop_conn a s =
     (case (sv_conns s a, sy_conns s a) of
        (Some c, Some p) \<Rightarrow>
          bind_res (the_loop (cr_loop c) s) (\<lambda>lp.
          bind_res (conn_dtor (join_conn lp p ())) (\<lambda>(sock, lp').
          Inr (sock, (put_loop (cr_loop c) lp' s)\<lparr>sv_conns := (sv_conns s)(a := None), sy_conns := (sy_conns s)(a := None)\<rparr>)))
      | _ \<Rightarrow> Inl Undefined_Behaviour)"

subsection \<open>Construction\<close>

definition new_system ::
  "bool \<Rightarrow> nat \<Rightarrow> io_loop \<Rightarrow> string \<Rightarrow> int \<Rightarrow> nat \<Rightarrow> bool \<Rightarrow> sys_accept list \<Rightarrow> new_object list \<Rightarrow> system" where
  "new_system u l lp name fd x reuse_port accepts news =
     (case new_acceptor u fd x H_accept reuse_port lp of (acc, lp1) \<Rightarrow>
        new_server l lp1 name (system.fields (setNewConnnectionCallback acc) Map.empty accepts [] news))"

text \<open>A functor that \<open>runInLoop\<close> of the main loop runs at once.\<close>

definition run_at_main :: "sys_env \<Rightarrow> nat \<Rightarrow> functor_name \<Rightarrow> system \<Rightarrow> system res" where
  "run_at_main e tid f s =
     bind_res (the_loop (m_main_loop s) s) (\<lambda>lp.
     bind_res (sys_functor e tid (m_main_loop s) f (lp, s)) (\<lambda>(lp', t). Inr (put_loop (m_main_loop s) lp' t)))"

definition sys_start :: "sys_env \<Rightarrow> (nat \<Rightarrow> nat \<times> io_loop) \<Rightarrow> nat \<Rightarrow> system \<Rightarrow> system res" where
  "sys_start e new_loops tid = server_start (run_at_main e tid) new_loops tid"

end
