(* ===== verification/ServerTurns.thy ===== *)
theory ServerTurns
  imports ServerSystem
begin

text \<open>
  What a turn of one loop does to the whole server: accepting a connection, establishing it, serving it,
  removing it from the map and destroying it. \<open>sys_waits\<close> describes a server all of whose loops rest,
  ready for the next event.
\<close>

subsection \<open>Turns of a loop that runs a connection\<close>

text \<open>The server after the connection \<open>a\<close> ran to \<open>c\<close> on the loop \<open>l\<close>, which is now \<open>lp\<close>.\<close>

definition after_conn :: "nat \<Rightarrow> nat \<Rightarrow> io_loop \<Rightarrow> (functor_name, event_handler, system) conn_state \<Rightarrow> system" where
  "after_conn l a lp c = put_loop l lp ((cs_world c)\<lparr>sy_conns := (sy_conns (cs_world c))(a \<mapsto> conn_part_of c)\<rparr>)"

lemma join_conn_simps [simp]:
  "cs_loop (join_conn lp p w) = lp" "cs_conn (join_conn lp p w) = cp_conn p" "cs_in (join_conn lp p w) = cp_in p"
  "cs_out (join_conn lp p w) = cp_out p" "cs_sent (join_conn lp p w) = cp_sent p" "cs_world (join_conn lp p w) = w"
  by (simp_all add: join_conn_def)

lemma conn_part_of_simps [simp]:
  "cp_conn (conn_part_of c) = cs_conn c" "cp_in (conn_part_of c) = cs_in c" "cp_out (conn_part_of c) = cs_out c"
  "cp_sent (conn_part_of c) = cs_sent c"
  by (simp_all add: conn_part_of_def)

lemma functor_conn_turn:
  assumes "sv_loops s l = Some lp" "reads lp0 wk H_wakeup" "rests lp0" "alike lp0 lp" "m_pending_functors lp = [f]"
    and "\<forall>r. sys_functor e (m_tid lp) l f r = on_conn g a r" "sy_conns s a = Some p"
    and "\<And>lp3. alike lp0 lp3 \<Longrightarrow> idle lp3 \<Longrightarrow> m_pending_functors lp3 = [] \<Longrightarrow> \<exists>c. g (join_conn lp3 p s) = Inr c \<and> P c"
  shows "\<exists>c. P c \<and> sys_turn e l (Wt_Events [(wk, EPOLLIN)]) s =
    Inr (after_conn l a ((cs_loop c)\<lparr>m_calling_pending_functors := False\<rparr>) c)"
proof -
  have h: "\<forall>lp. sys_handler e (m_tid lp') l H_wakeup (lp, s) = Inr (loop_handleRead lp, s)" for lp' by simp
  from wake_turn [where run = "sys_handler e (m_tid lp) l" and exec = "sys_functor e (m_tid lp) l", OF assms(2,3) h assms(4,5)]
  obtain lp3 where t: "alike lp0 lp3" "idle lp3" "m_pending_functors lp3 = []"
    "loop_turn (sys_handler e (m_tid lp) l) (sys_functor e (m_tid lp) l) (Wt_Events [(wk, EPOLLIN)]) (lp, s) =
      bind_res (sys_functor e (m_tid lp) l f (lp3, s)) (\<lambda>(lp4, w2). Inr (lp4\<lparr>m_calling_pending_functors := False\<rparr>, w2))" by blast
  from assms(8) [OF t(1-3)] obtain c where c: "g (join_conn lp3 p s) = Inr c" "P c" by blast
  with t(4) assms(1,6,7) show ?thesis by (intro exI [of _ c]) (simp add: sys_turn_def on_conn_def after_conn_def)
qed

lemma event_conn_turn:
  assumes "sv_loops s l = Some lp" "reads lp x (H_conn a ev)" "rests lp" "sy_conns s a = Some p"
    and "\<And>lp3. alike lp lp3 \<Longrightarrow> m_pending_functors lp3 = [] \<Longrightarrow>
      \<exists>c. conn_exec (env_for e (m_tid lp) a) ev (join_conn lp3 p s) = Inr c \<and> P c \<and> owned (cs_loop c) x \<and> m_pending_functors (cs_loop c) = []"
  shows "\<exists>c lp4. P c \<and> sys_turn e l (Wt_Events [(x, EPOLLIN)]) s = Inr (after_conn l a lp4 c) \<and>
    alike (cs_loop c) lp4 \<and> idle lp4 \<and> m_pending_functors lp4 = []"
proof -
  have "m_pending_functors (reporting x lp) = []" using assms(3) by (simp add: rests_def)
  from assms(5) [OF _ this] obtain c where
    c: "conn_exec (env_for e (m_tid lp) a) ev (join_conn (reporting x lp) p s) = Inr c" "P c" "owned (cs_loop c) x"
      "m_pending_functors (cs_loop c) = []" by auto
  let ?w = "(cs_world c)\<lparr>sy_conns := (sy_conns (cs_world c))(a \<mapsto> conn_part_of c)\<rparr>"
  have "sys_handler e (m_tid lp) l (H_conn a ev) (reporting x lp, s) = Inr (cs_loop c, ?w)"
    using c(1) assms(4) by (simp add: on_conn_def)
  from event_turn [where run = "sys_handler e (m_tid lp) l" and exec = "sys_functor e (m_tid lp) l" and w = s, OF assms(2,3) this c(3,4)]
  obtain lp3 where "loop_turn (sys_handler e (m_tid lp) l) (sys_functor e (m_tid lp) l) (Wt_Events [(x, EPOLLIN)]) (lp, s) = Inr (lp3, ?w)"
    "alike (cs_loop c) lp3" "idle lp3" "m_pending_functors lp3 = []" by blast
  with c(2) assms(1) show ?thesis by (intro exI [of _ c] exI [of _ lp3]) (simp add: sys_turn_def after_conn_def)
qed

subsection \<open>A server that waits\<close>

definition loop_waits :: "ctl_kernel \<Rightarrow> nat \<Rightarrow> nat \<Rightarrow> system \<Rightarrow> bool" where
  "loop_waits kctl l wk s \<longleftrightarrow> (\<exists>lp. sv_loops s l = Some lp \<and> loop_ok (m_tid lp) kctl lp \<and> rests lp \<and> reads lp wk H_wakeup)"

definition sys_waits :: "ctl_kernel \<Rightarrow> nat \<Rightarrow> (nat \<Rightarrow> nat) \<Rightarrow> system \<Rightarrow> bool" where
  "sys_waits kctl tid wk s \<longleftrightarrow> server_ok tid s \<and> loop_waits kctl (m_main_loop s) (wk (m_main_loop s)) s \<and>
     (\<forall>l \<in> set (m_loops (m_pool s)). loop_waits kctl l (wk l) s) \<and> m_new_conn_callback (m_acceptor s) \<and>
     (\<exists>lp. sv_loops s (m_main_loop s) = Some lp \<and> reads lp (m_accept_channel (m_acceptor s)) H_accept)"

text \<open>The loop of the pool that the next connection goes to.\<close>

definition next_loop :: "'z server_scheme \<Rightarrow> nat" where
  "next_loop s = m_loops (m_pool s) ! nat (m_next (m_pool s))"

lemma next_loop_in: "loops_ok tid s \<Longrightarrow> next_loop s \<in> set (m_loops (m_pool s))"
  by (auto simp: next_loop_def loops_ok_def nat_less_iff)

lemma pool_not_main: "loops_ok tid s \<Longrightarrow> l \<in> set (m_loops (m_pool s)) \<Longrightarrow> l \<noteq> m_main_loop s"
  by (auto simp: loops_ok_def)

lemma queueInLoop_alike [simp]: "alike lp (queueInLoop tid f lp)"
  by (simp add: queueInLoop_def push_functor_def wakeup_def alike_def Let_def)

text \<open>The part of a connection, and the channel, that the constructor makes.\<close>

definition part_of_new :: "sys_env \<Rightarrow> string \<Rightarrow> int \<Rightarrow> new_object \<Rightarrow> conn_part" where
  "part_of_new e name fd n =
     \<lparr>cp_conn = new_conn (se_status e) name fd (no_channel n), cp_in = no_reads n, cp_out = no_writes n, cp_sent = []\<rparr>"

definition channel_of_new :: "sys_env \<Rightarrow> nat \<Rightarrow> int \<Rightarrow> new_object \<Rightarrow> event_handler channel" where
  "channel_of_new e lid fd n =
     new_conn_channel (se_flag e) (no_channel n) lid fd (H_conn (no_conn n) Ev_Read) (H_conn (no_conn n) Ev_Write)
       (H_conn (no_conn n) Ev_Error) (H_conn (no_conn n) Ev_Close)"

lemma with_conn_simps [simp]:
  "sv_loops (with_conn a fd s) = sv_loops s" "m_main_loop (with_conn a fd s) = m_main_loop s"
  "m_loops (m_pool (with_conn a fd s)) = m_loops (m_pool s)" "m_name (with_conn a fd s) = m_name s"
  "sv_conns (with_conn a fd s) a = Some \<lparr>cr_name = conn_name (m_name s) (m_next_conn_id s), cr_loop = next_loop s, cr_fd = fd\<rparr>"
  "b \<noteq> a \<Longrightarrow> sv_conns (with_conn a fd s) b = sv_conns s b"
  "m_connections (with_conn a fd s) = (m_connections s)(conn_name (m_name s) (m_next_conn_id s) \<mapsto> a)"
  "server.more (with_conn a fd s) = server.more s"
  by (simp_all add: with_conn_def next_loop_def Let_def)

text \<open>\<open>newConnection\<close> in the whole server.\<close>

lemma new_connection_law:
  fixes fd :: int
  assumes "server_ok tid s" "sy_news s = n # news" "sv_conns s (no_conn n) = None" "m_next_conn_id s + 1 < 2 ^ 31"
    and "sv_loops s (m_main_loop s) = Some lp0" "m_tid lp = m_tid lp0" "sv_loops s (next_loop s) = Some io"
  defines "t \<equiv> (with_conn (no_conn n) fd (put_loop (m_main_loop s) lp (s\<lparr>sy_news := news\<rparr>)))"
    and "io1 \<equiv> queueInLoop tid (Fn_connectEstablished (no_conn n)) io"
    and "name \<equiv> conn_name (m_name s) (m_next_conn_id s)"
  shows "new_connection e tid (m_main_loop s) fd (lp, s) =
    Inr (lp, (put_loop (next_loop s) (store_object (no_channel n) (channel_of_new e (lp_id io) fd n) io1) t)
      \<lparr>sy_conns := (sy_conns s)(no_conn n \<mapsto> part_of_new e name fd n)\<rparr>) \<and>
    server_ok tid (put_loop (next_loop s) (store_object (no_channel n) (channel_of_new e (lp_id io) fd n) io1) t)"
proof -
  let ?u = "put_loop (m_main_loop s) lp (s\<lparr>sy_news := news\<rparr>)" and ?a = "no_conn n"
  have "server_ok tid (s\<lparr>sy_news := news\<rparr>) = server_ok tid s" by (simp add: server_ok_def loops_ok_def conns_ok_def)
  then have u: "server_ok tid ?u" using put_loop_ok(3) [of "s\<lparr>sy_news := news\<rparr>" "m_main_loop s" lp0 lp tid] assms(1,5,6) by simp
  have n: "next_loop ?u = next_loop s" "next_loop s = m_loops (m_pool ?u) ! nat (m_next (m_pool ?u))" by (simp_all add: next_loop_def)
  have ne: "next_loop s \<noteq> m_main_loop s" using assms(1) pool_not_main [OF _ next_loop_in] by (simp add: server_ok_def) blast
  have "sv_conns ?u ?a = None" "m_next_conn_id ?u + 1 < 2 ^ 31" using assms(3,4) by simp_all
  from newConnection_law [OF u this, of run_nothing fd] ne assms(7) n(2) have
    r: "newConnection run_nothing tid ?a fd ?u = Inr (put_loop (next_loop s) io1 t)" "server_ok tid (put_loop (next_loop s) io1 t)"
    by (auto simp: t_def io1_def)
  have m: "sv_loops (put_loop (next_loop s) io1 t) (m_main_loop s) = Some lp" using ne by (simp add: t_def)
  have c: "sv_conns (put_loop (next_loop s) io1 t) ?a = Some \<lparr>cr_name = name, cr_loop = next_loop s, cr_fd = fd\<rparr>"
    using n(1) by (simp add: t_def name_def)
  have l: "sv_loops (put_loop (next_loop s) io1 t) (next_loop s) = Some io1" "lp_id io1 = lp_id io" "m_tid io1 = m_tid io"
    using alike_views(4,6) [OF queueInLoop_alike, of tid] by (simp_all add: io1_def)
  have "sy_conns (put_loop (next_loop s) io1 t) = sy_conns s" by (simp add: t_def put_loop_def with_conn_def Let_def)
  with r(1) m c l assms(2) have "new_connection e tid (m_main_loop s) fd (lp, s) =
    Inr (lp, (put_loop (next_loop s) (store_object (no_channel n) (channel_of_new e (lp_id io) fd n) io1) t)
      \<lparr>sy_conns := (sy_conns s)(?a \<mapsto> part_of_new e name fd n)\<rparr>)"
    by (simp add: new_connection_def on_server_def channel_of_new_def part_of_new_def Let_def)
  moreover have "server_ok tid (put_loop (next_loop s) (store_object (no_channel n) (channel_of_new e (lp_id io) fd n) io1) t)"
    using put_loop_ok(3) [OF l(1), of "store_object (no_channel n) (channel_of_new e (lp_id io) fd n) io1" tid] r(2) by simp
  ultimately show ?thesis by simp
qed

subsection \<open>Accepting\<close>

lemma system_fields_simps [simp]:
  "sy_conns (put_loop l lp s) = sy_conns s" "m_acceptor (put_loop l lp s) = m_acceptor s"
  "sy_accepts (put_loop l lp s) = sy_accepts s" "sy_news (put_loop l lp s) = sy_news s"
  "sy_conns (with_conn a fd s) = sy_conns s" "m_acceptor (with_conn a fd s) = m_acceptor s"
  "sy_accepts (with_conn a fd s) = sy_accepts s" "sy_news (with_conn a fd s) = sy_news s"
  "sv_conns (with_conn a fd s) = (sv_conns s)(a \<mapsto> \<lparr>cr_name = conn_name (m_name s) (m_next_conn_id s), cr_loop = next_loop s, cr_fd = fd\<rparr>)"
  "m_next_conn_id (with_conn a fd s) = m_next_conn_id s + 1"
  by (simp_all add: put_loop_def with_conn_def next_loop_def Let_def)

lemma server_ok_fields [simp]:
  "server_ok tid (s\<lparr>sy_conns := x\<rparr>) = server_ok tid s" "server_ok tid (s\<lparr>sy_accepts := y\<rparr>) = server_ok tid s"
  "server_ok tid (s\<lparr>sy_refused := z\<rparr>) = server_ok tid s" "server_ok tid (s\<lparr>sy_news := n\<rparr>) = server_ok tid s"
  by (simp_all add: server_ok_def loops_ok_def conns_ok_def)

text \<open>What a server is made of, apart from its loops and its connections.\<close>

definition same_frame :: "system \<Rightarrow> system \<Rightarrow> bool" where
  "same_frame s t \<longleftrightarrow> m_main_loop t = m_main_loop s \<and> m_loops (m_pool t) = m_loops (m_pool s) \<and> m_name t = m_name s \<and>
     m_acceptor t = m_acceptor s"

lemma accept_turn:
  assumes "sys_waits kctl tid wk s" "sy_accepts s = Ac_Fd fd # Ac_Err EAGAIN # as" "fd_ok fd" "sy_news s = n # news"
    and "sv_conns s (no_conn n) = None" "m_next_conn_id s + 1 < 2 ^ 31"
    and "sv_loops s (m_main_loop s) = Some lp0" "sv_loops s (next_loop s) = Some io"
  defines "name \<equiv> conn_name (m_name s) (m_next_conn_id s)"
    and "io1 \<equiv> queueInLoop tid (Fn_connectEstablished (no_conn n)) io"
  shows "\<exists>s1 lm. sys_turn e (m_main_loop s) (Wt_Events [(m_accept_channel (m_acceptor s), EPOLLIN)]) s = Inr s1 \<and>
    alike lp0 lm \<and> rests lm \<and> server_ok tid s1 \<and> same_frame s s1 \<and>
    sv_loops s1 = (sv_loops s)(m_main_loop s \<mapsto> lm, next_loop s \<mapsto> store_object (no_channel n) (channel_of_new e (lp_id io) fd n) io1) \<and>
    sv_conns s1 = (sv_conns s)(no_conn n \<mapsto> \<lparr>cr_name = name, cr_loop = next_loop s, cr_fd = fd\<rparr>) \<and>
    m_connections s1 = (m_connections s)(name \<mapsto> no_conn n) \<and>
    sy_conns s1 = (sy_conns s)(no_conn n \<mapsto> part_of_new e name fd n) \<and>
    sy_accepts s1 = as \<and> sy_news s1 = news \<and> m_next_conn_id s1 = m_next_conn_id s + 1"
proof -
  let ?m = "m_main_loop s" and ?x = "m_accept_channel (m_acceptor s)"
  let ?lp = "reporting ?x lp0"
  have w: "server_ok tid s" "loop_waits kctl ?m (wk ?m) s" "m_new_conn_callback (m_acceptor s)" "reads lp0 ?x H_accept"
    using assms(1,7) by (auto simp: sys_waits_def)
  have r: "rests lp0" using w(2) assms(7) by (auto simp: loop_waits_def)
  have tid: "m_tid lp0 = tid" "m_tid ?lp = m_tid lp0" "isInLoopThread tid ?lp"
    using w(1) assms(7) alike_views(4) [OF reporting_simps(1), of ?x lp0] by (auto simp: server_ok_def loops_ok_def isInLoopThread_def)
  have ne: "next_loop s \<noteq> ?m" using w(1) pool_not_main [OF _ next_loop_in] by (simp add: server_ok_def) blast
  let ?u = "put_loop (next_loop s) (store_object (no_channel n) (channel_of_new e (lp_id io) fd n) io1)
    (with_conn (no_conn n) fd (put_loop ?m ?lp (s\<lparr>sy_news := news\<rparr>)))"
  let ?t = "?u\<lparr>sy_conns := (sy_conns s)(no_conn n \<mapsto> part_of_new e name fd n)\<rparr>"
  from new_connection_law [OF w(1) assms(4-7) tid(2) assms(8), of e fd, unfolded w(1)] tid
  have nc: "new_connection e tid ?m fd (?lp, s) = Inr (?lp, ?t)" "server_ok tid ?u" by (simp_all add: io1_def name_def)
  have a: "accept_socket (Ac_Fd fd) = Inr fd" "accept_socket (Ac_Err EAGAIN) = Inr (- 1)" "0 \<le> fd" "\<not> fd > MAXFD"
    using assms(3) by (simp_all add: accept_socket_def accept_knows_def fd_ok_def)
  let ?v = "?t\<lparr>sy_accepts := as, sy_refused := sy_refused ?t @ []\<rparr>"
  have h: "sys_handler e tid ?m H_accept (?lp, s) = Inr (?lp, ?v)"
    using assms(2) w(3) tid(3) a nc(1) by (simp add: acceptor_handleRead_def)
  have p: "m_pending_functors ?lp = []" using r by (simp add: rests_def)
  have o: "owned ?lp ?x" using w(4) alike_views(2) [OF reporting_simps(1), of ?x lp0] by (auto simp: reads_def owned_def)
  from event_turn [where run = "sys_handler e tid ?m" and exec = "sys_functor e tid ?m" and w = s, OF w(4) r h o p] obtain lm where
    lm: "loop_turn (sys_handler e tid ?m) (sys_functor e tid ?m) (Wt_Events [(?x, EPOLLIN)]) (lp0, s) = Inr (lm, ?v)"
      "alike ?lp lm" "idle lm" "m_pending_functors lm = []" by blast
  define s1 where "s1 = put_loop ?m lm ?v"
  have al: "alike lp0 lm" by (rule alike_trans [OF reporting_simps(1) lm(2)])
  have rest: "rests lm" using lm(3,4) r alike_views(5) [OF al] by (simp add: rests_def)
  have run: "sys_turn e ?m (Wt_Events [(?x, EPOLLIN)]) s = Inr s1" using lm(1) assms(7) tid(1) by (simp add: sys_turn_def s1_def)
  have "server_ok tid ?v" using nc(2) by (simp only: server_ok_fields)
  then have ok: "server_ok tid s1" using put_loop_ok(3) [of ?v ?m ?lp lm tid] ne alike_views(4) [OF lm(2)] by (simp add: s1_def)
  have n: "next_loop (put_loop ?m ?lp (s\<lparr>sy_news := news\<rparr>)) = next_loop s" by (simp add: next_loop_def)
  have f: "same_frame s s1" by (simp add: same_frame_def s1_def)
  have "sv_loops s1 = (sv_loops s)(?m \<mapsto> lm, next_loop s \<mapsto> store_object (no_channel n) (channel_of_new e (lp_id io) fd n) io1)"
    using ne by (simp add: s1_def fun_upd_twist)
  moreover have "sv_conns s1 = (sv_conns s)(no_conn n \<mapsto> \<lparr>cr_name = name, cr_loop = next_loop s, cr_fd = fd\<rparr>)"
    using n by (simp add: s1_def name_def)
  moreover have "m_connections s1 = (m_connections s)(name \<mapsto> no_conn n)" "sy_conns s1 = (sy_conns s)(no_conn n \<mapsto> part_of_new e name fd n)"
    "sy_accepts s1 = as" "sy_news s1 = news" "m_next_conn_id s1 = m_next_conn_id s + 1" by (simp_all add: s1_def name_def)
  ultimately show ?thesis using run al rest ok f by blast
qed

subsection \<open>Establishing\<close>

lemma same_rest_reads: "same_rest lp lp' \<Longrightarrow> reads lp' x h = reads lp x h"
proof -
  assume "same_rest lp lp'"
  then have e: "map_option m_read_handler (lp_objects lp' x) = map_option m_read_handler (lp_objects lp x)" by (simp add: same_rest_def)
  then show ?thesis by (cases "lp_objects lp' x"; cases "lp_objects lp x") (simp_all add: reads_def)
qed

text \<open>What the clients of a loop can tell about its channels.\<close>

definition seen_at :: "io_loop \<Rightarrow> nat \<Rightarrow> (int \<times> event_handler option) option" where
  "seen_at lp y = map_option (\<lambda>ch. (m_fd ch, m_read_handler ch)) (lp_objects lp y)"

lemma seen_at_alike: "alike lp lp' \<Longrightarrow> seen_at lp' = seen_at lp"
proof
  fix y assume a: "alike lp lp'"
  show "seen_at lp' y = seen_at lp y"
  proof (cases "lp_objects lp' y")
    case None
    with alike_None [OF a, of y] show ?thesis by (simp add: seen_at_def)
  next
    case (Some ch')
    from alike_object [OF a Some] obtain ch where "lp_objects lp y = Some ch" "calm ch = calm ch'" by blast
    with Some calm_eqD(3,6) [OF this(2)] show ?thesis by (simp add: seen_at_def)
  qed
qed

lemma seen_at_same_rest: "same_rest lp lp' \<Longrightarrow> seen_at lp' = seen_at lp"
proof
  fix y assume "same_rest lp lp'"
  then have "map_option m_fd (lp_objects lp' y) = map_option m_fd (lp_objects lp y)"
    "map_option m_read_handler (lp_objects lp' y) = map_option m_read_handler (lp_objects lp y)" by (simp_all add: same_rest_def)
  then show "seen_at lp' y = seen_at lp y" by (cases "lp_objects lp' y"; cases "lp_objects lp y") (simp_all add: seen_at_def)
qed

lemma seen_at_views:
  "reads lp y h \<longleftrightarrow> (\<exists>fd. seen_at lp y = Some (fd, Some h))" "fd_used lp fd \<longleftrightarrow> (\<exists>y h. seen_at lp y = Some (fd, h))"
  "lp_objects lp y = None \<longleftrightarrow> seen_at lp y = None"
  by (auto simp: seen_at_def reads_def fd_used_def)

lemma conn_channel_ok:
  assumes "loop_ok tid kctl lp" "lp_objects lp (no_channel n) = None" "\<not> fd_used lp fd"
  shows "loop_ok tid kctl (store_object (no_channel n) (channel_of_new e (lp_id lp) fd n) lp)"
    "watched (store_object (no_channel n) (channel_of_new e (lp_id lp) fd n) lp) = watched lp"
proof -
  let ?x = "no_channel n"
  let ?c = "(new_channel (se_flag e) ?x (lp_id lp) fd)\<lparr>m_read_handler := None\<rparr> :: event_handler channel"
  let ?lp = "store_object ?x ?c lp"
  have ok: "loop_ok tid kctl ?lp" by (rule store_new_channel_ok [OF assms refl])
  have o: "lp_objects ?lp ?x = Some ?c" by simp
  have s: "store_object ?x (channel_of_new e (lp_id lp) fd n) ?lp = store_object ?x (channel_of_new e (lp_id lp) fd n) lp"
    by (simp add: store_object_def)
  note T = touch_channel_law [OF ok o, of "channel_of_new e (lp_id lp) fd n", unfolded s]
  show l: "loop_ok tid kctl (store_object ?x (channel_of_new e (lp_id lp) fd n) lp)"
    by (rule T(1)) (simp_all add: channel_of_new_def new_conn_channel_def new_channel_def)
  have "watched (store_object ?x (channel_of_new e (lp_id lp) fd n) lp) ?x = None"
    using watched_iff_added [OF l, of ?x] by (simp add: channel_of_new_def new_conn_channel_def new_channel_def index_defs)
  moreover have "watched lp ?x = None" using assms(2) by (simp add: watched_def)
  ultimately show "watched (store_object ?x (channel_of_new e (lp_id lp) fd n) lp) = watched lp"
    by (auto simp: watched_def fun_eq_iff split: option.splits)
qed

lemma settled_alike:
  assumes "alike lp lp'" "settled env (join_conn lp p w)"
  shows "settled env (join_conn lp' p w)" "cs_watched (join_conn lp' p w) = cs_watched (join_conn lp p w)"
    "others_watched (join_conn lp' p w) = others_watched (join_conn lp p w)"
  using assms alike_loop_ok [OF assms(1)] alike_views [OF assms(1)] by (simp_all add: settled_def cs_watched_def others_watched_def)

lemma new_part_simps [simp]:
  "m_channel (cp_conn (part_of_new e name fd n)) = no_channel n" "\<not> m_timeout (cp_conn (part_of_new e name fd n))"
  "\<not> m_alive (cp_conn (part_of_new e name fd n))" "cp_in (part_of_new e name fd n) = no_reads n"
  "m_input_buffer (cp_conn (part_of_new e name fd n)) = new_buffer" "m_output_buffer (cp_conn (part_of_new e name fd n)) = new_buffer"
  "m_context (cp_conn (part_of_new e name fd n)) = new_context (se_status e)"
  "cp_out (part_of_new e name fd n) = no_writes n" "cp_sent (part_of_new e name fd n) = []"
  "m_socket (cp_conn (part_of_new e name fd n)) = client_socket fd False"
  by (simp_all add: part_of_new_def new_conn_def)

lemma env_for_simps [simp]:
  "e_tid (env_for e tid a) = tid" "e_kctl (env_for e tid a) = se_kctl e" "e_stamp (env_for e tid a) = se_stamp e"
  by (simp_all add: env_for_def)

lemma establish_turn:
  fixes n :: new_object
  defines "a \<equiv> no_conn n" and "x \<equiv> no_channel n"
  assumes io: "loop_ok (m_tid io) kctl io" "rests io" "reads io wk H_wakeup" "lp_objects io x = None" "\<not> fd_used io fd"
    and s: "sv_loops s l = Some (store_object x (channel_of_new e0 (lp_id io) fd n) (queueInLoop tid (Fn_connectEstablished a) io))"
      "sy_conns s a = Some (part_of_new e0 name fd n)"
    and k: "se_kctl e = kctl"
  shows "\<exists>c. sys_turn e l (Wt_Events [(wk, EPOLLIN)]) s = Inr (after_conn l a ((cs_loop c)\<lparr>m_calling_pending_functors := False\<rparr>) c) \<and>
    ready (env_for e (m_tid io) a) c \<and> others_watched c = watched io \<and> cs_world c = s \<and>
    conn_part_of c = (part_of_new e0 name fd n)\<lparr>cp_conn := (cp_conn (part_of_new e0 name fd n))\<lparr>m_state := kConnected\<rparr>\<rparr> \<and>
    rests (cs_loop c) \<and> reads (cs_loop c) wk H_wakeup \<and> reads (cs_loop c) x (H_conn a Ev_Read) \<and> m_tid (cs_loop c) = m_tid io \<and>
    m_timer_heap (cs_loop c) = m_timer_heap io \<and> seen_at (cs_loop c) = (seen_at io)(x \<mapsto> (fd, Some (H_conn a Ev_Read)))"
proof -
  let ?ch = "channel_of_new e0 (lp_id io) fd n" and ?p = "part_of_new e0 name fd n" and ?env = "env_for e (m_tid io) a"
  let ?b = "store_object x ?ch io" and ?lp = "store_object x ?ch (queueInLoop tid (Fn_connectEstablished a) io)"
  have ok: "loop_ok (m_tid io) kctl ?b" "watched ?b = watched io" using conn_channel_ok [OF io(1) io(4,5) [unfolded x_def]] by (simp_all add: x_def)
  have ne: "wk \<noteq> x" using io(3,4) by (auto simp: reads_def)
  have b: "reads ?b wk H_wakeup" "rests ?b" "reads ?b x (H_conn a Ev_Read)" "owned ?b x"
    using io(2,3) ne
    by (auto simp: reads_def rests_def idle_def owned_def channel_of_new_def new_conn_channel_def a_def store_object_def)
  have al: "alike ?b ?lp" using queueInLoop_alike [of io tid "Fn_connectEstablished a"] by (simp add: alike_def store_object_def)
  have q: "m_pending_functors ?lp = [Fn_connectEstablished a]" "m_tid ?lp = m_tid io"
    using io(2) alike_views(4) [OF al] by (simp_all add: rests_def store_object_def)
  let ?P = "\<lambda>c. ready ?env c \<and> others_watched c = watched io \<and> cs_world c = s \<and>
    conn_part_of c = ?p\<lparr>cp_conn := (cp_conn ?p)\<lparr>m_state := kConnected\<rparr>\<rparr> \<and>
    rests (cs_loop c) \<and> reads (cs_loop c) wk H_wakeup \<and> reads (cs_loop c) x (H_conn a Ev_Read) \<and> m_tid (cs_loop c) = m_tid io \<and>
    m_timer_heap (cs_loop c) = m_timer_heap io \<and> seen_at (cs_loop c) = (seen_at io)(x \<mapsto> (fd, Some (H_conn a Ev_Read)))"
  have run: "\<exists>c. connectEstablished ?env (join_conn lp3 ?p s) = Inr c \<and> ?P c"
    if l3: "alike ?b lp3" "idle lp3" "m_pending_functors lp3 = []" for lp3
  proof -
    let ?j = "join_conn lp3 ?p s"
    have st: "settled ?env ?j" using alike_loop_ok [OF l3(1) ok(1)] alike_views(2) [OF l3(1)] b(4) k by (simp add: settled_def x_def)
    from connectEstablished_law [OF st] obtain lp where
      e: "connectEstablished ?env ?j = Inr ((setState kConnected ?j)\<lparr>cs_loop := lp\<rparr>)"
        "ready ?env ((setState kConnected ?j)\<lparr>cs_loop := lp\<rparr>)"
        "others_watched ((setState kConnected ?j)\<lparr>cs_loop := lp\<rparr>) = others_watched ?j" "same_rest lp3 lp"
      by (auto simp: new_context_def)
    have "watched io x = None" using io(4) by (simp add: watched_def)
    then have "others_watched ?j = watched io" using alike_views(1) [OF l3(1)] ok(2) by (auto simp: others_watched_def x_def fun_eq_iff)
    moreover have "rests lp" using l3(2,3) same_rest_simps [OF e(4)] alike_views(5) [OF l3(1)] b(2) by (simp add: rests_def)
    moreover have "reads lp wk H_wakeup" "reads lp x (H_conn a Ev_Read)"
      using b(1,3) alike_reads [OF l3(1)] same_rest_reads [OF e(4)] by simp_all
    moreover have "m_tid lp = m_tid io" using same_rest_simps(3) [OF e(4)] alike_views(4) [OF l3(1)] by simp
    moreover have "m_timer_heap lp = m_timer_heap io" using same_rest_simps(1) [OF e(4)] alike_views(7) [OF l3(1)] by (simp add: store_object_def)
    moreover have "seen_at lp = (seen_at io)(x \<mapsto> (fd, Some (H_conn a Ev_Read)))"
      using seen_at_same_rest [OF e(4)] seen_at_alike [OF l3(1)]
      by (simp add: seen_at_def channel_of_new_def new_conn_channel_def new_channel_def a_def fun_eq_iff)
    ultimately show ?thesis using e(1-3) by (intro exI [of _ "(setState kConnected ?j)\<lparr>cs_loop := lp\<rparr>"]) (simp add: conn_part_of_def setState_def join_conn_def)
  qed
  have f: "\<forall>r. sys_functor e (m_tid ?lp) l (Fn_connectEstablished a) r = on_conn (connectEstablished ?env) a r"
    using q(2) by (simp add: sys_functor_def)
  from functor_conn_turn [where P = ?P, OF s(1) b(1,2) al q(1) f s(2) run] show ?thesis by blast
qed

subsection \<open>Serving and closing\<close>

lemma removeConnection_queues:
  assumes "sv_loops s (m_main_loop s) = Some lm" "m_tid lm \<noteq> tid"
  shows "removeConnection exec tid a s = Inr (put_loop (m_main_loop s) (queueInLoop tid (Fn_removeConnectionInLoop a) lm) s)"
  using assms by (simp add: removeConnection_def run_in_def isInLoopThread_def queue_in_eq)

text \<open>The connection was closed: it is down, its channel is off, and its loop is otherwise as before.\<close>

definition off :: "io_loop \<Rightarrow> nat \<Rightarrow> bool" where
  "off lp x \<longleftrightarrow> (\<exists>ch. lp_objects lp x = Some ch \<and> m_index ch = kDeleted \<and> m_events ch = kNoneEvent)"

lemma alike_off: "alike lp lp' \<Longrightarrow> off lp x \<Longrightarrow> off lp' x"
proof -
  assume a: "alike lp lp'" "off lp x"
  then obtain ch where ch: "lp_objects lp x = Some ch" "m_index ch = kDeleted" "m_events ch = kNoneEvent" by (auto simp: off_def)
  from alike_object [OF alike_sym [OF a(1)] ch(1)] obtain ch' where "lp_objects lp' x = Some ch'" "calm ch' = calm ch" by blast
  with ch calm_eqD(4,5) [OF this(2)] show ?thesis by (simp add: off_def)
qed

lemma request_arrives_join:
  "request_arrives env (join_conn lp p w) ds m uri v hs extra k = request_arrives env (join_conn lp' p w') ds m uri v hs extra k"
  by (simp only: request_arrives_def join_conn_simps)

definition goes_down :: "(functor_name, system) conn_env \<Rightarrow> (functor_name, event_handler, system) conn_state \<Rightarrow> (functor_name, event_handler, system) conn_state \<Rightarrow> bool" where
  "goes_down env s t \<longleftrightarrow> m_state (cs_conn t) = kDisconnected \<and> cs_watched t = None \<and> others_watched t = others_watched s \<and>
     m_channel (cs_conn t) = m_channel (cs_conn s) \<and> settled env t \<and> same_rest (cs_loop s) (cs_loop t) \<and>
     off (cs_loop t) (m_channel (cs_conn s))"

lemma ready_alike:
  assumes "alike lp lp'" "ready env (join_conn lp p w)"
  shows "ready env (join_conn lp' p w)"
proof -
  have "settled env (join_conn lp p w)" using assms(2) by (simp add: ready_def)
  with assms settled_alike [OF assms(1) this] show ?thesis by (simp add: ready_def)
qed

lemma serve_turn:
  fixes e :: sys_env
  assumes l: "sv_loops s l = Some lp" "rests lp" "reads lp x (H_conn a Ev_Read)" and p: "sy_conns s a = Some p" "m_channel (cp_conn p) = x"
    and main: "sv_loops s (m_main_loop s) = Some lm" "m_tid lm \<noteq> m_tid lp"
  defines "env \<equiv> env_for e (m_tid lp) a" and "j \<equiv> join_conn lp p s"
  assumes r: "ready env j" "request_arrives env j ds m uri v hs extra k" "\<not> m_alive (cp_conn p)"
    and h: "\<not> asks_keep_alive (m_context (cp_conn p)) hs" "kernel_takes (length (response_to (se_stamp e) uri v)) (cp_out p)"
  shows "\<exists>lp3 c lp4. sys_turn e l (Wt_Events [(x, EPOLLIN)]) s = Inr (after_conn l a lp4 c) \<and> alike lp lp3 \<and>
    goes_down env (join_conn lp3 p s) c \<and> cs_sent c = cp_sent p @ response_to (se_stamp e) uri v \<and>
    m_socket (cs_conn c) = shutdownWrite (m_socket (cp_conn p)) \<and>
    cs_world c = put_loop (m_main_loop s) (queueInLoop (m_tid lp) (Fn_removeConnectionInLoop a) lm) s \<and>
    alike (cs_loop c) lp4 \<and> idle lp4 \<and> m_pending_functors lp4 = []"
proof -
  let ?w = "put_loop (m_main_loop s) (queueInLoop (m_tid lp) (Fn_removeConnectionInLoop a) lm) s"
  let ?P = "\<lambda>c. \<exists>lp3. alike lp lp3 \<and> goes_down env (join_conn lp3 p s) c \<and> cs_sent c = cp_sent p @ response_to (se_stamp e) uri v \<and>
    m_socket (cs_conn c) = shutdownWrite (m_socket (cp_conn p)) \<and> cs_world c = ?w"
  have run: "\<exists>c. conn_exec (env_for e (m_tid lp) a) Ev_Read (join_conn lp3 p s) = Inr c \<and> ?P c \<and> owned (cs_loop c) x \<and>
      m_pending_functors (cs_loop c) = []"
    if l3: "alike lp lp3" "m_pending_functors lp3 = []" for lp3
  proof -
    let ?j = "join_conn lp3 p s"
    have rd: "ready env ?j" using ready_alike [OF l3(1)] r(1) by (simp add: j_def)
    have ra: "request_arrives env ?j ds m uri v hs extra k" using r(2) unfolding j_def by (subst request_arrives_join)
    have cb: "\<forall>c. e_close_callback env c (cs_world ?j) = Inr ?w"
      using removeConnection_queues [OF main] by (simp add: env_def env_for_def)
    have t: "\<not> m_alive (cs_conn ?j)" "\<not> asks_keep_alive (m_context (cs_conn ?j)) hs"
      "kernel_takes (length (response_to (e_stamp env) uri v)) (cs_out ?j)" using r(3) h by (simp_all add: env_def)
    from short_connection_law [OF rd ra t cb] obtain c where
      c: "handleRead env ?j = Inr c" "cs_sent c = cp_sent p @ response_to (se_stamp e) uri v" "goes_down env ?j c"
        "m_socket (cs_conn c) = shutdownWrite (m_socket (cp_conn p))" "cs_world c = ?w"
      by (auto simp: goes_down_def off_def env_def)
    moreover have "owned (cs_loop c) x" "m_pending_functors (cs_loop c) = []"
      using c(3) p(2) l3(2) same_rest_simps(2) [of lp3 "cs_loop c"] by (auto simp: goes_down_def off_def owned_def)
    ultimately show ?thesis using l3(1) by (auto simp: env_def)
  qed
  from event_conn_turn [where P = ?P and e = e, OF l(1,3,2) p(1) run] show ?thesis by blast
qed

subsection \<open>Removing and destroying\<close>

lemma removal_turn:
  assumes "sv_loops s (m_main_loop s) = Some (queueInLoop tid' (Fn_removeConnectionInLoop a) lm)" "rests lm" "reads lm wk H_wakeup"
    and "server_ok (m_tid lm) s" "sv_conns s a = Some c" "sv_loops s (cr_loop c) = Some lp"
  shows "\<exists>s1 lm'. sys_turn e (m_main_loop s) (Wt_Events [(wk, EPOLLIN)]) s = Inr s1 \<and> alike lm lm' \<and> rests lm' \<and>
    sv_loops s1 = (sv_loops s)(m_main_loop s \<mapsto> lm', cr_loop c \<mapsto> queueInLoop (m_tid lm) (Fn_connectDestroyed a) lp) \<and>
    m_connections s1 = (m_connections s)(cr_name c := None) \<and> sv_conns s1 = sv_conns s \<and> sy_conns s1 = sy_conns s \<and>
    same_frame s s1 \<and> sy_accepts s1 = sy_accepts s \<and> sy_news s1 = sy_news s \<and> m_next_conn_id s1 = m_next_conn_id s \<and>
    server_ok (m_tid lm) s1"
proof -
  let ?m = "m_main_loop s" and ?q = "queueInLoop tid' (Fn_removeConnectionInLoop a) lm" and ?tid = "m_tid lm"
  have ne: "cr_loop c \<noteq> ?m" using assms(4,5) pool_not_main unfolding server_ok_def conns_ok_def by blast
  have q: "alike lm ?q" "m_pending_functors ?q = [Fn_removeConnectionInLoop a]" using assms(2) by (simp_all add: rests_def)
  have tid: "m_tid ?q = ?tid" by simp
  have h: "\<forall>lp. sys_handler e ?tid ?m H_wakeup (lp, s) = Inr (loop_handleRead lp, s)" by simp
  from wake_turn [where run = "sys_handler e ?tid ?m" and exec = "sys_functor e ?tid ?m", OF assms(3,2) h q] obtain lm3 where
    t: "alike lm lm3" "idle lm3" "m_pending_functors lm3 = []"
      "loop_turn (sys_handler e ?tid ?m) (sys_functor e ?tid ?m) (Wt_Events [(wk, EPOLLIN)]) (?q, s) =
        bind_res (sys_functor e ?tid ?m (Fn_removeConnectionInLoop a) (lm3, s)) (\<lambda>(lp4, w2). Inr (lp4\<lparr>m_calling_pending_functors := False\<rparr>, w2))" by blast
  let ?u = "put_loop ?m lm3 s"
  have u: "server_ok ?tid ?u" using put_loop_ok(3) [OF assms(1), of lm3 ?tid] assms(4) alike_views(4) [OF t(1)] by simp
  define w where "w = put_loop (cr_loop c) (queueInLoop ?tid (Fn_connectDestroyed a) lp) (?u\<lparr>m_connections := (m_connections s)(cr_name c := None)\<rparr>)"
  have "queue_in ?tid (cr_loop c) (Fn_connectDestroyed a) (?u\<lparr>m_connections := (m_connections s)(cr_name c := None)\<rparr>) = Inr w"
    using assms(6) ne by (simp add: w_def queue_in_eq)
  then have rm: "removeConnectionInLoop ?tid a ?u = Inr w"
    using assert_in_main [of ?tid ?u] u assms(5) by (simp add: removeConnectionInLoop_def server_ok_def)
  have wm: "sv_loops w ?m = Some lm3" using ne by (simp add: w_def)
  have f: "sys_functor e ?tid ?m (Fn_removeConnectionInLoop a) (lm3, s) = Inr (lm3, w)"
    using rm wm by (simp add: sys_functor_def on_server_def)
  define s1 where "s1 = put_loop ?m (lm3\<lparr>m_calling_pending_functors := False\<rparr>) w"
  have run: "sys_turn e ?m (Wt_Events [(wk, EPOLLIN)]) s = Inr s1" using assms(1) t(4) tid f by (simp add: sys_turn_def s1_def)
  have rest: "alike lm (lm3\<lparr>m_calling_pending_functors := False\<rparr>)" "rests (lm3\<lparr>m_calling_pending_functors := False\<rparr>)"
    using t(1-3) assms(2) alike_views(5) [OF t(1)] by (simp_all add: rests_def idle_def)
  have "server_ok ?tid (?u\<lparr>m_connections := (m_connections s)(cr_name c := None)\<rparr>)"
    using u by (auto simp: server_ok_def loops_ok_def conns_ok_def split: if_splits)
  then have "server_ok ?tid w" using put_loop_ok(3) [of "?u\<lparr>m_connections := (m_connections s)(cr_name c := None)\<rparr>" "cr_loop c" lp] assms(6) ne
    by (simp add: w_def)
  then have ok: "server_ok ?tid s1" using put_loop_ok(3) [OF wm, of "lm3\<lparr>m_calling_pending_functors := False\<rparr>" ?tid] by (simp add: s1_def)
  have sel: "sy_conns w = sy_conns s" "m_acceptor w = m_acceptor s" "sy_accepts w = sy_accepts s" "sy_news w = sy_news s"
    "m_main_loop w = m_main_loop s" "m_loops (m_pool w) = m_loops (m_pool s)" "m_name w = m_name s" "sv_conns w = sv_conns s"
    "m_connections w = (m_connections s)(cr_name c := None)" "m_next_conn_id w = m_next_conn_id s"
    by (simp_all add: w_def put_loop_def)
  have "sv_loops s1 = (sv_loops s)(?m \<mapsto> lm3\<lparr>m_calling_pending_functors := False\<rparr>, cr_loop c \<mapsto> queueInLoop ?tid (Fn_connectDestroyed a) lp)"
    using ne by (simp add: s1_def w_def fun_upd_twist)
  moreover have "same_frame s s1" using sel by (simp add: same_frame_def s1_def)
  moreover have "m_connections s1 = (m_connections s)(cr_name c := None)" "sv_conns s1 = sv_conns s" "sy_conns s1 = sy_conns s"
    "sy_accepts s1 = sy_accepts s" "sy_news s1 = sy_news s" "m_next_conn_id s1 = m_next_conn_id s" using sel by (simp_all add: s1_def)
  ultimately show ?thesis using run rest ok by blast
qed

lemma destroy_turn:
  fixes e :: sys_env
  assumes l: "sv_loops s l = Some (queueInLoop tid (Fn_connectDestroyed a) lp)" "rests lp" "reads lp wk H_wakeup"
    and p: "sy_conns s a = Some p" "m_state (cp_conn p) = kDisconnected" "m_channel (cp_conn p) = x"
    and ok: "loop_ok (m_tid lp) (se_kctl e) lp" "watched lp x = None" "off lp x"
    and c: "sv_conns s a = Some c" "cr_loop c = l"
  shows "\<exists>s1 s2 lp'. sys_turn e l (Wt_Events [(wk, EPOLLIN)]) s = Inr s1 \<and>
    sy_conns s1 a = Some p \<and> drop_conn a s1 = Inr (socket_dtor (m_socket (cp_conn p)), s2) \<and>
    sv_loops s2 = (sv_loops s)(l \<mapsto> lp') \<and> sv_conns s2 = (sv_conns s)(a := None) \<and> sy_conns s2 = (sy_conns s)(a := None) \<and>
    m_connections s2 = m_connections s \<and> m_pool s2 = m_pool s \<and> same_frame s s2 \<and> sy_accepts s2 = sy_accepts s \<and>
    sy_news s2 = sy_news s \<and> m_next_conn_id s2 = m_next_conn_id s \<and>
    loop_ok (m_tid lp) (se_kctl e) lp' \<and> rests lp' \<and> watched lp' = watched lp \<and> lp_id lp' = lp_id lp \<and>
    m_timer_heap lp' = m_timer_heap lp \<and> seen_at lp' = (seen_at lp)(x := None)"
proof -
  let ?q = "queueInLoop tid (Fn_connectDestroyed a) lp" and ?env = "env_for e (m_tid lp) a"
  have q: "alike lp ?q" "m_pending_functors ?q = [Fn_connectDestroyed a]" "m_tid ?q = m_tid lp" using l(2) by (simp_all add: rests_def)
  let ?P = "\<lambda>t. \<exists>lp3. alike lp lp3 \<and> idle lp3 \<and> m_pending_functors lp3 = [] \<and> same_rest lp3 (cs_loop t) \<and> t = join_conn (cs_loop t) p s \<and>
    loop_ok (m_tid lp) (se_kctl e) ((cs_loop t)\<lparr>lp_objects := (lp_objects (cs_loop t))(x := None)\<rparr>) \<and>
    watched ((cs_loop t)\<lparr>lp_objects := (lp_objects (cs_loop t))(x := None)\<rparr>) = watched lp"
  have run: "\<exists>t. connectDestroyed ?env (join_conn lp3 p s) = Inr t \<and> ?P t"
    if l3: "alike lp lp3" "idle lp3" "m_pending_functors lp3 = []" for lp3
  proof -
    let ?j = "join_conn lp3 p s"
    obtain ch where ch: "lp_objects (cs_loop ?j) (m_channel (cs_conn ?j)) = Some ch" "m_index ch = kDeleted" "m_events ch = kNoneEvent"
      using alike_off [OF l3(1) ok(3)] p(3) by (auto simp: off_def)
    have st: "settled ?env ?j" "m_state (cs_conn ?j) = kDisconnected" "cs_watched ?j = None" "idle (cs_loop ?j)"
      using alike_loop_ok [OF l3(1) ok(1)] ch(1) p alike_views(1) [OF l3(1)] ok(2) l3(2)
      by (simp_all add: settled_def owned_def cs_watched_def)
    from destroyed_law [OF st ch] obtain t lp4 where
      t: "connectDestroyed ?env ?j = Inr t" "conn_dtor t = Inr (socket_dtor (m_socket (cs_conn ?j)), lp4)"
        "loop_ok (m_tid lp) (se_kctl e) lp4" "watched lp4 = others_watched ?j" "t = ?j\<lparr>cs_loop := cs_loop t\<rparr>" "same_rest lp3 (cs_loop t)"
      by auto
    have j: "t = join_conn (cs_loop t) p s" using t(5) by (simp add: join_conn_def)
    have "m_state (cs_conn t) = kDisconnected" "m_channel (cs_conn t) = x" by (subst j, simp add: p(2,3))+
    then have "lp4 = (cs_loop t)\<lparr>lp_objects := (lp_objects (cs_loop t))(x := None)\<rparr>" using t(2) by (simp add: conn_dtor_def)
    moreover have "others_watched ?j = watched lp"
      using alike_views(1) [OF l3(1)] p(3) ok(2) by (simp add: others_watched_def fun_upd_idem)
    ultimately show ?thesis using t l3 j by metis
  qed
  have f: "\<forall>r. sys_functor e (m_tid ?q) l (Fn_connectDestroyed a) r = on_conn (connectDestroyed ?env) a r"
    using q(3) by (simp add: sys_functor_def)
  from functor_conn_turn [where P = ?P, OF l(1,3,2) q(1,2) f p(1) run] obtain t lp3 where
    t: "sys_turn e l (Wt_Events [(wk, EPOLLIN)]) s = Inr (after_conn l a ((cs_loop t)\<lparr>m_calling_pending_functors := False\<rparr>) t)"
      "alike lp lp3" "idle lp3" "m_pending_functors lp3 = []" "same_rest lp3 (cs_loop t)" "t = join_conn (cs_loop t) p s"
      "loop_ok (m_tid lp) (se_kctl e) ((cs_loop t)\<lparr>lp_objects := (lp_objects (cs_loop t))(x := None)\<rparr>)"
      "watched ((cs_loop t)\<lparr>lp_objects := (lp_objects (cs_loop t))(x := None)\<rparr>) = watched lp" by blast
  define L where "L = (cs_loop t)\<lparr>m_calling_pending_functors := False\<rparr>"
  define lp' where "lp' = L\<lparr>lp_objects := (lp_objects L)(x := None)\<rparr>"
  define s1 where "s1 = after_conn l a L t"
  have w: "cs_world t = s" "conn_part_of t = p" by (subst t(6), simp, subst t(6), simp add: conn_part_of_def)
  have s1: "s1 = put_loop l L (s\<lparr>sy_conns := (sy_conns s)(a \<mapsto> p)\<rparr>)" by (simp add: s1_def after_conn_def w)
  have sel: "sv_loops s1 = (sv_loops s)(l \<mapsto> L)" "sv_conns s1 = sv_conns s" "sy_conns s1 = (sy_conns s)(a \<mapsto> p)"
    "m_connections s1 = m_connections s" "m_pool s1 = m_pool s" "same_frame s s1" "sy_accepts s1 = sy_accepts s" "sy_news s1 = sy_news s"
    "m_next_conn_id s1 = m_next_conn_id s"
    by (simp_all add: s1 same_frame_def)
  define s2 where "s2 = (put_loop l lp' s1)\<lparr>sv_conns := (sv_conns s)(a := None), sy_conns := (sy_conns s)(a := None)\<rparr>"
  have "conn_dtor (join_conn L p ()) = Inr (socket_dtor (m_socket (cp_conn p)), lp')" using p by (simp add: conn_dtor_def lp'_def)
  then have d: "drop_conn a s1 = Inr (socket_dtor (m_socket (cp_conn p)), s2)"
    using sel c by (simp add: drop_conn_def s2_def fun_upd_upd)
  have al: "alike ((cs_loop t)\<lparr>lp_objects := (lp_objects (cs_loop t))(x := None)\<rparr>) lp'" by (simp add: alike_def lp'_def L_def)
  have "loop_ok (m_tid lp) (se_kctl e) lp'" "watched lp' = watched lp"
    using alike_loop_ok [OF al t(7)] alike_views(1) [OF al] t(8) by simp_all
  moreover have "rests lp'"
    using t(3,4) same_rest_simps [OF t(5)] alike_views(5) [OF t(2)] l(2) by (simp add: rests_def lp'_def L_def idle_def)
  moreover have "lp_id lp' = lp_id lp" using same_rest_simps(5) [OF t(5)] alike_views(6) [OF t(2)] by (simp add: lp'_def L_def)
  moreover have "m_timer_heap lp' = m_timer_heap lp"
    using same_rest_simps(1) [OF t(5)] alike_views(7) [OF t(2)] by (simp add: lp'_def L_def)
  moreover have "seen_at lp' = (seen_at lp)(x := None)"
    using seen_at_same_rest [OF t(5)] seen_at_alike [OF t(2)] by (auto simp: seen_at_def lp'_def L_def fun_eq_iff)
  moreover have "sv_loops s2 = (sv_loops s)(l \<mapsto> lp')" "sv_conns s2 = (sv_conns s)(a := None)" "sy_conns s2 = (sy_conns s)(a := None)"
    "m_connections s2 = m_connections s" "m_pool s2 = m_pool s" "same_frame s s2" "sy_accepts s2 = sy_accepts s" "sy_news s2 = sy_news s"
    "m_next_conn_id s2 = m_next_conn_id s"
    using sel by (simp_all add: s2_def same_frame_def)
  moreover have "sy_conns s1 a = Some p" "sys_turn e l (Wt_Events [(wk, EPOLLIN)]) s = Inr s1"
    using t(1) by (simp_all add: sel(3)) (simp add: s1_def L_def)
  ultimately show ?thesis using d by blast
qed

end
