(* ===== verification/ServerStart.thy ===== *)
theory ServerStart
  imports ServerTurns
begin

text \<open>
  How the server comes up: the loops as their constructor leaves them, the acceptor on the main loop, and
  \<open>TcpServer::start\<close>. The result waits (\<open>sys_waits\<close>), with the listening socket watched.
\<close>

lemma add_reader_frame: "add_reader u tid kctl (a, fd, h) lp = Inr lp' \<Longrightarrow>
  same_rest (store_object a ((new_channel u a (lp_id lp) fd)\<lparr>m_read_handler := Some h\<rparr>) lp) lp'"
  by (simp add: add_reader_def enableReading_def channel_op_frames(1))

lemma seen_at_store [simp]: "seen_at (store_object a ch lp) = (seen_at lp)(a \<mapsto> (m_fd ch, m_read_handler ch))"
  by (auto simp: seen_at_def fun_eq_iff)

lemma rests_same_rest: "same_rest lp lp' \<Longrightarrow> rests lp' = rests lp"
  using same_rest_simps [of lp lp'] by (simp add: rests_def)

lemma rests_store [simp]: "rests (store_object a ch lp) = rests lp"
  by (simp add: rests_def idle_def store_object_def)

text \<open>A new loop rests, with two channels.\<close>

lemma new_loop_rests:
  assumes "new_loop u kctl lid tid None (ta, tfd, th) (wa, wfd, wh) = Inr lp"
  shows "seen_at lp = [ta \<mapsto> (tfd, Some th), wa \<mapsto> (wfd, Some wh)]" "rests lp" "lp_id lp = lid"
proof -
  let ?b = "blank_loop lid tid :: io_loop"
  obtain l1 where l: "add_reader u tid kctl (ta, tfd, th) ?b = Inr l1" "add_reader u tid kctl (wa, wfd, wh) l1 = Inr lp"
    using assms by (auto simp: new_loop_def bind_res_eq_Inr)
  have b: "rests ?b" "seen_at ?b = Map.empty" "lp_id ?b = lid"
    by (simp_all add: rests_def idle_def blank_loop_def new_epoll_def kInitEventListSize_def seen_at_def fun_eq_iff)
  note f1 = add_reader_frame [OF l(1)] and f2 = add_reader_frame [OF l(2)]
  have fd: "m_fd (new_channel u a i fd) = fd" for a i fd by (simp add: new_channel_def)
  have "seen_at l1 = [ta \<mapsto> (tfd, Some th)]" using seen_at_same_rest [OF f1] b(2) by (simp add: fd)
  then show "seen_at lp = [ta \<mapsto> (tfd, Some th), wa \<mapsto> (wfd, Some wh)]" using seen_at_same_rest [OF f2] by (simp add: fd)
  show "rests lp" using rests_same_rest [OF f2] rests_same_rest [OF f1] b(1) by simp
  have "lp_id l1 = lid" using same_rest_simps(5) [OF f1] b(3) by simp
  with same_rest_simps(5) [OF f2] show "lp_id lp = lid" by simp
qed

text \<open>Listening.\<close>

lemma listen_law:
  assumes "loop_ok tid kctl lp" "rests lp" "seen_at lp x = None" "\<not> fd_used lp fd"
    and "new_acceptor u fd x H_accept reuse_port lp = (acc, lp1)"
  shows "\<exists>acc' lp2. acceptor_listen tid kctl (setNewConnnectionCallback acc, lp1) = Inr (acc', lp2) \<and> loop_ok tid kctl lp2 \<and> rests lp2 \<and>
    watched lp2 = (watched lp)(x \<mapsto> kReadEvent) \<and> seen_at lp2 = (seen_at lp)(x \<mapsto> (fd, Some H_accept)) \<and> m_tid lp1 = m_tid lp \<and>
    m_accept_channel acc' = x \<and> m_new_conn_callback acc' \<and> m_listenning acc' \<and>
    sock_calls (acc_socket acc') = [Sc_socket, Sc_reuseaddr fd True, Sc_reuseport fd reuse_port, Sc_bind fd, Sc_listen fd 5]"
proof -
  have "lp_objects lp x = None" using assms(3) by (simp add: seen_at_views)
  from add_reader_law [OF assms(1) this assms(4), of u H_accept] obtain lp2 where
    l2: "add_reader u tid kctl (x, fd, H_accept) lp = Inr lp2" "loop_ok tid kctl lp2" "watched lp2 = (watched lp)(x \<mapsto> kReadEvent)" by blast
  have a: "lp1 = store_object x ((new_channel u x (lp_id lp) fd)\<lparr>m_read_handler := Some H_accept\<rparr>) lp"
    "acc = \<lparr>acc_socket = setReusePort reuse_port (setReuseAddr True (new_socket fd)), m_accept_channel = x,
       m_new_conn_callback = False, m_listenning = False\<rparr>" using assms(5) by (simp_all add: new_acceptor_def)
  have t: "isInLoopThread tid lp1" "m_tid lp1 = m_tid lp" using loop_okD(2) [OF assms(1)] a(1) by (simp_all add: isInLoopThread_def)
  have "enableReading tid kctl x lp1 = Inr lp2" using l2(1) a(1) by (simp add: add_reader_def)
  moreover have "rests lp2" "seen_at lp2 = (seen_at lp)(x \<mapsto> (fd, Some H_accept))"
    using rests_same_rest [OF add_reader_frame [OF l2(1)]] seen_at_same_rest [OF add_reader_frame [OF l2(1)]] assms(2)
    by (simp_all add: new_channel_def)
  ultimately show ?thesis using t l2(2,3) a(2)
    by (simp add: acceptor_listen_def setNewConnnectionCallback_def listen_socket_def bind_socket_def setReusePort_def setReuseAddr_def
        new_socket_def sock_do_def)
qed

text \<open>The loops the pool's threads built: each has its own address, thread and wake-up channel.\<close>

definition pool_loops :: "ctl_kernel \<Rightarrow> nat \<Rightarrow> nat \<Rightarrow> (nat \<Rightarrow> nat) \<Rightarrow> (nat \<Rightarrow> nat \<times> io_loop) \<Rightarrow> bool" where
  "pool_loops kctl l tid wk new_loops \<longleftrightarrow> (\<forall>j k. fst (new_loops j) = fst (new_loops k) \<longrightarrow> j = k) \<and>
     (\<forall>j. fst (new_loops j) \<noteq> l \<and> m_tid (snd (new_loops j)) \<noteq> tid \<and> loop_ok (m_tid (snd (new_loops j))) kctl (snd (new_loops j)) \<and>
       rests (snd (new_loops j)) \<and> reads (snd (new_loops j)) (wk (fst (new_loops j))) H_wakeup)"

lemma system_more:
  "server.more s = system.fields acc conns accepts refused news \<Longrightarrow>
    m_acceptor s = acc \<and> sy_conns s = conns \<and> sy_accepts s = accepts \<and> sy_news s = news"
  by (cases s) (simp add: system.defs)

lemma system_starts_law:
  assumes lp: "loop_ok tid (se_kctl e) lp" "rests lp" "reads lp (wk l) H_wakeup" "seen_at lp x = None" "\<not> fd_used lp fd"
    and pool: "pool_loops (se_kctl e) l tid wk new_loops"
  shows "\<exists>t lp2. sys_start e new_loops tid (new_system u l lp name fd x reuse_port accepts news) = Inr t \<and>
    sys_waits (se_kctl e) tid wk t \<and> m_started t \<and> m_main_loop t = l \<and> m_loops (m_pool t) = map (\<lambda>j. fst (new_loops j)) [0..<4] \<and>
    next_loop t = fst (new_loops 0) \<and> sv_loops t l = Some lp2 \<and> watched lp2 = (watched lp)(x \<mapsto> kReadEvent) \<and>
    seen_at lp2 = (seen_at lp)(x \<mapsto> (fd, Some H_accept)) \<and>
    (\<forall>j < 4. sv_loops t (fst (new_loops j)) = Some (snd (new_loops j))) \<and>
    m_listenning (m_acceptor t) \<and> m_accept_channel (m_acceptor t) = x \<and> m_connections t = Map.empty \<and> sv_conns t = Map.empty \<and>
    sy_conns t = Map.empty \<and> sy_accepts t = accepts \<and> sy_news t = news \<and> m_next_conn_id t = 1"
proof -
  obtain acc lp1 where a: "new_acceptor u fd x H_accept reuse_port lp = (acc, lp1)" by fastforce
  from listen_law [OF lp(1,2,4,5) a] obtain acc' lp2 where
    l: "acceptor_listen tid (se_kctl e) (setNewConnnectionCallback acc, lp1) = Inr (acc', lp2)" "loop_ok tid (se_kctl e) lp2" "rests lp2"
      "watched lp2 = (watched lp)(x \<mapsto> kReadEvent)" "seen_at lp2 = (seen_at lp)(x \<mapsto> (fd, Some H_accept))" "m_tid lp1 = m_tid lp"
      "m_accept_channel acc' = x" "m_new_conn_callback acc'" "m_listenning acc'" by blast
  have tid: "m_tid lp1 = tid" "m_tid lp2 = tid" using l(2,6) lp(1) by (simp_all add: loop_ok_def)
  let ?more = "system.fields (setNewConnnectionCallback acc) Map.empty accepts [] news"
  have p: "\<forall>j k. fst (new_loops j) = fst (new_loops k) \<longrightarrow> j = k" "\<forall>j. fst (new_loops j) \<noteq> l \<and> m_tid (snd (new_loops j)) \<noteq> tid"
    using pool by (simp_all add: pool_loops_def)
  from server_starts_law [where exec = "run_at_main e tid" and rest = ?more and name = name and l = l and lp = lp1 and new_loops = new_loops and tid = tid, OF tid(1) p]
  obtain t where t: "server_start (run_at_main e tid) new_loops tid (new_server l lp1 name ?more) = run_at_main e tid Fn_listen t"
    "server_ok tid t" "m_started t" "m_loops (m_pool t) = map (\<lambda>j. fst (new_loops j)) [0..<4]" "m_main_loop t = l" "sv_loops t l = Some lp1"
    "\<forall>j < 4. sv_loops t (fst (new_loops j)) = Some (snd (new_loops j))" "server.more t = ?more" "m_connections t = Map.empty"
    "sv_conns t = Map.empty" "m_next_conn_id t = 1" "m_next (m_pool t) = 0" by blast
  note more = system_more [OF t(8)]
  define t' where "t' = put_loop l lp2 (t\<lparr>m_acceptor := acc'\<rparr>)"
  have "run_at_main e tid Fn_listen t = Inr t'" using t(5,6) l(1) more by (simp add: run_at_main_def sys_functor_def t'_def)
  then have run: "sys_start e new_loops tid (new_system u l lp name fd x reuse_port accepts news) = Inr t'"
    using t(1) a by (simp add: sys_start_def new_system_def)
  have sel: "sv_loops t' = (sv_loops t)(l \<mapsto> lp2)" "m_main_loop t' = l" "m_pool t' = m_pool t" "m_acceptor t' = acc'"
    using t(5) by (simp_all add: t'_def)
  have "server_ok tid (t\<lparr>m_acceptor := acc'\<rparr>)" "sv_loops (t\<lparr>m_acceptor := acc'\<rparr>) l = Some lp1"
    using t(2,6) by (simp_all add: server_ok_def loops_ok_def conns_ok_def)
  then have ok: "server_ok tid t'" using put_loop_ok(3) [of "t\<lparr>m_acceptor := acc'\<rparr>" l lp1 lp2 tid] tid by (simp add: t'_def)
  have wx: "wk l \<noteq> x" using lp(3,4) by (auto simp: seen_at_views)
  then have rd: "reads lp2 (wk l) H_wakeup" "reads lp2 x H_accept" using l(5) lp(3) by (simp_all add: seen_at_views)
  have main: "loop_waits (se_kctl e) l (wk l) t'" using sel(1) l(2,3) rd(1) tid(2) by (auto simp: loop_waits_def)
  have each: "loop_waits (se_kctl e) (fst (new_loops j)) (wk (fst (new_loops j))) t'" if "j < 4" for j
  proof -
    have "sv_loops t' (fst (new_loops j)) = Some (snd (new_loops j))" using sel(1) t(7) that p(2) by simp
    with pool show ?thesis by (auto simp: loop_waits_def pool_loops_def)
  qed
  then have all: "\<forall>k \<in> set (m_loops (m_pool t')). loop_waits (se_kctl e) k (wk k) t'" using t(4) sel(3) by auto
  have waits: "sys_waits (se_kctl e) tid wk t'" using ok main all l(7,8) sel rd(2) by (simp add: sys_waits_def)
  have nl: "next_loop t' = fst (new_loops 0)" using t(4,12) sel(3) by (simp add: next_loop_def upt_rec)
  have "\<forall>j < 4. sv_loops t' (fst (new_loops j)) = Some (snd (new_loops j))" using t(7) sel(1) p(2) by simp
  moreover have "m_started t'" using t(3) by (simp add: t'_def put_loop_def)
  ultimately show ?thesis using run waits nl sel t(4,9-11) l(4,5,7,9) more
    by (intro exI [of _ t'] exI [of _ lp2]) (simp add: t'_def)
qed

lemma built_loop:
  assumes "kernel_obeys kctl" "ta \<noteq> wa" "tfd \<noteq> wfd"
    and "new_loop u kctl lid tid None (ta, tfd, H_timer) (wa, wfd, H_wakeup) = Inr (lp :: io_loop)"
  shows "loop_ok tid kctl lp" "m_tid lp = tid" "rests lp" "reads lp wa H_wakeup" "watched lp = [ta \<mapsto> kReadEvent, wa \<mapsto> kReadEvent]"
    "seen_at lp = [ta \<mapsto> (tfd, Some H_timer), wa \<mapsto> (wfd, Some H_wakeup)]" "fd_used lp fd \<longleftrightarrow> fd = tfd \<or> fd = wfd"
proof -
  show ok: "loop_ok tid kctl lp" "watched lp = [ta \<mapsto> kReadEvent, wa \<mapsto> kReadEvent]"
  proof -
    obtain lp' :: io_loop where "new_loop u kctl lid tid None (ta, tfd, H_timer) (wa, wfd, H_wakeup) = Inr lp'" "loop_ok tid kctl lp'"
      "watched lp' = [ta \<mapsto> kReadEvent, wa \<mapsto> kReadEvent]"
      using new_loop_round_trip [OF assms(1-3), of u lid tid H_timer H_wakeup] by blast
    with assms(4) show "loop_ok tid kctl lp" "watched lp = [ta \<mapsto> kReadEvent, wa \<mapsto> kReadEvent]" by simp_all
  qed
  show "m_tid lp = tid" using ok(1) by (simp add: loop_ok_def)
  show s: "seen_at lp = [ta \<mapsto> (tfd, Some H_timer), wa \<mapsto> (wfd, Some H_wakeup)]" "rests lp" using new_loop_rests [OF assms(4)] by simp_all
  show "reads lp wa H_wakeup" "fd_used lp fd \<longleftrightarrow> fd = tfd \<or> fd = wfd" using s(1) assms(2) by (auto simp: seen_at_views)
qed

text \<open>Four numbers for each loop of the pool: the addresses and descriptors of its two channels.\<close>

lemma pool_loops_built:
  assumes "kernel_obeys kctl" "\<forall>j. ta j \<noteq> wa j \<and> tfd j \<noteq> wfd j" "\<forall>j k. fst (new_loops j) = fst (new_loops k) \<longrightarrow> j = k"
    and "\<forall>j. fst (new_loops j) \<noteq> l \<and> tids j \<noteq> tid \<and> wk (fst (new_loops j)) = wa j"
    and "\<forall>j. new_loop u kctl (fst (new_loops j)) (tids j) None (ta j, tfd j, H_timer) (wa j, wfd j, H_wakeup) = Inr (snd (new_loops j))"
  shows "pool_loops kctl l tid wk new_loops"
proof -
  have b: "loop_ok (tids j) kctl (snd (new_loops j))" "m_tid (snd (new_loops j)) = tids j" "rests (snd (new_loops j))"
    "reads (snd (new_loops j)) (wa j) H_wakeup" for j
    using built_loop [OF assms(1) _ _ assms(5) [rule_format]] assms(2) by blast+
  then show ?thesis using assms(3,4) by (simp add: pool_loops_def)
qed

subsection \<open>A server to evaluate\<close>

text \<open>The main loop 1 in thread 1, pool loops from 10 in threads from 20; every loop has its channels at the
  addresses 10 and 11, the acceptor's is at 12, on descriptor 5.\<close>

definition demo_sys_env :: sys_env where
  "demo_sys_env = \<lparr>se_kctl = documented_kernel, se_now = 1000, se_stamp = ''now'', se_flag = False, se_status = k200OK\<rparr>"

lemma demo_built: "\<exists>lp :: io_loop. new_loop True documented_kernel lid tid None (10, 3, H_timer) (11, 4, H_wakeup) = Inr lp"
  using new_loop_round_trip [OF documented_kernel_ok(1), of 10 11 3 4 True lid tid H_timer H_wakeup] by auto

definition demo_pool :: "(nat \<Rightarrow> nat \<times> io_loop) \<Rightarrow> bool" where
  "demo_pool new_loops \<longleftrightarrow> (\<forall>j. fst (new_loops j) = 10 + j \<and>
     new_loop True documented_kernel (fst (new_loops j)) (20 + j) None (10, 3, H_timer) (11, 4, H_wakeup) = Inr (snd (new_loops j)))"

lemma demo_pool_ex: "\<exists>new_loops. demo_pool new_loops"
proof -
  have "\<forall>j. \<exists>lp :: io_loop. new_loop True documented_kernel (10 + j) (20 + j) None (10, 3, H_timer) (11, 4, H_wakeup) = Inr lp"
    using demo_built by blast
  then obtain f :: "nat \<Rightarrow> io_loop" where
    "\<forall>j. new_loop True documented_kernel (10 + j) (20 + j) None (10, 3, H_timer) (11, 4, H_wakeup) = Inr (f j)" by metis
  then have "demo_pool (\<lambda>j. (10 + j, f j))" by (simp add: demo_pool_def)
  then show ?thesis by blast
qed

lemma demo_pool_loops:
  assumes "demo_pool new_loops"
  shows "pool_loops documented_kernel 1 1 (\<lambda>_. 11) new_loops"
    "seen_at (snd (new_loops j)) = [10 \<mapsto> (3, Some H_timer), 11 \<mapsto> (4, Some H_wakeup)]"
proof -
  have b: "new_loop True documented_kernel (fst (new_loops j)) (20 + j) None (10, 3, H_timer) (11, 4, H_wakeup) = Inr (snd (new_loops j))" for j
    using assms unfolding demo_pool_def by blast
  show "pool_loops documented_kernel 1 1 (\<lambda>_. 11) new_loops"
    by (rule pool_loops_built [where ta = "\<lambda>_. 10" and wa = "\<lambda>_. 11" and tfd = "\<lambda>_. 3" and wfd = "\<lambda>_. 4" and tids = "\<lambda>j. 20 + j" and u = True])
      (use assms b in \<open>simp_all add: demo_pool_def\<close>)
  show "seen_at (snd (new_loops j)) = [10 \<mapsto> (3, Some H_timer), 11 \<mapsto> (4, Some H_wakeup)]"
    by (rule built_loop(6) [OF documented_kernel_ok(1) _ _ b]) simp_all
qed

lemma demo_system:
  "\<exists>s. sys_waits documented_kernel 1 (\<lambda>_. 11) s \<and> sy_accepts s = accepts \<and> sy_news s = news \<and> sv_conns s = Map.empty \<and>
    sy_conns s = Map.empty \<and> m_next_conn_id s = 1 \<and>
    (\<forall>l \<in> set (m_loops (m_pool s)). \<forall>lp. sv_loops s l = Some lp \<longrightarrow> seen_at lp = [10 \<mapsto> (3, Some H_timer), 11 \<mapsto> (4, Some H_wakeup)])"
proof -
  obtain lp :: io_loop where lp: "new_loop True documented_kernel 1 1 None (10, 3, H_timer) (11, 4, H_wakeup) = Inr lp" using demo_built by blast
  have d: "(10 :: nat) \<noteq> 11" "(3 :: int) \<noteq> 4" by simp_all
  note B = built_loop [OF documented_kernel_ok(1) d lp]
  obtain new_loops where np: "demo_pool new_loops" using demo_pool_ex by blast
  have k: "se_kctl demo_sys_env = documented_kernel" by (simp add: demo_sys_env_def)
  have m: "seen_at lp 12 = None" "\<not> fd_used lp 5" using B(6,7) by simp_all
  from system_starts_law [where wk = "\<lambda>_. 11" and l = 1 and accepts = accepts and news = news, OF B(1) [folded k] B(3,4) m demo_pool_loops(1) [OF np, folded k]]
  obtain s where s: "sys_waits documented_kernel 1 (\<lambda>_. 11) s" "m_loops (m_pool s) = map (\<lambda>j. fst (new_loops j)) [0..<4]"
    "\<forall>j < 4. sv_loops s (fst (new_loops j)) = Some (snd (new_loops j))" "sv_conns s = Map.empty" "sy_conns s = Map.empty"
    "sy_accepts s = accepts" "sy_news s = news" "m_next_conn_id s = 1" unfolding k by blast
  have "seen_at lp = [10 \<mapsto> (3, Some H_timer), 11 \<mapsto> (4, Some H_wakeup)]" if "l \<in> set (m_loops (m_pool s))" "sv_loops s l = Some lp" for l lp
    using that s(2,3) demo_pool_loops(2) [OF np] by auto
  with s show ?thesis by blast
qed

end
