(* ===== verification/ServerLife.thy ===== *)
theory ServerLife
  imports ServerStart
begin

text \<open>
  The life of a connection in the whole server, from the kernel's accept to the close of its descriptor.
\<close>

subsection \<open>The life of a connection\<close>

lemma after_conn_simps [simp]:
  "sv_loops (after_conn l a lp c) = (sv_loops (cs_world c))(l \<mapsto> lp)" "sv_conns (after_conn l a lp c) = sv_conns (cs_world c)"
  "m_connections (after_conn l a lp c) = m_connections (cs_world c)" "m_main_loop (after_conn l a lp c) = m_main_loop (cs_world c)"
  "sy_conns (after_conn l a lp c) = (sy_conns (cs_world c))(a \<mapsto> conn_part_of c)"
  "same_frame s (after_conn l a lp c) = same_frame s (cs_world c)" "sy_accepts (after_conn l a lp c) = sy_accepts (cs_world c)"
  "sy_news (after_conn l a lp c) = sy_news (cs_world c)" "m_next_conn_id (after_conn l a lp c) = m_next_conn_id (cs_world c)"
  by (simp_all add: after_conn_def same_frame_def)

lemma after_conn_ok:
  assumes "server_ok tid (cs_world c)" "sv_loops (cs_world c) l = Some lp0" "m_tid lp = m_tid lp0"
  shows "server_ok tid (after_conn l a lp c)"
proof -
  let ?w = "(cs_world c)\<lparr>sy_conns := (sy_conns (cs_world c))(a \<mapsto> conn_part_of c)\<rparr>"
  have "sv_loops ?w l = Some lp0" "server_ok tid ?w" using assms(1,2) by simp_all
  with put_loop_ok(3) [of ?w l lp0 lp tid] assms(3) show ?thesis by (simp add: after_conn_def)
qed

lemma same_frame_trans: "same_frame s t \<Longrightarrow> same_frame t u \<Longrightarrow> same_frame s u"
  by (simp add: same_frame_def)

lemma same_frame_put [simp]: "same_frame s (put_loop l lp t) = same_frame s t" "same_frame s s"
  by (simp_all add: same_frame_def)

text \<open>The kernel will deliver the request \<open>m uri v\<close> with headers \<open>hs\<close>, in any pieces, and take the response.\<close>

definition short_visit :: "new_object \<Rightarrow> string \<Rightarrow> METHOD \<Rightarrow> string \<Rightarrow> HTTP_VERSION \<Rightarrow> string list \<Rightarrow> bool" where
  "short_visit n stamp m uri v hs \<longleftrightarrow>
     (\<exists>ds ins extra. no_reads n = ds @ Rd_Err EAGAIN # ins \<and> (\<forall>a \<in> set ds. rd_goes_on a) \<and>
        rd_data ds = render_request m uri v hs @ extra \<and> int (length (rd_data ds)) < 2 ^ 29) \<and>
     is_word uri \<and> uri \<noteq> [] \<and> (\<forall>h \<in> set hs. accepted_header h \<and> \<not> is_connection h) \<and>
     kernel_takes (length (response_to stamp uri v)) (no_writes n) \<and> length stamp < 1000"

lemma short_visit_arrives:
  assumes "short_visit n (se_stamp e) m uri v hs"
    and p: "p = (part_of_new e0 name fd n)\<lparr>cp_conn := (cp_conn (part_of_new e0 name fd n))\<lparr>m_state := kConnected\<rparr>\<rparr>"
  shows "\<exists>ds extra. request_arrives (env_for e tid a) (join_conn lp p w) ds m uri v hs extra 0 \<and>
    \<not> asks_keep_alive (m_context (cp_conn p)) hs \<and> kernel_takes (length (response_to (se_stamp e) uri v)) (cp_out p) \<and>
    \<not> m_alive (cp_conn p) \<and> m_channel (cp_conn p) = no_channel n \<and> cp_sent p = [] \<and> m_socket (cp_conn p) = client_socket fd False"
proof -
  from assms(1) obtain ds ins extra where d: "no_reads n = ds @ Rd_Err EAGAIN # ins" "\<forall>a \<in> set ds. rd_goes_on a"
    "rd_data ds = render_request m uri v hs @ extra" "int (length (rd_data ds)) < 2 ^ 29" by (auto simp: short_visit_def)
  have "buffer_room (length (rd_data ds) + 0) new_buffer" "buffer_room (250 + length (se_stamp e)) new_buffer"
    using d(4) assms(1) by (auto intro!: new_buffer_room simp: short_visit_def)
  then have "request_arrives (env_for e tid a) (join_conn lp p w) ds m uri v hs extra 0"
    using d assms(1) by (simp add: p request_arrives_def short_visit_def)
  moreover have "\<not> asks_keep_alive (m_context (cp_conn p)) hs"
    using assms(1) by (simp add: p asks_keep_alive_def short_visit_def isKeepAlive_def new_context_def)
  ultimately show ?thesis using assms(1) by (intro exI [of _ ds] exI [of _ extra]) (simp add: p short_visit_def)
qed

text \<open>The five turns of a visit: accept, establish, serve, remove, destroy.\<close>

definition visit_turns ::
  "(nat \<Rightarrow> sys_env) \<Rightarrow> (nat \<Rightarrow> nat) \<Rightarrow> system \<Rightarrow> new_object \<Rightarrow> (sys_env \<times> nat \<times> sys_wait) list" where
  "visit_turns e wk s n =
     (let m = m_main_loop s; l = next_loop s in
      [(e 0, m, Wt_Events [(m_accept_channel (m_acceptor s), EPOLLIN)]), (e 1, l, Wt_Events [(wk l, EPOLLIN)]),
       (e 2, l, Wt_Events [(no_channel n, EPOLLIN)]), (e 3, m, Wt_Events [(wk m, EPOLLIN)]), (e 4, l, Wt_Events [(wk l, EPOLLIN)])])"

text \<open>The same server for its clients: the same connections, and the same channels watched with the same masks.\<close>

definition same_server :: "system \<Rightarrow> system \<Rightarrow> bool" where
  "same_server s t \<longleftrightarrow> m_connections t = m_connections s \<and> sv_conns t = sv_conns s \<and> sy_conns t = sy_conns s \<and> same_frame s t \<and>
     (\<forall>l lp. sv_loops s l = Some lp \<longrightarrow> (\<exists>lp'. sv_loops t l = Some lp' \<and> watched lp' = watched lp \<and> seen_at lp' = seen_at lp))"

text \<open>What a visit needs: a new descriptor, the addresses of two new objects, a connection number.\<close>

definition visitor :: "system \<Rightarrow> int \<Rightarrow> new_object \<Rightarrow> bool" where
  "visitor s fd n \<longleftrightarrow> fd_ok fd \<and> sv_conns s (no_conn n) = None \<and> sy_conns s (no_conn n) = None \<and> m_next_conn_id s + 1 < 2 ^ 31 \<and>
     (\<forall>lp. sv_loops s (next_loop s) = Some lp \<longrightarrow> lp_objects lp (no_channel n) = None \<and> \<not> fd_used lp fd)"

lemma loops_ok_same:
  assumes "m_pool t = m_pool s" "m_main_loop t = m_main_loop s" "sv_loops t = (sv_loops s)(l \<mapsto> lp')"
    "sv_loops s l = Some lp" "m_tid lp' = m_tid lp"
  shows "loops_ok tid t = loops_ok tid s"
  using assms by (auto simp: loops_ok_def split: if_splits)

lemma loop_waitsI:
  "sv_loops s l = Some lp \<Longrightarrow> loop_ok (m_tid lp) kctl lp \<Longrightarrow> rests lp \<Longrightarrow> reads lp wk H_wakeup \<Longrightarrow> loop_waits kctl l wk s"
  by (auto simp: loop_waits_def)

lemma ready_env:
  assumes "ready env c" "e_tid env' = e_tid env" "e_kctl env' = e_kctl env"
  shows "ready env' (join_conn (cs_loop c) (conn_part_of c) w)"
  using assms by (simp add: ready_def settled_def cs_watched_def)

text \<open>A visit as far as the connection is established.\<close>

lemma visit_begins:
  fixes fd :: int
  assumes W: "sys_waits kctl tid wk s" and k: "se_kctl e0 = kctl" "se_kctl e1 = kctl"
    and A: "sy_accepts s = Ac_Fd fd # Ac_Err EAGAIN # as" "sy_news s = n # news" and V: "visitor s fd n"
    and lm: "sv_loops s (m_main_loop s) = Some lm" and io: "sv_loops s (next_loop s) = Some io"
  defines "name \<equiv> conn_name (m_name s) (m_next_conn_id s)" and "l \<equiv> next_loop s" and "a \<equiv> no_conn n" and "x \<equiv> no_channel n"
  shows "\<exists>s1 s2 lm1 L p. sys_turn e0 (m_main_loop s) (Wt_Events [(m_accept_channel (m_acceptor s), EPOLLIN)]) s = Inr s1 \<and>
    sys_turn e1 l (Wt_Events [(wk l, EPOLLIN)]) s1 = Inr s2 \<and> alike lm lm1 \<and> rests lm1 \<and> server_ok tid s2 \<and> same_frame s s2 \<and>
    sv_loops s2 = (sv_loops s)(m_main_loop s \<mapsto> lm1, l \<mapsto> L) \<and>
    sv_conns s2 = (sv_conns s)(a \<mapsto> \<lparr>cr_name = name, cr_loop = l, cr_fd = fd\<rparr>) \<and>
    m_connections s2 = (m_connections s)(name \<mapsto> a) \<and> sy_conns s2 = (sy_conns s)(a \<mapsto> p) \<and>
    sy_accepts s2 = as \<and> sy_news s2 = news \<and> m_next_conn_id s2 = m_next_conn_id s + 1 \<and>
    p = (part_of_new e0 name fd n)\<lparr>cp_conn := (cp_conn (part_of_new e0 name fd n))\<lparr>m_state := kConnected\<rparr>\<rparr> \<and>
    rests L \<and> m_tid L = m_tid io \<and> (\<forall>e w. se_kctl e = kctl \<longrightarrow> ready (env_for e (m_tid io) a) (join_conn L p w)) \<and>
    (watched L)(x := None) = watched io \<and> seen_at L = (seen_at io)(x \<mapsto> (fd, Some (H_conn a Ev_Read))) \<and>
    m_timer_heap L = m_timer_heap io"
proof -
  let ?m = "m_main_loop s"
  have ok: "server_ok tid s" using W by (simp add: sys_waits_def)
  then have lin: "l \<in> set (m_loops (m_pool s))" using next_loop_in [of tid s] by (simp add: server_ok_def l_def)
  have i: "loop_ok (m_tid io) kctl io" "rests io" "reads io (wk l) H_wakeup"
    using W lin io by (auto simp: sys_waits_def loop_waits_def l_def)
  have v: "fd_ok fd" "sv_conns s a = None" "m_next_conn_id s + 1 < 2 ^ 31" "lp_objects io x = None" "\<not> fd_used io fd"
    using V io by (auto simp: visitor_def a_def x_def)
  obtain s1 lm1 where s1: "sys_turn e0 ?m (Wt_Events [(m_accept_channel (m_acceptor s), EPOLLIN)]) s = Inr s1"
    "alike lm lm1" "rests lm1" "server_ok tid s1" "same_frame s s1"
    "sv_loops s1 = (sv_loops s)(?m \<mapsto> lm1, l \<mapsto> store_object x (channel_of_new e0 (lp_id io) fd n) (queueInLoop tid (Fn_connectEstablished a) io))"
    "sv_conns s1 = (sv_conns s)(a \<mapsto> \<lparr>cr_name = name, cr_loop = l, cr_fd = fd\<rparr>)"
    "m_connections s1 = (m_connections s)(name \<mapsto> a)" "sy_conns s1 = (sy_conns s)(a \<mapsto> part_of_new e0 name fd n)"
    "sy_accepts s1 = as" "sy_news s1 = news" "m_next_conn_id s1 = m_next_conn_id s + 1"
    using accept_turn [OF W A(1) v(1) A(2) v(2) [unfolded a_def] v(3) lm io, of e0] unfolding a_def x_def name_def l_def by blast
  let ?io1 = "store_object x (channel_of_new e0 (lp_id io) fd n) (queueInLoop tid (Fn_connectEstablished a) io)"
  have l1: "sv_loops s1 l = Some ?io1" "sy_conns s1 a = Some (part_of_new e0 name fd n)" using s1(6,9) by simp_all
  obtain c where c: "sys_turn e1 l (Wt_Events [(wk l, EPOLLIN)]) s1 = Inr (after_conn l a ((cs_loop c)\<lparr>m_calling_pending_functors := False\<rparr>) c)"
    "ready (env_for e1 (m_tid io) a) c" "others_watched c = watched io" "cs_world c = s1"
    "conn_part_of c = (part_of_new e0 name fd n)\<lparr>cp_conn := (cp_conn (part_of_new e0 name fd n))\<lparr>m_state := kConnected\<rparr>\<rparr>"
    "rests (cs_loop c)" "m_tid (cs_loop c) = m_tid io" "seen_at (cs_loop c) = (seen_at io)(x \<mapsto> (fd, Some (H_conn a Ev_Read)))"
    "m_timer_heap (cs_loop c) = m_timer_heap io"
    using establish_turn [OF i v(4,5) [unfolded x_def] l1 [unfolded a_def x_def] k(2)] unfolding a_def x_def by blast
  define L where "L = (cs_loop c)\<lparr>m_calling_pending_functors := False\<rparr>"
  have al: "alike (cs_loop c) L" by (simp add: L_def)
  have "m_channel (cs_conn c) = x" using arg_cong [OF c(5), of cp_conn] by (simp add: x_def)
  then have L: "rests L" "m_tid L = m_tid io" "(watched L)(x := None) = watched io" "seen_at L = (seen_at io)(x \<mapsto> (fd, Some (H_conn a Ev_Read)))"
      "m_timer_heap L = m_timer_heap io"
    using c(3,6-9) alike_views(1) [OF al] seen_at_alike [OF al] by (simp_all add: L_def rests_def idle_def others_watched_def)
  have rd: "ready (env_for e (m_tid io) a) (join_conn L (conn_part_of c) w)" if "se_kctl e = kctl" for e w
    by (rule ready_alike [OF al], rule ready_env [OF c(2)]) (use that k(2) in simp_all)
  have "m_tid ?io1 = m_tid io" by simp
  then have "server_ok tid (after_conn l a L c)" using after_conn_ok [of tid c l ?io1 L a] s1(4) l1(1) c(4) L(2) by simp
  with s1 c(1,4,5) L rd show ?thesis unfolding L_def [symmetric]
    by (intro exI [of _ s1] exI [of _ "after_conn l a L c"] exI [of _ lm1] exI [of _ L] exI [of _ "conn_part_of c"]) (simp add: fun_upd_upd)
qed

text \<open>And the rest of it.\<close>

lemma served_law:
  fixes e :: sys_env
  assumes l: "sv_loops s l = Some L" "rests L" "seen_at L x = Some (fd, Some (H_conn a Ev_Read))" and k: "se_kctl e = kctl"
    and main: "sv_loops s (m_main_loop s) = Some lm" "m_tid lm \<noteq> m_tid L" "server_ok (m_tid lm) s" "l \<noteq> m_main_loop s"
    and p: "p = (part_of_new e0 name fd n)\<lparr>cp_conn := (cp_conn (part_of_new e0 name fd n))\<lparr>m_state := kConnected\<rparr>\<rparr>"
      "sy_conns s a = Some p" "no_channel n = x"
    and r: "ready (env_for e (m_tid L) a) (join_conn L p s)" "short_visit n (se_stamp e) m uri v hs"
  shows "\<exists>s3 lp p'. sys_turn e l (Wt_Events [(x, EPOLLIN)]) s = Inr s3 \<and> server_ok (m_tid lm) s3 \<and> same_frame s s3 \<and>
    sv_loops s3 = (sv_loops s)(m_main_loop s \<mapsto> queueInLoop (m_tid L) (Fn_removeConnectionInLoop a) lm, l \<mapsto> lp) \<and>
    sv_conns s3 = sv_conns s \<and> m_connections s3 = m_connections s \<and> sy_conns s3 = (sy_conns s)(a \<mapsto> p') \<and>
    sy_accepts s3 = sy_accepts s \<and> sy_news s3 = sy_news s \<and> m_next_conn_id s3 = m_next_conn_id s \<and>
    m_state (cp_conn p') = kDisconnected \<and> m_channel (cp_conn p') = x \<and> m_socket (cp_conn p') = shutdownWrite (client_socket fd False) \<and>
    cp_sent p' = response_to (se_stamp e) uri v \<and> loop_ok (m_tid L) kctl lp \<and> rests lp \<and> off lp x \<and>
    watched lp = (watched L)(x := None) \<and> seen_at lp = seen_at L \<and> m_timer_heap lp = m_timer_heap L"
proof -
  let ?env = "env_for e (m_tid L) a" and ?w = "put_loop (m_main_loop s) (queueInLoop (m_tid L) (Fn_removeConnectionInLoop a) lm) s"
  have rx: "reads L x (H_conn a Ev_Read)" using l(3) by (auto simp: seen_at_views)
  from short_visit_arrives [OF r(2) p(1), of "m_tid L" a L s] obtain ds extra where
    a: "request_arrives ?env (join_conn L p s) ds m uri v hs extra 0" "\<not> asks_keep_alive (m_context (cp_conn p)) hs"
      "kernel_takes (length (response_to (se_stamp e) uri v)) (cp_out p)" "\<not> m_alive (cp_conn p)" "m_channel (cp_conn p) = no_channel n"
      "cp_sent p = []" "m_socket (cp_conn p) = client_socket fd False" by blast
  from serve_turn [OF l(1,2) rx p(2) a(5) [unfolded p(3)] main(1,2) r(1) a(1,4,2,3)] obtain lp3 c lp4 where
    c: "sys_turn e l (Wt_Events [(x, EPOLLIN)]) s = Inr (after_conn l a lp4 c)" "alike L lp3" "goes_down ?env (join_conn lp3 p s) c"
      "cs_sent c = response_to (se_stamp e) uri v" "m_socket (cs_conn c) = shutdownWrite (client_socket fd False)" "cs_world c = ?w"
      "alike (cs_loop c) lp4" "idle lp4" "m_pending_functors lp4 = []" using a(6,7) by auto
  have g: "m_state (cs_conn c) = kDisconnected" "m_channel (cs_conn c) = x" "same_rest lp3 (cs_loop c)" "off (cs_loop c) x"
    "loop_ok (m_tid L) kctl (cs_loop c)" "watched (cs_loop c) x = None" "(watched (cs_loop c))(x := None) = (watched lp3)(x := None)"
    using c(3) a(5) p(3) k by (auto simp: goes_down_def settled_def cs_watched_def others_watched_def)
  have lp: "loop_ok (m_tid L) kctl lp4" "off lp4 x" "seen_at lp4 = seen_at L" "rests lp4"
    using alike_loop_ok [OF c(7) g(5)] alike_off [OF c(7) g(4)] seen_at_alike [OF c(7)] seen_at_same_rest [OF g(3)] seen_at_alike [OF c(2)]
      c(8,9) alike_views(5) [OF c(7)] same_rest_simps(7) [OF g(3)] alike_views(5) [OF c(2)] l(2) by (simp_all add: rests_def)
  have th: "m_timer_heap lp4 = m_timer_heap L"
    using alike_views(7) [OF c(7)] same_rest_simps(1) [OF g(3)] alike_views(7) [OF c(2)] by simp
  have wd: "watched lp4 = (watched L)(x := None)"
    using g(6,7) alike_views(1) [OF c(7)] alike_views(1) [OF c(2)] by (metis fun_upd_triv)
  have "server_ok (m_tid lm) ?w" using put_loop_ok(3) [OF main(1)] main(3) by simp
  moreover have "m_tid lp4 = m_tid L" using lp(1) by (simp add: loop_ok_def)
  ultimately have "server_ok (m_tid lm) (after_conn l a lp4 c)" using after_conn_ok [of "m_tid lm" c l L lp4 a] c(6) l(1) main(4) by simp
  with c(1,4-6) g(1,2) lp wd th show ?thesis
    by (intro exI [of _ "after_conn l a lp4 c"] exI [of _ lp4] exI [of _ "conn_part_of c"]) simp
qed

lemma visit_ends:
  assumes s: "server_ok tid s" "sv_loops s (m_main_loop s) = Some (queueInLoop tid' (Fn_removeConnectionInLoop a) lm)" "rests lm"
    and m: "reads lm wkm H_wakeup" "m_tid lm = tid" and c: "sv_conns s a = Some c"
    and l: "sv_loops s (cr_loop c) = Some L" "rests L" "reads L wkl H_wakeup" and k: "se_kctl e2 = kctl"
    and p: "sy_conns s a = Some p" "m_state (cp_conn p) = kDisconnected" "m_channel (cp_conn p) = x"
    and ok: "loop_ok (m_tid L) kctl L" "watched L x = None" "off L x"
  shows "\<exists>s1 s2 s3 lm' L'. sys_turn e1 (m_main_loop s) (Wt_Events [(wkm, EPOLLIN)]) s = Inr s1 \<and>
    sys_turn e2 (cr_loop c) (Wt_Events [(wkl, EPOLLIN)]) s1 = Inr s2 \<and> sy_conns s2 a = Some p \<and>
    drop_conn a s2 = Inr (socket_dtor (m_socket (cp_conn p)), s3) \<and> alike lm lm' \<and> rests lm' \<and>
    sv_loops s3 = (sv_loops s)(m_main_loop s \<mapsto> lm', cr_loop c \<mapsto> L') \<and> sv_conns s3 = (sv_conns s)(a := None) \<and>
    sy_conns s3 = (sy_conns s)(a := None) \<and> m_connections s3 = (m_connections s)(cr_name c := None) \<and> same_frame s s3 \<and>
    sy_accepts s3 = sy_accepts s \<and> sy_news s3 = sy_news s \<and> m_next_conn_id s3 = m_next_conn_id s \<and> loops_ok tid s3 \<and>
    loop_ok (m_tid L) kctl L' \<and> rests L' \<and> watched L' = watched L \<and> seen_at L' = (seen_at L)(x := None) \<and>
    m_timer_heap L' = m_timer_heap L"
proof -
  have ne: "cr_loop c \<noteq> m_main_loop s" using s(1) c pool_not_main unfolding server_ok_def conns_ok_def by blast
  from removal_turn [OF s(2,3) m(1) _ c l(1)] s(1) m(2) obtain s1 lm' where
    s1: "sys_turn e1 (m_main_loop s) (Wt_Events [(wkm, EPOLLIN)]) s = Inr s1" "alike lm lm'" "rests lm'"
      "sv_loops s1 = (sv_loops s)(m_main_loop s \<mapsto> lm', cr_loop c \<mapsto> queueInLoop tid (Fn_connectDestroyed a) L)"
      "m_connections s1 = (m_connections s)(cr_name c := None)" "sv_conns s1 = sv_conns s" "sy_conns s1 = sy_conns s" "same_frame s s1"
      "sy_accepts s1 = sy_accepts s" "sy_news s1 = sy_news s" "m_next_conn_id s1 = m_next_conn_id s" "server_ok tid s1" by blast
  have l1: "sv_loops s1 (cr_loop c) = Some (queueInLoop tid (Fn_connectDestroyed a) L)" "sy_conns s1 a = Some p" "sv_conns s1 a = Some c"
    using s1(4,6,7) p(1) c by simp_all
  from destroy_turn [OF l1(1) l(2,3) l1(2) p(2,3) ok(1) [folded k] ok(2,3) l1(3) refl] k obtain s2 s3 L' where
    s2: "sys_turn e2 (cr_loop c) (Wt_Events [(wkl, EPOLLIN)]) s1 = Inr s2" "sy_conns s2 a = Some p"
      "drop_conn a s2 = Inr (socket_dtor (m_socket (cp_conn p)), s3)" "sv_loops s3 = (sv_loops s1)(cr_loop c \<mapsto> L')"
      "sv_conns s3 = (sv_conns s1)(a := None)" "sy_conns s3 = (sy_conns s1)(a := None)" "m_connections s3 = m_connections s1"
      "m_pool s3 = m_pool s1" "same_frame s1 s3" "sy_accepts s3 = sy_accepts s1" "sy_news s3 = sy_news s1"
      "m_next_conn_id s3 = m_next_conn_id s1" "loop_ok (m_tid L) kctl L'" "rests L'" "watched L' = watched L"
      "seen_at L' = (seen_at L)(x := None)" "m_timer_heap L' = m_timer_heap L" by blast
  have "m_tid L' = m_tid (queueInLoop tid (Fn_connectDestroyed a) L)" using s2(13) by (simp add: loop_ok_def)
  then have "loops_ok tid s3" using loops_ok_same [OF s2(8) _ s2(4) l1(1)] s2(9) s1(12) by (simp add: same_frame_def server_ok_def)
  moreover have "sv_loops s3 = (sv_loops s)(m_main_loop s \<mapsto> lm', cr_loop c \<mapsto> L')" using s2(4) s1(4) by simp
  ultimately show ?thesis using s1 s2 same_frame_trans [OF s1(8) s2(9)]
    by (intro exI [of _ s1] exI [of _ s2] exI [of _ s3] exI [of _ lm'] exI [of _ L']) (simp only: simp_thms)
qed

text \<open>A server that waits as before.\<close>

lemma sys_waits_again:
  assumes W: "sys_waits kctl tid wk s" and t: "loops_ok tid t" "same_frame s t" "m_connections t = m_connections s" "sv_conns t = sv_conns s"
    and i: "m_next_conn_id t = m_next_conn_id s + 1" "m_next_conn_id s + 1 < 2 ^ 31"
    and l: "\<forall>k lp. sv_loops s k = Some lp \<longrightarrow> loop_ok (m_tid lp) kctl lp \<longrightarrow> rests lp \<longrightarrow>
      (\<exists>lp'. sv_loops t k = Some lp' \<and> loop_ok (m_tid lp') kctl lp' \<and> rests lp' \<and> seen_at lp' = seen_at lp)"
  shows "sys_waits kctl tid wk t"
proof -
  have f: "m_main_loop t = m_main_loop s" "m_loops (m_pool t) = m_loops (m_pool s)" "m_name t = m_name s" "m_acceptor t = m_acceptor s"
    using t(2) by (simp_all add: same_frame_def)
  have "conns_ok s" using W by (simp add: sys_waits_def server_ok_def)
  then have "conns_ok t" using i unfolding conns_ok_def t(3,4) f i(1) by (smt (verit, best))
  moreover have w: "loop_waits kctl k y t" if "loop_waits kctl k y s" for k y
    using that l unfolding loop_waits_def seen_at_views by metis
  moreover have "\<exists>lp. sv_loops t (m_main_loop s) = Some lp \<and> reads lp (m_accept_channel (m_acceptor s)) H_accept"
    using W l unfolding sys_waits_def loop_waits_def seen_at_views by (metis option.inject)
  ultimately show ?thesis using W t(1) f by (simp add: sys_waits_def server_ok_def)
qed

text \<open>The whole visit, turn by turn.\<close>

lemma visit_law:
  assumes W: "sys_waits kctl tid wk s" and k: "\<forall>i. se_kctl (e i) = kctl"
    and A: "sy_accepts s = Ac_Fd fd # Ac_Err EAGAIN # as" "sy_news s = n # news"
    and V: "visitor s fd n" "short_visit n (se_stamp (e 2)) m uri v hs"
    and io: "sv_loops s (next_loop s) = Some io" and lm: "sv_loops s (m_main_loop s) = Some lm"
  shows "\<exists>s5 p s6 lm' L'. sys_turns (visit_turns e wk s n) s = Inr s5 \<and> sy_conns s5 (no_conn n) = Some p \<and>
    cp_sent p = response_to (se_stamp (e 2)) uri v \<and>
    drop_conn (no_conn n) s5 = Inr (socket_dtor (shutdownWrite (client_socket fd False)), s6) \<and>
    sv_loops s6 = (sv_loops s)(m_main_loop s \<mapsto> lm', next_loop s \<mapsto> L') \<and> alike lm lm' \<and> rests lm' \<and>
    loop_ok (m_tid io) kctl L' \<and> rests L' \<and> watched L' = watched io \<and> seen_at L' = seen_at io \<and> m_timer_heap L' = m_timer_heap io \<and>
    loops_ok tid s6 \<and> same_frame s s6 \<and>
    m_connections s6 = m_connections s \<and> sv_conns s6 = sv_conns s \<and> sy_conns s6 = sy_conns s \<and>
    sy_accepts s6 = as \<and> sy_news s6 = news \<and> m_next_conn_id s6 = m_next_conn_id s + 1"
proof -
  let ?m = "m_main_loop s" and ?l = "next_loop s" and ?a = "no_conn n" and ?x = "no_channel n"
  let ?name = "conn_name (m_name s) (m_next_conn_id s)"
  have ok: "server_ok tid s" using W by (simp add: sys_waits_def)
  then have lin: "?l \<in> set (m_loops (m_pool s))" using next_loop_in [of tid s] by (simp add: server_ok_def)
  then have ne: "?l \<noteq> ?m" using ok pool_not_main [of tid s ?l] by (simp add: server_ok_def)
  have wk: "reads lm (wk ?m) H_wakeup" "reads io (wk ?l) H_wakeup" using W lin lm io by (auto simp: sys_waits_def loop_waits_def)
  have tid: "m_tid lm = tid" "m_tid io \<noteq> tid" using ok lm io lin by (auto simp: server_ok_def loops_ok_def)
  have fresh: "sv_conns s ?a = None" "sy_conns s ?a = None" "seen_at io ?x = None"
    using V(1) io by (auto simp: visitor_def seen_at_views(3) [symmetric])
  then have wx: "?x \<noteq> wk ?l" using wk(2) by (auto simp: seen_at_views)
  have "m_connections s ?name = None" using with_conn_ok(2) [OF ok fresh(1)] V(1) by (simp add: visitor_def)
  then have name: "(m_connections s)(?name := None) = m_connections s" by (simp add: fun_upd_idem)
  obtain s1 s2 lm1 L p where s2: "sys_turn (e 0) ?m (Wt_Events [(m_accept_channel (m_acceptor s), EPOLLIN)]) s = Inr s1"
    "sys_turn (e 1) ?l (Wt_Events [(wk ?l, EPOLLIN)]) s1 = Inr s2" "alike lm lm1" "rests lm1" "server_ok tid s2" "same_frame s s2"
    "sv_loops s2 = (sv_loops s)(?m \<mapsto> lm1, ?l \<mapsto> L)"
    "sv_conns s2 = (sv_conns s)(?a \<mapsto> \<lparr>cr_name = ?name, cr_loop = ?l, cr_fd = fd\<rparr>)"
    "m_connections s2 = (m_connections s)(?name \<mapsto> ?a)" "sy_conns s2 = (sy_conns s)(?a \<mapsto> p)"
    "sy_accepts s2 = as" "sy_news s2 = news" "m_next_conn_id s2 = m_next_conn_id s + 1"
    "p = (part_of_new (e 0) ?name fd n)\<lparr>cp_conn := (cp_conn (part_of_new (e 0) ?name fd n))\<lparr>m_state := kConnected\<rparr>\<rparr>"
    "rests L" "m_tid L = m_tid io" "\<forall>e w. se_kctl e = kctl \<longrightarrow> ready (env_for e (m_tid io) ?a) (join_conn L p w)"
    "(watched L)(?x := None) = watched io" "seen_at L = (seen_at io)(?x \<mapsto> (fd, Some (H_conn ?a Ev_Read)))"
    "m_timer_heap L = m_timer_heap io"
    using visit_begins [OF W k [rule_format, of 0] k [rule_format, of 1] A V(1) lm io] by blast
  have m2: "m_main_loop s2 = ?m" "m_tid lm1 = tid" using s2(6) alike_views(4) [OF s2(3)] tid(1) by (simp_all add: same_frame_def)
  have l2: "sv_loops s2 ?l = Some L" "seen_at L ?x = Some (fd, Some (H_conn ?a Ev_Read))" "sv_loops s2 (m_main_loop s2) = Some lm1"
    "m_tid lm1 \<noteq> m_tid L" "server_ok (m_tid lm1) s2" "?l \<noteq> m_main_loop s2" "sy_conns s2 ?a = Some p"
    using s2(5,7,10,16,19) m2 ne tid(2) by simp_all
  have rd: "ready (env_for (e 2) (m_tid L) ?a) (join_conn L p s2)" using s2(16,17) k by simp
  obtain s3 lp p' where s3: "sys_turn (e 2) ?l (Wt_Events [(?x, EPOLLIN)]) s2 = Inr s3" "server_ok tid s3" "same_frame s2 s3"
    "sv_loops s3 = (sv_loops s2)(?m \<mapsto> queueInLoop (m_tid L) (Fn_removeConnectionInLoop ?a) lm1, ?l \<mapsto> lp)"
    "sv_conns s3 = sv_conns s2" "m_connections s3 = m_connections s2" "sy_conns s3 = (sy_conns s2)(?a \<mapsto> p')"
    "sy_accepts s3 = as" "sy_news s3 = news" "m_next_conn_id s3 = m_next_conn_id s + 1"
    "m_state (cp_conn p') = kDisconnected" "m_channel (cp_conn p') = ?x" "m_socket (cp_conn p') = shutdownWrite (client_socket fd False)"
    "cp_sent p' = response_to (se_stamp (e 2)) uri v" "loop_ok (m_tid L) kctl lp" "rests lp" "off lp ?x"
    "watched lp = (watched L)(?x := None)" "seen_at lp = seen_at L" "m_timer_heap lp = m_timer_heap L"
    using served_law [OF l2(1) s2(15) l2(2) k [rule_format] l2(3-6) s2(14) l2(7) refl rd V(2)] s2(11-13) m2 by auto
  have l3: "sv_loops s3 (m_main_loop s3) = Some (queueInLoop (m_tid L) (Fn_removeConnectionInLoop ?a) lm1)" "sv_conns s3 ?a = Some \<lparr>cr_name = ?name, cr_loop = ?l, cr_fd = fd\<rparr>"
    "sv_loops s3 ?l = Some lp" "sy_conns s3 ?a = Some p'" "reads lm1 (wk ?m) H_wakeup" "reads lp (wk ?l) H_wakeup" "m_tid lp = m_tid L" "watched lp ?x = None"
    "m_main_loop s3 = ?m"
    using s3(3-5,7,15,18,19) s2(8,19) m2(1) ne alike_reads [OF s2(3)] wk wx
    by (simp_all add: same_frame_def loop_ok_def seen_at_views)
  obtain s4 s5 s6 lm' L' where s6: "sys_turn (e 3) ?m (Wt_Events [(wk ?m, EPOLLIN)]) s3 = Inr s4" "sys_turn (e 4) ?l (Wt_Events [(wk ?l, EPOLLIN)]) s4 = Inr s5"
    "sy_conns s5 ?a = Some p'" "drop_conn ?a s5 = Inr (socket_dtor (m_socket (cp_conn p')), s6)" "alike lm1 lm'" "rests lm'"
    "sv_loops s6 = (sv_loops s3)(?m \<mapsto> lm', ?l \<mapsto> L')" "sv_conns s6 = (sv_conns s3)(?a := None)" "sy_conns s6 = (sy_conns s3)(?a := None)"
    "m_connections s6 = (m_connections s3)(?name := None)" "same_frame s3 s6" "sy_accepts s6 = sy_accepts s3" "sy_news s6 = sy_news s3"
    "m_next_conn_id s6 = m_next_conn_id s3" "loops_ok tid s6" "loop_ok (m_tid L) kctl L'" "rests L'" "watched L' = watched lp"
    "seen_at L' = (seen_at lp)(?x := None)" "m_timer_heap L' = m_timer_heap lp"
    using visit_ends [OF s3(2) l3(1) s2(4) l3(5) m2(2) l3(2), of lp "wk ?l" "e 4" kctl p' ?x "e 3"] l3 s3(11,12,15-17) k by auto
  have loops: "sv_loops s6 = (sv_loops s)(?m \<mapsto> lm', ?l \<mapsto> L')" using s6(7) s3(4) s2(7) ne by (auto simp: fun_eq_iff)
  have alm: "alike lm lm'" by (rule alike_trans [OF s2(3) s6(5)])
  have L': "seen_at L' = seen_at io" "watched L' = watched io" "m_timer_heap L' = m_timer_heap io"
    using s6(18-20) s3(18-20) s2(18-20) fresh(3) by (simp_all add: fun_upd_idem)
  have same: "m_connections s6 = m_connections s" "sv_conns s6 = sv_conns s" "sy_conns s6 = sy_conns s" "same_frame s s6" "m_next_conn_id s6 = m_next_conn_id s + 1"
    using s6(8-10,14) s3(5-7,10) s2(8-10) fresh name same_frame_trans [OF same_frame_trans [OF s2(6) s3(3)] s6(11)]
    by (simp_all add: fun_upd_idem)
  have run: "sys_turns (visit_turns e wk s n) s = Inr s5"
    using s2(1,2) s3(1) s6(1,2) by (simp add: visit_turns_def Let_def)
  have "sy_conns s5 ?a = Some p'" "cp_sent p' = response_to (se_stamp (e 2)) uri v"
    "drop_conn ?a s5 = Inr (socket_dtor (shutdownWrite (client_socket fd False)), s6)" using s6(3,4) s3(13,14) by simp_all
  moreover have "loop_ok (m_tid io) kctl L'" "sy_accepts s6 = as" "sy_news s6 = news" using s6(12,13,16) s3(8,9) s2(16) by simp_all
  ultimately show ?thesis using run loops alm s6(6,15,17) L' same by blast
qed

text \<open>Two loops changed, and nothing to be seen of it: the server waits as before.\<close>

lemma visit_done:
  assumes W: "sys_waits kctl tid wk s" and i: "m_next_conn_id s + 1 < 2 ^ 31" "m_next_conn_id t = m_next_conn_id s + 1"
    and io: "sv_loops s l = Some io" and lm: "sv_loops s (m_main_loop s) = Some lm" "loop_ok (m_tid lm) kctl lm"
    and l: "sv_loops t = (sv_loops s)(m_main_loop s \<mapsto> lm', l \<mapsto> L')" "alike lm lm'" "rests lm'" "loop_ok (m_tid io) kctl L'" "rests L'"
      "watched L' = watched io" "seen_at L' = seen_at io"
    and t: "loops_ok tid t" "same_frame s t" "m_connections t = m_connections s" "sv_conns t = sv_conns s" "sy_conns t = sy_conns s"
  shows "sys_waits kctl tid wk t" "same_server s t"
proof -
  have ok: "loop_ok (m_tid lm') kctl lm'" "loop_ok (m_tid L') kctl L'"
    using alike_loop_ok [OF l(2) lm(2)] alike_views(4) [OF l(2)] l(4) by (auto simp: loop_ok_def)
  have look: "sv_loops t k = (if k = l then Some L' else if k = m_main_loop s then Some lm' else sv_loops s k)" for k using l(1) by simp
  have keep: "\<exists>lp'. sv_loops t k = Some lp' \<and> loop_ok (m_tid lp') kctl lp' \<and> rests lp' \<and> seen_at lp' = seen_at lp"
    if "sv_loops s k = Some lp" "loop_ok (m_tid lp) kctl lp" "rests lp" for k lp
    using that lm(1) io ok l(3,5,7) seen_at_alike [OF l(2)] look [of k] by (cases "k = l"; cases "k = m_main_loop s") simp_all
  have see: "\<exists>lp'. sv_loops t k = Some lp' \<and> watched lp' = watched lp \<and> seen_at lp' = seen_at lp" if "sv_loops s k = Some lp" for k lp
    using that lm(1) io l(6,7) alike_views(1) [OF l(2)] seen_at_alike [OF l(2)] look [of k] by (cases "k = l"; cases "k = m_main_loop s") simp_all
  show "sys_waits kctl tid wk t" using sys_waits_again [OF W t(1-4) i(2,1)] keep by blast
  show "same_server s t" using t(2-5) see by (simp add: same_server_def)
qed

text \<open>A visitor comes, is served, and leaves no trace.\<close>

lemma connection_life_law:
  assumes W: "sys_waits kctl tid wk s" and k: "\<forall>i. se_kctl (e i) = kctl"
    and A: "sy_accepts s = Ac_Fd fd # Ac_Err EAGAIN # as" "sy_news s = n # news"
    and V: "visitor s fd n" "short_visit n (se_stamp (e 2)) m uri v hs"
  shows "\<exists>s5 p sock s6. sys_turns (visit_turns e wk s n) s = Inr s5 \<and> sy_conns s5 (no_conn n) = Some p \<and>
    cp_sent p = response_to (se_stamp (e 2)) uri v \<and> drop_conn (no_conn n) s5 = Inr (sock, s6) \<and>
    sock_calls sock = [Sc_nonblock fd, Sc_tcp_nodelay fd True, Sc_shutdown_wr fd, Sc_close fd] \<and>
    sys_waits kctl tid wk s6 \<and> same_server s s6 \<and> sy_accepts s6 = as \<and> sy_news s6 = news \<and>
    m_next_conn_id s6 = m_next_conn_id s + 1"
proof -
  let ?m = "m_main_loop s" and ?l = "next_loop s"
  have lin: "?l \<in> set (m_loops (m_pool s))" using W next_loop_in [of tid s] by (simp add: sys_waits_def server_ok_def)
  have ne: "?l \<noteq> ?m" using W lin pool_not_main [of tid s ?l] by (simp add: sys_waits_def server_ok_def)
  obtain lm where lm: "sv_loops s ?m = Some lm" "loop_ok (m_tid lm) kctl lm" using W by (auto simp: sys_waits_def loop_waits_def)
  obtain io where io: "sv_loops s ?l = Some io" using W lin by (auto simp: sys_waits_def loop_waits_def)
  from visit_law [OF W k A V io lm(1)] obtain s5 p s6 lm' L' where
    r: "sys_turns (visit_turns e wk s n) s = Inr s5" "sy_conns s5 (no_conn n) = Some p" "cp_sent p = response_to (se_stamp (e 2)) uri v"
      "drop_conn (no_conn n) s5 = Inr (socket_dtor (shutdownWrite (client_socket fd False)), s6)"
    and l: "sv_loops s6 = (sv_loops s)(?m \<mapsto> lm', ?l \<mapsto> L')" "alike lm lm'" "rests lm'" "loop_ok (m_tid io) kctl L'" "rests L'"
      "watched L' = watched io" "seen_at L' = seen_at io"
    and t: "loops_ok tid s6" "same_frame s s6" "m_connections s6 = m_connections s" "sv_conns s6 = sv_conns s" "sy_conns s6 = sy_conns s"
      "sy_accepts s6 = as" "sy_news s6 = news" "m_next_conn_id s6 = m_next_conn_id s + 1" by blast
  have i: "m_next_conn_id s + 1 < 2 ^ 31" using V(1) by (simp add: visitor_def)
  note D = visit_done [OF W i t(8) io lm l t(1-5)]
  moreover have "sock_calls (socket_dtor (shutdownWrite (client_socket fd False))) = [Sc_nonblock fd, Sc_tcp_nodelay fd True, Sc_shutdown_wr fd, Sc_close fd]"
    by (simp add: socket_dtor_def shutdownWrite_def client_socket_def setTcpNoDelay_def setNonBlock_def sock_do_def)
  ultimately show ?thesis using r t(6-8) D by blast
qed

subsection \<open>Visits one after another\<close>

record visit =
  vi_env :: "nat \<Rightarrow> sys_env"
  vi_fd :: int
  vi_object :: new_object
  vi_method :: METHOD
  vi_uri :: string
  vi_version :: HTTP_VERSION
  vi_headers :: "string list"

text \<open>The server goes through the visits; the result is what it sent in each, and the server.\<close>

fun visits :: "(nat \<Rightarrow> nat) \<Rightarrow> visit list \<Rightarrow> system \<Rightarrow> (string list \<times> system) res" where
  "visits wk [] s = Inr ([], s)"
| "visits wk (x # xs) s =
     bind_res (sys_turns (visit_turns (vi_env x) wk s (vi_object x)) s) (\<lambda>s5.
     case sy_conns s5 (no_conn (vi_object x)) of
       None \<Rightarrow> Inl Undefined_Behaviour
     | Some p \<Rightarrow>
         bind_res (drop_conn (no_conn (vi_object x)) s5) (\<lambda>(sock, s6).
         bind_res (visits wk xs s6) (\<lambda>(texts, t). Inr (cp_sent p # texts, t))))"

definition response_of :: "visit \<Rightarrow> string" where
  "response_of x = response_to (se_stamp (vi_env x 2)) (vi_uri x) (vi_version x)"

text \<open>A visit that the server \<open>s\<close> can take, on whichever loop.\<close>

definition takes_visit :: "ctl_kernel \<Rightarrow> system \<Rightarrow> visit \<Rightarrow> bool" where
  "takes_visit kctl s x \<longleftrightarrow> (\<forall>i. se_kctl (vi_env x i) = kctl) \<and> fd_ok (vi_fd x) \<and>
     short_visit (vi_object x) (se_stamp (vi_env x 2)) (vi_method x) (vi_uri x) (vi_version x) (vi_headers x) \<and>
     sv_conns s (no_conn (vi_object x)) = None \<and> sy_conns s (no_conn (vi_object x)) = None \<and>
     (\<forall>l \<in> set (m_loops (m_pool s)). \<forall>lp. sv_loops s l = Some lp \<longrightarrow>
        seen_at lp (no_channel (vi_object x)) = None \<and> (\<forall>y h. seen_at lp y \<noteq> Some (vi_fd x, h)))"

lemma takes_visitor:
  assumes "takes_visit kctl s x" "sys_waits kctl tid wk s" "m_next_conn_id s + 1 < 2 ^ 31"
  shows "visitor s (vi_fd x) (vi_object x)"
proof -
  have "next_loop s \<in> set (m_loops (m_pool s))" using assms(2) next_loop_in [of tid s] by (simp add: sys_waits_def server_ok_def)
  with assms(1,3) show ?thesis by (auto simp: visitor_def takes_visit_def seen_at_views)
qed

lemma takes_again:
  assumes "takes_visit kctl s x" "same_server s t" "sys_waits kctl tid wk s"
  shows "takes_visit kctl t x"
proof -
  have f: "sv_conns t = sv_conns s" "sy_conns t = sy_conns s" "m_loops (m_pool t) = m_loops (m_pool s)"
    using assms(2) by (simp_all add: same_server_def same_frame_def)
  have "seen_at lp (no_channel (vi_object x)) = None \<and> (\<forall>y h. seen_at lp y \<noteq> Some (vi_fd x, h))"
    if l: "l \<in> set (m_loops (m_pool s))" "sv_loops t l = Some lp" for l lp
  proof -
    obtain lp0 where lp0: "sv_loops s l = Some lp0" using assms(3) l(1) by (auto simp: sys_waits_def loop_waits_def)
    with assms(2) l(2) have "seen_at lp = seen_at lp0" unfolding same_server_def by (metis option.inject)
    with assms(1) l(1) lp0 show ?thesis by (auto simp: takes_visit_def)
  qed
  with assms(1) f show ?thesis by (simp add: takes_visit_def)
qed

lemma same_server_trans:
  assumes "same_server s t" "same_server t u"
  shows "same_server s u"
  using assms unfolding same_server_def same_frame_def by metis

lemma visits_law:
  assumes "sys_waits kctl tid wk s" "\<forall>x \<in> set xs. takes_visit kctl s x" "m_next_conn_id s + int (length xs) < 2 ^ 31"
    and "sy_accepts s = concat (map (\<lambda>x. [Ac_Fd (vi_fd x), Ac_Err EAGAIN]) xs) @ as" "sy_news s = map vi_object xs @ news"
  shows "\<exists>t. visits wk xs s = Inr (map response_of xs, t) \<and> sys_waits kctl tid wk t \<and> same_server s t \<and>
    sy_accepts t = as \<and> sy_news t = news \<and> m_next_conn_id t = m_next_conn_id s + int (length xs)"
  using assms
proof (induction xs arbitrary: s)
  case Nil
  then show ?case by (simp add: same_server_def)
next
  case (Cons x xs)
  let ?n = "vi_object x"
  have le: "m_next_conn_id s + 1 < 2 ^ 31" and w: "takes_visit kctl s x" using Cons.prems(2,3) by simp_all
  have A: "sy_accepts s = Ac_Fd (vi_fd x) # Ac_Err EAGAIN # concat (map (\<lambda>x. [Ac_Fd (vi_fd x), Ac_Err EAGAIN]) xs) @ as"
    "sy_news s = ?n # map vi_object xs @ news" using Cons.prems(4,5) by simp_all
  have k: "\<forall>i. se_kctl (vi_env x i) = kctl" "short_visit ?n (se_stamp (vi_env x 2)) (vi_method x) (vi_uri x) (vi_version x) (vi_headers x)"
    using w by (simp_all add: takes_visit_def)
  obtain s5 p sock s6 where r: "sys_turns (visit_turns (vi_env x) wk s ?n) s = Inr s5" "sy_conns s5 (no_conn ?n) = Some p"
    "cp_sent p = response_of x" "drop_conn (no_conn ?n) s5 = Inr (sock, s6)" "sys_waits kctl tid wk s6" "same_server s s6"
    "sy_accepts s6 = concat (map (\<lambda>x. [Ac_Fd (vi_fd x), Ac_Err EAGAIN]) xs) @ as" "sy_news s6 = map vi_object xs @ news"
    "m_next_conn_id s6 = m_next_conn_id s + 1"
    using connection_life_law [OF Cons.prems(1) k(1) A takes_visitor [OF w Cons.prems(1) le] k(2)] unfolding response_of_def by blast
  have "\<forall>y \<in> set xs. takes_visit kctl s6 y" using Cons.prems(1,2) takes_again [OF _ r(6)] by simp
  moreover have "m_next_conn_id s6 + int (length xs) < 2 ^ 31" using Cons.prems(3) r(9) by simp
  ultimately obtain t where "visits wk xs s6 = Inr (map response_of xs, t)" "sys_waits kctl tid wk t" "same_server s6 t" "sy_accepts t = as"
    "sy_news t = news" "m_next_conn_id t = m_next_conn_id s6 + int (length xs)" using Cons.IH [OF r(5) _ _ r(7,8)] by blast
  with r same_server_trans [OF r(6)] show ?case by (intro exI [of _ t]) simp
qed

subsection \<open>Properties\<close>

text \<open>C2: the life of a connection in the whole server. A waiting server is given a new descriptor by the
  kernel, whose client sends a request without keep-alive, in any pieces, and takes the response. Five turns
  of the two loops involved (accept in the main loop; establish, serve in the connection's loop; remove in
  the main loop; destroy in the connection's loop) run without a fault. The client has been sent exactly
  the response; after the destructor the descriptor was shut down and closed once, and the server waits
  as before: same connection map, no object of the connection left, every loop watches what it watched.\<close>

theorem connection_life:
  assumes "sys_waits kctl tid wk s" "\<forall>i. se_kctl (e i) = kctl"
    and "sy_accepts s = Ac_Fd fd # Ac_Err EAGAIN # as" "sy_news s = n # news"
    and "visitor s fd n" "short_visit n (se_stamp (e 2)) m uri v hs"
  shows "\<exists>s5 p sock s6. sys_turns (visit_turns e wk s n) s = Inr s5 \<and> sy_conns s5 (no_conn n) = Some p \<and>
    cp_sent p = response_to (se_stamp (e 2)) uri v \<and> drop_conn (no_conn n) s5 = Inr (sock, s6) \<and>
    sock_calls sock = [Sc_nonblock fd, Sc_tcp_nodelay fd True, Sc_shutdown_wr fd, Sc_close fd] \<and>
    sys_waits kctl tid wk s6 \<and> same_server s s6 \<and> sy_accepts s6 = as \<and> sy_news s6 = news \<and>
    m_next_conn_id s6 = m_next_conn_id s + 1"
  by (rule connection_life_law [OF assms])

text \<open>A visit to evaluate: \<open>GET /hello\<close>, answered in one write.\<close>

definition demo_object :: "nat \<Rightarrow> new_object" where
  "demo_object a = \<lparr>no_conn = a, no_channel = a + 1,
     no_reads = [Rd_Bytes (render_request GET ''/hello'' HTTP_1_1 [''Host: a'']), Rd_Err EAGAIN],
     no_writes = [Wr_Bytes (length (response_to ''now'' ''/hello'' HTTP_1_1)), Wr_Err EAGAIN]\<rparr>"

definition demo_visit :: "nat \<Rightarrow> visit" where
  "demo_visit a = \<lparr>vi_env = (\<lambda>_. demo_sys_env), vi_fd = 7, vi_object = demo_object a, vi_method = GET, vi_uri = ''/hello'',
     vi_version = HTTP_1_1, vi_headers = [''Host: a'']\<rparr>"

lemma demo_short: "short_visit (demo_object a) ''now'' GET ''/hello'' HTTP_1_1 [''Host: a'']"
proof -
  let ?ds = "[Rd_Bytes (render_request GET ''/hello'' HTTP_1_1 [''Host: a''])]"
  have "length (render_request GET ''/hello'' HTTP_1_1 [''Host: a'']) < 10000"
    by (simp add: render_request_def render_headers_def method_text_def version_text_def)
  then have "no_reads (demo_object a) = ?ds @ Rd_Err EAGAIN # [] \<and> (\<forall>r \<in> set ?ds. rd_goes_on r) \<and>
    rd_data ?ds = render_request GET ''/hello'' HTTP_1_1 [''Host: a''] @ [] \<and> int (length (rd_data ?ds)) < 2 ^ 29"
    using rendered_nonempty [of GET "''/hello''" HTTP_1_1 "[''Host: a'']" "[]"] by (simp add: demo_object_def)
  then have "\<exists>ds ins extra. no_reads (demo_object a) = ds @ Rd_Err EAGAIN # ins \<and> (\<forall>r \<in> set ds. rd_goes_on r) \<and>
    rd_data ds = render_request GET ''/hello'' HTTP_1_1 [''Host: a''] @ extra \<and> int (length (rd_data ds)) < 2 ^ 29" by blast
  moreover have "kernel_takes (length (response_to ''now'' ''/hello'' HTTP_1_1)) (no_writes (demo_object a))"
    using kernel_takes_at_once response_nonempty by (simp add: demo_object_def)
  moreover have "accepted_header ''Host: a''" "\<not> is_connection ''Host: a''" "is_word ''/hello''"
    using example_headers(1,2) by (simp_all add: is_word_def)
  ultimately show ?thesis unfolding short_visit_def by simp
qed

lemma demo_takes:
  assumes "sv_conns s = Map.empty" "sy_conns s = Map.empty" "100 \<le> a"
    and "\<forall>l \<in> set (m_loops (m_pool s)). \<forall>lp. sv_loops s l = Some lp \<longrightarrow> seen_at lp = [10 \<mapsto> (3, Some H_timer), 11 \<mapsto> (4, Some H_wakeup)]"
  shows "takes_visit documented_kernel s (demo_visit a)"
  using assms demo_short [of a]
  by (auto simp: takes_visit_def demo_visit_def demo_sys_env_def demo_object_def fd_ok_def MAXFD_def split: if_splits)

theorem connection_life_witness:
  "\<exists>s s5 p. sys_turns (visit_turns (\<lambda>_. demo_sys_env) (\<lambda>_. 11) s (demo_object 100)) s = Inr s5 \<and> sy_conns s5 100 = Some p \<and>
    cp_sent p = response_to ''now'' ''/hello'' HTTP_1_1"
proof -
  obtain s where s: "sys_waits documented_kernel 1 (\<lambda>_. 11) s" "sy_accepts s = Ac_Fd 7 # Ac_Err EAGAIN # []"
    "sy_news s = demo_object 100 # []" "sv_conns s = Map.empty" "sy_conns s = Map.empty" "m_next_conn_id s = 1"
    "\<forall>l \<in> set (m_loops (m_pool s)). \<forall>lp. sv_loops s l = Some lp \<longrightarrow> seen_at lp = [10 \<mapsto> (3, Some H_timer), 11 \<mapsto> (4, Some H_wakeup)]"
    using demo_system by blast
  have t: "takes_visit documented_kernel s (demo_visit 100)" by (rule demo_takes [OF s(4,5) _ s(7)]) simp
  have v: "visitor s 7 (demo_object 100)" using takes_visitor [OF t s(1)] s(6) by (simp add: demo_visit_def)
  have k: "\<forall>i :: nat. se_kctl ((\<lambda>_. demo_sys_env) i) = documented_kernel" by (simp add: demo_sys_env_def)
  have n: "se_stamp ((\<lambda>_ :: nat. demo_sys_env) 2) = ''now''" "no_conn (demo_object 100) = 100"
    by (simp_all add: demo_sys_env_def demo_object_def)
  show ?thesis using connection_life [OF s(1) k s(2,3) v demo_short [of 100, folded n(1)]] unfolding n by blast
qed

text \<open>C3: visits leave no trace. A waiting server goes through any sequence of such visits, up to the limit of
  its connection numbers; in each it sends exactly the response to that request, and in the end it waits as
  at the start: no connection, no channel and no watched descriptor is left behind, so it neither leaks nor
  degrades.\<close>

theorem visits_leave_no_trace:
  assumes "sys_waits kctl tid wk s" "\<forall>x \<in> set xs. takes_visit kctl s x" "m_next_conn_id s + int (length xs) < 2 ^ 31"
    and "sy_accepts s = concat (map (\<lambda>x. [Ac_Fd (vi_fd x), Ac_Err EAGAIN]) xs) @ as" "sy_news s = map vi_object xs @ news"
  shows "\<exists>t. visits wk xs s = Inr (map response_of xs, t) \<and> sys_waits kctl tid wk t \<and> same_server s t"
  using visits_law [OF assms] by blast

theorem visits_leave_no_trace_witness:
  "\<exists>s t. visits (\<lambda>_. 11) [demo_visit 100, demo_visit 200] s =
    Inr ([response_to ''now'' ''/hello'' HTTP_1_1, response_to ''now'' ''/hello'' HTTP_1_1], t) \<and> m_connections t = m_connections s"
proof -
  let ?xs = "[demo_visit 100, demo_visit 200]"
  obtain s where s: "sys_waits documented_kernel 1 (\<lambda>_. 11) s"
    "sy_accepts s = concat (map (\<lambda>x. [Ac_Fd (vi_fd x), Ac_Err EAGAIN]) ?xs) @ []" "sy_news s = map vi_object ?xs @ []"
    "sv_conns s = Map.empty" "sy_conns s = Map.empty" "m_next_conn_id s = 1"
    "\<forall>l \<in> set (m_loops (m_pool s)). \<forall>lp. sv_loops s l = Some lp \<longrightarrow> seen_at lp = [10 \<mapsto> (3, Some H_timer), 11 \<mapsto> (4, Some H_wakeup)]"
    using demo_system by blast
  have t: "\<forall>x \<in> set ?xs. takes_visit documented_kernel s x"
    using demo_takes [OF s(4,5) _ s(7), of 100] demo_takes [OF s(4,5) _ s(7), of 200] by simp
  have i: "m_next_conn_id s + int (length ?xs) < 2 ^ 31" using s(6) by simp
  have r: "map response_of ?xs = [response_to ''now'' ''/hello'' HTTP_1_1, response_to ''now'' ''/hello'' HTTP_1_1]"
    by (simp add: response_of_def demo_visit_def demo_sys_env_def)
  from visits_leave_no_trace [OF s(1) t i s(2,3)] show ?thesis unfolding r by (auto simp: same_server_def)
qed

end
