(* ===== verification/ConnEffects.thy ===== *)
theory ConnEffects
  imports ServerStart
begin

text \<open>
  What the operations of a connection can do to the rest of the program, whatever the kernel answers and in
  whatever state they are called, as long as they return.

  \<open>quiet\<close>: a loop keeps its thread, its queue, its timers and the handlers of its channels. \<open>conn_effect\<close>: an
  operation of a connection leaves its loop quiet but for timers of its own, and either keeps the state of
  the connection or closes it, with one call of the close call back.
\<close>

subsection \<open>The timers in a heap\<close>

definition timer_cbs :: "'c timer_heap \<Rightarrow> 'c set" where
  "timer_cbs th = m_cb ` set (m_min_heap th)"

lemma percolateDown_mset: "mset (percolateDown i h) = mset h"
proof (induction i h rule: percolateDown.induct)
  case (1 i h)
  show ?case by (subst percolateDown.simps) (use 1 in \<open>auto simp: Let_def TimerHeap.mset_swap\<close>)
qed

lemma percolateUp_mset: "i < length h \<Longrightarrow> mset (percolateUp i h) = mset h"
proof (induction i h rule: percolateUp.induct)
  case (1 i h)
  then have "(i - 1) div 2 < length h" by linarith
  with 1 show ?case by (subst percolateUp.simps) (auto simp: Let_def TimerHeap.mset_swap)
qed

lemma timer_cbs_add: "timer_cbs (addTimerInLoop now cb delay th) = insert cb (timer_cbs th)"
proof -
  have "mset (push t h) = mset (h @ [t])" for t :: "'a timer" and h by (simp add: push_def percolateUp_mset)
  then have "set (push t h) = insert t (set h)" for t :: "'a timer" and h by (metis mset_eq_setD list.set(1,2) set_append Un_commute insert_is_Un)
  then show ?thesis by (simp add: timer_cbs_def addTimerInLoop_def setTimer_def new_timer_def Let_def)
qed

lemma set_pop: "set (pop h) \<subseteq> set h"
proof (cases "h = []")
  case True
  then show ?thesis by (simp add: pop_def swap_def percolateDown.simps)
next
  case False
  have "set (pop h) = set (butlast (swap h 0 (length h - 1)))"
    unfolding pop_def Let_def by (rule mset_eq_setD [OF percolateDown_mset])
  also have "\<dots> \<subseteq> set (swap h 0 (length h - 1))" by (auto dest: in_set_butlastD)
  also have "\<dots> = set h" using False by (intro mset_eq_setD TimerHeap.mset_swap) auto
  finally show ?thesis .
qed

subsection \<open>Quiet operations of a loop\<close>

definition handlers_of :: "'h channel \<Rightarrow> 'h option list" where
  "handlers_of ch = [m_read_handler ch, m_write_handler ch, m_error_handler ch, m_close_callback ch]"

definition handlers_at :: "('f, 'h) loop \<Rightarrow> nat \<Rightarrow> 'h option list option" where
  "handlers_at lp x = map_option handlers_of (lp_objects lp x)"

definition quiet :: "('f, 'h) loop \<Rightarrow> ('f, 'h) loop \<Rightarrow> bool" where
  "quiet lp lp' \<longleftrightarrow> m_tid lp' = m_tid lp \<and> m_pending_functors lp' = m_pending_functors lp \<and>
     m_timer_heap lp' = m_timer_heap lp \<and> handlers_at lp' = handlers_at lp"

lemma quiet_refl [simp]: "quiet lp lp"
  by (simp add: quiet_def)

lemma quiet_trans [trans]: "quiet lp lp' \<Longrightarrow> quiet lp' lp'' \<Longrightarrow> quiet lp lp''"
  by (simp add: quiet_def)

lemma handlers_of_simps [simp]:
  "handlers_of (ch\<lparr>m_events := ev\<rparr>) = handlers_of ch" "handlers_of (ch\<lparr>m_revents := ev\<rparr>) = handlers_of ch"
  "handlers_of (ch\<lparr>m_index := i\<rparr>) = handlers_of ch" "handlers_of (ch\<lparr>m_event_handling := b\<rparr>) = handlers_of ch"
  by (simp_all add: handlers_of_def)

lemma handlers_at_store [simp]: "handlers_at (store_object x ch lp) = (handlers_at lp)(x \<mapsto> handlers_of ch)"
  by (auto simp: handlers_at_def store_object_def fun_eq_iff)

lemma quiet_store: "lp_objects lp x = Some ch \<Longrightarrow> handlers_of ch' = handlers_of ch \<Longrightarrow> quiet lp (store_object x ch' lp)"
  by (auto simp: quiet_def handlers_at_def store_object_def fun_eq_iff)

lemma epoll_handlers:
  "epoll_updateChannel kctl ch ep = Inr (ch', ep') \<Longrightarrow> handlers_of ch' = handlers_of ch"
  "epoll_removeChannel kctl ch ep = Inr (ch', ep') \<Longrightarrow> handlers_of ch' = handlers_of ch"
  by (auto simp: epoll_updateChannel_def epoll_removeChannel_def epoll_update_def bind_res_eq_Inr Let_def split: if_splits)

lemma quiet_ops:
  "set_events f tid kctl a lp = Inr lp' \<Longrightarrow> quiet lp lp'"
  "channel_remove tid kctl a lp = Inr lp' \<Longrightarrow> quiet lp lp'"
  by (auto simp: set_events_def updateChannel_def channel_remove_def removeChannel_def bind_res_eq_Inr quiet_def handlers_at_def
      object_def store_object_def fun_eq_iff split: if_splits option.splits dest!: epoll_handlers)

subsection \<open>Operations of a connection\<close>

definition conn_still :: "('f, 'w) conn_env \<Rightarrow> ('f, 'h, 'w) conn_state \<Rightarrow> ('f, 'h, 'w) conn_state \<Rightarrow> bool" where
  "conn_still env s t \<longleftrightarrow> m_channel (cs_conn t) = m_channel (cs_conn s) \<and> m_tid (cs_loop t) = m_tid (cs_loop s) \<and>
     m_pending_functors (cs_loop t) = m_pending_functors (cs_loop s) \<and> handlers_at (cs_loop t) = handlers_at (cs_loop s) \<and>
     timer_cbs (m_timer_heap (cs_loop t)) \<subseteq> insert (e_close_long env) (timer_cbs (m_timer_heap (cs_loop s)))"

definition conn_effect :: "('f, 'w) conn_env \<Rightarrow> ('f, 'h, 'w) conn_state \<Rightarrow> ('f, 'h, 'w) conn_state \<Rightarrow> bool" where
  "conn_effect env s t \<longleftrightarrow> conn_still env s t \<and>
     (m_state (cs_conn t) = m_state (cs_conn s) \<and> cs_world t = cs_world s \<or>
      m_state (cs_conn s) \<in> {kConnected, kDisconnecting} \<and> m_state (cs_conn t) = kDisconnected \<and>
      (\<exists>c. e_close_callback env c (cs_world s) = Inr (cs_world t)))"

lemma conn_still_trans: "conn_still env s t \<Longrightarrow> conn_still env t u \<Longrightarrow> conn_still env s u"
  by (auto simp: conn_still_def)

lemma conn_effect_after:
  assumes "conn_still env s t" "m_state (cs_conn t) = m_state (cs_conn s)" "cs_world t = cs_world s" "conn_effect env t u"
  shows "conn_effect env s u"
  using assms conn_still_trans [OF assms(1)] by (auto simp: conn_effect_def)

lemma conn_still_quiet:
  "m_channel (cs_conn t) = m_channel (cs_conn s) \<Longrightarrow> quiet (cs_loop s) (cs_loop t) \<Longrightarrow> conn_still env s t"
  by (auto simp: conn_still_def quiet_def)

lemma on_channel_quiet:
  assumes "on_channel op env s = Inr t" "op \<in> {enableReading, enableWriting, disableAll, channel_remove}"
  shows "t = s\<lparr>cs_loop := cs_loop t\<rparr>" "quiet (cs_loop s) (cs_loop t)"
  using assms by (auto simp: on_channel_def bind_res_eq_Inr enableReading_def enableWriting_def disableAll_def intro: quiet_ops)

lemma on_channel_effect:
  assumes "on_channel op env s = Inr t" "op \<in> {enableReading, enableWriting, disableAll, channel_remove}"
  shows "conn_effect env s t"
proof -
  note q = on_channel_quiet [OF assms]
  have e: "cs_conn t = cs_conn s" "cs_world t = cs_world s" by (subst q(1), simp)+
  then show ?thesis using q(2) by (simp add: conn_effect_def conn_still_quiet)
qed

lemma assert_loop_same: "assert_loop env s = Inr t \<Longrightarrow> t = s"
  by (auto simp: assert_loop_def bind_res_eq_Inr)

lemma handleClose_effect: "handleClose env s = Inr t \<Longrightarrow> conn_effect env s t"
proof -
  assume h: "handleClose env s = Inr t"
  show ?thesis
  proof (cases "m_alive (cs_conn s) \<and> \<not> m_timeout (cs_conn s)")
    case True
    with h have "t = s" by (auto simp: handleClose_def bind_res_eq_Inr dest!: assert_loop_same)
    then show ?thesis by (simp add: conn_effect_def conn_still_quiet)
  next
    case False
    obtain s' where "assert_loop env s = Inr s'" using h unfolding handleClose_def bind_res_eq_Inr by blast
    then have a: "assert_loop env s = Inr s" using assert_loop_same by metis
    have st: "m_state (cs_conn s) \<in> {kConnected, kDisconnecting}" using h False by (auto simp: handleClose_def a split: if_splits)
    then obtain u where u: "on_channel disableAll env (setState kDisconnected s) = Inr u"
      using h False by (cases "on_channel disableAll env (setState kDisconnected s)") (auto simp: handleClose_def a)
    define v where "v = (if \<not> m_alive (cs_conn u) then on_socket shutdownWrite u else u)"
    have "bind_res (e_close_callback env (cs_conn v) (cs_world v)) (\<lambda>w. Inr (v\<lparr>cs_world := w\<rparr>)) = Inr t"
      using h False st by (simp add: handleClose_def a u v_def Let_def split: if_splits)
    then obtain w where w: "e_close_callback env (cs_conn v) (cs_world v) = Inr w" "t = v\<lparr>cs_world := w\<rparr>" by (auto simp: bind_res_eq_Inr)
    note q = on_channel_quiet [OF u, simplified]
    have e: "cs_conn u = (cs_conn s)\<lparr>m_state := kDisconnected\<rparr>" "cs_world u = cs_world s" by (subst q(1), simp)+
    have "m_channel (cs_conn t) = m_channel (cs_conn s)" "m_state (cs_conn t) = kDisconnected" "cs_loop t = cs_loop u" "cs_world t = w" "cs_world v = cs_world s"
      using e by (simp_all add: w(2) v_def on_socket_def)
    with q(2) st w(1) show ?thesis by (auto simp: conn_effect_def intro!: conn_still_quiet)
  qed
qed

lemma handleWrite_effect: "handleWrite env s = Inr t \<Longrightarrow> conn_effect env s t"
proof -
  assume h: "handleWrite env s = Inr t"
  then obtain bytes taken ob rest where w: "writeToFd (cs_out s) (m_output_buffer (cs_conn s)) = Inr (bytes, taken, ob, rest)"
    by (auto simp: handleWrite_def bind_res_eq_Inr)
  let ?s = "s\<lparr>cs_conn := (cs_conn s)\<lparr>m_output_buffer := ob\<rparr>, cs_out := rest, cs_sent := cs_sent s @ taken\<rparr>"
  obtain ctx ib where r: "reset (m_context (cs_conn s)) (m_input_buffer (cs_conn s)) = (ctx, ib)" by fastforce
  let ?u = "?s\<lparr>cs_conn := (cs_conn ?s)\<lparr>m_context := ctx, m_input_buffer := ib\<rparr>\<rparr>"
  have "handleClose env ?s = Inr t \<or> on_channel enableWriting env ?s = Inr t \<or> on_channel enableReading env ?u = Inr t"
    using h r by (auto simp: handleWrite_def w handleError_def Let_def split: if_splits)
  then have "conn_effect env ?s t \<or> conn_effect env ?u t" using handleClose_effect on_channel_effect by blast
  moreover have "conn_still env s ?s" "conn_still env s ?u" by (simp_all add: conn_still_quiet)
  ultimately show ?thesis using conn_effect_after [of env s ?s t] conn_effect_after [of env s ?u t] by auto
qed

lemma runAfter_timers:
  assumes "m_tid lp = tid" "lp' = runAfter add tid now delay cb lp"
  shows "m_tid lp' = m_tid lp" "m_pending_functors lp' = m_pending_functors lp" "handlers_at lp' = handlers_at lp"
    "timer_cbs (m_timer_heap lp') = insert cb (timer_cbs (m_timer_heap lp))"
  using assms by (simp_all add: runAfter_def addTimer_def isInLoopThread_def handlers_at_def timer_cbs_add fun_eq_iff)

lemma handleRead_effect:
  assumes "handleRead env s = Inr t" "m_tid (cs_loop s) = e_tid env"
  shows "conn_effect env s t"
proof -
  from assms(1) obtain bytes ib rest where r: "readFromFd (cs_in s) (m_input_buffer (cs_conn s)) = Inr (bytes, ib, rest)"
    by (auto simp: handleRead_def bind_res_eq_Inr)
  let ?s = "s\<lparr>cs_conn := (cs_conn s)\<lparr>m_input_buffer := ib\<rparr>, cs_in := rest\<rparr>"
  have s: "conn_still env s ?s" by (simp add: conn_still_quiet)
  show ?thesis
  proof (cases "0 < bytes")
    case False
    then have "handleClose env ?s = Inr t" using assms(1) r by (auto simp: handleRead_def handleError_def Let_def split: if_splits)
    from conn_effect_after [OF s _ _ handleClose_effect [OF this]] show ?thesis by simp
  next
    case True
    then obtain u where u: "conn_handleHttpRequest env ?s = Inr u"
      "handleWrite env (if \<not> m_alive (cs_conn u) \<and> isKeepAlive (m_context (cs_conn u)) then
         u\<lparr>cs_conn := (cs_conn u)\<lparr>m_alive := True\<rparr>,
           cs_loop := runAfter (e_add_timer env) (e_tid env) (e_now env) defaultTimeDelay (e_close_long env) (cs_loop u)\<rparr> else u) = Inr t"
      using assms(1) r by (auto simp: handleRead_def bind_res_eq_Inr Let_def)
    have c: "cs_loop u = cs_loop s" "cs_world u = cs_world s" "m_channel (cs_conn u) = m_channel (cs_conn s)" "m_state (cs_conn u) = m_state (cs_conn s)"
      using u(1) by (auto simp: conn_handleHttpRequest_def bind_res_eq_Inr Let_def)
    note t = runAfter_timers [OF assms(2) refl, of "e_add_timer env" "e_now env" defaultTimeDelay "e_close_long env"]
    show ?thesis
      by (rule conn_effect_after [OF _ _ _ handleWrite_effect [OF u(2)]]) (use c t in \<open>auto simp: conn_still_def\<close>)
  qed
qed

lemma conn_exec_effect:
  assumes "conn_exec env ev s = Inr t" "m_tid (cs_loop s) = e_tid env"
  shows "conn_effect env s t"
proof (cases ev)
  case Ev_Timeout
  have "conn_still env s (s\<lparr>cs_conn := (cs_conn s)\<lparr>m_timeout := True\<rparr>\<rparr>)" by (simp add: conn_still_quiet)
  from conn_effect_after [OF this _ _ handleClose_effect] assms(1) Ev_Timeout show ?thesis by (simp add: closeLongConnection_def)
qed (use assms in \<open>auto simp: handleError_def intro: handleRead_effect handleWrite_effect handleClose_effect\<close>)

lemma connectEstablished_effect:
  assumes "connectEstablished env s = Inr t"
  shows "conn_still env s t" "m_state (cs_conn t) = kConnected" "cs_world t = cs_world s"
proof -
  note q = on_channel_quiet [OF assms [unfolded connectEstablished_def], simplified]
  have "cs_conn t = (cs_conn s)\<lparr>m_state := kConnected\<rparr>" "cs_world t = cs_world s" by (subst q(1), simp)+
  with q(2) show "conn_still env s t" "m_state (cs_conn t) = kConnected" "cs_world t = cs_world s" by (simp_all add: conn_still_quiet)
qed

lemma connectDestroyed_effect:
  assumes "connectDestroyed env s = Inr t" "m_state (cs_conn s) = kDisconnected"
  shows "conn_still env s t" "m_state (cs_conn t) = kDisconnected" "cs_world t = cs_world s"
proof -
  have "on_channel channel_remove env s = Inr t"
    using assms by (auto simp: connectDestroyed_def bind_res_eq_Inr dest!: assert_loop_same)
  note q = on_channel_quiet [OF this, simplified]
  have "cs_conn t = cs_conn s" "cs_world t = cs_world s" by (subst q(1), simp)+
  with q(2) assms(2) show "conn_still env s t" "m_state (cs_conn t) = kDisconnected" "cs_world t = cs_world s" by (simp_all add: conn_still_quiet)
qed

end
