(* ===== verification/ConnMemory.thy ===== *)
theory ConnMemory
  imports ConnEffects
begin

text \<open>
  Memory safety of a connection: whatever bytes the peer sends, in whatever pieces, whatever the socket takes of
  the responses, and in whatever state a handler is called, it touches no byte outside the connection's buffers
  and no channel but its own, which is there.

  The indices of a buffer are \<open>int\<close>s, so this needs a bound on what a buffer can hold. \<open>fed c ins\<close>: the input
  buffer of the connection \<open>c\<close> has room for all bytes that \<open>read\<close> will still return (\<open>ins\<close>), and its output buffer
  for one response to each of these answers. A connection that sends fewer than 2^31 - 1024 bytes, in fewer than
  six million pieces, starts and stays \<open>fed\<close>.
\<close>

definition stamp_max :: nat where
  "stamp_max = 100"

definition response_max :: nat where
  "response_max = 250 + stamp_max"

definition fed :: "conn \<Rightarrow> sys_read list \<Rightarrow> bool" where
  "fed c ins \<longleftrightarrow> buffer_room (length (rd_data ins)) (m_input_buffer c) \<and> buffer_room (response_max * length ins) (m_output_buffer c)"

text \<open>What \<open>read\<close> may return on a connection from its start on.\<close>

definition modest :: "sys_read list \<Rightarrow> bool" where
  "modest ins \<longleftrightarrow> int (length (rd_data ins)) < 2 ^ 31 - 1024 \<and> int (response_max * length ins) < 2 ^ 31 - 1024"

lemma modest_fed: "modest ins \<Longrightarrow> fed (new_conn status name fd a) ins"
  using new_buffer_room [of "length (rd_data ins)"] new_buffer_room [of "response_max * length ins"]
  by (simp add: modest_def fed_def new_conn_def)

lemma fed_same: "m_input_buffer c' = m_input_buffer c \<Longrightarrow> m_output_buffer c' = m_output_buffer c \<Longrightarrow> fed c' ins = fed c ins"
  by (simp add: fed_def)

subsection \<open>Channels\<close>

lemma object_safe: "lp_objects lp a \<noteq> None \<Longrightarrow> safe (\<lambda>ch. lp_objects lp a = Some ch) (object a lp)"
  by (auto simp: object_def)

lemma epoll_update_safe: "safe (\<lambda>_. True) (epoll_update kctl what ch ep)"
  by (simp add: epoll_update_def Let_def)

lemma epoll_channel_safe:
  "safe (\<lambda>_. True) (epoll_updateChannel kctl ch ep)" "safe (\<lambda>_. True) (epoll_removeChannel kctl ch ep)"
  by (auto simp: epoll_updateChannel_def epoll_removeChannel_def Let_def intro!: safe_bind [OF epoll_update_safe])

lemma assertInLoopThread_safe: "safe (\<lambda>_. True) (assertInLoopThread tid lp)"
  by (simp add: assertInLoopThread_def)

lemma updateChannel_safe: "lp_objects lp a \<noteq> None \<Longrightarrow> safe (\<lambda>_. True) (updateChannel tid kctl a lp)"
  unfolding updateChannel_def
  by (rule safe_bind [OF object_safe], assumption)
    (auto intro!: safe_bind [OF assertInLoopThread_safe] safe_bind [OF epoll_channel_safe(1)])

lemma removeChannel_safe: "lp_objects lp a \<noteq> None \<Longrightarrow> safe (\<lambda>_. True) (removeChannel tid kctl a lp)"
  unfolding removeChannel_def
  by (rule safe_bind [OF object_safe], assumption)
    (auto intro!: safe_bind [OF assertInLoopThread_safe] safe_bind [OF epoll_channel_safe(2)])

lemma store_object_there [simp]: "lp_objects (store_object a ch lp) a = Some ch"
  by (simp add: store_object_def)

lemma channel_ops_safe:
  assumes "lp_objects lp a \<noteq> None"
  shows "safe (\<lambda>_. True) (set_events f tid kctl a lp)" "safe (\<lambda>_. True) (channel_remove tid kctl a lp)"
  unfolding set_events_def channel_remove_def
  by (rule safe_bind [OF object_safe [OF assms]], auto intro!: safe_bind [OF assertInLoopThread_safe] updateChannel_safe removeChannel_safe)+

subsection \<open>Handlers\<close>

lemma on_channel_safe:
  assumes "lp_objects (cs_loop s) (m_channel (cs_conn s)) \<noteq> None" "op \<in> {enableReading, enableWriting, disableAll, channel_remove}"
  shows "safe (\<lambda>t. \<exists>lp. t = s\<lparr>cs_loop := lp\<rparr>) (on_channel op env s)"
proof -
  from assms have "safe (\<lambda>_. True) (op (e_tid env) (e_kctl env) (m_channel (cs_conn s)) (cs_loop s))"
    by (auto simp: enableReading_def enableWriting_def disableAll_def intro: channel_ops_safe)
  then show ?thesis unfolding on_channel_def safe_then by (rule safe_mono) blast
qed

text \<open>What a handler of a connection needs: its own channel, room in its buffers, and a close call back that is safe
  on what it changes.\<close>

definition conn_ready :: "('w \<Rightarrow> bool) \<Rightarrow> ('f, 'w) conn_env \<Rightarrow> ('f, 'h, 'w) conn_state \<Rightarrow> bool" where
  "conn_ready W env s \<longleftrightarrow> fed (cs_conn s) (cs_in s) \<and> W (cs_world s) \<and>
     lp_objects (cs_loop s) (m_channel (cs_conn s)) \<noteq> None \<and> length (e_stamp env) \<le> stamp_max \<and>
     (\<forall>c w. W w \<longrightarrow> safe W (e_close_callback env c w))"

definition conn_fine :: "('w \<Rightarrow> bool) \<Rightarrow> ('f, 'h, 'w) conn_state \<Rightarrow> bool" where
  "conn_fine W s \<longleftrightarrow> fed (cs_conn s) (cs_in s) \<and> W (cs_world s)"

lemma conn_ready_fine: "conn_ready W env s \<Longrightarrow> conn_fine W s"
  by (simp add: conn_ready_def conn_fine_def)

lemma on_channel_fine:
  assumes "conn_ready W env s" "op \<in> {enableReading, enableWriting, disableAll, channel_remove}"
  shows "safe (conn_fine W) (on_channel op env s)"
  using on_channel_safe [of s op env] assms by (auto simp: conn_ready_def conn_fine_def intro: safe_mono)

lemma assert_loop_safe: "safe (\<lambda>t. t = s) (assert_loop env s)"
  by (simp add: assert_loop_def assertInLoopThread_def)

lemma handleClose_safe:
  assumes "conn_ready W env s"
  shows "safe (conn_fine W) (handleClose env s)"
proof -
  have close: "safe (conn_fine W) (bind_res (on_channel disableAll env (setState kDisconnected s)) (\<lambda>s.
       let s1 = (if \<not> m_alive (cs_conn s) then on_socket shutdownWrite s else s) in
       bind_res (e_close_callback env (cs_conn s1) (cs_world s1)) (\<lambda>w. Inr (s1\<lparr>cs_world := w\<rparr>))))"
  proof (rule safe_bind [OF on_channel_safe])
    show "lp_objects (cs_loop (setState kDisconnected s)) (m_channel (cs_conn (setState kDisconnected s))) \<noteq> None"
      using assms by (simp add: conn_ready_def setState_def)
    fix u assume "\<exists>lp. u = (setState kDisconnected s)\<lparr>cs_loop := lp\<rparr>"
    then obtain lp where u: "u = (setState kDisconnected s)\<lparr>cs_loop := lp\<rparr>" by blast
    let ?v = "if \<not> m_alive (cs_conn u) then on_socket shutdownWrite u else u"
    have f: "fed (cs_conn ?v) (cs_in ?v)" "W (cs_world ?v)"
      using assms by (auto simp: u conn_ready_def setState_def on_socket_def fed_def)
    then have "safe W (e_close_callback env (cs_conn ?v) (cs_world ?v))" using assms unfolding conn_ready_def by blast
    then show "safe (conn_fine W) (let s1 = ?v in bind_res (e_close_callback env (cs_conn s1) (cs_world s1)) (\<lambda>w. Inr (s1\<lparr>cs_world := w\<rparr>)))"
      using f(1) unfolding Let_def safe_then by (auto simp: conn_fine_def intro: safe_mono)
  qed simp
  show ?thesis unfolding handleClose_def
    by (rule safe_bind [OF assert_loop_safe]) (use close conn_ready_fine [OF assms] in \<open>auto simp: Let_def\<close>)
qed

lemma conn_ready_with:
  assumes "conn_ready W env s" "cs_loop t = cs_loop s" "cs_world t = cs_world s" "m_channel (cs_conn t) = m_channel (cs_conn s)"
    "fed (cs_conn t) (cs_in t)"
  shows "conn_ready W env t"
  using assms by (simp add: conn_ready_def)

lemma handleWrite_safe:
  assumes "conn_ready W env s"
  shows "safe (conn_fine W) (handleWrite env s)"
proof -
  have w: "safe (\<lambda>(_, _, ob, _). buffer_room (response_max * length (cs_in s)) ob) (writeToFd (cs_out s) (m_output_buffer (cs_conn s)))"
    using assms unfolding writeToFd_def by (intro writeToFd_loop_safe) (simp add: conn_ready_def fed_def)
  show ?thesis
  proof (cases "writeToFd (cs_out s) (m_output_buffer (cs_conn s))")
    case (Inl e)
    with w show ?thesis by (simp add: handleWrite_def)
  next
    case (Inr r)
    obtain bytes taken ob rest where r: "r = (bytes, taken, ob, rest)" by (cases r)
    let ?s = "s\<lparr>cs_conn := (cs_conn s)\<lparr>m_output_buffer := ob\<rparr>, cs_out := rest, cs_sent := cs_sent s @ taken\<rparr>"
    have 1: "conn_ready W env ?s" by (rule conn_ready_with [OF assms]) (use w Inr r assms in \<open>simp_all add: conn_ready_def fed_def\<close>)
    obtain ctx ib where rs: "reset (m_context (cs_conn s)) (m_input_buffer (cs_conn s)) = (ctx, ib)" by fastforce
    let ?u = "?s\<lparr>cs_conn := (cs_conn ?s)\<lparr>m_context := ctx, m_input_buffer := ib\<rparr>\<rparr>"
    have "buffer_room (length (rd_data (cs_in s))) ib"
      using rs retrieveAll_empty [of "length (rd_data (cs_in s))" "m_input_buffer (cs_conn s)"] assms by (auto simp: reset_def conn_ready_def fed_def)
    then have 2: "conn_ready W env ?u" by (intro conn_ready_with [OF 1]) (use 1 in \<open>simp_all add: conn_ready_def fed_def\<close>)
    show ?thesis
      using handleClose_safe [OF 1] on_channel_fine [OF 1, of enableWriting] on_channel_fine [OF 2, of enableReading]
      by (simp add: handleWrite_def Inr r rs handleError_def Let_def)
  qed
qed

text \<open>\<open>handleRead\<close> up to the timer of a connection that is kept alive.\<close>

lemma conn_ready_timer:
  "conn_ready W env s \<Longrightarrow>
   conn_ready W env (s\<lparr>cs_conn := (cs_conn s)\<lparr>m_alive := True\<rparr>, cs_loop := runAfter add tid now delay cb (cs_loop s)\<rparr>)"
  by (auto simp: conn_ready_def fed_def runAfter_def addTimer_def queueInLoop_def push_functor_def wakeup_def Let_def)

lemma handleHttpRequest_safe:
  assumes "conn_ready W env s" "length (cs_in s) < n" "buffer_room (response_max * n) (m_output_buffer (cs_conn s))"
  shows "safe (conn_ready W env) (conn_handleHttpRequest env s)"
proof -
  have "response_max * Suc (length (cs_in s)) \<le> response_max * n" using assms(2) by (simp add: Suc_le_eq del: mult_Suc_right)
  then have "250 + length (e_stamp env) + response_max * length (cs_in s) \<le> response_max * n"
    using assms(1) by (simp add: conn_ready_def response_max_def)
  with assms(3) have out: "buffer_room (250 + length (e_stamp env) + response_max * length (cs_in s)) (m_output_buffer (cs_conn s))"
    by (rule buffer_room_mono)
  have "buffer_room (length (rd_data (cs_in s))) (m_input_buffer (cs_conn s))" using assms(1) by (simp add: conn_ready_def fed_def)
  from work_safe [OF this out, of "m_context (cs_conn s)"] show ?thesis
    by (cases "work (e_stamp env) (m_context (cs_conn s)) (m_input_buffer (cs_conn s)) (m_output_buffer (cs_conn s))")
      (auto simp: conn_handleHttpRequest_def Let_def fed_def intro!: conn_ready_with [OF assms(1)])
qed

lemma handleRead_safe:
  assumes "conn_ready W env s"
  shows "safe (conn_fine W) (handleRead env s)"
proof -
  have rd: "safe (\<lambda>(_, ib, rest). buffer_room (length (rd_data rest)) ib \<and> length rest < length (cs_in s)) (readFromFd (cs_in s) (m_input_buffer (cs_conn s)))"
    using assms readFromFd_loop_safe [of "cs_in s" 0] unfolding readFromFd_def by (simp add: conn_ready_def fed_def)
  show ?thesis
  proof (cases "readFromFd (cs_in s) (m_input_buffer (cs_conn s))")
    case (Inl e)
    with rd show ?thesis by (simp add: handleRead_def)
  next
    case (Inr r)
    obtain bytes ib rest where r: "r = (bytes, ib, rest)" by (cases r)
    let ?s = "s\<lparr>cs_conn := (cs_conn s)\<lparr>m_input_buffer := ib\<rparr>, cs_in := rest\<rparr>"
    have room: "buffer_room (length (rd_data rest)) ib" "length rest < length (cs_in s)"
      "buffer_room (response_max * length (cs_in s)) (m_output_buffer (cs_conn s))"
      using rd Inr r assms by (simp_all add: conn_ready_def fed_def)
    have "buffer_room (response_max * length rest) (m_output_buffer (cs_conn s))" using room(2) by (intro buffer_room_mono [OF room(3)]) simp
    with room(1) have 1: "conn_ready W env ?s" by (intro conn_ready_with [OF assms]) (simp_all add: fed_def)
    have w: "safe (conn_ready W env) (conn_handleHttpRequest env ?s)" by (rule handleHttpRequest_safe [OF 1]) (use room in simp_all)
    show ?thesis
    proof (cases "0 < bytes")
      case False
      with handleClose_safe [OF 1] show ?thesis by (simp add: handleRead_def handleError_def Inr r Let_def)
    next
      case True
      then show ?thesis
        by (auto simp: handleRead_def Inr r Let_def intro!: safe_bind [OF w] handleWrite_safe conn_ready_timer)
    qed
  qed
qed

text \<open>Every event of a connection.\<close>

lemma conn_exec_safe:
  assumes "conn_ready W env s"
  shows "safe (conn_fine W) (conn_exec env ev s)"
proof (cases ev)
  case Ev_Timeout
  have "conn_ready W env (s\<lparr>cs_conn := (cs_conn s)\<lparr>m_timeout := True\<rparr>\<rparr>)"
    by (rule conn_ready_with [OF assms]) (use assms in \<open>simp_all add: conn_ready_def fed_def\<close>)
  from handleClose_safe [OF this] Ev_Timeout show ?thesis by (simp add: closeLongConnection_def)
qed (use assms in \<open>simp_all add: handleError_def handleRead_safe handleWrite_safe handleClose_safe\<close>)

lemma connectEstablished_safe:
  assumes "conn_ready W env s"
  shows "safe (conn_fine W) (connectEstablished env s)"
proof -
  have "conn_ready W env (setState kConnected s)"
    by (rule conn_ready_with [OF assms]) (use assms in \<open>simp_all add: conn_ready_def fed_def setState_def\<close>)
  from on_channel_fine [OF this] show ?thesis by (simp add: connectEstablished_def)
qed

text \<open>\<open>connectDestroyed\<close>, when \<open>handleClose\<close> has been there.\<close>

lemma connectDestroyed_safe:
  assumes "conn_ready W env s" "m_state (cs_conn s) \<noteq> kConnected"
  shows "safe (conn_fine W) (connectDestroyed env s)"
  unfolding connectDestroyed_def
  by (rule safe_bind [OF assert_loop_safe]) (use assms on_channel_fine [OF assms(1), of channel_remove] in simp)

end
