(* ===== verification/ServerLedger.thy ===== *)
theory ServerLedger
  imports ConnEffects
begin

text \<open>
  An invariant of the whole server, for every sequence of turns of its loops, whatever the kernel reports.

  \<open>well_typed\<close>: every functor in a queue, every timer and every handler of a channel is one that its loop can
  run, and refers to a connection that is there and belongs to that loop. \<open>in_phase\<close>: each connection is in
  exactly one of five phases, told by the functors queued for it, its state and the map of the server.
  While the loop \<open>l\<close> runs, it is out of \<open>sv_loops\<close>; \<open>joined\<close> puts it back, with the functors that it still
  has to run.
\<close>

subsection \<open>Well-typed queues, timers and handlers\<close>

text \<open>The connection at \<open>a\<close> exists, on the loop \<open>l\<close>, with its channel at \<open>x\<close>.\<close>

definition knows :: "system \<Rightarrow> nat \<Rightarrow> nat \<Rightarrow> nat \<Rightarrow> bool" where
  "knows s a l x \<longleftrightarrow> (\<exists>c p. sv_conns s a = Some c \<and> cr_loop c = l \<and> sy_conns s a = Some p \<and> m_channel (cp_conn p) = x)"

fun functor_ok :: "system \<Rightarrow> nat \<Rightarrow> functor_name \<Rightarrow> bool" where
  "functor_ok s l (Fn_connectEstablished a) = (\<exists>x. knows s a l x)"
| "functor_ok s l (Fn_connectDestroyed a) = (\<exists>x. knows s a l x)"
| "functor_ok s l (Fn_removeConnectionInLoop a) = (l = m_main_loop s \<and> (\<exists>k x. knows s a k x))"
| "functor_ok s l Fn_handleTimeoutEvents = True"
| "functor_ok s l f = False"

fun timer_ok :: "system \<Rightarrow> nat \<Rightarrow> functor_name \<Rightarrow> bool" where
  "timer_ok s l (Fn_closeLongConnection a) = (\<exists>x. knows s a l x)"
| "timer_ok s l f = False"

fun handler_ok :: "system \<Rightarrow> nat \<Rightarrow> nat \<Rightarrow> event_handler \<Rightarrow> bool" where
  "handler_ok s l x (H_conn a ev) = knows s a l x"
| "handler_ok s l x h = True"

definition conn_handlers_at :: "nat \<Rightarrow> event_handler option list" where
  "conn_handlers_at a = map (\<lambda>ev. Some (H_conn a ev)) [Ev_Read, Ev_Write, Ev_Error, Ev_Close]"

definition loop_typed :: "system \<Rightarrow> nat \<Rightarrow> io_loop \<Rightarrow> bool" where
  "loop_typed s l lp \<longleftrightarrow> (\<forall>f \<in> set (m_pending_functors lp). functor_ok s l f) \<and>
     (\<forall>f \<in> timer_cbs (m_timer_heap lp). timer_ok s l f) \<and>
     (\<forall>x hs h. handlers_at lp x = Some hs \<longrightarrow> Some h \<in> set hs \<longrightarrow> handler_ok s l x h)"

definition well_typed :: "nat \<Rightarrow> system \<Rightarrow> bool" where
  "well_typed tid s \<longleftrightarrow> server_ok tid s \<and> (\<forall>a. sv_conns s a = None \<longleftrightarrow> sy_conns s a = None) \<and>
     (\<forall>l lp. sv_loops s l = Some lp \<longrightarrow> l \<in> insert (m_main_loop s) (set (m_loops (m_pool s))) \<and> loop_typed s l lp) \<and>
     (\<forall>a l x. knows s a l x \<longrightarrow> (\<exists>lp. sv_loops s l = Some lp \<and> handlers_at lp x = Some (conn_handlers_at a)))"

subsection \<open>Phases of a connection\<close>

datatype phase = Born | Live | Closing | Erased | Destroyed

text \<open>In the order of a connection's life.\<close>

fun phase_rank :: "phase \<Rightarrow> nat" where
  "phase_rank Born = 0"
| "phase_rank Live = 1"
| "phase_rank Closing = 2"
| "phase_rank Erased = 3"
| "phase_rank Destroyed = 4"

lemma phase_rank_inject: "phase_rank p = phase_rank q \<Longrightarrow> p = q"
  by (cases p; cases q) simp_all

instantiation phase :: linorder
begin

definition less_eq_phase :: "phase \<Rightarrow> phase \<Rightarrow> bool" where
  "p \<le> q \<longleftrightarrow> phase_rank p \<le> phase_rank q"

definition less_phase :: "phase \<Rightarrow> phase \<Rightarrow> bool" where
  "p < q \<longleftrightarrow> phase_rank p < phase_rank q"

instance
  by standard (auto simp: less_eq_phase_def less_phase_def intro: phase_rank_inject)

end

text \<open>
  How often \<open>connectEstablished\<close>, \<open>removeConnectionInLoop\<close> and \<open>connectDestroyed\<close> are queued for the connection,
  its state, and whether the server's map has it.
\<close>

type_synonym tokens = "nat \<times> nat \<times> nat \<times> StateE \<times> bool"

fun phase_tokens :: "phase \<Rightarrow> tokens" where
  "phase_tokens Born = (1, 0, 0, kConnecting, True)"
| "phase_tokens Live = (0, 0, 0, kConnected, True)"
| "phase_tokens Closing = (0, 1, 0, kDisconnected, True)"
| "phase_tokens Erased = (0, 0, 1, kDisconnected, False)"
| "phase_tokens Destroyed = (0, 0, 0, kDisconnected, False)"

definition tokens_of :: "system \<Rightarrow> nat \<Rightarrow> conn_ref \<Rightarrow> conn_part \<Rightarrow> tokens" where
  "tokens_of s a c p =
     (count_list (pending s (cr_loop c)) (Fn_connectEstablished a), count_list (pending s (m_main_loop s)) (Fn_removeConnectionInLoop a),
      count_list (pending s (cr_loop c)) (Fn_connectDestroyed a), m_state (cp_conn p), m_connections s (cr_name c) = Some a)"

definition in_phase :: "system \<Rightarrow> nat \<Rightarrow> phase \<Rightarrow> bool" where
  "in_phase s a ph \<longleftrightarrow> (\<exists>c p. sv_conns s a = Some c \<and> sy_conns s a = Some p \<and> tokens_of s a c p = phase_tokens ph)"

definition ledger :: "nat \<Rightarrow> system \<Rightarrow> bool" where
  "ledger tid s \<longleftrightarrow> well_typed tid s \<and> (\<forall>a. sv_conns s a \<noteq> None \<longrightarrow> (\<exists>ph. in_phase s a ph))"

lemma phase_unique: "in_phase s a ph \<Longrightarrow> in_phase s a ph' \<Longrightarrow> ph = ph'"
  by (cases ph; cases ph') (auto simp: in_phase_def)

text \<open>Every connection of \<open>s\<close> is still in \<open>t\<close>, in the same phase or a later one.\<close>

definition forward :: "system \<Rightarrow> system \<Rightarrow> bool" where
  "forward s t \<longleftrightarrow> (\<forall>a ph. in_phase s a ph \<longrightarrow> (\<exists>ph'. in_phase t a ph' \<and> ph \<le> ph'))"

lemma forward_refl [simp]: "forward s s"
  by (auto simp: forward_def)

lemma forward_trans: "forward s t \<Longrightarrow> forward t u \<Longrightarrow> forward s u"
  unfolding forward_def by (meson order_trans)

subsection \<open>Changes that keep the types\<close>

definition loop_grows :: "system \<Rightarrow> nat \<Rightarrow> io_loop \<Rightarrow> io_loop \<Rightarrow> bool" where
  "loop_grows s l lp lp' \<longleftrightarrow> handlers_at lp' = handlers_at lp \<and>
     (\<forall>f \<in> set (m_pending_functors lp'). f \<in> set (m_pending_functors lp) \<or> functor_ok s l f) \<and>
     (\<forall>f \<in> timer_cbs (m_timer_heap lp'). f \<in> timer_cbs (m_timer_heap lp) \<or> timer_ok s l f)"

definition same_conns :: "system \<Rightarrow> system \<Rightarrow> bool" where
  "same_conns s t \<longleftrightarrow> m_main_loop t = m_main_loop s \<and> m_loops (m_pool t) = m_loops (m_pool s) \<and> sv_conns t = sv_conns s \<and>
     (\<forall>a. map_option (\<lambda>p. m_channel (cp_conn p)) (sy_conns t a) = map_option (\<lambda>p. m_channel (cp_conn p)) (sy_conns s a))"

lemma same_conns_knows: "same_conns s t \<Longrightarrow> knows t = knows s"
proof -
  assume s: "same_conns s t"
  have "(\<exists>p. sy_conns t a = Some p \<and> m_channel (cp_conn p) = x) = (\<exists>p. sy_conns s a = Some p \<and> m_channel (cp_conn p) = x)" for a x
  proof -
    have "map_option (\<lambda>p. m_channel (cp_conn p)) (sy_conns t a) = map_option (\<lambda>p. m_channel (cp_conn p)) (sy_conns s a)"
      using s by (simp add: same_conns_def)
    then show ?thesis by (cases "sy_conns t a"; cases "sy_conns s a") auto
  qed
  with s show ?thesis by (auto simp: knows_def same_conns_def fun_eq_iff)
qed

lemma same_conns_None: "same_conns s t \<Longrightarrow> sy_conns t a = None \<longleftrightarrow> sy_conns s a = None"
  by (metis same_conns_def option.map_disc_iff)

lemma same_conns_ok:
  assumes "same_conns s t"
  shows "functor_ok t = functor_ok s" "timer_ok t = timer_ok s" "handler_ok t = handler_ok s"
proof -
  have k: "knows t = knows s" "m_main_loop t = m_main_loop s" using assms by (simp_all add: same_conns_knows) (simp add: same_conns_def)
  have "functor_ok t l f = functor_ok s l f" for l f by (cases f) (simp_all add: k)
  moreover have "timer_ok t l f = timer_ok s l f" for l f by (cases f) (simp_all add: k)
  moreover have "handler_ok t l x h = handler_ok s l x h" for l x h by (cases h) (simp_all add: k)
  ultimately show "functor_ok t = functor_ok s" "timer_ok t = timer_ok s" "handler_ok t = handler_ok s" by (simp_all add: fun_eq_iff)
qed

lemma loop_typed_grows: "loop_typed s l lp \<Longrightarrow> loop_grows s l lp lp' \<Longrightarrow> loop_typed s l lp'"
  unfolding loop_typed_def loop_grows_def by metis

lemma well_typed_grows:
  assumes "well_typed tid s" "server_ok tid t" "same_conns s t"
    and "\<And>l lp'. sv_loops t l = Some lp' \<Longrightarrow> \<exists>lp. sv_loops s l = Some lp \<and> loop_grows s l lp lp'"
    and "\<And>l. sv_loops s l \<noteq> None \<Longrightarrow> sv_loops t l \<noteq> None"
  shows "well_typed tid t"
  unfolding well_typed_def
proof (intro conjI allI impI)
  show "server_ok tid t" by fact
  show "sv_conns t a = None \<longleftrightarrow> sy_conns t a = None" for a
    using assms(1) same_conns_None [OF assms(3), of a] assms(3) by (simp add: well_typed_def same_conns_def)
  fix l lp' assume "sv_loops t l = Some lp'"
  from assms(4) [OF this] obtain lp where lp: "sv_loops s l = Some lp" "loop_grows s l lp lp'" by blast
  with assms(1) have w: "l \<in> insert (m_main_loop s) (set (m_loops (m_pool s)))" "loop_typed s l lp" unfolding well_typed_def by blast+
  show "l \<in> insert (m_main_loop t) (set (m_loops (m_pool t)))" using w(1) assms(3) by (simp add: same_conns_def)
  show "loop_typed t l lp'" using loop_typed_grows [OF w(2) lp(2)] by (simp add: loop_typed_def same_conns_ok [OF assms(3)])
next
  fix a l x assume "knows t a l x"
  then have "knows s a l x" by (simp add: same_conns_knows [OF assms(3)])
  with assms(1) obtain lp where lp: "sv_loops s l = Some lp" "handlers_at lp x = Some (conn_handlers_at a)"
    unfolding well_typed_def by blast
  then obtain lp' where "sv_loops t l = Some lp'" using assms(5) [of l] by auto
  with assms(4) [OF this] lp show "\<exists>lp. sv_loops t l = Some lp \<and> handlers_at lp x = Some (conn_handlers_at a)"
    by (auto simp: loop_grows_def)
qed

lemma loop_grows_refl [simp]: "loop_grows s l lp lp"
  by (simp add: loop_grows_def)

end
