(* ===== verification/ServerSteps.thy ===== *)
theory ServerSteps
  imports ServerLedger
begin

text \<open>
  Every handler and functor of the server keeps its invariant, \<open>sound\<close>: the ledger of ServerLedger, with
  addresses in \<open>sy_news\<close> that nothing uses yet.

  While the loop \<open>l\<close> runs a handler or a functor, it is out of the map of loops; \<open>rem k\<close> are the functors that
  the loop \<open>k\<close> has taken from its queue and still has to call. \<open>joined\<close> puts the loop and these functors back,
  and \<open>mid\<close> is the invariant of such a state.
\<close>

subsection \<open>The invariant\<close>

definition fresh_news :: "system \<Rightarrow> bool" where
  "fresh_news s \<longleftrightarrow> distinct (map no_conn (sy_news s)) \<and> distinct (map no_channel (sy_news s)) \<and>
     (\<forall>n \<in> set (sy_news s). sv_conns s (no_conn n) = None \<and>
        (\<forall>l lp. sv_loops s l = Some lp \<longrightarrow> handlers_at lp (no_channel n) = None))"

definition sound :: "nat \<Rightarrow> system \<Rightarrow> bool" where
  "sound tid s \<longleftrightarrow> ledger tid s \<and> fresh_news s"

definition with_rest :: "functor_name list \<Rightarrow> io_loop \<Rightarrow> io_loop" where
  "with_rest fs lp = lp\<lparr>m_pending_functors := fs @ m_pending_functors lp\<rparr>"

definition spread :: "(nat \<Rightarrow> functor_name list) \<Rightarrow> system \<Rightarrow> system" where
  "spread rem s = s\<lparr>sv_loops := \<lambda>k. map_option (with_rest (rem k)) (sv_loops s k)\<rparr>"

definition joined :: "nat \<Rightarrow> (nat \<Rightarrow> functor_name list) \<Rightarrow> io_loop \<times> system \<Rightarrow> system" where
  "joined l rem r = spread rem (put_loop l (fst r) (snd r))"

definition mid :: "nat \<Rightarrow> nat \<Rightarrow> nat \<Rightarrow> (nat \<Rightarrow> functor_name list) \<Rightarrow> io_loop \<times> system \<Rightarrow> bool" where
  "mid tid t l rem r \<longleftrightarrow> sound tid (joined l rem r) \<and> m_tid (fst r) = t \<and> (\<exists>lp0. sv_loops (snd r) l = Some lp0 \<and> m_tid lp0 = t)"

text \<open>A step of the running loop: it keeps the invariant, and connections stay where they are and never go back
  to an earlier phase. \<open>rem'\<close> are the functors to call after it.\<close>

definition mid_to ::
  "nat \<Rightarrow> nat \<Rightarrow> nat \<Rightarrow> (nat \<Rightarrow> functor_name list) \<Rightarrow> (nat \<Rightarrow> functor_name list) \<Rightarrow> io_loop \<times> system \<Rightarrow> io_loop \<times> system \<Rightarrow> bool" where
  "mid_to tid t l rem rem' r r' \<longleftrightarrow> mid tid t l rem' r' \<and> (\<forall>a k x. knows (snd r) a k x \<longrightarrow> knows (snd r') a k x) \<and>
     forward (joined l rem r) (joined l rem' r')"

lemma ledger_change:
  assumes "ledger tid s" "server_ok tid t" "same_conns s t"
    and "\<And>l lp'. sv_loops t l = Some lp' \<Longrightarrow> \<exists>lp. sv_loops s l = Some lp \<and> loop_grows s l lp lp'"
    and "\<And>l. sv_loops s l \<noteq> None \<Longrightarrow> sv_loops t l \<noteq> None"
    and "\<And>a c p p' ph. sv_conns s a = Some c \<Longrightarrow> sy_conns s a = Some p \<Longrightarrow> sy_conns t a = Some p' \<Longrightarrow>
      tokens_of s a c p = phase_tokens ph \<Longrightarrow> \<exists>ph'. tokens_of t a c p' = phase_tokens ph' \<and> ph \<le> ph'"
  shows "ledger tid t" "forward s t"
proof -
  show f: "forward s t" unfolding forward_def
  proof (intro allI impI)
    fix a ph assume "in_phase s a ph"
    then obtain c p where p: "sv_conns s a = Some c" "sy_conns s a = Some p" "tokens_of s a c p = phase_tokens ph" by (auto simp: in_phase_def)
    moreover obtain p' where "sy_conns t a = Some p'" using p(2) same_conns_None [OF assms(3), of a] by auto
    moreover have "sv_conns t a = Some c" using p(1) assms(3) by (simp add: same_conns_def)
    ultimately show "\<exists>ph'. in_phase t a ph' \<and> ph \<le> ph'" using assms(6) [of a c p p' ph] by (auto simp: in_phase_def)
  qed
  show "ledger tid t" unfolding ledger_def
  proof (intro conjI allI impI)
    show "well_typed tid t" using assms(1) by (intro well_typed_grows [OF _ assms(2-5)]) (simp add: ledger_def)
    fix a assume "sv_conns t a \<noteq> None"
    then have "sv_conns s a \<noteq> None" using assms(3) by (simp add: same_conns_def)
    with assms(1) f show "\<exists>ph. in_phase t a ph" unfolding ledger_def forward_def by blast
  qed
qed

lemma sound_change:
  assumes "sound tid s" "server_ok tid t" "same_conns s t" "sy_news t = sy_news s"
    and "\<And>l lp'. sv_loops t l = Some lp' \<Longrightarrow> \<exists>lp. sv_loops s l = Some lp \<and> loop_grows s l lp lp'"
    and "\<And>l. sv_loops s l \<noteq> None \<Longrightarrow> sv_loops t l \<noteq> None"
    and "\<And>a c p p' ph. sv_conns s a = Some c \<Longrightarrow> sy_conns s a = Some p \<Longrightarrow> sy_conns t a = Some p' \<Longrightarrow>
      tokens_of s a c p = phase_tokens ph \<Longrightarrow> \<exists>ph'. tokens_of t a c p' = phase_tokens ph' \<and> ph \<le> ph'"
  shows "sound tid t \<and> forward s t"
proof -
  have "fresh_news t" unfolding fresh_news_def
  proof (intro conjI ballI allI impI)
    have f: "fresh_news s" using assms(1) by (simp add: sound_def)
    then show "distinct (map no_conn (sy_news t))" "distinct (map no_channel (sy_news t))" using assms(4) by (simp_all add: fresh_news_def)
    fix n assume n: "n \<in> set (sy_news t)"
    with f assms(3,4) show "sv_conns t (no_conn n) = None" by (simp add: fresh_news_def same_conns_def)
    fix l lp' assume "sv_loops t l = Some lp'"
    from assms(5) [OF this] obtain lp where "sv_loops s l = Some lp" "handlers_at lp' = handlers_at lp" by (auto simp: loop_grows_def)
    with n f assms(4) show "handlers_at lp' (no_channel n) = None" by (simp add: fresh_news_def)
  qed
  moreover have "ledger tid s" using assms(1) by (simp add: sound_def)
  note ledger_change [OF this assms(2,3,5,6,7)]
  ultimately show ?thesis by (simp add: sound_def)
qed

lemma joined_simps [simp]:
  "sv_loops (joined l rem (lp, s)) = (\<lambda>k. map_option (with_rest (rem k)) (((sv_loops s)(l \<mapsto> lp)) k))"
  "sv_conns (joined l rem (lp, s)) = sv_conns s" "sy_conns (joined l rem (lp, s)) = sy_conns s"
  "m_connections (joined l rem (lp, s)) = m_connections s" "m_pool (joined l rem (lp, s)) = m_pool s"
  "m_main_loop (joined l rem (lp, s)) = m_main_loop s" "sy_news (joined l rem (lp, s)) = sy_news s"
  by (simp_all add: joined_def spread_def put_loop_def fun_eq_iff)

lemma with_rest_simps [simp]:
  "m_pending_functors (with_rest fs lp) = fs @ m_pending_functors lp" "m_tid (with_rest fs lp) = m_tid lp"
  "m_timer_heap (with_rest fs lp) = m_timer_heap lp" "handlers_at (with_rest fs lp) = handlers_at lp"
  by (simp_all add: with_rest_def handlers_at_def fun_eq_iff)

lemma loop_grows_rest: "loop_grows s l lp lp' \<Longrightarrow> loop_grows s l (with_rest fs lp) (with_rest fs lp')"
  by (auto simp: loop_grows_def)

lemma handlers_at_flags [simp]:
  "handlers_at (lp\<lparr>m_pending_functors := fs\<rparr>) = handlers_at lp" "handlers_at (lp\<lparr>m_calling_pending_functors := b\<rparr>) = handlers_at lp"
  "handlers_at (lp\<lparr>m_timer_heap := th\<rparr>) = handlers_at lp" "handlers_at (lp\<lparr>m_wakeups := n\<rparr>) = handlers_at lp"
  "handlers_at (lp\<lparr>m_current_active_channel := c\<rparr>) = handlers_at lp" "handlers_at (lp\<lparr>m_loop_event_handling := b\<rparr>) = handlers_at lp"
  "handlers_at (queueInLoop t f lp) = handlers_at lp" "m_timer_heap (queueInLoop t f lp) = m_timer_heap lp"
  by (simp_all add: handlers_at_def fun_eq_iff queueInLoop_def push_functor_def wakeup_def Let_def)

lemma server_ok_loops:
  assumes "server_ok tid s" "w = s\<lparr>sv_loops := sv_loops w\<rparr>"
    and "\<And>k lp. sv_loops s k = Some lp \<Longrightarrow> \<exists>lp'. sv_loops w k = Some lp' \<and> m_tid lp' = m_tid lp"
  shows "server_ok tid w"
proof -
  have e: "m_main_loop w = m_main_loop s" "m_pool w = m_pool s" "sv_conns w = sv_conns s" "m_connections w = m_connections s"
    "m_next_conn_id w = m_next_conn_id s" "m_name w = m_name s" by (subst assms(2), simp)+
  have "loops_ok tid w" using assms(1,3) unfolding server_ok_def loops_ok_def e by metis
  moreover have "conns_ok w" using assms(1) unfolding server_ok_def conns_ok_def e by blast
  ultimately show ?thesis by (simp add: server_ok_def)
qed

lemma spread_ok: "server_ok tid (spread rem s) = server_ok tid s"
proof
  show "server_ok tid s" if "server_ok tid (spread rem s)"
    by (rule server_ok_loops [OF that]) (auto simp: spread_def)
  show "server_ok tid (spread rem s)" if "server_ok tid s"
    by (rule server_ok_loops [OF that]) (simp_all add: spread_def)
qed

lemma joined_ok:
  assumes "sv_loops s l = Some lp0" "m_tid lp = m_tid lp0"
  shows "server_ok tid (joined l rem (lp, s)) = server_ok tid s"
  unfolding joined_def by (simp add: spread_ok put_loop_ok(3) [OF assms(1)] assms(2))

lemma mid_ok: "mid tid t l rem (lp, s) \<Longrightarrow> server_ok tid s"
  using joined_ok [of s l _ lp tid rem] by (auto simp: mid_def sound_def ledger_def well_typed_def)

text \<open>A change of the running loop alone.\<close>

definition counted :: "functor_name list \<Rightarrow> functor_name list" where
  "counted fs = filter (\<lambda>f. f \<noteq> Fn_handleTimeoutEvents) fs"

lemma count_counted: "f \<noteq> Fn_handleTimeoutEvents \<Longrightarrow> count_list (counted fs) f = count_list fs f"
  by (induction fs) (auto simp: counted_def)

lemma pending_joined:
  "pending (joined l rem (lp, s)) k =
    (if k = l then rem l @ m_pending_functors lp else if sv_loops s k = None then [] else rem k @ pending s k)"
  by (auto simp: pending_def)

lemma mid_loop:
  assumes "mid tid t l rem (lp, s)" "m_tid lp' = m_tid lp" "handlers_at lp' = handlers_at lp"
    and "counted (fs @ m_pending_functors lp') = counted (rem l @ m_pending_functors lp)"
    and "\<And>f. f \<in> timer_cbs (m_timer_heap lp') \<Longrightarrow> f \<in> timer_cbs (m_timer_heap lp) \<or> timer_ok s l f"
  shows "mid_to tid t l rem (rem(l := fs)) (lp, s) (lp', s)"
proof -
  let ?J = "joined l rem (lp, s)" and ?J' = "joined l (rem(l := fs)) (lp', s)"
  from assms(1) obtain lp0 where m: "sound tid ?J" "m_tid lp = t" "sv_loops s l = Some lp0" "m_tid lp0 = t" by (auto simp: mid_def)
  have ok: "server_ok tid ?J'" using mid_ok [OF assms(1)] joined_ok [OF m(3), of lp'] assms(2) m by simp
  have same: "same_conns ?J ?J'" by (simp add: same_conns_def)
  have sj: "same_conns s ?J" by (simp add: same_conns_def)
  note cnt = count_counted [of _ "fs @ m_pending_functors lp'", unfolded assms(4), symmetric]
  have c: "count_list (pending ?J' k) f = count_list (pending ?J k) f" if "f \<noteq> Fn_handleTimeoutEvents" for k f
    using that cnt [OF that] count_counted [OF that, of "rem l @ m_pending_functors lp"] by (simp add: pending_joined del: count_list_append)
  have g: "loop_grows ?J l (with_rest (rem l) lp) (with_rest fs lp')"
    unfolding loop_grows_def
  proof (intro conjI ballI)
    fix f assume "f \<in> set (m_pending_functors (with_rest fs lp'))"
    then have "f = Fn_handleTimeoutEvents \<or> f \<in> set (counted (fs @ m_pending_functors lp'))" by (auto simp: counted_def)
    then show "f \<in> set (m_pending_functors (with_rest (rem l) lp)) \<or> functor_ok ?J l f"
      unfolding assms(4) by (auto simp: counted_def)
  qed (use assms(3,5) in \<open>auto simp: same_conns_ok [OF sj]\<close>)
  have "sound tid ?J' \<and> forward ?J ?J'"
  proof (rule sound_change [OF m(1) ok same])
    show "\<exists>lpa. sv_loops ?J k = Some lpa \<and> loop_grows ?J k lpa lpb" if "sv_loops ?J' k = Some lpb" for k lpb
      using that g by (cases "k = l") auto
    show "\<exists>ph'. tokens_of ?J' a c p' = phase_tokens ph' \<and> ph \<le> ph'"
      if "sv_conns ?J a = Some c" "sy_conns ?J a = Some p" "sy_conns ?J' a = Some p'" "tokens_of ?J a c p = phase_tokens ph" for a c p p' ph
    proof -
      from that(2,3) have "p' = p" by simp
      then have "tokens_of ?J' a c p' = tokens_of ?J a c p" by (simp add: tokens_of_def c)
      with that(4) show ?thesis by (metis order_refl)
    qed
  qed auto
  with m assms(2) show ?thesis by (auto simp: mid_def mid_to_def)
qed

subsection \<open>Connections\<close>

lemma sound_conn:
  assumes "sound tid s" "server_ok tid t" "knows s a l x"
    and "m_main_loop t = m_main_loop s" "m_loops (m_pool t) = m_loops (m_pool s)" "sv_conns t = sv_conns s" "m_connections t = m_connections s"
    and "sy_news t = sy_news s" "sy_conns t = (sy_conns s)(a \<mapsto> p')" "m_channel (cp_conn p') = x"
    and "\<And>k lp'. sv_loops t k = Some lp' \<Longrightarrow> \<exists>lp. sv_loops s k = Some lp \<and> loop_grows s k lp lp'"
    and "\<And>k. sv_loops s k \<noteq> None \<Longrightarrow> sv_loops t k \<noteq> None"
    and "\<And>k b f. b \<noteq> a \<Longrightarrow> f \<in> {Fn_connectEstablished b, Fn_removeConnectionInLoop b, Fn_connectDestroyed b} \<Longrightarrow>
      count_list (pending t k) f = count_list (pending s k) f"
    and "\<And>c p ph. sv_conns s a = Some c \<Longrightarrow> sy_conns s a = Some p \<Longrightarrow> tokens_of s a c p = phase_tokens ph \<Longrightarrow>
      \<exists>ph'. tokens_of t a c p' = phase_tokens ph' \<and> ph \<le> ph'"
  shows "sound tid t \<and> forward s t"
proof (rule sound_change [OF assms(1,2) _ assms(8,11,12)])
  show "same_conns s t" using assms(3-6,9,10) by (auto simp: same_conns_def knows_def)
  fix b c p q ph
  assume h: "sv_conns s b = Some c" "sy_conns s b = Some p" "sy_conns t b = Some q" "tokens_of s b c p = phase_tokens ph"
  show "\<exists>ph'. tokens_of t b c q = phase_tokens ph' \<and> ph \<le> ph'"
  proof (cases "b = a")
    case True
    with h assms(9) assms(14) [of c p ph] show ?thesis by simp
  next
    case False
    with h(2,3) assms(9) have "q = p" by simp
    then have "tokens_of t b c q = tokens_of s b c p" using assms(4,7) assms(13) [OF False] by (simp add: tokens_of_def)
    with h(4) show ?thesis by (metis order_refl)
  qed
qed auto

text \<open>What the connection \<open>a\<close> of the running loop did, with \<open>w\<close> the other loops after it.\<close>

lemma mid_conn:
  assumes "mid tid t l rem (lp, s)" "knows s a l x" "sy_conns s a = Some p"
    and "conn_still (env_for e t a) (join_conn lp p s) u" "w = s\<lparr>sv_loops := sv_loops w\<rparr>" "dom (sv_loops w) = dom (sv_loops s)"
    and "\<And>k lp'. sv_loops w k = Some lp' \<Longrightarrow> \<exists>lp. sv_loops s k = Some lp \<and> m_tid lp' = m_tid lp \<and> loop_grows s k lp lp'"
    and "\<And>k b f. b \<noteq> a \<Longrightarrow> f \<in> {Fn_connectEstablished b, Fn_removeConnectionInLoop b, Fn_connectDestroyed b} \<Longrightarrow>
      count_list (pending w k) f = count_list (pending s k) f \<and> count_list fs f = count_list (rem l) f"
    and "set fs \<subseteq> set (rem l)"
    and "\<And>c ph. sv_conns s a = Some c \<Longrightarrow> tokens_of (joined l rem (lp, s)) a c p = phase_tokens ph \<Longrightarrow>
      \<exists>ph'. tokens_of (joined l (rem(l := fs)) (cs_loop u, w)) a c (conn_part_of u) = phase_tokens ph' \<and> ph \<le> ph'"
  shows "mid_to tid t l rem (rem(l := fs)) (lp, s) (cs_loop u, w\<lparr>sy_conns := (sy_conns w)(a \<mapsto> conn_part_of u)\<rparr>)"
proof -
  let ?J = "joined l rem (lp, s)" and ?K = "joined l (rem(l := fs)) (cs_loop u, w)"
  let ?w = "w\<lparr>sy_conns := (sy_conns w)(a \<mapsto> conn_part_of u)\<rparr>"
  let ?J' = "joined l (rem(l := fs)) (cs_loop u, ?w)"
  from assms(1) obtain lp0 where m: "sound tid ?J" "m_tid lp = t" "sv_loops s l = Some lp0" "m_tid lp0 = t" by (auto simp: mid_def)
  have e: "m_main_loop w = m_main_loop s" "m_pool w = m_pool s" "sv_conns w = sv_conns s" "m_connections w = m_connections s"
    "sy_news w = sy_news s" "sy_conns w = sy_conns s" by (subst assms(5), simp)+
  have u: "m_tid (cs_loop u) = t" "handlers_at (cs_loop u) = handlers_at lp" "m_pending_functors (cs_loop u) = m_pending_functors lp"
    "m_channel (cs_conn u) = x" "timer_cbs (m_timer_heap (cs_loop u)) \<subseteq> insert (Fn_closeLongConnection a) (timer_cbs (m_timer_heap lp))"
    using assms(2-4) m(2) by (auto simp: conn_still_def env_for_def knows_def)
  have ex: "\<exists>lp'. sv_loops w k = Some lp' \<and> m_tid lp' = m_tid lpa" if "sv_loops s k = Some lpa" for k lpa
  proof -
    from that assms(6) obtain lp' where "sv_loops w k = Some lp'" by (metis domI domD)
    with assms(7) [OF this] that show ?thesis by auto
  qed
  have okw: "server_ok tid w" by (rule server_ok_loops [OF mid_ok [OF assms(1)] assms(5) ex])
  obtain lw where lw: "sv_loops w l = Some lw" "m_tid lw = t" using ex [OF m(3)] m(4) by blast
  then have ok: "server_ok tid ?J'" using okw joined_ok [of ?w l lw "cs_loop u" tid "rem(l := fs)"] u(1) by simp
  have sj: "same_conns s ?J" by (simp add: same_conns_def)
  have kJ: "knows ?J a l x" using assms(2) by (simp add: same_conns_knows [OF sj])
  have growsJ: "loop_grows ?J = loop_grows s" by (simp add: fun_eq_iff loop_grows_def same_conns_ok [OF sj])
  have tok: "timer_ok s l (Fn_closeLongConnection a)" using assms(2) by auto
  have "sound tid ?J' \<and> forward ?J ?J'"
  proof (rule sound_conn [OF m(1) ok kJ, where p' = "conn_part_of u"])
    show "\<exists>lpa. sv_loops ?J k = Some lpa \<and> loop_grows ?J k lpa lpb" if "sv_loops ?J' k = Some lpb" for k lpb
    proof (cases "k = l")
      case True
      with that u tok assms(9) show ?thesis unfolding growsJ by (auto simp: loop_grows_def)
    next
      case False
      with that obtain lpw where lpw: "sv_loops w k = Some lpw" "lpb = with_rest (rem k) lpw" by auto
      from assms(7) [OF lpw(1)] obtain lps where "sv_loops s k = Some lps" "loop_grows s k lps lpw" by blast
      then show ?thesis using loop_grows_rest False lpw(2) unfolding growsJ by auto
    qed
    show "sv_loops ?J' k \<noteq> None" if "sv_loops ?J k \<noteq> None" for k
      using that assms(6) by (auto simp: dom_def split: if_splits)
    show "count_list (pending ?J' k) f = count_list (pending ?J k) f"
      if "b \<noteq> a" "f \<in> {Fn_connectEstablished b, Fn_removeConnectionInLoop b, Fn_connectDestroyed b}" for k b f
    proof -
      have p: "pending ?w k = pending w k" "sv_loops ?w k = sv_loops w k" by (simp_all add: pending_def)
      have "sv_loops w k = None \<longleftrightarrow> sv_loops s k = None" using assms(6) by (metis domIff)
      then show ?thesis using assms(8) [OF that, of k] u(3) unfolding pending_joined p by simp
    qed
    show "\<exists>ph'. tokens_of ?J' a c (conn_part_of u) = phase_tokens ph' \<and> ph \<le> ph'"
      if "sv_conns ?J a = Some c" "sy_conns ?J a = Some q" "tokens_of ?J a c q = phase_tokens ph" for c q ph
    proof -
      have "tokens_of ?J' a c (conn_part_of u) = tokens_of ?K a c (conn_part_of u)" by (simp add: tokens_of_def pending_joined) (simp add: pending_def)
      with that assms(3) assms(10) [of c ph] show ?thesis by simp
    qed
  qed (use e u in simp_all)
  moreover have "knows ?w = knows s" by (rule same_conns_knows) (use assms(2) e u(4) in \<open>auto simp: same_conns_def knows_def\<close>)
  ultimately show ?thesis using u(1) lw by (auto simp: mid_def mid_to_def)
qed

lemma mid_knows:
  assumes "mid tid t l rem (lp, s)"
  shows "knows (joined l rem (lp, s)) = knows s" "functor_ok (joined l rem (lp, s)) = functor_ok s"
    "timer_ok (joined l rem (lp, s)) = timer_ok s" "handler_ok (joined l rem (lp, s)) = handler_ok s"
    "loop_typed s l (with_rest (rem l) lp)"
proof -
  have sj: "same_conns s (joined l rem (lp, s))" by (simp add: same_conns_def)
  show k: "knows (joined l rem (lp, s)) = knows s" "functor_ok (joined l rem (lp, s)) = functor_ok s"
    "timer_ok (joined l rem (lp, s)) = timer_ok s" "handler_ok (joined l rem (lp, s)) = handler_ok s"
    by (rule same_conns_knows [OF sj], rule same_conns_ok [OF sj], rule same_conns_ok [OF sj], rule same_conns_ok [OF sj])
  have "sv_loops (joined l rem (lp, s)) l = Some (with_rest (rem l) lp)" by simp
  with assms have "loop_typed (joined l rem (lp, s)) l (with_rest (rem l) lp)"
    unfolding mid_def sound_def ledger_def well_typed_def by blast
  then show "loop_typed s l (with_rest (rem l) lp)" by (simp add: loop_typed_def k)
qed

lemma mid_phase:
  assumes "mid tid t l rem (lp, s)" "sv_conns s a = Some c" "sy_conns s a = Some p"
  shows "\<exists>ph. tokens_of (joined l rem (lp, s)) a c p = phase_tokens ph"
proof -
  have "\<exists>ph. in_phase (joined l rem (lp, s)) a ph"
    using assms by (auto simp: mid_def sound_def ledger_def)
  with assms(2,3) show ?thesis by (auto simp: in_phase_def)
qed


lemma mid_pool:
  assumes "mid tid t l rem (lp, s)" "knows s a l x"
  shows "l \<noteq> m_main_loop s" "t \<noteq> tid" "\<exists>lm. sv_loops s (m_main_loop s) = Some lm \<and> m_tid lm = tid"
proof -
  have L: "loops_ok tid s" "conns_ok s" using mid_ok [OF assms(1)] by (simp_all add: server_ok_def)
  from assms(2) L(2) have "l \<in> set (m_loops (m_pool s))" by (auto simp: knows_def conns_ok_def)
  with L(1) assms(1) show "l \<noteq> m_main_loop s" "t \<noteq> tid" "\<exists>lm. sv_loops s (m_main_loop s) = Some lm \<and> m_tid lm = tid"
    by (auto simp: loops_ok_def mid_def)
qed

lemma tokens_joined:
  assumes "sv_conns s a = Some c" "knows s a l x" "l \<noteq> m_main_loop s" "sv_loops s (m_main_loop s) \<noteq> None"
  shows "tokens_of (joined l rem (lp, s)) a c p =
    (count_list (rem l @ m_pending_functors lp) (Fn_connectEstablished a),
     count_list (rem (m_main_loop s) @ pending s (m_main_loop s)) (Fn_removeConnectionInLoop a),
     count_list (rem l @ m_pending_functors lp) (Fn_connectDestroyed a), m_state (cp_conn p), m_connections s (cr_name c) = Some a)"
  using assms by (auto simp: tokens_of_def pending_joined knows_def)

lemma phase_state:
  assumes "(i, j, k, st, b) = phase_tokens ph"
  shows "st = kConnected \<Longrightarrow> i = 0 \<and> j = 0 \<and> k = 0 \<and> b" "st \<noteq> kDisconnecting"
    "k > 0 \<Longrightarrow> (i, j, k, st, b) = (0, 0, 1, kDisconnected, False)" "j > 0 \<Longrightarrow> (i, j, k, st, b) = (0, 1, 0, kDisconnected, True)"
    "i > 0 \<Longrightarrow> (i, j, k, st, b) = (1, 0, 0, kConnecting, True)" "\<not> b \<Longrightarrow> k = 0 \<Longrightarrow> st = kDisconnected"
  using assms by (cases ph; simp)+

text \<open>An event of a connection, whatever it is.\<close>

lemma mid_event:
  assumes "mid tid t l rem (lp, s)" "knows s a l x" "sy_conns s a = Some p" "conn_exec (env_for e t a) ev (join_conn lp p s) = Inr u"
  shows "mid_to tid t l rem rem (lp, s) (cs_loop u, (cs_world u)\<lparr>sy_conns := (sy_conns (cs_world u))(a \<mapsto> conn_part_of u)\<rparr>)"
proof -
  have t: "m_tid lp = t" using assms(1) by (simp add: mid_def)
  have eff: "conn_effect (env_for e t a) (join_conn lp p s) u"
    by (rule conn_exec_effect [OF assms(4)]) (simp add: env_for_def t)
  then have st: "conn_still (env_for e t a) (join_conn lp p s) u" by (simp add: conn_effect_def)
  have pend: "m_pending_functors (cs_loop u) = m_pending_functors lp" using st by (simp add: conn_still_def)
  note P = mid_pool [OF assms(1,2)]
  have main: "sv_loops s (m_main_loop s) \<noteq> None" using P(3) by auto
  from eff consider
      (same) "m_state (cs_conn u) = m_state (cp_conn p)" "cs_world u = s"
    | (closed) "m_state (cp_conn p) \<in> {kConnected, kDisconnecting}" "m_state (cs_conn u) = kDisconnected"
        "removeConnection (run_removal t) t a s = Inr (cs_world u)"
    by (auto simp: conn_effect_def env_for_def)
  then have "mid_to tid t l rem (rem(l := rem l)) (lp, s) (cs_loop u, (cs_world u)\<lparr>sy_conns := (sy_conns (cs_world u))(a \<mapsto> conn_part_of u)\<rparr>)"
  proof cases
    case same
    show ?thesis unfolding same(2)
    proof (rule mid_conn [OF assms(1-3) st])
      fix c ph assume h: "sv_conns s a = Some c" "tokens_of (joined l rem (lp, s)) a c p = phase_tokens ph"
      then show "\<exists>ph'. tokens_of (joined l (rem(l := rem l)) (cs_loop u, s)) a c (conn_part_of u) = phase_tokens ph' \<and> ph \<le> ph'"
        using same(1) pend by (intro exI [of _ ph]) (simp add: tokens_joined [OF h(1) assms(2) P(1) main])
    qed auto
  next
    case closed
    from P(3) obtain lm where lm: "sv_loops s (m_main_loop s) = Some lm" "m_tid lm = tid" by blast
    let ?w = "put_loop (m_main_loop s) (queueInLoop t (Fn_removeConnectionInLoop a) lm) s"
    have w: "cs_world u = ?w" using closed(3) lm P(2) by (simp add: removeConnection_def run_in_def isInLoopThread_def queue_in_eq [OF lm(1)])
    have pw: "pending ?w k = (if k = m_main_loop s then pending s k @ [Fn_removeConnectionInLoop a] else pending s k)" for k
      using lm by (simp add: pending_def)
    have fok: "functor_ok s (m_main_loop s) (Fn_removeConnectionInLoop a)" using assms(2) by auto
    show ?thesis unfolding w
    proof (rule mid_conn [OF assms(1-3) st])
      show "?w = s\<lparr>sv_loops := sv_loops ?w\<rparr>" by (simp add: put_loop_def)
      show "dom (sv_loops ?w) = dom (sv_loops s)" using lm by auto
      show "\<exists>lp. sv_loops s k = Some lp \<and> m_tid lp' = m_tid lp \<and> loop_grows s k lp lp'" if "sv_loops ?w k = Some lp'" for k lp'
        using that lm fok by (cases "k = m_main_loop s") (auto simp: loop_grows_def simp del: functor_ok.simps)
      show "count_list (pending ?w k) f = count_list (pending s k) f \<and> count_list (rem l) f = count_list (rem l) f"
        if "b \<noteq> a" "f \<in> {Fn_connectEstablished b, Fn_removeConnectionInLoop b, Fn_connectDestroyed b}" for k b f
        using that by (auto simp: pw)
      show "\<exists>ph'. tokens_of (joined l (rem(l := rem l)) (cs_loop u, ?w)) a c (conn_part_of u) = phase_tokens ph' \<and> ph \<le> ph'"
        if h: "sv_conns s a = Some c" "tokens_of (joined l rem (lp, s)) a c p = phase_tokens ph" for c ph
      proof -
        have k: "knows ?w a l x" using assms(2) by (simp add: knows_def)
        note T = h(2) [unfolded tokens_joined [OF h(1) assms(2) P(1) main]]
        have "m_state (cp_conn p) = kConnected" using closed(1) phase_state(2) [OF T] by auto
        with phase_state(1) [OF T] have c0: "count_list (rem l @ m_pending_functors lp) (Fn_connectEstablished a) = 0"
          "count_list (rem (m_main_loop s) @ pending s (m_main_loop s)) (Fn_removeConnectionInLoop a) = 0"
          "count_list (rem l @ m_pending_functors lp) (Fn_connectDestroyed a) = 0" "m_connections s (cr_name c) = Some a" by blast+
        have "sv_conns ?w a = Some c" "l \<noteq> m_main_loop ?w" "sv_loops ?w (m_main_loop ?w) \<noteq> None" using h(1) P(1) main by simp_all
        from tokens_joined [OF this(1) k this(2,3), of "rem(l := rem l)" "cs_loop u" "conn_part_of u"]
        have "tokens_of (joined l (rem(l := rem l)) (cs_loop u, ?w)) a c (conn_part_of u) = phase_tokens Closing"
          using c0 closed(2) pend by (simp add: pw)
        moreover have "ph \<le> Closing" using T \<open>m_state (cp_conn p) = kConnected\<close> by (cases ph) (simp_all add: less_eq_phase_def)
        ultimately show ?thesis by blast
      qed
    qed auto
  qed
  then show ?thesis by simp
qed

text \<open>The two ends of a connection's life on its loop.\<close>

lemma mid_rest_typed: "mid tid t l rem (lp, s) \<Longrightarrow> f \<in> set (rem l) \<Longrightarrow> functor_ok s l f"
  using mid_knows(5) by (simp add: loop_typed_def)

lemma mid_established:
  assumes "mid tid t l rem (lp, s)" "rem l = Fn_connectEstablished a # fs" "sy_conns s a = Some p"
    and "connectEstablished (env_for e t a) (join_conn lp p s) = Inr u"
  shows "mid_to tid t l rem (rem(l := fs)) (lp, s) (cs_loop u, (cs_world u)\<lparr>sy_conns := (sy_conns (cs_world u))(a \<mapsto> conn_part_of u)\<rparr>)"
proof -
  from mid_rest_typed [OF assms(1)] assms(2) obtain x where k: "knows s a l x" by fastforce
  note P = mid_pool [OF assms(1) k]
  have main: "sv_loops s (m_main_loop s) \<noteq> None" using P(3) by auto
  note E = connectEstablished_effect [OF assms(4)]
  have pend: "m_pending_functors (cs_loop u) = m_pending_functors lp" "cs_world u = s" using E by (simp_all add: conn_still_def)
  show ?thesis unfolding pend(2)
  proof (rule mid_conn [OF assms(1) k assms(3) E(1)])
    fix c ph assume h: "sv_conns s a = Some c" "tokens_of (joined l rem (lp, s)) a c p = phase_tokens ph"
    note T = h(2) [unfolded tokens_joined [OF h(1) k P(1) main]]
    have "count_list (rem l @ m_pending_functors lp) (Fn_connectEstablished a) > 0" using assms(2) by simp
    with phase_state(5) [OF T] have "tokens_of (joined l (rem(l := fs)) (cs_loop u, s)) a c (conn_part_of u) = phase_tokens Live"
      unfolding tokens_joined [OF h(1) k P(1) main] using pend E(2) assms(2) P(1) by simp
    moreover have "ph \<le> Live" using T assms(2) by (cases ph) (simp_all add: less_eq_phase_def)
    ultimately show "\<exists>ph'. tokens_of (joined l (rem(l := fs)) (cs_loop u, s)) a c (conn_part_of u) = phase_tokens ph' \<and> ph \<le> ph'" by blast
  qed (use assms(2) in auto)
qed

lemma mid_destroyed:
  assumes "mid tid t l rem (lp, s)" "rem l = Fn_connectDestroyed a # fs" "sy_conns s a = Some p"
    and "connectDestroyed (env_for e t a) (join_conn lp p s) = Inr u"
  shows "mid_to tid t l rem (rem(l := fs)) (lp, s) (cs_loop u, (cs_world u)\<lparr>sy_conns := (sy_conns (cs_world u))(a \<mapsto> conn_part_of u)\<rparr>)"
proof -
  from mid_rest_typed [OF assms(1)] assms(2) obtain x where k: "knows s a l x" by fastforce
  note P = mid_pool [OF assms(1) k]
  have main: "sv_loops s (m_main_loop s) \<noteq> None" using P(3) by auto
  from k obtain c where c: "sv_conns s a = Some c" by (auto simp: knows_def)
  from mid_phase [OF assms(1) c assms(3)] obtain ph where T0: "tokens_of (joined l rem (lp, s)) a c p = phase_tokens ph" by blast
  note T = T0 [unfolded tokens_joined [OF c k P(1) main]]
  have "count_list (rem l @ m_pending_functors lp) (Fn_connectDestroyed a) > 0" using assms(2) by simp
  note ph = phase_state(3) [OF T this]
  then have "m_state (cs_conn (join_conn lp p s)) = kDisconnected" by simp
  note E = connectDestroyed_effect [OF assms(4) this]
  have pend: "m_pending_functors (cs_loop u) = m_pending_functors lp" "cs_world u = s" using E by (simp_all add: conn_still_def)
  show ?thesis unfolding pend(2)
  proof (rule mid_conn [OF assms(1) k assms(3) E(1)])
    fix d ph' assume d: "sv_conns s a = Some d"
    with c ph have "tokens_of (joined l (rem(l := fs)) (cs_loop u, s)) a d (conn_part_of u) = phase_tokens Destroyed"
      unfolding tokens_joined [OF d k P(1) main] using pend E(2) assms(2) P(1) by simp
    moreover have "ph' \<le> Destroyed" by (cases ph') (simp_all add: less_eq_phase_def)
    ultimately show "\<exists>ph''. tokens_of (joined l (rem(l := fs)) (cs_loop u, s)) a d (conn_part_of u) = phase_tokens ph'' \<and> ph' \<le> ph''" by blast
  qed (use assms(2) in auto)
qed

end
