(* ===== verification/ServerRuns.thy ===== *)
theory ServerRuns
  imports ServerSteps
begin

text \<open>
  The server runs: every handler and functor, every turn of a loop, and every sequence of turns keeps the
  invariant of ServerSteps. The properties of reachable states are at the end.
\<close>

subsection \<open>Functors\<close>

lemma mid_to_trans: "mid_to tid t l rem0 rem1 r r' \<Longrightarrow> mid_to tid t l rem1 rem2 r' r'' \<Longrightarrow> mid_to tid t l rem0 rem2 r r''"
  by (auto simp: mid_to_def intro: forward_trans)

lemma mid_to_mid: "mid_to tid t l rem0 rem r r' \<Longrightarrow> mid tid t l rem r'"
  by (simp add: mid_to_def)

lemma mid_to_refl: "mid tid t l rem r \<Longrightarrow> mid_to tid t l rem rem r r"
  by (simp add: mid_to_def)

text \<open>\<open>removeConnectionInLoop\<close>, called as a functor of the main loop, takes the connection out of the map and queues its
  \<open>connectDestroyed\<close>.\<close>

lemma removal_result:
  assumes "mid tid t l rem (lp, s)" "l = m_main_loop s" "knows s a k x"
  shows "\<exists>c lc. sv_conns s a = Some c \<and> cr_loop c = k \<and> k \<noteq> l \<and> sv_loops s k = Some lc \<and>
    on_server (removeConnectionInLoop t a) l (lp, s) =
      Inr (lp, put_loop k (queueInLoop t (Fn_connectDestroyed a) lc)
        ((put_loop l lp s)\<lparr>m_connections := (m_connections s)(cr_name c := None)\<rparr>))"
proof -
  have t: "m_tid lp = t" using assms(1) by (simp add: mid_def)
  have L: "conns_ok s" "loops_ok tid s" using mid_ok [OF assms(1)] by (simp_all add: server_ok_def)
  from assms(3) obtain c where c: "sv_conns s a = Some c" "cr_loop c = k" by (auto simp: knows_def)
  with L(1) have "k \<in> set (m_loops (m_pool s))" by (auto simp: conns_ok_def)
  with L(2) pool_not_main [OF L(2)] assms(2) obtain lc where lc: "sv_loops s k = Some lc" "k \<noteq> l" by (auto simp: loops_ok_def)
  then show ?thesis using c t assms(2)
    by (simp add: on_server_def removeConnectionInLoop_def assert_in_def assertInLoopThread_def isInLoopThread_def queue_in_def the_loop_def)
qed

lemma mid_removed:
  assumes "mid tid t l rem (lp, s)" "rem l = Fn_removeConnectionInLoop a # fs" "on_server (removeConnectionInLoop t a) l (lp, s) = Inr r"
  shows "mid_to tid t l rem (rem(l := fs)) (lp, s) r"
proof -
  let ?J = "joined l rem (lp, s)"
  from mid_rest_typed [OF assms(1)] assms(2) obtain k x where k: "l = m_main_loop s" "knows s a k x" by fastforce
  from assms(1) obtain lp0 where m: "sound tid ?J" "m_tid lp = t" "sv_loops s l = Some lp0" "m_tid lp0 = t" by (auto simp: mid_def)
  have oks: "server_ok tid s" by (rule mid_ok [OF assms(1)])
  then have L: "loops_ok tid s" "conns_ok s" by (simp_all add: server_ok_def)
  obtain c lc where c: "sv_conns s a = Some c" "cr_loop c = k" and lc: "sv_loops s k = Some lc" "k \<noteq> l"
    and res: "on_server (removeConnectionInLoop t a) l (lp, s) = Inr (lp, put_loop k (queueInLoop t (Fn_connectDestroyed a) lc)
        ((put_loop l lp s)\<lparr>m_connections := (m_connections s)(cr_name c := None)\<rparr>))"
    using removal_result [OF assms(1) k] by blast
  define w where "w = (put_loop l lp s)\<lparr>m_connections := (m_connections s)(cr_name c := None)\<rparr>"
  define v where "v = put_loop k (queueInLoop t (Fn_connectDestroyed a) lc) w"
  have sel: "sv_loops w = (sv_loops s)(l \<mapsto> lp)" "sv_conns w = sv_conns s" "m_connections w = (m_connections s)(cr_name c := None)"
    "m_pool w = m_pool s" "m_main_loop w = m_main_loop s" "sy_conns w = sy_conns s" "sy_news w = sy_news s" "m_next_conn_id w = m_next_conn_id s"
    "m_name w = m_name s"
    by (simp_all add: w_def put_loop_def)
  have wl: "sv_loops w k = Some lc" using lc sel(1) by simp
  have vl: "sv_loops v l = Some lp" using lc(2) sel(1) by (simp add: v_def)
  have r: "r = (lp, v)" using assms(3) by (simp add: res v_def w_def)
  have C: "conns_ok w" using L(2) unfolding conns_ok_def sel by (auto split: if_splits)
  have okw: "server_ok tid w" using L(1) C m(2,3,4) by (auto simp: server_ok_def loops_ok_def sel)
  have okv: "server_ok tid v" unfolding v_def using put_loop_ok(3) [OF wl] okw by simp
  then have ok: "server_ok tid (joined l (rem(l := fs)) (lp, v))" using joined_ok [OF vl] by simp
  let ?J' = "joined l (rem(l := fs)) (lp, v)"
  have svl: "sv_loops v = (sv_loops s)(l \<mapsto> lp, k \<mapsto> queueInLoop t (Fn_connectDestroyed a) lc)" by (simp add: v_def sel)
  have sel': "sv_conns v = sv_conns s" "m_connections v = (m_connections s)(cr_name c := None)" "m_pool v = m_pool s"
    "m_main_loop v = m_main_loop s" "sy_conns v = sy_conns s" "sy_news v = sy_news s" by (simp_all add: v_def sel)
  have same: "same_conns ?J ?J'" by (simp add: same_conns_def sel')
  have sj: "same_conns s ?J" by (simp add: same_conns_def)
  have growsJ: "loop_grows ?J = loop_grows s" by (simp add: fun_eq_iff loop_grows_def same_conns_ok [OF sj])
  have fok: "functor_ok s k (Fn_connectDestroyed a)" using k(2) by auto
  have pd: "pending ?J' j = (if j = l then fs @ m_pending_functors lp else if j = k then rem k @ pending s k @ [Fn_connectDestroyed a] else pending ?J j)"
    "pending ?J j = (if j = l then rem l @ m_pending_functors lp else if sv_loops s j = None then [] else rem j @ pending s j)" for j
  proof -
    show J: "pending ?J j = (if j = l then rem l @ m_pending_functors lp else if sv_loops s j = None then [] else rem j @ pending s j)"
      by (rule pending_joined)
    have "pending v j = (if j = l then m_pending_functors lp else if j = k then pending s k @ [Fn_connectDestroyed a] else pending s j)"
      "sv_loops v j = None \<longleftrightarrow> j \<noteq> l \<and> sv_loops s j = None" using lc by (auto simp: pending_def svl)
    then show "pending ?J' j = (if j = l then fs @ m_pending_functors lp else if j = k then rem k @ pending s k @ [Fn_connectDestroyed a] else pending ?J j)"
      using lc J unfolding pending_joined by auto
  qed
  have "sound tid ?J' \<and> forward ?J ?J'"
  proof (rule sound_change [OF m(1) ok same])
    show "\<exists>lpa. sv_loops ?J j = Some lpa \<and> loop_grows ?J j lpa lpb" if "sv_loops ?J' j = Some lpb" for j lpb
    proof -
      consider "j = l" | "j = k" "j \<noteq> l" | "j \<noteq> l" "j \<noteq> k" by blast
      then show ?thesis
        using that lc fok assms(2) unfolding growsJ by cases (auto simp: svl loop_grows_def simp del: functor_ok.simps)
    qed
    fix b d q q' ph
    assume h: "sv_conns ?J b = Some d" "sy_conns ?J b = Some q" "sy_conns ?J' b = Some q'" "tokens_of ?J b d q = phase_tokens ph"
    then have q: "q' = q" "sv_conns s b = Some d" by (simp_all add: sel')
    show "\<exists>ph'. tokens_of ?J' b d q' = phase_tokens ph' \<and> ph \<le> ph'"
    proof (cases "b = a")
      case False
      with L(2) c(1) q(2) have "cr_name d \<noteq> cr_name c" unfolding conns_ok_def by blast
      with False q lc assms(2) have "tokens_of ?J' b d q' = tokens_of ?J b d q" by (simp add: tokens_of_def pd sel')
      with h(4) show ?thesis by (metis order_refl)
    next
      case True
      with q(2) c(1) have d: "d = c" by simp
      have "count_list (pending ?J (m_main_loop ?J)) (Fn_removeConnectionInLoop b) > 0" using True assms(2) by (simp add: pending_joined k(1) [symmetric])
      from phase_state(4) [OF h(4) [unfolded tokens_of_def] this] have
        T: "count_list (pending ?J (cr_loop d)) (Fn_connectEstablished b) = 0" "count_list (pending ?J (m_main_loop ?J)) (Fn_removeConnectionInLoop b) = 1"
          "count_list (pending ?J (cr_loop d)) (Fn_connectDestroyed b) = 0" "m_state (cp_conn q) = kDisconnected" by auto
      have "tokens_of ?J' b d q' = phase_tokens Erased"
        using T True d c(2) lc q(1) assms(2) by (simp add: tokens_of_def pd sel' k(1) [symmetric])
      moreover have "ph \<le> Erased" using h(4) T by (cases ph) (simp_all add: less_eq_phase_def tokens_of_def)
      ultimately show ?thesis by blast
    qed
  qed (auto simp: sel' svl)
  moreover have "knows v = knows s" by (rule same_conns_knows) (simp add: same_conns_def sel')
  ultimately show ?thesis using m(2) vl by (auto simp: mid_def mid_to_def r)
qed


lemma mid_on_conn:
  assumes "on_conn f a (lp, s) = Inr r"
    and "\<And>p u. sy_conns s a = Some p \<Longrightarrow> f (join_conn lp p s) = Inr u \<Longrightarrow>
      mid_to tid t l rem rem' (lp, s) (cs_loop u, (cs_world u)\<lparr>sy_conns := (sy_conns (cs_world u))(a \<mapsto> conn_part_of u)\<rparr>)"
  shows "mid_to tid t l rem rem' (lp, s) r"
  using assms by (auto simp: on_conn_def bind_res_eq_Inr split: option.splits)

text \<open>Timers: their call backs are \<open>closeLongConnection\<close>s of connections of this loop.\<close>

lemma mid_expired:
  assumes "mid tid t l rem (lp, s)" "f \<in> timer_cbs (m_timer_heap lp)" "sys_call e t l f (lp, s) = Inr r"
  shows "mid_to tid t l rem rem (lp, s) r"
proof -
  have "timer_ok s l f" using mid_knows(5) [OF assms(1)] assms(2) by (auto simp: loop_typed_def)
  then obtain a x where k: "f = Fn_closeLongConnection a" "knows s a l x" by (cases f) auto
  have "on_conn (conn_exec (env_for e t a) Ev_Timeout) a (lp, s) = Inr r" using assms(3) k(1) by (simp add: fun_eq_iff)
  then show ?thesis by (rule mid_on_conn) (rule mid_event [OF assms(1) k(2)])
qed

lemma mid_loop_keep:
  assumes "mid tid t l rem (lp, s)" "m_tid lp' = m_tid lp" "handlers_at lp' = handlers_at lp"
    and "counted (m_pending_functors lp') = counted (m_pending_functors lp)"
    and "\<And>f. f \<in> timer_cbs (m_timer_heap lp') \<Longrightarrow> f \<in> timer_cbs (m_timer_heap lp) \<or> timer_ok s l f"
  shows "mid_to tid t l rem rem (lp, s) (lp', s)"
proof -
  have "counted (rem l @ m_pending_functors lp') = counted (rem l @ m_pending_functors lp)" using assms(4) by (simp add: counted_def)
  from mid_loop [OF assms(1-3) this assms(5)] show ?thesis by simp
qed

lemma mid_pop:
  assumes "mid tid t l rem (lp, s)"
  shows "mid_to tid t l rem rem (lp, s) (lp\<lparr>m_timer_heap := (m_timer_heap lp)\<lparr>m_min_heap := pop (m_min_heap (m_timer_heap lp))\<rparr>\<rparr>, s)"
  by (rule mid_loop_keep [OF assms]) (use set_pop in \<open>auto simp: timer_cbs_def\<close>)

text \<open>A rule for \<open>handleTimeoutEvents\<close>: what its call backs keep holds when it returns.\<close>

lemma run_timeouts_loop_rule:
  fixes ex :: "'f \<Rightarrow> ('f, 'h) loop \<times> 'w \<Rightarrow> (('f, 'h) loop \<times> 'w) res"
  assumes "run_timeouts_loop ex now r = Some y" "P r"
    and step: "\<And>r t lp w. P r \<Longrightarrow> t \<in> set (m_min_heap (m_timer_heap (fst r))) \<Longrightarrow> ex (m_cb t) r = Inr (lp, w) \<Longrightarrow>
      P (lp\<lparr>m_timer_heap := (m_timer_heap lp)\<lparr>m_min_heap := pop (m_min_heap (m_timer_heap lp))\<rparr>\<rparr>, w)"
    and fail: "\<And>r t x. P r \<Longrightarrow> t \<in> set (m_min_heap (m_timer_heap (fst r))) \<Longrightarrow> ex (m_cb t) r = Inl x \<Longrightarrow> Q x"
  shows "case y of Inl x \<Rightarrow> Q x | Inr r' \<Rightarrow> P r'"
proof -
  have "ex = ex \<longrightarrow> P r \<longrightarrow> (case y of Inl x \<Rightarrow> Q x | Inr r' \<Rightarrow> P r')"
  proof (rule run_timeouts_loop.raw_induct [OF _ assms(1),
        where P = "\<lambda>ex' now r y. ex' = ex \<longrightarrow> P r \<longrightarrow> (case y of Inl x \<Rightarrow> Q x | Inr r' \<Rightarrow> P r')"], intro impI)
    fix g :: "('f \<Rightarrow> ('f, 'h) loop \<times> 'w \<Rightarrow> (('f, 'h) loop \<times> 'w) res) \<Rightarrow> int \<Rightarrow> ('f, 'h) loop \<times> 'w \<Rightarrow> (('f, 'h) loop \<times> 'w) res option"
      and ex' now r y
    assume IH: "\<And>ex' now r y. g ex' now r = Some y \<Longrightarrow> ex' = ex \<longrightarrow> P r \<longrightarrow> (case y of Inl x \<Rightarrow> Q x | Inr r' \<Rightarrow> P r')"
      and h: "P r" and ex: "ex' = ex"
      and eq: "(case m_min_heap (m_timer_heap (fst r)) of [] \<Rightarrow> Some (Inr r)
        | t # ts \<Rightarrow> if m_expire_time t > now then Some (Inr r)
          else (case ex' (m_cb t) r of Inl e \<Rightarrow> Some (Inl e)
             | Inr (lp, w) \<Rightarrow> g ex' now (lp\<lparr>m_timer_heap := (m_timer_heap lp)\<lparr>m_min_heap := pop (m_min_heap (m_timer_heap lp))\<rparr>\<rparr>, w))) = Some y"
    show "case y of Inl x \<Rightarrow> Q x | Inr r' \<Rightarrow> P r'"
    proof (cases "m_min_heap (m_timer_heap (fst r))")
      case Nil
      with eq h show ?thesis by auto
    next
      case (Cons t ts)
      then have t: "t \<in> set (m_min_heap (m_timer_heap (fst r)))" by simp
      show ?thesis
      proof (cases "m_expire_time t > now")
        case True
        with eq h Cons show ?thesis by auto
      next
        case False
        show ?thesis
        proof (cases "ex (m_cb t) r")
          case (Inl x)
          with eq Cons False ex fail [OF h t] show ?thesis by auto
        next
          case (Inr q)
          obtain lp w where q: "q = (lp, w)" by fastforce
          with eq Cons False ex Inr
          have "g ex now (lp\<lparr>m_timer_heap := (m_timer_heap lp)\<lparr>m_min_heap := pop (m_min_heap (m_timer_heap lp))\<rparr>\<rparr>, w) = Some y" by simp
          from IH [OF this] step [OF h t Inr [unfolded q]] show ?thesis by simp
        qed
      qed
    qed
  qed
  with assms(2) show ?thesis by simp
qed

lemma mid_timeout:
  assumes "mid tid t l rem r" "tm \<in> set (m_min_heap (m_timer_heap (fst r)))" "sys_call e t l (m_cb tm) r = Inr (lp, w)"
  shows "mid_to tid t l rem rem r (lp\<lparr>m_timer_heap := (m_timer_heap lp)\<lparr>m_min_heap := pop (m_min_heap (m_timer_heap lp))\<rparr>\<rparr>, w)"
proof -
  obtain lp0 s0 where r: "r = (lp0, s0)" by fastforce
  have "m_cb tm \<in> timer_cbs (m_timer_heap lp0)" using assms(2) r by (auto simp: timer_cbs_def)
  note 1 = mid_expired [OF assms(1) [unfolded r] this assms(3) [unfolded r]]
  from mid_to_trans [OF 1 mid_pop [OF mid_to_mid [OF 1]]] show ?thesis by (simp add: r)
qed

lemma mid_timeouts_loop:
  assumes "run_timeouts_loop (sys_call e t l) now r = Some y" "mid tid t l rem r" "y = Inr r'"
  shows "mid_to tid t l rem rem r r'"
proof -
  have "case y of Inl x \<Rightarrow> True | Inr q \<Rightarrow> mid_to tid t l rem rem r q"
  proof (rule run_timeouts_loop_rule [OF assms(1), where P = "mid_to tid t l rem rem r" and Q = "\<lambda>_. True"])
    show "mid_to tid t l rem rem r r" by (rule mid_to_refl [OF assms(2)])
    show "mid_to tid t l rem rem r (lp\<lparr>m_timer_heap := (m_timer_heap lp)\<lparr>m_min_heap := pop (m_min_heap (m_timer_heap lp))\<rparr>\<rparr>, w)"
      if "mid_to tid t l rem rem r q" "tm \<in> set (m_min_heap (m_timer_heap (fst q)))" "sys_call e t l (m_cb tm) q = Inr (lp, w)" for q tm lp w
      by (rule mid_to_trans [OF that(1) mid_timeout [OF mid_to_mid [OF that(1)] that(2,3)]])
  qed simp
  with assms(3) show ?thesis by simp
qed

text \<open>A functor that the loop took from its queue.\<close>

lemma mid_sys_functor:
  assumes "mid tid t l rem (lp, s)" "rem l = f # fs" "sys_functor e t l f (lp, s) = Inr r"
  shows "mid_to tid t l rem (rem(l := fs)) (lp, s) r"
proof (cases f)
  case (Fn_connectEstablished a)
  with assms have "on_conn (connectEstablished (env_for e t a)) a (lp, s) = Inr r" by (simp add: sys_functor_def)
  then show ?thesis by (rule mid_on_conn) (rule mid_established [OF assms(1) assms(2) [unfolded Fn_connectEstablished]])
next
  case (Fn_connectDestroyed a)
  with assms have "on_conn (connectDestroyed (env_for e t a)) a (lp, s) = Inr r" by (simp add: sys_functor_def)
  then show ?thesis by (rule mid_on_conn) (rule mid_destroyed [OF assms(1) assms(2) [unfolded Fn_connectDestroyed]])
next
  case (Fn_removeConnectionInLoop a)
  with assms show ?thesis by (auto simp: sys_functor_def intro: mid_removed)
next
  case Fn_handleTimeoutEvents
  have m: "mid_to tid t l rem (rem(l := fs)) (lp, s) (lp, s)"
    by (rule mid_loop [OF assms(1)]) (use Fn_handleTimeoutEvents assms(2) in \<open>simp_all add: counted_def\<close>)
  obtain y where "run_timeouts_loop (sys_call e t l) (se_now e) (lp, s) = Some y" "y = Inr r"
    using assms(3) Fn_handleTimeoutEvents by (auto simp: sys_functor_def run_timeouts_def split: option.splits)
  from mid_timeouts_loop [OF this(1) mid_to_mid [OF m] this(2)] show ?thesis by (rule mid_to_trans [OF m])
qed (use mid_rest_typed [OF assms(1), of f] assms(2) in simp_all)

subsection \<open>A new connection\<close>

lemma ok_mono:
  assumes "\<forall>a l x. knows s a l x \<longrightarrow> knows t a l x" "m_main_loop t = m_main_loop s"
  shows "functor_ok s l f \<Longrightarrow> functor_ok t l f" "timer_ok s l f \<Longrightarrow> timer_ok t l f" "handler_ok s l x h \<Longrightarrow> handler_ok t l x h"
    "loop_typed s l lp \<Longrightarrow> loop_typed t l lp"
proof -
  show 1: "functor_ok s l f \<Longrightarrow> functor_ok t l f" for l f by (cases f) (use assms in simp_all, blast+)
  show 2: "timer_ok s l f \<Longrightarrow> timer_ok t l f" for l f by (cases f) (use assms in auto)
  show 3: "handler_ok s l x h \<Longrightarrow> handler_ok t l x h" for l x h by (cases h) (use assms in auto)
  show "loop_typed s l lp \<Longrightarrow> loop_typed t l lp" unfolding loop_typed_def using 1 2 3 by blast
qed

text \<open>The connection \<open>a\<close>, with its channel at \<open>x\<close>, appears on the loop \<open>k\<close>.\<close>

lemma sound_new:
  assumes "sound tid s" "server_ok tid t" "sy_news s = n # news" "k \<in> set (m_loops (m_pool s))" "sv_loops s k = Some io"
  defines "a \<equiv> no_conn n" and "x \<equiv> no_channel n"
  assumes t: "sv_loops t = (sv_loops s)(k \<mapsto> io')" "sv_conns t = (sv_conns s)(a \<mapsto> c)" "m_connections t = (m_connections s)(cr_name c \<mapsto> a)"
      "sy_conns t = (sy_conns s)(a \<mapsto> p)" "sy_news t = news" "m_main_loop t = m_main_loop s" "m_loops (m_pool t) = m_loops (m_pool s)"
    and c: "cr_loop c = k" "m_channel (cp_conn p) = x" "m_state (cp_conn p) = kConnecting"
    and io: "handlers_at io' = (handlers_at io)(x \<mapsto> conn_handlers_at a)" "m_timer_heap io' = m_timer_heap io"
      "m_pending_functors io' = m_pending_functors io @ [Fn_connectEstablished a]"
  shows "sound tid t \<and> forward s t" "\<forall>b l y. knows s b l y \<longrightarrow> knows t b l y"
proof -
  have w: "well_typed tid s" "fresh_news s" using assms(1) by (simp_all add: sound_def ledger_def)
  have f: "sv_conns s a = None" "sy_conns s a = None" "handlers_at io x = None"
    using w assms(3,5) by (auto simp: fresh_news_def well_typed_def a_def x_def)
  have kn: "knows t b l y \<longleftrightarrow> b = a \<and> l = k \<and> y = x \<or> knows s b l y" for b l y
    using t c f by (auto simp: knows_def)
  have no: "\<not> knows s a l y" for l y using f by (simp add: knows_def)
  show mono: "\<forall>b l y. knows s b l y \<longrightarrow> knows t b l y" by (simp add: kn)
  note M = ok_mono [OF mono t(6)]
  have typed: "loop_typed s l lp" if "sv_loops s l = Some lp" for l lp using w(1) that unfolding well_typed_def by blast
  have "loop_typed t k io'"
  proof -
    have io0: "loop_typed t k io" by (rule M(4) [OF typed [OF assms(5)]])
    have "knows t a k x" by (simp add: kn)
    then have "functor_ok t k (Fn_connectEstablished a)" by auto
    moreover have "handler_ok t k x h" if "Some h \<in> set (conn_handlers_at a)" for h using that by (auto simp: conn_handlers_at_def kn)
    ultimately show ?thesis using io0 unfolding loop_typed_def io by (auto simp del: functor_ok.simps split: if_splits)
  qed
  then have types: "\<forall>l lp. sv_loops t l = Some lp \<longrightarrow> l \<in> insert (m_main_loop t) (set (m_loops (m_pool t))) \<and> loop_typed t l lp"
    using w(1) M(4) assms(4) t unfolding well_typed_def by (auto split: if_splits)
  have "\<exists>lp. sv_loops t l = Some lp \<and> handlers_at lp y = Some (conn_handlers_at b)" if "knows t b l y" for b l y
  proof (cases "knows s b l y")
    case True
    with w(1) obtain lp where lp: "sv_loops s l = Some lp" "handlers_at lp y = Some (conn_handlers_at b)" unfolding well_typed_def by blast
    show ?thesis
    proof (cases "l = k")
      case True
      with lp assms(5) f(3) t(1) io(1) show ?thesis by auto
    next
      case False
      with lp t(1) show ?thesis by simp
    qed
  next
    case False
    with that kn t(1) io(1) show ?thesis by simp
  qed
  then have wt: "well_typed tid t" using w(1) types assms(2) t(2,4) f(1,2) unfolding well_typed_def by auto
  have pend: "pending t j = (if j = k then pending s k @ [Fn_connectEstablished a] else pending s j)" for j
    using assms(5) by (simp add: pending_def t(1) io(3))
  have none: "g \<notin> set (pending s j)" if "g \<in> {Fn_connectEstablished a, Fn_removeConnectionInLoop a, Fn_connectDestroyed a}" for g j
  proof
    assume "g \<in> set (pending s j)"
    then obtain lp where "sv_loops s j = Some lp" "g \<in> set (m_pending_functors lp)"
      by (cases "sv_loops s j") (simp_all add: pending_def)
    with typed have "functor_ok s j g" by (auto simp: loop_typed_def)
    with that no show False by auto
  qed
  have km: "k \<noteq> m_main_loop s" using w(1) assms(4) pool_not_main by (auto simp: well_typed_def server_ok_def)
  have keeps: "in_phase t b ph" if "in_phase s b ph" for b ph
  proof -
    from that obtain d q where h: "sv_conns s b = Some d" "sy_conns s b = Some q" "tokens_of s b d q = phase_tokens ph" by (auto simp: in_phase_def)
    with f(1) have "b \<noteq> a" by auto
    with h t have e: "sv_conns t b = Some d" "sy_conns t b = Some q" "sv_conns t a = Some c" by simp_all
    with \<open>b \<noteq> a\<close> have "cr_name d \<noteq> cr_name c" using assms(2) unfolding server_ok_def conns_ok_def by blast
    with \<open>b \<noteq> a\<close> have "tokens_of t b d q = tokens_of s b d q" by (simp add: tokens_of_def pend t(3,6))
    with h(3) e(1,2) show ?thesis by (auto simp: in_phase_def)
  qed
  have "\<exists>ph. in_phase t b ph" if "sv_conns t b \<noteq> None" for b
  proof (cases "b = a")
    case True
    have "tokens_of t a c p = phase_tokens Born"
      using none km c by (simp add: tokens_of_def pend t(3,6) count_list_0_iff)
    with True t show ?thesis unfolding in_phase_def by (metis fun_upd_same)
  next
    case False
    with that t assms(1) obtain ph where "in_phase s b ph" by (auto simp: sound_def ledger_def)
    with keeps show ?thesis by blast
  qed
  moreover have "fresh_news t" using w(2) assms(3,5) t io by (auto simp: fresh_news_def a_def x_def image_iff split: if_splits)
  moreover have "forward s t" using keeps unfolding forward_def by (meson order_refl)
  ultimately show "sound tid t \<and> forward s t" using wt by (simp add: sound_def ledger_def)
qed

lemma mid_member: "mid tid t l rem (lp, s) \<Longrightarrow> l = m_main_loop s \<or> l \<in> set (m_loops (m_pool s))"
proof -
  assume "mid tid t l rem (lp, s)"
  then have "well_typed tid (joined l rem (lp, s))" by (simp add: mid_def sound_def ledger_def)
  moreover have "sv_loops (joined l rem (lp, s)) l = Some (with_rest (rem l) lp)" by simp
  ultimately have "l \<in> insert (m_main_loop (joined l rem (lp, s))) (set (m_loops (m_pool (joined l rem (lp, s)))))"
    unfolding well_typed_def by blast
  then show ?thesis by simp
qed

text \<open>What \<open>new_connection\<close> does: it aborts outside the main thread, runs out of identifiers, or makes the connection.\<close>

lemma new_connection_outcome:
  assumes "mid tid t l rem (lp, s)" "sy_news s = n # news"
  obtains (elsewhere) "new_connection e t l fd (lp, s) = Inl Process_Abort" "t \<noteq> tid"
    | (full) "2 ^ 31 \<le> m_next_conn_id s + 1"
    | (made) io io1 w where "l = m_main_loop s" "new_connection e t l fd (lp, s) = Inr (lp, w)"
      "next_loop s \<in> set (m_loops (m_pool s))" "next_loop s \<noteq> l" "sv_loops s (next_loop s) = Some io"
      "io1 = store_object (no_channel n) (channel_of_new e (lp_id io) fd n) (queueInLoop tid (Fn_connectEstablished (no_conn n)) io)"
      "sv_loops w = (sv_loops s)(l \<mapsto> lp, next_loop s \<mapsto> io1)" "server_ok tid w"
      "sv_conns w = (sv_conns s)(no_conn n \<mapsto> \<lparr>cr_name = conn_name (m_name s) (m_next_conn_id s), cr_loop = next_loop s, cr_fd = fd\<rparr>)"
      "m_connections w = (m_connections s)(conn_name (m_name s) (m_next_conn_id s) \<mapsto> no_conn n)"
      "sy_conns w = (sy_conns s)(no_conn n \<mapsto> part_of_new e (conn_name (m_name s) (m_next_conn_id s)) fd n)"
      "sy_news w = news" "m_main_loop w = m_main_loop s" "m_loops (m_pool w) = m_loops (m_pool s)" "m_next_conn_id w = m_next_conn_id s + 1"
proof (cases "2 ^ 31 \<le> m_next_conn_id s + 1")
  case True
  then show thesis by (rule full)
next
  case False
  then have next_id: "m_next_conn_id s + 1 < 2 ^ 31" by simp
  from assms(1) obtain lp0 where m: "sound tid (joined l rem (lp, s))" "m_tid lp = t" "sv_loops s l = Some lp0" "m_tid lp0 = t" by (auto simp: mid_def)
  have oks: "server_ok tid s" by (rule mid_ok [OF assms(1)])
  then have L: "loops_ok tid s" by (simp add: server_ok_def)
  obtain lm where lm: "sv_loops s (m_main_loop s) = Some lm" "m_tid lm = tid" using L by (auto simp: loops_ok_def)
  show thesis
  proof (cases "t = tid")
    case False
    with lm m(3,4) have "l \<noteq> m_main_loop s" by auto
    then have "new_connection e t l fd (lp, s) = Inl Process_Abort"
      using assms(2) lm False
      by (simp add: new_connection_def on_server_def newConnection_def assert_in_def assertInLoopThread_def isInLoopThread_def)
    then show thesis using False by (rule elsewhere)
  next
    case True
    have l: "l = m_main_loop s"
    proof (rule ccontr)
      assume "l \<noteq> m_main_loop s"
      then have "l \<in> set (m_loops (m_pool s))" using mid_member [OF assms(1)] by simp
      with L m(3,4) True show False by (auto simp: loops_ok_def)
    qed
    have t: "m_tid lp = m_tid lm" using lm m(2) True by simp
    have fr: "sv_conns s (no_conn n) = None" using m(1) assms(2) by (simp add: sound_def fresh_news_def)
    have nl: "next_loop s \<in> set (m_loops (m_pool s))" by (rule next_loop_in [OF L])
    then obtain io where io: "sv_loops s (next_loop s) = Some io" using L by (auto simp: loops_ok_def)
    let ?a = "no_conn n" and ?name = "conn_name (m_name s) (m_next_conn_id s)"
    define io1 where "io1 = store_object (no_channel n) (channel_of_new e (lp_id io) fd n) (queueInLoop tid (Fn_connectEstablished ?a) io)"
    define v where "v = put_loop (next_loop s) io1 (with_conn ?a fd (put_loop (m_main_loop s) lp (s\<lparr>sy_news := news\<rparr>)))"
    define w where "w = v\<lparr>sy_conns := (sy_conns s)(?a \<mapsto> part_of_new e ?name fd n)\<rparr>"
    note N = new_connection_law [OF oks assms(2) fr next_id lm(1) t io, of e fd, folded io1_def, folded v_def, folded w_def]
    have ne: "next_loop s \<noteq> m_main_loop s" by (rule pool_not_main [OF L nl])
    have nl': "next_loop (put_loop (m_main_loop s) lp (s\<lparr>sy_news := news\<rparr>)) = next_loop s" by (simp add: next_loop_def)
    show thesis
    proof (rule made [OF l _ nl _ io io1_def])
      show "new_connection e t l fd (lp, s) = Inr (lp, w)" using N by (simp add: l True)
      show "next_loop s \<noteq> l" using ne l by simp
      show "server_ok tid w" using N by (simp add: w_def)
      show "m_next_conn_id w = m_next_conn_id s + 1" by (simp add: w_def v_def with_conn_def Let_def)
    qed (simp_all add: w_def v_def nl' l)
  qed
qed

lemma mid_new_connection:
  assumes "mid tid t l rem (lp, s)" "new_connection e t l fd (lp, s) = Inr r"
  shows "mid_to tid t l rem rem (lp, s) r"
proof -
  let ?J = "joined l rem (lp, s)"
  from assms(1) obtain lp0 where m: "sound tid ?J" "m_tid lp = t" "sv_loops s l = Some lp0" "m_tid lp0 = t" by (auto simp: mid_def)
  have L: "loops_ok tid s" using mid_ok [OF assms(1)] by (simp add: server_ok_def)
  from assms(2) obtain n news where n: "sy_news s = n # news" by (auto simp: new_connection_def split: list.splits)
  with assms(2) obtain u where u: "newConnection run_nothing t (no_conn n) fd (put_loop l lp (s\<lparr>sy_news := news\<rparr>)) = Inr u"
    by (auto simp: new_connection_def on_server_def bind_res_eq_Inr)
  then have "\<not> 2 ^ 31 \<le> m_next_conn_id s + 1" by (auto simp: newConnection_def bind_res_eq_Inr Let_def split: if_splits)
  with assms(2) new_connection_outcome [OF assms(1) n, of e fd] obtain io io1 w where
    l: "l = m_main_loop s" and r: "r = (lp, w)" and nl: "next_loop s \<in> set (m_loops (m_pool s))" "next_loop s \<noteq> l"
    and io: "sv_loops s (next_loop s) = Some io"
    and io1_def: "io1 = store_object (no_channel n) (channel_of_new e (lp_id io) fd n) (queueInLoop tid (Fn_connectEstablished (no_conn n)) io)"
    and sel: "sv_loops w = (sv_loops s)(l \<mapsto> lp, next_loop s \<mapsto> io1)"
      "sv_conns w = (sv_conns s)(no_conn n \<mapsto> \<lparr>cr_name = conn_name (m_name s) (m_next_conn_id s), cr_loop = next_loop s, cr_fd = fd\<rparr>)"
      "m_connections w = (m_connections s)(conn_name (m_name s) (m_next_conn_id s) \<mapsto> no_conn n)"
      "sy_conns w = (sy_conns s)(no_conn n \<mapsto> part_of_new e (conn_name (m_name s) (m_next_conn_id s)) fd n)"
      "sy_news w = news" "m_main_loop w = m_main_loop s" "m_loops (m_pool w) = m_loops (m_pool s)"
    and okw: "server_ok tid w" by (metis sum.simps(4) sum.sel(2))
  let ?a = "no_conn n" and ?name = "conn_name (m_name s) (m_next_conn_id s)"
  note ne = nl(2)
  have wl: "sv_loops w l = Some lp" using sel(1) ne by simp
  let ?J' = "joined l rem (lp, w)"
  have ok: "server_ok tid ?J'" using joined_ok [OF wl, of lp] okw by simp
  have nw: "sy_news ?J = n # news" "next_loop s \<in> set (m_loops (m_pool ?J))" "sv_loops ?J (next_loop s) = Some (with_rest (rem (next_loop s)) io)" using n nl io ne by simp_all
  have up: "sv_loops ?J' = (sv_loops ?J)(next_loop s \<mapsto> with_rest (rem (next_loop s)) io1)" using ne sel(1) by (auto simp: fun_eq_iff)
  have maps: "sv_conns ?J' = (sv_conns ?J)(?a \<mapsto> \<lparr>cr_name = ?name, cr_loop = next_loop s, cr_fd = fd\<rparr>)"
    "m_connections ?J' = (m_connections ?J)(cr_name \<lparr>cr_name = ?name, cr_loop = next_loop s, cr_fd = fd\<rparr> \<mapsto> ?a)"
    "sy_conns ?J' = (sy_conns ?J)(?a \<mapsto> part_of_new e ?name fd n)" "sy_news ?J' = news" "m_main_loop ?J' = m_main_loop ?J"
    "m_loops (m_pool ?J') = m_loops (m_pool ?J)" using sel by simp_all
  have part: "cr_loop \<lparr>cr_name = ?name, cr_loop = next_loop s, cr_fd = fd\<rparr> = next_loop s"
    "m_channel (cp_conn (part_of_new e ?name fd n)) = no_channel n" "m_state (cp_conn (part_of_new e ?name fd n)) = kConnecting"
    by (simp_all add: part_of_new_def new_conn_def)
  let ?R = "with_rest (rem (next_loop s))"
  have "handlers_at (?R io1) = (handlers_at (?R io))(no_channel n \<mapsto> conn_handlers_at ?a)" "m_timer_heap (?R io1) = m_timer_heap (?R io)"
    "m_pending_functors (?R io1) = m_pending_functors (?R io) @ [Fn_connectEstablished ?a]"
    by (simp_all add: io1_def store_object_def [of _ _ "queueInLoop _ _ _"] handlers_at_store [unfolded store_object_def]
        channel_of_new_def new_conn_channel_def handlers_of_def conn_handlers_at_def)
  note S = sound_new [OF m(1) ok nw up maps part this]
  moreover have "knows ?J = knows s" "knows ?J' = knows w" by (rule same_conns_knows, simp add: same_conns_def)+
  ultimately show ?thesis using S m(2) wl by (auto simp: mid_def mid_to_def r)
qed


subsection \<open>Handlers\<close>

lemma accept_loop_steps:
  assumes "accept_loop cb f as cl r = Inr (r', x, y)" "P r" "\<And>fd r r'. P r \<Longrightarrow> f fd r = Inr r' \<Longrightarrow> P r'"
  shows "P r'"
  using assms
proof (induction cb f as cl r rule: accept_loop.induct)
  case (2 cb f ans as cl r)
  from 2(3) obtain fd where fd: "accept_socket ans = Inr fd" by (auto simp: bind_res_eq_Inr)
  show ?case
  proof (cases "fd < 0 \<or> fd > MAXFD")
    case True
    with 2(3,4) fd show ?thesis by (auto split: if_splits)
  next
    case False
    then have n: "\<not> fd < 0" "\<not> fd > MAXFD" by auto
    show ?thesis
    proof (cases cb)
      case True
      with 2(3) fd n obtain r1 where "f fd r = Inr r1" "accept_loop cb f as cl r1 = Inr (r', x, y)" by (auto simp: bind_res_eq_Inr)
      with 2(1) [OF n True] 2(4,5) show ?thesis by blast
    next
      case False
      with 2(2) [OF n False] 2(3-5) fd n show ?thesis by simp
    qed
  qed
qed simp

lemma sound_scripts:
  assumes "sound tid s"
  shows "sound tid (s\<lparr>sy_accepts := x, sy_refused := y\<rparr>) \<and> forward s (s\<lparr>sy_accepts := x, sy_refused := y\<rparr>)"
proof (rule sound_change [OF assms])
  show "server_ok tid (s\<lparr>sy_accepts := x, sy_refused := y\<rparr>)" using assms by (simp add: sound_def ledger_def well_typed_def)
  show "\<exists>ph'. tokens_of (s\<lparr>sy_accepts := x, sy_refused := y\<rparr>) a c p' = phase_tokens ph' \<and> ph \<le> ph'"
    if "sy_conns s a = Some p" "sy_conns (s\<lparr>sy_accepts := x, sy_refused := y\<rparr>) a = Some p'" "tokens_of s a c p = phase_tokens ph" for a c p p' ph
  proof -
    have "tokens_of (s\<lparr>sy_accepts := x, sy_refused := y\<rparr>) a c p' = tokens_of s a c p" using that(1,2) by (simp add: tokens_of_def pending_def)
    with that(3) show ?thesis by (metis order_refl)
  qed
qed (auto simp: same_conns_def)

lemma mid_scripts:
  assumes "mid tid t l rem (lp, s)"
  shows "mid_to tid t l rem rem (lp, s) (lp, s\<lparr>sy_accepts := x, sy_refused := y\<rparr>)"
proof -
  have "joined l rem (lp, s\<lparr>sy_accepts := x, sy_refused := y\<rparr>) = (joined l rem (lp, s))\<lparr>sy_accepts := x, sy_refused := y\<rparr>"
    by (simp add: joined_def spread_def put_loop_def)
  moreover have "knows (s\<lparr>sy_accepts := x, sy_refused := y\<rparr>) = knows s" by (simp add: knows_def fun_eq_iff)
  ultimately show ?thesis using assms sound_scripts by (auto simp: mid_to_def mid_def)
qed

lemma mid_handler:
  assumes "mid tid t l rem (lp, s)" "handler_ok s l x h" "sys_handler e t l h (lp, s) = Inr r"
  shows "mid_to tid t l rem rem (lp, s) r"
proof (cases h)
  case H_wakeup
  with assms(3) have "r = (lp\<lparr>m_wakeups := 0\<rparr>, s)" by (simp add: loop_handleRead_def)
  then show ?thesis using mid_loop_keep [OF assms(1), of "lp\<lparr>m_wakeups := 0\<rparr>"] by simp
next
  case H_timer
  with assms(3) have "r = (queueInLoop t Fn_handleTimeoutEvents lp, s)" by (auto simp: timer_handleRead_def bind_res_eq_Inr)
  then show ?thesis using mid_loop_keep [OF assms(1), of "queueInLoop t Fn_handleTimeoutEvents lp"] by (simp add: counted_def)
next
  case H_accept
  with assms(3) obtain lp' u refused rest where
    a: "accept_loop (m_new_conn_callback (m_acceptor s)) (new_connection e t l) (sy_accepts s) [] (lp, s) = Inr ((lp', u), refused, rest)"
    "r = (lp', u\<lparr>sy_accepts := rest, sy_refused := sy_refused u @ refused\<rparr>)"
    by (auto simp: acceptor_handleRead_def bind_res_eq_Inr)
  have 1: "mid_to tid t l rem rem (lp, s) (lp', u)"
  proof (rule accept_loop_steps [where P = "mid_to tid t l rem rem (lp, s)", OF a(1) mid_to_refl [OF assms(1)]])
    fix fd :: int and q q' :: "io_loop \<times> system"
    assume h: "mid_to tid t l rem rem (lp, s) q" "new_connection e t l fd q = Inr q'"
    obtain lq sq where q: "q = (lq, sq)" by fastforce
    from mid_new_connection [OF mid_to_mid [OF h(1) [unfolded q]] h(2) [unfolded q]]
    show "mid_to tid t l rem rem (lp, s) q'" using mid_to_trans [OF h(1)] by (simp add: q)
  qed
  from mid_to_trans [OF 1 mid_scripts [OF mid_to_mid [OF 1]]] show ?thesis unfolding a(2) .
next
  case (H_conn a ev)
  with assms(2,3) have "knows s a l x" "on_conn (conn_exec (env_for e t a) ev) a (lp, s) = Inr r" by simp_all
  from this(2) show ?thesis by (rule mid_on_conn) (rule mid_event [OF assms(1) \<open>knows s a l x\<close>])
qed

lemma mid_call_all:
  assumes "call_all (sys_handler e t l) hs r = Inr r'" "mid tid t l rem r" "\<And>h. Some h \<in> set hs \<Longrightarrow> handler_ok (snd r) l x h"
  shows "mid_to tid t l rem rem r r'"
  using assms
proof (induction hs arbitrary: r)
  case Nil
  then show ?case by (simp add: mid_to_refl)
next
  case (Cons h hs)
  obtain lp s where r: "r = (lp, s)" by fastforce
  from Cons.prems(1) obtain q where q: "call (sys_handler e t l) h r = Inr q" "call_all (sys_handler e t l) hs q = Inr r'"
    by (auto simp: bind_res_eq_Inr)
  have 1: "mid_to tid t l rem rem r q"
  proof (cases h)
    case None
    with q(1) Cons.prems(2) show ?thesis by (simp add: call_def mid_to_refl)
  next
    case (Some g)
    with Cons.prems(3) [of g] q(1) mid_handler [OF Cons.prems(2) [unfolded r]] show ?thesis by (simp add: call_def r)
  qed
  have "handler_ok (snd q) l x g" if "Some g \<in> set hs" for g
    using Cons.prems(3) [of g] that 1 by (cases g) (auto simp: mid_to_def)
  from Cons.IH [OF q(2) mid_to_mid [OF 1] this] show ?case by (rule mid_to_trans [OF 1])
qed

subsection \<open>Turns\<close>

lemma set_due_handlers: "set (due_handlers ch) \<subseteq> set (handlers_of ch)"
  by (auto simp: due_handlers_def handlers_of_def)

lemma mid_quiet:
  assumes "mid tid t l rem (lp, s)" "quiet lp lp'"
  shows "mid_to tid t l rem rem (lp, s) (lp', s)"
  by (rule mid_loop_keep [OF assms(1)]) (use assms(2) in \<open>simp_all add: quiet_def\<close>)

lemma mark_object_quiet: "mark_object x b (lp, s) = Inr r \<Longrightarrow> \<exists>lp'. r = (lp', s) \<and> quiet lp lp'"
  by (auto simp: mark_object_def object_def bind_res_eq_Inr split: option.splits intro!: quiet_store)

lemma quiet_flags [simp]:
  "quiet lp (lp'\<lparr>m_current_active_channel := c\<rparr>) = quiet lp lp'" "quiet lp (lp'\<lparr>m_loop_event_handling := b\<rparr>) = quiet lp lp'"
  by (simp_all add: quiet_def)

lemma mid_dispatch:
  assumes "dispatch (sys_handler e t l) x (lp, s) = Inr r" "mid tid t l rem (lp, s)"
  shows "mid_to tid t l rem rem (lp, s) r"
proof -
  let ?lp = "lp\<lparr>m_current_active_channel := Some x\<rparr>"
  from assms(1) obtain ch r1 r2 where d: "lp_objects ?lp x = Some ch" "mark_object x True (?lp, s) = Inr r1"
    "call_all (sys_handler e t l) (due_handlers ch) r1 = Inr r2" "mark_object x False r2 = Inr r"
    by (auto simp: dispatch_def handleEvent_due Let_def object_def bind_res_eq_Inr split: option.splits)
  from mark_object_quiet [OF d(2)] obtain lp1 where l1: "r1 = (lp1, s)" "quiet ?lp lp1" by blast
  then have "quiet lp lp1" by (simp add: quiet_def)
  from mid_quiet [OF assms(2) this] have 1: "mid_to tid t l rem rem (lp, s) r1" by (simp add: l1)
  have "handlers_at lp x = Some (handlers_of ch)" using d(1) by (simp add: handlers_at_def)
  then have "handler_ok (snd r1) l x h" if "Some h \<in> set (due_handlers ch)" for h
    using mid_knows(5) [OF assms(2)] that set_due_handlers [of ch] unfolding l1 loop_typed_def handlers_at_flags by auto
  from mid_call_all [OF d(3) mid_to_mid [OF 1] this] have 2: "mid_to tid t l rem rem r1 r2" .
  obtain lp2 s2 where r2: "r2 = (lp2, s2)" by fastforce
  from mark_object_quiet [OF d(4) [unfolded r2]] obtain lp3 where "r = (lp3, s2)" "quiet lp2 lp3" by blast
  with mid_quiet [OF mid_to_mid [OF 2 [unfolded r2]]] r2 show ?thesis using mid_to_trans [OF mid_to_trans [OF 1 2]] by simp
qed


lemma mid_dispatch_all:
  "dispatch_all (sys_handler e t l) xs r = Inr r' \<Longrightarrow> mid tid t l rem r \<Longrightarrow> mid_to tid t l rem rem r r'"
proof (induction xs arbitrary: r)
  case Nil
  then show ?case by (simp add: mid_to_refl)
next
  case (Cons x xs)
  obtain lp s where r: "r = (lp, s)" by fastforce
  from Cons.prems(1) obtain q where q: "dispatch (sys_handler e t l) x r = Inr q" "dispatch_all (sys_handler e t l) xs q = Inr r'"
    by (auto simp: bind_res_eq_Inr)
  from mid_dispatch [OF q(1) [unfolded r]] Cons.prems(2) have 1: "mid_to tid t l rem rem r q" by (simp add: r)
  from Cons.IH [OF q(2) mid_to_mid [OF 1]] show ?case by (rule mid_to_trans [OF 1])
qed

lemma mid_run_functors:
  "run_functors (sys_functor e t l) fs r = Inr r' \<Longrightarrow> rem l = fs @ gs \<Longrightarrow> mid tid t l rem r \<Longrightarrow> mid_to tid t l rem (rem(l := gs)) r r'"
proof (induction fs arbitrary: r rem)
  case Nil
  then have "rem(l := gs) = rem" by auto
  with Nil show ?case by (simp add: mid_to_refl)
next
  case (Cons f fs)
  obtain lp s where r: "r = (lp, s)" by fastforce
  from Cons.prems(1) obtain q where q: "sys_functor e t l f r = Inr q" "run_functors (sys_functor e t l) fs q = Inr r'"
    by (auto simp: bind_res_eq_Inr)
  have "mid tid t l rem (lp, s)" "rem l = f # (fs @ gs)" using Cons.prems(2,3) r by simp_all
  from mid_sys_functor [OF this] q(1) r have 1: "mid_to tid t l rem (rem(l := fs @ gs)) r q" by simp
  have "(rem(l := fs @ gs)) l = fs @ gs" by simp
  from Cons.IH [OF q(2) this mid_to_mid [OF 1]] have "mid_to tid t l (rem(l := fs @ gs)) (rem(l := gs)) q r'" by (simp only: fun_upd_upd)
  then show ?case by (rule mid_to_trans [OF 1])
qed

lemma fillActiveChannels_handlers:
  "fillActiveChannels evs st act = Inr (act', st') \<Longrightarrow> map_option handlers_of (st' x) = map_option handlers_of (st x)"
  by (induction evs st act rule: fillActiveChannels.induct) (auto split: option.splits if_splits)

lemma poll_handlers:
  "poll ans st ep act = Inr (act', st', ep') \<Longrightarrow> map_option handlers_of (st' x) = map_option handlers_of (st x)"
  by (auto simp: poll_def Let_def bind_res_eq_Inr split: sys_wait.splits if_splits dest: fillActiveChannels_handlers)

lemma put_loop_same: "sv_loops s l = Some lp \<Longrightarrow> put_loop l lp s = s"
  by (simp add: put_loop_def fun_upd_idem)

lemma spread_none [simp]: "spread (\<lambda>k. []) s = s"
proof -
  have "with_rest [] = id" by (simp add: with_rest_def fun_eq_iff)
  then show ?thesis by (simp add: spread_def option.map_id)
qed

text \<open>A turn, while no other loop has functors left to call.\<close>

lemma sound_turn:
  assumes "sound tid s" "sys_turn e l ans s = Inr s'"
  shows "sound tid s'"
proof -
  from assms(2) obtain lp where lp: "sv_loops s l = Some lp" by (auto simp: sys_turn_def the_loop_def bind_res_eq_Inr split: option.splits)
  let ?t = "m_tid lp"
  from assms(2) lp obtain act st ep lp2 s2 lp4 s4 where
    d: "poll ans (lp_objects lp) (m_epoll lp) [] = Inr (act, st, ep)"
      "dispatch_all (sys_handler e ?t l) act (lp\<lparr>m_active_channels := act, lp_objects := st, m_epoll := ep, m_loop_event_handling := True\<rparr>, s) = Inr (lp2, s2)"
    and p: "doPendingFunctors (sys_functor e ?t l) (lp2\<lparr>m_current_active_channel := None, m_loop_event_handling := False\<rparr>, s2) = Inr (lp4, s4)"
    and s': "s' = put_loop l lp4 s4"
    by (auto simp: sys_turn_def loop_turn_def Let_def bind_res_eq_Inr)
  let ?none = "\<lambda>k :: nat. [] :: functor_name list"
  have "joined l ?none (lp, s) = s" using lp by (simp add: joined_def put_loop_same)
  with assms(1) lp have 0: "mid tid ?t l ?none (lp, s)" by (simp add: mid_def)
  let ?lp1 = "lp\<lparr>m_active_channels := act, lp_objects := st, m_epoll := ep, m_loop_event_handling := True\<rparr>"
  have "handlers_at ?lp1 = handlers_at lp" using poll_handlers [OF d(1)] by (simp add: handlers_at_def fun_eq_iff)
  then have "quiet lp ?lp1" by (simp add: quiet_def)
  from mid_dispatch_all [OF d(2) mid_to_mid [OF mid_quiet [OF 0 this]]] have 2: "mid tid ?t l ?none (lp2, s2)" by (rule mid_to_mid)
  let ?lp3 = "lp2\<lparr>m_current_active_channel := None, m_loop_event_handling := False, m_calling_pending_functors := True, m_pending_functors := []\<rparr>"
  have 3: "mid tid ?t l (?none(l := m_pending_functors lp2)) (?lp3, s2)"
    by (rule mid_to_mid [OF mid_loop [OF 2]]) simp_all
  from p obtain lp5 where r: "run_functors (sys_functor e ?t l) (m_pending_functors lp2) (?lp3, s2) = Inr (lp5, s4)"
    "lp4 = lp5\<lparr>m_calling_pending_functors := False\<rparr>"
    by (auto simp: doPendingFunctors_def swap_functors_def bind_res_eq_Inr)
  from mid_run_functors [OF r(1) _ 3, of "[]"] have "mid tid ?t l (?none(l := [])) (lp5, s4)" by (simp add: mid_to_def)
  moreover have "?none(l := []) = ?none" by (simp add: fun_eq_iff)
  ultimately have "mid tid ?t l ?none (lp5, s4)" by metis
  then have "mid tid ?t l ?none (lp4, s4)" unfolding r(2) by (rule mid_to_mid [OF mid_loop_keep]) simp_all
  then show ?thesis by (simp add: mid_def joined_def s')
qed

end
