(* ===== verification/ServerThreads.thy ===== *)
theory ServerThreads
  imports ServerRuns
begin

text \<open>
  The threads of the server, in any order. Each loop is at a point of its turn (\<open>turn_pc\<close>), and a step lets
  one loop wait in its poller, handle the events of one channel, take its queue, or call one functor
  (\<open>loop_move\<close>, the body of \<open>EventLoop::loop\<close> and \<open>doPendingFunctors\<close>, cut where other threads can come
  between). Between two steps the kernel may answer anything, new objects get any unused addresses, and a
  connection without an owner is destroyed.

  A handler or a functor is one step: what it shares with other threads is the queue of another loop, which
  it extends under the lock, or the main loop's map, which only functors of the main loop use.
\<close>

subsection \<open>Steps\<close>

datatype turn_pc = In_Poll | In_Dispatch "nat list" | In_Calls "functor_name list"

record threads =
  th_sys :: system
  th_pc :: "nat \<Rightarrow> turn_pc"

fun rest_of :: "turn_pc \<Rightarrow> functor_name list" where
  "rest_of (In_Calls fs) = fs"
| "rest_of pc = []"

definition at_pc :: "nat \<Rightarrow> turn_pc \<Rightarrow> threads \<Rightarrow> io_loop \<times> system \<Rightarrow> threads" where
  "at_pc l pc r = (\<lambda>(lp, s). \<lparr>th_sys = put_loop l lp s, th_pc = (th_pc r)(l := pc)\<rparr>)"

definition loop_move :: "sys_env \<Rightarrow> nat \<Rightarrow> sys_wait \<Rightarrow> threads \<Rightarrow> threads res" where
  "loop_move e l ans r =
     (let s = th_sys r in
      bind_res (the_loop l s) (\<lambda>lp.
      case th_pc r l of
        In_Poll \<Rightarrow>
          bind_res (poll ans (lp_objects lp) (m_epoll lp) []) (\<lambda>(active, st, ep).
          Inr (at_pc l (In_Dispatch active) r
            (lp\<lparr>m_active_channels := active, lp_objects := st, m_epoll := ep, m_loop_event_handling := True\<rparr>, s)))
      | In_Dispatch (x # xs) \<Rightarrow>
          bind_res (dispatch (sys_handler e (m_tid lp) l) x (lp, s)) (\<lambda>q. Inr (at_pc l (In_Dispatch xs) r q))
      | In_Dispatch [] \<Rightarrow>
          (case swap_functors (lp\<lparr>m_current_active_channel := None, m_loop_event_handling := False\<rparr>) of (fs, lp') \<Rightarrow>
             Inr (at_pc l (In_Calls fs) r (lp', s)))
      | In_Calls (f # fs) \<Rightarrow>
          bind_res (sys_functor e (m_tid lp) l f (lp, s)) (\<lambda>q. Inr (at_pc l (In_Calls fs) r q))
      | In_Calls [] \<Rightarrow> Inr (at_pc l In_Poll r (lp\<lparr>m_calling_pending_functors := False\<rparr>, s))))"

text \<open>The server as the ledger counts it, with the functors that the loops have taken and not called yet.\<close>

definition whole :: "threads \<Rightarrow> system" where
  "whole r = spread (\<lambda>l. rest_of (th_pc r l)) (th_sys r)"

text \<open>The connection \<open>a\<close> has no \<open>shared_ptr\<close> left: not in the server's map, nor in a functor or a timer.
  \<open>connectEstablished\<close> is bound to a plain pointer.\<close>

definition unowned :: "nat \<Rightarrow> system \<Rightarrow> bool" where
  "unowned a s \<longleftrightarrow> a \<notin> ran (m_connections s) \<and>
     (\<forall>l lp. sv_loops s l = Some lp \<longrightarrow>
        set (m_pending_functors lp) \<inter> {Fn_removeConnectionInLoop a, Fn_connectDestroyed a, Fn_closeLongConnection a} = {} \<and>
        Fn_closeLongConnection a \<notin> timer_cbs (m_timer_heap lp))"

inductive server_step :: "threads \<Rightarrow> threads \<Rightarrow> bool" where
  loop_moves: "loop_move e l ans r = Inr r' \<Longrightarrow> server_step r r'"
| kernel_answers: "fresh_news ((th_sys r)\<lparr>sy_news := news\<rparr>) \<Longrightarrow>
    server_step r (r\<lparr>th_sys := (th_sys r)\<lparr>sy_accepts := accepts, sy_news := news\<rparr>\<rparr>)"
| last_owner_leaves: "unowned a (whole r) \<Longrightarrow> drop_conn a (th_sys r) = Inr (sock, s) \<Longrightarrow> server_step r (r\<lparr>th_sys := s\<rparr>)"

definition server_inv :: "nat \<Rightarrow> threads \<Rightarrow> bool" where
  "server_inv tid r \<longleftrightarrow> sound tid (whole r)"

subsection \<open>Moves of a loop\<close>

lemma whole_at_pc: "whole (at_pc l pc r (lp, s)) = joined l ((\<lambda>k. rest_of (th_pc r k))(l := rest_of pc)) (lp, s)"
proof -
  have "(\<lambda>k. rest_of (((th_pc r)(l := pc)) k)) = (\<lambda>k. rest_of (th_pc r k))(l := rest_of pc)" by (simp add: fun_eq_iff)
  then show ?thesis by (simp add: whole_def at_pc_def joined_def)
qed

lemma mid_whole:
  assumes "server_inv tid r" "sv_loops (th_sys r) l = Some lp"
  shows "mid tid (m_tid lp) l (\<lambda>k. rest_of (th_pc r k)) (lp, th_sys r)"
proof -
  have "joined l (\<lambda>k. rest_of (th_pc r k)) (lp, th_sys r) = whole r" using assms(2) by (simp add: joined_def whole_def put_loop_same)
  with assms show ?thesis by (simp add: mid_def server_inv_def)
qed

text \<open>The invariant, and no connection back to an earlier phase.\<close>

definition server_keeps :: "nat \<Rightarrow> threads \<Rightarrow> threads \<Rightarrow> bool" where
  "server_keeps tid r r' \<longleftrightarrow> server_inv tid r' \<and> forward (whole r) (whole r')"

lemma at_pc_inv:
  assumes "mid_to tid t l (\<lambda>k. rest_of (th_pc r k)) ((\<lambda>k. rest_of (th_pc r k))(l := rest_of pc)) (lp0, th_sys r) q" "sv_loops (th_sys r) l = Some lp0"
  shows "server_keeps tid r (at_pc l pc r q)"
proof -
  obtain lp s where q: "q = (lp, s)" by fastforce
  have "joined l (\<lambda>k. rest_of (th_pc r k)) (lp0, th_sys r) = whole r" using assms(2) by (simp add: joined_def whole_def put_loop_same)
  with assms(1) show ?thesis by (simp add: q server_keeps_def server_inv_def whole_at_pc mid_to_def mid_def)
qed

lemma loop_move_inv:
  assumes "server_inv tid r" "loop_move e l ans r = Inr r'"
  shows "server_keeps tid r r'"
proof -
  let ?s = "th_sys r" and ?rem = "\<lambda>k. rest_of (th_pc r k)"
  from assms(2) obtain lp where lp: "sv_loops ?s l = Some lp" by (auto simp: loop_move_def the_loop_def Let_def bind_res_eq_Inr split: option.splits)
  note M = mid_whole [OF assms(1) lp]
  have keep: "rest_of (th_pc r l) = [] \<Longrightarrow> ?rem(l := []) = ?rem" by auto
  show ?thesis
  proof (cases "th_pc r l")
    case In_Poll
    with assms(2) lp obtain act st ep where p: "poll ans (lp_objects lp) (m_epoll lp) [] = Inr (act, st, ep)"
      and r': "r' = at_pc l (In_Dispatch act) r (lp\<lparr>m_active_channels := act, lp_objects := st, m_epoll := ep, m_loop_event_handling := True\<rparr>, ?s)"
      by (auto simp: loop_move_def Let_def bind_res_eq_Inr)
    let ?lp1 = "lp\<lparr>m_active_channels := act, lp_objects := st, m_epoll := ep, m_loop_event_handling := True\<rparr>"
    have "handlers_at ?lp1 = handlers_at lp" using poll_handlers [OF p] by (simp add: handlers_at_def fun_eq_iff)
    then have "quiet lp ?lp1" by (simp add: quiet_def)
    from mid_quiet [OF M this] keep In_Poll show ?thesis unfolding r' by (intro at_pc_inv [OF _ lp]) simp
  next
    case (In_Dispatch xs)
    show ?thesis
    proof (cases xs)
      case Nil
      let ?lp3 = "lp\<lparr>m_current_active_channel := None, m_loop_event_handling := False, m_calling_pending_functors := True, m_pending_functors := []\<rparr>"
      have "r' = at_pc l (In_Calls (m_pending_functors lp)) r (?lp3, ?s)"
        using assms(2) lp In_Dispatch Nil by (simp add: loop_move_def Let_def swap_functors_def)
      moreover have "mid_to tid (m_tid lp) l ?rem (?rem(l := m_pending_functors lp)) (lp, ?s) (?lp3, ?s)"
        by (rule mid_loop [OF M]) (simp_all add: In_Dispatch)
      ultimately show ?thesis using at_pc_inv [OF _ lp, where pc = "In_Calls (m_pending_functors lp)"] by simp
    next
      case (Cons x ys)
      with assms(2) lp In_Dispatch obtain q where q: "dispatch (sys_handler e (m_tid lp) l) x (lp, ?s) = Inr q"
        "r' = at_pc l (In_Dispatch ys) r q" by (auto simp: loop_move_def Let_def bind_res_eq_Inr)
      from mid_dispatch [OF q(1) M] keep In_Dispatch show ?thesis unfolding q(2) by (intro at_pc_inv [OF _ lp]) simp
    qed
  next
    case (In_Calls fs)
    show ?thesis
    proof (cases fs)
      case Nil
      let ?lp = "lp\<lparr>m_calling_pending_functors := False\<rparr>"
      have "r' = at_pc l In_Poll r (?lp, ?s)" using assms(2) lp In_Calls Nil by (simp add: loop_move_def Let_def)
      moreover have "mid_to tid (m_tid lp) l ?rem ?rem (lp, ?s) (?lp, ?s)" by (rule mid_loop_keep [OF M]) simp_all
      ultimately show ?thesis using keep In_Calls Nil at_pc_inv [OF _ lp, where pc = In_Poll] by simp
    next
      case (Cons f gs)
      with assms(2) lp In_Calls obtain q where q: "sys_functor e (m_tid lp) l f (lp, ?s) = Inr q"
        "r' = at_pc l (In_Calls gs) r q" by (auto simp: loop_move_def Let_def bind_res_eq_Inr)
      have "?rem l = f # gs" using In_Calls Cons by simp
      from mid_sys_functor [OF M this q(1)] show ?thesis unfolding q(2) by (intro at_pc_inv [OF _ lp]) simp
    qed
  qed
qed


subsection \<open>New answers and destructors\<close>

lemma spread_simps [simp]:
  "sv_loops (spread rem s) = (\<lambda>k. map_option (with_rest (rem k)) (sv_loops s k))" "sv_conns (spread rem s) = sv_conns s"
  "sy_conns (spread rem s) = sy_conns s" "m_connections (spread rem s) = m_connections s" "m_pool (spread rem s) = m_pool s"
  "m_main_loop (spread rem s) = m_main_loop s" "sy_news (spread rem s) = sy_news s"
  by (simp_all add: spread_def)

lemma fresh_spread: "fresh_news (spread rem s) = fresh_news s"
proof -
  have "(\<forall>l lp. sv_loops (spread rem s) l = Some lp \<longrightarrow> handlers_at lp x = None) \<longleftrightarrow> (\<forall>l lp. sv_loops s l = Some lp \<longrightarrow> handlers_at lp x = None)" for x
    by (simp add: ex_simps [symmetric] del: ex_simps) (metis with_rest_simps(4))
  then show ?thesis by (simp add: fresh_news_def)
qed

lemma answers_inv:
  assumes "sound tid s" "fresh_news (s\<lparr>sy_news := news\<rparr>)"
  shows "sound tid (s\<lparr>sy_accepts := accepts, sy_news := news\<rparr>) \<and> forward s (s\<lparr>sy_accepts := accepts, sy_news := news\<rparr>)"
proof -
  let ?t = "s\<lparr>sy_accepts := accepts, sy_news := news\<rparr>"
  have ok: "server_ok tid ?t" using assms(1) by (simp add: sound_def ledger_def well_typed_def)
  have tok: "tokens_of ?t a c p' = tokens_of s a c p" if "sy_conns s a = Some p" "sy_conns ?t a = Some p'" for a c p p'
    using that by (simp add: tokens_of_def pending_def)
  have l: "ledger tid s" "same_conns s ?t" using assms(1) by (simp_all add: sound_def same_conns_def)
  have "ledger tid ?t \<and> forward s ?t"
    by (intro conjI ledger_change [OF l(1) ok l(2)]) (use tok in \<open>auto intro: order_refl\<close>)
  moreover have "fresh_news ?t" using assms(2) by (simp add: fresh_news_def)
  ultimately show ?thesis by (simp add: sound_def)
qed

text \<open>Without an owner, a connection is past \<open>connectDestroyed\<close>.\<close>

lemma unowned_destroyed:
  assumes "sound tid s" "unowned a s" "sv_conns s a = Some c" "sy_conns s a = Some p"
  shows "tokens_of s a c p = phase_tokens Destroyed"
proof -
  from assms(1,3,4) obtain ph where ph: "tokens_of s a c p = phase_tokens ph" by (auto simp: sound_def ledger_def in_phase_def)
  note T = ph [unfolded tokens_of_def]
  have "Fn_connectDestroyed a \<notin> set (pending s (cr_loop c))"
    using assms(2) by (cases "sv_loops s (cr_loop c)") (auto simp: unowned_def pending_def)
  then have "count_list (pending s (cr_loop c)) (Fn_connectDestroyed a) = 0" by (simp add: count_list_0_iff)
  moreover have "m_connections s (cr_name c) \<noteq> Some a" using assms(2) by (auto simp: unowned_def ran_def)
  ultimately have "ph = Destroyed" using T by (cases ph) auto
  with ph show ?thesis by simp
qed

lemma drop_inv:
  assumes "sound tid s" "unowned a s" "sv_conns s a = Some c" "sy_conns s a = Some p" "sv_loops s l = Some lp" "cr_loop c = l"
    and t: "sv_loops t = (sv_loops s)(l \<mapsto> lp')" "sv_conns t = (sv_conns s)(a := None)" "sy_conns t = (sy_conns s)(a := None)"
      "m_connections t = m_connections s" "m_pool t = m_pool s" "m_main_loop t = m_main_loop s" "sy_news t = sy_news s"
      "m_next_conn_id t = m_next_conn_id s" "server.m_name t = server.m_name s"
    and lp': "handlers_at lp' = (handlers_at lp)(m_channel (cp_conn p) := None)" "m_timer_heap lp' = m_timer_heap lp"
      "m_pending_functors lp' = m_pending_functors lp" "m_tid lp' = m_tid lp"
  shows "sound tid t" "\<And>b ph. b \<noteq> a \<Longrightarrow> in_phase s b ph \<Longrightarrow> in_phase t b ph"
proof -
  let ?x = "m_channel (cp_conn p)"
  have w: "well_typed tid s" "fresh_news s" and ph: "\<And>b. sv_conns s b \<noteq> None \<Longrightarrow> \<exists>ph. in_phase s b ph"
    using assms(1) by (simp_all add: sound_def ledger_def)
  note D = unowned_destroyed [OF assms(1-4)]
  have kn: "knows t b k y \<longleftrightarrow> b \<noteq> a \<and> knows s b k y" for b k y using t by (auto simp: knows_def)
  have kf: "knows t b = (\<lambda>k y. b \<noteq> a \<and> knows s b k y)" for b by (simp add: kn fun_eq_iff)
  have ka: "knows s a k y \<longleftrightarrow> k = l \<and> y = ?x" for k y using assms(3,4,6) by (auto simp: knows_def)
  have typed: "loop_typed s k q" "k \<in> insert (m_main_loop s) (set (m_loops (m_pool s)))" if "sv_loops s k = Some q" for k q
    using w(1) that unfolding well_typed_def by blast+
  have noE: "Fn_connectEstablished a \<notin> set (m_pending_functors q)" if "sv_loops s k = Some q" for k q
  proof
    assume e: "Fn_connectEstablished a \<in> set (m_pending_functors q)"
    with typed(1) [OF that] have "functor_ok s k (Fn_connectEstablished a)" by (simp only: loop_typed_def)
    then have "k = l" by (auto simp: ka)
    with D e that assms(6) show False by (auto simp: tokens_of_def pending_def count_list_0_iff)
  qed
  have pend: "pending t = pending s" using t(1) assms(5) lp'(3) by (auto simp: pending_def fun_eq_iff)
  have fn: "functor_ok t k f" if "sv_loops s k = Some q" "f \<in> set (m_pending_functors q)" for k q f
  proof -
    have "functor_ok s k f" using typed(1) [OF that(1)] that(2) by (simp add: loop_typed_def)
    moreover have "f \<notin> {Fn_connectEstablished a, Fn_connectDestroyed a, Fn_removeConnectionInLoop a}"
      using noE [OF that(1)] assms(2) that by (auto simp: unowned_def)
    ultimately show ?thesis using t(6) by (cases f) (auto simp: kf)
  qed
  have tm: "timer_ok t k f" if "sv_loops s k = Some q" "f \<in> timer_cbs (m_timer_heap q)" for k q f
  proof -
    have "timer_ok s k f" using typed(1) [OF that(1)] that(2) by (simp add: loop_typed_def)
    moreover have "f \<noteq> Fn_closeLongConnection a" using assms(2) that by (auto simp: unowned_def)
    ultimately show ?thesis by (cases f) (auto simp: kn)
  qed
  have hd: "handler_ok t k y h" if "sv_loops s k = Some q" "handlers_at q y = Some hs" "Some h \<in> set hs" "\<not> (k = l \<and> y = ?x)" for k q y hs h
  proof -
    have "handler_ok s k y h" using typed(1) [OF that(1)] that(2,3) by (auto simp: loop_typed_def)
    with that(4) show ?thesis by (cases h) (auto simp: kn ka)
  qed
  have types: "loop_typed t k q" if "sv_loops t k = Some q" for k q
  proof (cases "k = l")
    case True
    with that t(1) have "q = lp'" by simp
    then show ?thesis unfolding loop_typed_def using True fn [OF assms(5)] tm [OF assms(5)] hd [OF assms(5)]
      by (auto simp: lp' simp del: functor_ok.simps split: if_splits)
  next
    case False
    with that t(1) have "sv_loops s k = Some q" by simp
    then show ?thesis unfolding loop_typed_def using False fn tm hd by blast
  qed
  have handlers: "\<exists>q. sv_loops t k = Some q \<and> handlers_at q y = Some (conn_handlers_at b)" if "knows t b k y" for b k y
  proof -
    from that kn have b: "b \<noteq> a" "knows s b k y" by blast+
    then obtain q where q: "sv_loops s k = Some q" "handlers_at q y = Some (conn_handlers_at b)" using w(1) unfolding well_typed_def by blast
    have "knows s a l ?x" by (simp add: ka)
    then have "handlers_at lp ?x = Some (conn_handlers_at a)" using w(1) assms(5) unfolding well_typed_def by fastforce
    with q b(1) assms(5) have "\<not> (k = l \<and> y = ?x)" by (auto simp: conn_handlers_at_def)
    with q assms(5) t(1) lp'(1) show ?thesis by auto
  qed
  have "loops_ok tid (put_loop l lp' s)" using w(1) put_loop_ok(1) [OF assms(5) lp'(4)] by (simp add: well_typed_def server_ok_def)
  then have "loops_ok tid t" by (simp add: loops_ok_def t(1,5,6))
  moreover have "conns_ok t"
  proof -
    have C: "conns_ok s" using w(1) by (simp add: well_typed_def server_ok_def)
    have sub: "sv_conns t b = Some d \<Longrightarrow> sv_conns s b = Some d" for b d using t(2) by (simp split: if_splits)
    have "\<exists>d. sv_conns t b = Some d \<and> cr_name d = n" if "m_connections s n = Some b" for n b
    proof -
      have "b \<noteq> a" using that assms(2) by (auto simp: unowned_def ran_def)
      with C that t(2) show ?thesis by (simp add: conns_ok_def)
    qed
    then show ?thesis using C sub unfolding conns_ok_def t(4,5,8,9) by blast
  qed
  ultimately have "server_ok tid t" by (simp add: server_ok_def)
  moreover have "sv_conns t b = None \<longleftrightarrow> sy_conns t b = None" for b using w(1) t(2,3) by (simp add: well_typed_def)
  moreover have "k \<in> insert (m_main_loop t) (set (m_loops (m_pool t)))" if "sv_loops t k = Some q" for k q
    using that typed(2) typed(2) [OF assms(5)] unfolding t(1,5,6) by (auto split: if_splits)
  ultimately have wt: "well_typed tid t" using types handlers unfolding well_typed_def by blast
  show keeps: "in_phase t b q" if "b \<noteq> a" "in_phase s b q" for b q
    using that t(2-4,6) by (auto simp: in_phase_def tokens_of_def pend)
  have "\<exists>ph. in_phase t b ph" if b: "sv_conns t b \<noteq> None" for b
  proof -
    from b t have "b \<noteq> a" "sv_conns s b \<noteq> None" by (auto split: if_splits)
    with ph [OF this(2)] keeps show ?thesis by blast
  qed
  moreover have "fresh_news t" using w(2) t(1,2,7) assms(5) lp'(1) by (auto simp: fresh_news_def split: if_splits)
  ultimately show "sound tid t" using wt by (simp add: sound_def ledger_def)
qed


lemma drop_conn_law:
  assumes "server_inv tid r" "unowned a (whole r)" "sv_conns (th_sys r) a \<noteq> None"
  shows "\<exists>sock s. drop_conn a (th_sys r) = Inr (sock, s) \<and> server_inv tid (r\<lparr>th_sys := s\<rparr>) \<and> sv_conns s a = None \<and>
    (\<forall>b ph. b \<noteq> a \<longrightarrow> in_phase (whole r) b ph \<longrightarrow> in_phase (whole (r\<lparr>th_sys := s\<rparr>)) b ph) \<and>
    (\<exists>p. sy_conns (th_sys r) a = Some p \<and> sock = socket_dtor (m_socket (cp_conn p)))"
proof -
  let ?s = "th_sys r" and ?rem = "\<lambda>l. rest_of (th_pc r l)"
  have snd: "sound tid (whole r)" using assms(1) by (simp add: server_inv_def)
  then have w: "well_typed tid (whole r)" by (simp add: sound_def ledger_def)
  have "sy_conns ?s a \<noteq> None" using w assms(3) by (simp add: well_typed_def whole_def)
  then obtain c p where c: "sv_conns ?s a = Some c" "sy_conns ?s a = Some p" using assms(3) by blast
  then have cw: "sv_conns (whole r) a = Some c" "sy_conns (whole r) a = Some p" by (simp_all add: whole_def)
  from unowned_destroyed [OF snd assms(2) cw] have st: "m_state (cp_conn p) = kDisconnected" by (simp add: tokens_of_def)
  have "knows (whole r) a (cr_loop c) (m_channel (cp_conn p))" using cw by (simp add: knows_def)
  with w obtain lw where "sv_loops (whole r) (cr_loop c) = Some lw" unfolding well_typed_def by blast
  then obtain lp where lp: "sv_loops ?s (cr_loop c) = Some lp" by (auto simp: whole_def)
  let ?x = "m_channel (cp_conn p)"
  let ?lp = "lp\<lparr>lp_objects := (lp_objects lp)(?x := None)\<rparr>"
  define s where "s = (put_loop (cr_loop c) ?lp ?s)\<lparr>sv_conns := (sv_conns ?s)(a := None), sy_conns := (sy_conns ?s)(a := None)\<rparr>"
  have d: "drop_conn a ?s = Inr (socket_dtor (m_socket (cp_conn p)), s)"
    using c lp st by (simp add: drop_conn_def conn_dtor_def s_def)
  let ?R = "with_rest (?rem (cr_loop c))"
  let ?t = "whole (r\<lparr>th_sys := s\<rparr>)"
  have lpw: "sv_loops (whole r) (cr_loop c) = Some (?R lp)" using lp by (simp add: whole_def)
  have sl: "sv_loops s = (sv_loops ?s)(cr_loop c \<mapsto> ?lp)" by (simp add: s_def)
  have t: "sv_loops ?t = (sv_loops (whole r))(cr_loop c \<mapsto> ?R ?lp)" "sv_conns ?t = (sv_conns (whole r))(a := None)"
    "sy_conns ?t = (sy_conns (whole r))(a := None)" "m_connections ?t = m_connections (whole r)" "m_pool ?t = m_pool (whole r)"
    "m_main_loop ?t = m_main_loop (whole r)" "sy_news ?t = sy_news (whole r)"
    "m_next_conn_id ?t = m_next_conn_id (whole r)" "server.m_name ?t = server.m_name (whole r)"
    by (simp_all add: whole_def sl fun_eq_iff) (simp_all add: s_def spread_def)
  have "handlers_at ?lp = (handlers_at lp)(?x := None)" by (simp add: handlers_at_def fun_eq_iff)
  then have l: "handlers_at (?R ?lp) = (handlers_at (?R lp))(?x := None)" "m_timer_heap (?R ?lp) = m_timer_heap (?R lp)"
    "m_pending_functors (?R ?lp) = m_pending_functors (?R lp)" "m_tid (?R ?lp) = m_tid (?R lp)" by simp_all
  note D = drop_inv [OF snd assms(2) cw lpw refl t l]
  have "sv_conns s a = None" by (simp add: s_def)
  with d D c(2) show ?thesis by (auto simp: server_inv_def)
qed

lemma server_step_inv:
  assumes "server_step r r'" "server_inv tid r"
  shows "server_inv tid r' \<and> (\<forall>a ph. in_phase (whole r) a ph \<longrightarrow>
    (\<exists>ph'. in_phase (whole r') a ph' \<and> ph \<le> ph') \<or> ph = Destroyed \<and> unowned a (whole r) \<and> sv_conns (th_sys r') a = None)"
  using assms(1)
proof (cases rule: server_step.cases)
  case (loop_moves e l ans)
  with loop_move_inv [OF assms(2)] show ?thesis by (simp add: server_keeps_def forward_def)
next
  case (kernel_answers news accepts)
  have "whole r' = (whole r)\<lparr>sy_accepts := accepts, sy_news := news\<rparr>" using kernel_answers(1) by (simp add: whole_def spread_def)
  moreover have "fresh_news ((whole r)\<lparr>sy_news := news\<rparr>)"
  proof -
    have "(whole r)\<lparr>sy_news := news\<rparr> = spread (\<lambda>l. rest_of (th_pc r l)) ((th_sys r)\<lparr>sy_news := news\<rparr>)" by (simp add: whole_def spread_def)
    with kernel_answers(2) show ?thesis by (simp add: fresh_spread)
  qed
  ultimately show ?thesis using answers_inv [of tid "whole r" news accepts] assms(2) by (simp add: server_inv_def forward_def)
next
  case (last_owner_leaves a sock s)
  have ex: "sv_conns (th_sys r) a \<noteq> None" using last_owner_leaves(3) by (auto simp: drop_conn_def split: option.splits)
  from drop_conn_law [OF assms(2) last_owner_leaves(2) ex] last_owner_leaves(1,3) have
    d: "server_inv tid r'" "sv_conns (th_sys r') a = None" "\<forall>b ph. b \<noteq> a \<longrightarrow> in_phase (whole r) b ph \<longrightarrow> in_phase (whole r') b ph" by auto
  have "ph = Destroyed" if "in_phase (whole r) a ph" for ph
  proof -
    from that obtain c p where cp: "sv_conns (whole r) a = Some c" "sy_conns (whole r) a = Some p" by (auto simp: in_phase_def)
    have "sound tid (whole r)" using assms(2) by (simp add: server_inv_def)
    from unowned_destroyed [OF this last_owner_leaves(2) cp] cp have "in_phase (whole r) a Destroyed" by (auto simp: in_phase_def)
    with that show ?thesis by (rule phase_unique)
  qed
  with d last_owner_leaves(2) show ?thesis by (metis order_refl)
qed

end
