(* ===== verification/ServerMemory.thy ===== *)
theory ServerMemory
  imports ConnMemory ServerThreads
begin

text \<open>
  Memory safety of the server: in every state of its invariant, every handler and every functor of a loop finds
  the objects it uses, and touches no byte outside a buffer, as long as the clients are \<open>served\<close>: every
  connection is \<open>fed\<close> (theory ConnMemory), and the server has an identifier left for every client to come.
\<close>

definition served :: "system \<Rightarrow> bool" where
  "served s \<longleftrightarrow> (\<forall>a p. sy_conns s a = Some p \<longrightarrow> fed (cp_conn p) (cp_in p)) \<and> (\<forall>n \<in> set (sy_news s). modest (no_reads n)) \<and>
     m_next_conn_id s + int (length (sy_news s)) < 2 ^ 31"

lemma served_same:
  "sy_conns t = sy_conns s \<Longrightarrow> sy_news t = sy_news s \<Longrightarrow> m_next_conn_id t = m_next_conn_id s \<Longrightarrow> served t = served s"
  by (simp add: served_def)

lemma served_put_loop [simp]: "served (put_loop l lp s) = served s"
  by (rule served_same) (simp_all add: put_loop_def)

subsection \<open>Connections\<close>

lemma mid_object:
  assumes "mid tid t l rem (lp, s)" "knows s a l x"
  shows "handlers_at lp x = Some (conn_handlers_at a)" "lp_objects lp x \<noteq> None"
proof -
  have "well_typed tid (joined l rem (lp, s))" using assms(1) by (simp add: mid_def sound_def ledger_def)
  moreover have "knows (joined l rem (lp, s)) a l x" using assms(2) mid_knows(1) [OF assms(1)] by simp
  ultimately obtain q where "sv_loops (joined l rem (lp, s)) l = Some q" "handlers_at q x = Some (conn_handlers_at a)"
    unfolding well_typed_def by blast
  then show h: "handlers_at lp x = Some (conn_handlers_at a)" by auto
  then show "lp_objects lp x \<noteq> None" by (auto simp: handlers_at_def)
qed

text \<open>What the close call back needs of the other loops.\<close>

definition beside :: "nat \<Rightarrow> system \<Rightarrow> bool" where
  "beside t s \<longleftrightarrow> served s \<and> (\<exists>lm. sv_loops s (m_main_loop s) = Some lm \<and> m_tid lm \<noteq> t)"

lemma removeConnection_safe: "beside t s \<Longrightarrow> safe (beside t) (removeConnection exec t a s)"
  by (auto simp: beside_def removeConnection_def run_in_def isInLoopThread_def queue_in_def)

lemma mid_conn_ready:
  assumes "mid tid t l rem (lp, s)" "knows s a l x" "sy_conns s a = Some p" "served s" "length (se_stamp e) \<le> stamp_max"
  shows "conn_ready (beside t) (env_for e t a) (join_conn lp p s)"
proof -
  have "m_channel (cp_conn p) = x" using assms(2,3) by (auto simp: knows_def)
  with mid_object [OF assms(1,2)] have "lp_objects lp (m_channel (cp_conn p)) \<noteq> None" by simp
  moreover have "beside t s" using mid_pool(2,3) [OF assms(1,2)] assms(4) by (auto simp: beside_def)
  moreover have "fed (cp_conn p) (cp_in p)" using assms(3,4) by (simp add: served_def)
  ultimately show ?thesis using assms(5) removeConnection_safe
    by (simp add: conn_ready_def join_conn_def env_for_def)
qed

lemma on_conn_safe:
  assumes "mid tid t l rem (lp, s)" "knows s a l x" "served s" "length (se_stamp e) \<le> stamp_max"
    and "\<And>p. sy_conns s a = Some p \<Longrightarrow> conn_ready (beside t) (env_for e t a) (join_conn lp p s) \<Longrightarrow> safe (conn_fine (beside t)) (f (join_conn lp p s))"
  shows "safe (\<lambda>r. served (snd r)) (on_conn f a (lp, s))"
proof -
  obtain p where p: "sy_conns s a = Some p" using assms(2) by (auto simp: knows_def)
  from assms(5) [OF p mid_conn_ready [OF assms(1,2) p assms(3,4)]] have "safe (conn_fine (beside t)) (f (join_conn lp p s))" .
  then show ?thesis unfolding on_conn_def
    by (auto simp: p safe_then conn_fine_def beside_def served_def conn_part_of_def elim!: safe_mono split: if_splits)
qed

subsection \<open>Handlers\<close>

lemma new_connection_safe:
  assumes "mid tid t l rem (lp, s)" "served s"
  shows "safe (\<lambda>r. served (snd r)) (new_connection e t l fd (lp, s))"
proof (cases "sy_news s")
  case Nil
  then show ?thesis by (simp add: new_connection_def)
next
  case (Cons n news)
  show ?thesis
  proof (rule new_connection_outcome [OF assms(1) Cons, of e fd])
    assume "2 ^ 31 \<le> m_next_conn_id s + 1"
    with assms(2) Cons show ?thesis by (simp add: served_def)
  next
    fix io io1 w
    assume made: "new_connection e t l fd (lp, s) = Inr (lp, w)" "sy_news w = news" "m_next_conn_id w = m_next_conn_id s + 1"
      "sy_conns w = (sy_conns s)(no_conn n \<mapsto> part_of_new e (conn_name (m_name s) (m_next_conn_id s)) fd n)"
    have "modest (no_reads n)" using assms(2) Cons by (simp add: served_def)
    then have "fed (cp_conn (part_of_new e nm fd n)) (cp_in (part_of_new e nm fd n))" for nm
      by (simp add: part_of_new_def modest_fed)
    with assms(2) Cons made(2-4) have "served w" by (auto simp: served_def)
    then show ?thesis by (simp add: made(1))
  qed simp
qed

lemma accept_loop_safe:
  "P r \<Longrightarrow> (\<And>fd r. P r \<Longrightarrow> safe P (f fd r)) \<Longrightarrow> safe (\<lambda>x. P (fst x)) (accept_loop cb f as cl r)"
proof (induction cb f as cl r rule: accept_loop.induct)
  case (2 cb f ans as cl r)
  have a: "safe (\<lambda>_. True) (accept_socket ans)" by (auto simp: accept_socket_def split: sys_accept.splits)
  have n: "safe (\<lambda>x. P (fst x)) (bind_res (f fd r) (accept_loop cb f as cl))" if "\<not> fd < 0" "\<not> fd > MAXFD" cb for fd
    by (rule safe_bind [OF 2(4) [OF 2(3), of fd]]) (use 2(1) [OF that] 2(4) in blast)
  have s: "safe (\<lambda>x. P (fst x)) (accept_loop cb f as (cl @ [fd]) r)" if "\<not> fd < 0" "\<not> fd > MAXFD" "\<not> cb" for fd
    using 2(2) [OF that 2(3,4)] .
  show ?case unfolding accept_loop.simps by (rule safe_bind [OF a]) (use n s 2(3) in auto)
qed simp

lemma handler_safe:
  assumes "mid tid t l rem (lp, s)" "handler_ok s l x h" "served s" "length (se_stamp e) \<le> stamp_max"
  shows "safe (\<lambda>r. served (snd r)) (sys_handler e t l h (lp, s))"
proof (cases h)
  case H_timer
  then show ?thesis using assms(3) by (simp add: timer_handleRead_def assertInLoopThread_def)
next
  case H_accept
  let ?P = "\<lambda>r. served (snd r) \<and> mid tid t l rem r"
  have step: "safe ?P (new_connection e t l fd r)" if "?P r" for fd r
  proof -
    obtain lq q where r: "r = (lq, q)" by fastforce
    with that have "mid tid t l rem (lq, q)" "served q" by simp_all
    from new_connection_safe [OF this, of e fd] show ?thesis
      unfolding r by (rule safe_mono) (use mid_to_mid [OF mid_new_connection [OF \<open>mid tid t l rem (lq, q)\<close>]] in blast)
  qed
  have P: "?P (lp, s)" using assms(1,3) by simp
  have "safe (\<lambda>x. ?P (fst x)) (acceptor_handleRead t lp (m_acceptor s) (new_connection e t l) (sy_accepts s) (lp, s))"
    unfolding acceptor_handleRead_def by (rule safe_bind [OF assertInLoopThread_safe], rule accept_loop_safe [of ?P], rule P, rule step)
  moreover have "served (q\<lparr>sy_accepts := x, sy_refused := y\<rparr>) = served q" for q x y by (rule served_same) simp_all
  ultimately show ?thesis unfolding H_accept sys_handler.simps by (elim safe_bind) (auto split: prod.splits)
next
  case (H_conn a ev)
  with assms(2) have k: "knows s a l x" by simp
  show ?thesis unfolding H_conn sys_handler.simps by (rule on_conn_safe [OF assms(1) k assms(3,4)]) (rule conn_exec_safe)
qed (use assms(3) in simp)

subsection \<open>Functors\<close>

lemma expired_safe:
  assumes "mid tid t l rem (lp, s)" "f \<in> timer_cbs (m_timer_heap lp)" "served s" "length (se_stamp e) \<le> stamp_max"
  shows "safe (\<lambda>r. served (snd r)) (sys_call e t l f (lp, s))"
proof -
  have "timer_ok s l f" using mid_knows(5) [OF assms(1)] assms(2) by (auto simp: loop_typed_def)
  then obtain a x where k: "f = Fn_closeLongConnection a" "knows s a l x" by (cases f) auto
  show ?thesis unfolding k(1) sys_call.simps by (rule on_conn_safe [OF assms(1) k(2) assms(3,4)]) (rule conn_exec_safe [where ev = Ev_Timeout, simplified])
qed

lemma timeouts_safe:
  assumes "mid tid t l rem r" "served (snd r)" "length (se_stamp e) \<le> stamp_max"
  shows "safe (\<lambda>r. served (snd r)) (run_timeouts (sys_call e t l) now r)"
proof (cases "run_timeouts_loop (sys_call e t l) now r")
  case None
  then show ?thesis by (simp add: run_timeouts_def)
next
  case (Some y)
  let ?P = "\<lambda>r. mid tid t l rem r \<and> served (snd r)"
  have cb: "safe (\<lambda>r. served (snd r)) (sys_call e t l (m_cb tm) q)" if "?P q" "tm \<in> set (m_min_heap (m_timer_heap (fst q)))" for q tm
    using expired_safe [OF _ _ _ assms(3), of tid t l rem "fst q" "snd q" "m_cb tm"] that by (auto simp: timer_cbs_def)
  have "case y of Inl x \<Rightarrow> x \<noteq> Undefined_Behaviour | Inr r \<Rightarrow> ?P r"
  proof (rule run_timeouts_loop_rule [OF Some])
    show "?P (lp\<lparr>m_timer_heap := (m_timer_heap lp)\<lparr>m_min_heap := pop (m_min_heap (m_timer_heap lp))\<rparr>\<rparr>, w)"
      if "?P q" "tm \<in> set (m_min_heap (m_timer_heap (fst q)))" "sys_call e t l (m_cb tm) q = Inr (lp, w)" for q tm lp w
      using mid_to_mid [OF mid_timeout [OF _ that(2,3)]] cb [OF that(1,2)] that(1,3) by simp
    show "x \<noteq> Undefined_Behaviour" if "?P q" "tm \<in> set (m_min_heap (m_timer_heap (fst q)))" "sys_call e t l (m_cb tm) q = Inl x" for q tm x
      using cb [OF that(1,2)] that(3) by simp
  qed (use assms in simp)
  then have "safe (\<lambda>r. served (snd r)) y" by (cases y) auto
  with Some show ?thesis by (simp add: run_timeouts_def)
qed

lemma removal_safe:
  assumes "mid tid t l rem (lp, s)" "l = m_main_loop s" "knows s a k x" "served s"
  shows "safe (\<lambda>r. served (snd r)) (on_server (removeConnectionInLoop t a) l (lp, s))"
proof -
  have "served ((put_loop l lp s)\<lparr>m_connections := m\<rparr>) = served s" for m by (rule served_same) (simp_all add: put_loop_def)
  with removal_result [OF assms(1-3)] assms(4) show ?thesis by auto
qed

lemma pending_destroyed:
  assumes "mid tid t l rem (lp, s)" "knows s a l x" "sy_conns s a = Some p" "Fn_connectDestroyed a \<in> set (rem l)"
  shows "m_state (cp_conn p) = kDisconnected"
proof -
  from assms(2) obtain c where c: "sv_conns s a = Some c" by (auto simp: knows_def)
  have "sv_loops s (m_main_loop s) \<noteq> None" using mid_pool(3) [OF assms(1,2)] by auto
  note T = tokens_joined [OF c assms(2) mid_pool(1) [OF assms(1,2)] this]
  from mid_phase [OF assms(1) c assms(3)] obtain ph where "tokens_of (joined l rem (lp, s)) a c p = phase_tokens ph" by blast
  note P = this [unfolded T]
  have "count_list (rem l) (Fn_connectDestroyed a) \<noteq> 0" using assms(4) by (simp add: count_list_0_iff)
  then have "count_list (rem l @ m_pending_functors lp) (Fn_connectDestroyed a) > 0" by simp
  from phase_state(3) [OF P this] show ?thesis by simp
qed

lemma functor_safe:
  assumes "mid tid t l rem (lp, s)" "rem l = f # fs" "served s" "length (se_stamp e) \<le> stamp_max"
  shows "safe (\<lambda>r. served (snd r)) (sys_functor e t l f (lp, s))"
proof -
  have ok: "functor_ok s l f" using mid_rest_typed [OF assms(1), of f] assms(2) by simp
  show ?thesis
  proof (cases f)
    case (Fn_connectEstablished a)
    with ok obtain x where k: "knows s a l x" by auto
    have "safe (\<lambda>r. served (snd r)) (on_conn (connectEstablished (env_for e t a)) a (lp, s))"
      by (rule on_conn_safe [OF assms(1) k assms(3,4)]) (rule connectEstablished_safe)
    then show ?thesis by (simp add: Fn_connectEstablished sys_functor_def)
  next
    case (Fn_connectDestroyed a)
    with ok obtain x where k: "knows s a l x" by auto
    have "safe (\<lambda>r. served (snd r)) (on_conn (connectDestroyed (env_for e t a)) a (lp, s))"
      by (rule on_conn_safe [OF assms(1) k assms(3,4)]) (rule connectDestroyed_safe, assumption, use pending_destroyed [OF assms(1) k] assms(2) Fn_connectDestroyed in \<open>simp add: join_conn_def\<close>)
    then show ?thesis by (simp add: Fn_connectDestroyed sys_functor_def)
  next
    case (Fn_removeConnectionInLoop a)
    with ok obtain k x where "l = m_main_loop s" "knows s a k x" by auto
    from removal_safe [OF assms(1) this assms(3)] show ?thesis by (simp add: Fn_removeConnectionInLoop sys_functor_def)
  next
    case Fn_handleTimeoutEvents
    with timeouts_safe [OF assms(1) _ assms(4)] assms(3) show ?thesis by (simp add: sys_functor_def)
  qed (use ok in simp_all)
qed

end
