(* ===== verification/ServerKept.thy ===== *)
theory ServerKept
  imports ServerMemory
begin

text \<open>
  What every handler and functor of any loop leaves alone (\<open>kept\<close>): the functors that wait in the queues, the
  connections and the channels with their handlers; and a connection leaves the map of the server only with its
  \<open>connectDestroyed\<close> queued on its loop. \<open>served_to\<close> collects all that is known of a step of a loop: the invariant,
  the phases, memory safety for what follows, and \<open>kept\<close>.
\<close>

subsection \<open>What every step leaves alone\<close>

definition kept :: "nat \<Rightarrow> system \<Rightarrow> system \<Rightarrow> bool" where
  "kept l s t \<longleftrightarrow> set (pending s l) \<subseteq> set (pending t l) \<and> (\<forall>a c. sv_conns s a = Some c \<longrightarrow> sv_conns t a = Some c) \<and>
     (\<forall>a c. sv_conns s a = Some c \<longrightarrow> cr_loop c = l \<longrightarrow> m_connections s (cr_name c) = Some a \<longrightarrow>
        m_connections t (cr_name c) = Some a \<or> Fn_connectDestroyed a \<in> set (pending t l)) \<and>
     (\<forall>k lp x hs. sv_loops s k = Some lp \<longrightarrow> handlers_at lp x = Some hs \<longrightarrow>
        (\<exists>lp'. sv_loops t k = Some lp' \<and> handlers_at lp' x = Some hs))"

lemma kept_refl [simp]: "kept l s s"
  by (simp add: kept_def)

lemma kept_handlers:
  "kept l s t \<Longrightarrow> sv_loops s k = Some lp \<Longrightarrow> handlers_at lp x = Some hs \<Longrightarrow> \<exists>lp'. sv_loops t k = Some lp' \<and> handlers_at lp' x = Some hs"
  unfolding kept_def by blast

lemma kept_trans:
  assumes "kept l s t" "kept l t u"
  shows "kept l s u"
  unfolding kept_def
proof (intro conjI allI impI)
  have p: "set (pending s l) \<subseteq> set (pending t l)" "set (pending t l) \<subseteq> set (pending u l)" using assms by (simp_all add: kept_def)
  then show "set (pending s l) \<subseteq> set (pending u l)" by blast
  fix a c assume a: "sv_conns s a = Some c"
  then have at: "sv_conns t a = Some c" using assms(1) by (simp add: kept_def)
  then show "sv_conns u a = Some c" using assms(2) by (simp add: kept_def)
  show "m_connections u (cr_name c) = Some a \<or> Fn_connectDestroyed a \<in> set (pending u l)"
    if "cr_loop c = l" "m_connections s (cr_name c) = Some a"
  proof -
    have "m_connections t (cr_name c) = Some a \<or> Fn_connectDestroyed a \<in> set (pending t l)" using assms(1) a that unfolding kept_def by blast
    moreover have "m_connections t (cr_name c) = Some a \<Longrightarrow> m_connections u (cr_name c) = Some a \<or> Fn_connectDestroyed a \<in> set (pending u l)"
      using assms(2) at that(1) unfolding kept_def by blast
    ultimately show ?thesis using p(2) by blast
  qed
next
  fix k lp x hs assume h: "sv_loops s k = Some lp" "handlers_at lp x = Some hs"
  from kept_handlers [OF assms(1) h] kept_handlers [OF assms(2)]
  show "\<exists>lp'. sv_loops u k = Some lp' \<and> handlers_at lp' x = Some hs" by blast
qed

lemma kept_loops:
  assumes "sv_conns t = sv_conns s" "m_connections t = m_connections s"
    and "\<And>k lp. sv_loops s k = Some lp \<Longrightarrow> \<exists>lp'. sv_loops t k = Some lp' \<and>
      set (m_pending_functors lp) \<subseteq> set (m_pending_functors lp') \<and> handlers_at lp' = handlers_at lp"
  shows "kept l s t"
proof -
  have "set (pending s l) \<subseteq> set (pending t l)"
    using assms(3) [of l] by (cases "sv_loops s l") (auto simp: pending_def)
  moreover have "\<exists>lp'. sv_loops t k = Some lp' \<and> handlers_at lp' x = Some hs" if "sv_loops s k = Some lp" "handlers_at lp x = Some hs" for k lp x hs
    using assms(3) [OF that(1)] that(2) by auto
  ultimately show ?thesis using assms(1,2) by (simp add: kept_def)
qed

lemma kept_loop:
  "set (m_pending_functors lp) \<subseteq> set (m_pending_functors lp') \<Longrightarrow> handlers_at lp' = handlers_at lp \<Longrightarrow>
   kept l (put_loop k lp s) (put_loop k lp' s)"
  by (rule kept_loops) (auto split: if_splits)

lemma kept_conn:
  assumes "mid tid t k rem (lp, s)" "knows s a k x" "conn_still (env_for e t a) (join_conn lp p s) u"
    and "cs_world u = s \<or> removeConnection (run_removal t) t a s = Inr (cs_world u)"
  shows "kept l (put_loop k lp s) (put_loop k (cs_loop u) ((cs_world u)\<lparr>sy_conns := X\<rparr>))"
proof -
  have u: "m_pending_functors (cs_loop u) = m_pending_functors lp" "handlers_at (cs_loop u) = handlers_at lp"
    using assms(3) by (simp_all add: conn_still_def)
  note P = mid_pool [OF assms(1,2)]
  from P(3) obtain lm where lm: "sv_loops s (m_main_loop s) = Some lm" "m_tid lm = tid" by blast
  have w: "cs_world u = s \<or> cs_world u = put_loop (m_main_loop s) (queueInLoop t (Fn_removeConnectionInLoop a) lm) s"
    using assms(4) lm P(2) by (auto simp: removeConnection_def run_in_def isInLoopThread_def queue_in_eq [OF lm(1)])
  show ?thesis by (rule kept_loops) (use w u lm P(1) in \<open>auto split: if_splits\<close>)
qed

lemma conn_effect_world:
  "conn_effect (env_for e t a) (join_conn lp p s) u \<Longrightarrow>
   conn_still (env_for e t a) (join_conn lp p s) u \<and> (cs_world u = s \<or> removeConnection (run_removal t) t a s = Inr (cs_world u))"
  by (auto simp: conn_effect_def env_for_def join_conn_def)

lemma kept_on_conn:
  assumes "mid tid t k rem (lp, s)" "knows s a k x" "on_conn f a (lp, s) = Inr r"
    and "\<And>p u. sy_conns s a = Some p \<Longrightarrow> f (join_conn lp p s) = Inr u \<Longrightarrow>
      conn_still (env_for e t a) (join_conn lp p s) u \<and> (cs_world u = s \<or> removeConnection (run_removal t) t a s = Inr (cs_world u))"
  shows "kept l (put_loop k lp s) (put_loop k (fst r) (snd r))"
proof -
  from assms(3) obtain p u where p: "sy_conns s a = Some p" "f (join_conn lp p s) = Inr u"
    "r = (cs_loop u, (cs_world u)\<lparr>sy_conns := (sy_conns (cs_world u))(a \<mapsto> conn_part_of u)\<rparr>)"
    by (auto simp: on_conn_def bind_res_eq_Inr split: option.splits)
  from assms(4) [OF p(1,2)] show ?thesis unfolding p(3) fst_conv snd_conv by (intro kept_conn [OF assms(1,2)]) blast+
qed

lemma kept_event:
  assumes "mid tid t k rem (lp, s)" "knows s a k x" "on_conn (conn_exec (env_for e t a) ev) a (lp, s) = Inr r"
  shows "kept l (put_loop k lp s) (put_loop k (fst r) (snd r))"
proof (rule kept_on_conn [OF assms])
  fix p u assume "conn_exec (env_for e t a) ev (join_conn lp p s) = Inr u"
  from conn_exec_effect [OF this] assms(1)
  show "conn_still (env_for e t a) (join_conn lp p s) u \<and> (cs_world u = s \<or> removeConnection (run_removal t) t a s = Inr (cs_world u))"
    by (intro conn_effect_world) (simp add: mid_def join_conn_def env_for_def)
qed

lemma kept_new_connection:
  assumes "mid tid t k rem (lp, s)" "new_connection e t k fd (lp, s) = Inr r"
  shows "kept l (put_loop k lp s) (put_loop k (fst r) (snd r))"
proof -
  from assms(2) obtain n news where n: "sy_news s = n # news" by (auto simp: new_connection_def split: list.splits)
  with assms(2) have id: "m_next_conn_id s + 1 < 2 ^ 31"
    by (auto simp: new_connection_def on_server_def newConnection_def bind_res_eq_Inr Let_def split: if_splits)
  have J: "sound tid (joined k rem (lp, s))" using assms(1) by (simp add: mid_def)
  then have fr: "sv_conns s (no_conn n) = None" "sv_loops (joined k rem (lp, s)) j = Some q \<Longrightarrow> handlers_at q (no_channel n) = None" for j q
    using n by (auto simp: sound_def fresh_news_def)
  have none: "m_connections s (conn_name (m_name s) (m_next_conn_id s)) = None"
    by (rule with_conn_ok(2) [OF mid_ok [OF assms(1)] fr(1) id])
  show ?thesis
  proof (rule new_connection_outcome [OF assms(1) n, of e fd])
    fix io io1 w
    assume made: "new_connection e t k fd (lp, s) = Inr (lp, w)" "next_loop s \<noteq> k" "sv_loops s (next_loop s) = Some io"
      "io1 = store_object (no_channel n) (channel_of_new e (lp_id io) fd n) (queueInLoop tid (Fn_connectEstablished (no_conn n)) io)"
      "sv_loops w = (sv_loops s)(k \<mapsto> lp, next_loop s \<mapsto> io1)"
      "sv_conns w = (sv_conns s)(no_conn n \<mapsto> \<lparr>cr_name = conn_name (m_name s) (m_next_conn_id s), cr_loop = next_loop s, cr_fd = fd\<rparr>)"
      "m_connections w = (m_connections s)(conn_name (m_name s) (m_next_conn_id s) \<mapsto> no_conn n)"
    have io: "handlers_at io (no_channel n) = None" using fr(2) [of "next_loop s"] made(2,3) by simp
    have io1: "m_pending_functors io1 = m_pending_functors io @ [Fn_connectEstablished (no_conn n)]"
      "handlers_at io1 y = (if y = no_channel n then Some (handlers_of (channel_of_new e (lp_id io) fd n)) else handlers_at io y)" for y
      by (simp_all add: made(4)) (simp_all add: store_object_def)
    have r: "r = (lp, w)" using made(1) assms(2) by simp
    show ?thesis unfolding kept_def r fst_conv snd_conv
    proof (intro conjI allI impI)
      show "set (pending (put_loop k lp s) l) \<subseteq> set (pending (put_loop k lp w) l)"
        using made(2,3,5) io1(1) by (auto simp: pending_def split: if_splits)
      fix a c assume a: "sv_conns (put_loop k lp s) a = Some c"
      show "sv_conns (put_loop k lp w) a = Some c" using a fr(1) made(6) by auto
      show "m_connections (put_loop k lp w) (cr_name c) = Some a \<or> Fn_connectDestroyed a \<in> set (pending (put_loop k lp w) l)"
        if "m_connections (put_loop k lp s) (cr_name c) = Some a" using that none made(7) by auto
    next
      fix j q y hs assume h: "sv_loops (put_loop k lp s) j = Some q" "handlers_at q y = Some hs"
      show "\<exists>q'. sv_loops (put_loop k lp w) j = Some q' \<and> handlers_at q' y = Some hs"
      proof (cases "j = next_loop s")
        case True
        with h made(2,3,5) io io1(2) show ?thesis by (auto split: if_splits)
      next
        case False
        with h made(5) show ?thesis by (auto split: if_splits)
      qed
    qed
  qed (use assms(2) id in simp_all)
qed

subsection \<open>Handlers and functors\<close>

text \<open>A step of the running loop \<open>k\<close>, with all that is known of it.\<close>

definition served_to ::
  "nat \<Rightarrow> nat \<Rightarrow> nat \<Rightarrow> (nat \<Rightarrow> functor_name list) \<Rightarrow> (nat \<Rightarrow> functor_name list) \<Rightarrow> io_loop \<times> system \<Rightarrow> io_loop \<times> system \<Rightarrow> bool" where
  "served_to tid t k rem rem' r r' \<longleftrightarrow> mid_to tid t k rem rem' r r' \<and> served (snd r') \<and>
     (\<forall>l. kept l (put_loop k (fst r) (snd r)) (put_loop k (fst r') (snd r')))"

lemma served_to_trans: "served_to tid t k rem rem1 r r' \<Longrightarrow> served_to tid t k rem1 rem2 r' r'' \<Longrightarrow> served_to tid t k rem rem2 r r''"
  unfolding served_to_def by (blast intro: mid_to_trans kept_trans)

lemma served_to_refl: "mid tid t k rem r \<Longrightarrow> served (snd r) \<Longrightarrow> served_to tid t k rem rem r r"
  by (simp add: served_to_def mid_to_refl)

lemma served_to_mid: "served_to tid t k rem rem' r r' \<Longrightarrow> mid tid t k rem' r' \<and> served (snd r')"
  by (simp add: served_to_def mid_to_def)

lemma kept_handler:
  assumes "mid tid t k rem (lp, s)" "handler_ok s k x h" "sys_handler e t k h (lp, s) = Inr r"
  shows "kept l (put_loop k lp s) (put_loop k (fst r) (snd r))"
proof (cases h)
  case H_wakeup
  with assms(3) show ?thesis by (auto simp: loop_handleRead_def intro!: kept_loop)
next
  case H_timer
  with assms(3) show ?thesis by (auto simp: timer_handleRead_def bind_res_eq_Inr intro!: kept_loop)
next
  case H_accept
  with assms(3) obtain lp' u refused rest where
    a: "accept_loop (m_new_conn_callback (m_acceptor s)) (new_connection e t k) (sy_accepts s) [] (lp, s) = Inr ((lp', u), refused, rest)"
    "r = (lp', u\<lparr>sy_accepts := rest, sy_refused := sy_refused u @ refused\<rparr>)"
    by (auto simp: acceptor_handleRead_def bind_res_eq_Inr)
  let ?P = "\<lambda>q. mid tid t k rem q \<and> kept l (put_loop k lp s) (put_loop k (fst q) (snd q))"
  have "?P (lp', u)"
  proof (rule accept_loop_steps [where P = ?P, OF a(1)])
    show "?P q'" if "?P q" "new_connection e t k fd q = Inr q'" for fd q q'
    proof -
      obtain lq sq where q: "q = (lq, sq)" by fastforce
      with that have m: "mid tid t k rem (lq, sq)" "new_connection e t k fd (lq, sq) = Inr q'"
        "kept l (put_loop k lp s) (put_loop k lq sq)" by simp_all
      from mid_to_mid [OF mid_new_connection [OF m(1,2)]] kept_trans [OF m(3) kept_new_connection [OF m(1,2)]] show ?thesis by blast
    qed
  qed (use assms(1) in simp)
  moreover have "kept l (put_loop k lp' u) (put_loop k lp' (u\<lparr>sy_accepts := rest, sy_refused := sy_refused u @ refused\<rparr>))"
    by (rule kept_loops) (auto split: if_splits)
  ultimately show ?thesis unfolding a(2) by (auto intro: kept_trans)
next
  case (H_conn a ev)
  with assms(2,3) show ?thesis by (auto intro: kept_event [OF assms(1)])
qed

lemma handler_served:
  assumes "mid tid t k rem (lp, s)" "handler_ok s k x h" "served s" "length (se_stamp e) \<le> stamp_max"
  shows "safe (served_to tid t k rem rem (lp, s)) (sys_handler e t k h (lp, s))"
  by (rule safe_mono [OF handler_safe [OF assms]])
    (auto simp: served_to_def dest: mid_handler [OF assms(1,2)] kept_handler [OF assms(1,2)])

lemma kept_timeouts:
  assumes "run_timeouts_loop (sys_call e t k) now r = Some (Inr r')" "mid tid t k rem r"
  shows "kept l (put_loop k (fst r) (snd r)) (put_loop k (fst r') (snd r'))"
proof -
  let ?P = "\<lambda>q. mid tid t k rem q \<and> kept l (put_loop k (fst r) (snd r)) (put_loop k (fst q) (snd q))"
  have "case Inr r' :: (io_loop \<times> system) res of Inl x \<Rightarrow> True | Inr q \<Rightarrow> ?P q"
  proof (rule run_timeouts_loop_rule [OF assms(1), where P = ?P and Q = "\<lambda>_. True"])
    show "?P r" using assms(2) by simp
    show "?P (lp\<lparr>m_timer_heap := (m_timer_heap lp)\<lparr>m_min_heap := pop (m_min_heap (m_timer_heap lp))\<rparr>\<rparr>, w)"
      if q: "?P q" "tm \<in> set (m_min_heap (m_timer_heap (fst q)))" "sys_call e t k (m_cb tm) q = Inr (lp, w)" for q tm lp w
    proof -
      obtain lq sq where p: "q = (lq, sq)" by fastforce
      have m: "mid tid t k rem (lq, sq)" using q(1) p by simp
      have "timer_ok sq k (m_cb tm)" using mid_knows(5) [OF m] q(2) p by (auto simp: loop_typed_def timer_cbs_def)
      then obtain a x where a: "m_cb tm = Fn_closeLongConnection a" "knows sq a k x" by (cases "m_cb tm") auto
      have "on_conn (conn_exec (env_for e t a) Ev_Timeout) a (lq, sq) = Inr (lp, w)" using q(3) a(1) p by (simp add: fun_eq_iff)
      note 1 = kept_event [OF m a(2) this, of l, simplified]
      have "kept l (put_loop k lp w) (put_loop k (lp\<lparr>m_timer_heap := (m_timer_heap lp)\<lparr>m_min_heap := pop (m_min_heap (m_timer_heap lp))\<rparr>\<rparr>) w)"
        by (rule kept_loop) simp_all
      from kept_trans [OF 1 this] kept_trans q(1) p mid_to_mid [OF mid_timeout [OF conjunct1 [OF q(1)] q(2,3)]] show ?thesis by auto
    qed
  qed simp
  then show ?thesis by simp
qed

lemma kept_functor:
  assumes "mid tid t k rem (lp, s)" "rem k = f # fs" "sys_functor e t k f (lp, s) = Inr r"
  shows "kept l (put_loop k lp s) (put_loop k (fst r) (snd r))"
proof -
  have ok: "functor_ok s k f" using mid_rest_typed [OF assms(1), of f] assms(2) by simp
  show ?thesis
  proof (cases f)
    case (Fn_connectEstablished a)
    with ok obtain x where k: "knows s a k x" by auto
    have "on_conn (connectEstablished (env_for e t a)) a (lp, s) = Inr r" using assms(3) Fn_connectEstablished by (simp add: sys_functor_def)
    then show ?thesis by (rule kept_on_conn [OF assms(1) k]) (use connectEstablished_effect in \<open>fastforce simp: join_conn_def\<close>)
  next
    case (Fn_connectDestroyed a)
    with ok obtain x where k: "knows s a k x" by auto
    have "on_conn (connectDestroyed (env_for e t a)) a (lp, s) = Inr r" using assms(3) Fn_connectDestroyed by (simp add: sys_functor_def)
    then show ?thesis
    proof (rule kept_on_conn [OF assms(1) k])
      fix p u assume p: "sy_conns s a = Some p" "connectDestroyed (env_for e t a) (join_conn lp p s) = Inr u"
      have "m_state (cp_conn p) = kDisconnected" by (rule pending_destroyed [OF assms(1) k p(1)]) (use assms(2) Fn_connectDestroyed in simp)
      then show "conn_still (env_for e t a) (join_conn lp p s) u \<and> (cs_world u = s \<or> removeConnection (run_removal t) t a s = Inr (cs_world u))"
        using connectDestroyed_effect [OF p(2)] by (auto simp: join_conn_def)
    qed
  next
    case (Fn_removeConnectionInLoop a)
    with ok obtain j x where j: "k = m_main_loop s" "knows s a j x" by auto
    obtain c lc where c: "sv_conns s a = Some c" "cr_loop c = j" "j \<noteq> k" "sv_loops s j = Some lc"
      and res: "on_server (removeConnectionInLoop t a) k (lp, s) = Inr (lp, put_loop j (queueInLoop t (Fn_connectDestroyed a) lc)
        ((put_loop k lp s)\<lparr>m_connections := (m_connections s)(cr_name c := None)\<rparr>))"
      using removal_result [OF assms(1) j] by blast
    have C: "conns_ok s" using mid_ok [OF assms(1)] by (simp add: server_ok_def)
    define w where "w = put_loop j (queueInLoop t (Fn_connectDestroyed a) lc) ((put_loop k lp s)\<lparr>m_connections := (m_connections s)(cr_name c := None)\<rparr>)"
    have r: "r = (lp, w)" using res assms(3) Fn_removeConnectionInLoop by (simp add: sys_functor_def w_def)
    have w: "sv_loops w = (sv_loops s)(k \<mapsto> lp, j \<mapsto> queueInLoop t (Fn_connectDestroyed a) lc)"
      "sv_conns w = sv_conns s" "m_connections w = (m_connections s)(cr_name c := None)"
      by (auto simp: w_def put_loop_def fun_eq_iff)
    have pw: "pending (put_loop k lp w) l = (if l = j then pending s l @ [Fn_connectDestroyed a] else pending (put_loop k lp s) l)"
      using c(3,4) by (auto simp: pending_def w(1))
    show ?thesis unfolding kept_def r fst_conv snd_conv
    proof (intro conjI allI impI)
      show "set (pending (put_loop k lp s) l) \<subseteq> set (pending (put_loop k lp w) l)" unfolding pw using c(3) by (auto simp: pending_def)
      fix b d assume b: "sv_conns (put_loop k lp s) b = Some d"
      then show "sv_conns (put_loop k lp w) b = Some d" by (simp add: w)
      show "m_connections (put_loop k lp w) (cr_name d) = Some b \<or> Fn_connectDestroyed b \<in> set (pending (put_loop k lp w) l)"
        if "cr_loop d = l" "m_connections (put_loop k lp s) (cr_name d) = Some b"
      proof (cases "cr_name d = cr_name c")
        case True
        then have "b = a" using b c(1) C unfolding conns_ok_def put_loop_simps by blast
        with that(1) b c have "l = j" by simp
        then have "Fn_connectDestroyed b \<in> set (pending (put_loop k lp w) l)" unfolding pw \<open>b = a\<close> by simp
        then show ?thesis ..
      next
        case False
        with that(2) show ?thesis by (simp add: w)
      qed
    next
      fix i q y hs assume "sv_loops (put_loop k lp s) i = Some q" "handlers_at q y = Some hs"
      then show "\<exists>q'. sv_loops (put_loop k lp w) i = Some q' \<and> handlers_at q' y = Some hs" using c(3,4) by (auto simp: w split: if_splits)
    qed
  next
    case Fn_handleTimeoutEvents
    then obtain y where y: "run_timeouts_loop (sys_call e t k) (se_now e) (lp, s) = Some y" "y = Inr r"
      using assms(3) by (auto simp: sys_functor_def run_timeouts_def split: option.splits)
    from kept_timeouts [OF y(1) [unfolded y(2)] assms(1), of l] show ?thesis by simp
  qed (use ok in simp_all)
qed

lemma functor_served:
  assumes "mid tid t k rem (lp, s)" "rem k = f # fs" "served s" "length (se_stamp e) \<le> stamp_max"
  shows "safe (served_to tid t k rem (rem(k := fs)) (lp, s)) (sys_functor e t k f (lp, s))"
  by (rule safe_mono [OF functor_safe [OF assms]])
    (auto simp: served_to_def dest: mid_sys_functor [OF assms(1,2)] kept_functor [OF assms(1,2)])

lemma call_all_steps:
  "call_all run hs r = Inr r' \<Longrightarrow> P r \<Longrightarrow> (\<And>h q q'. Some h \<in> set hs \<Longrightarrow> P q \<Longrightarrow> run h q = Inr q' \<Longrightarrow> P q') \<Longrightarrow> P r'"
proof (induction hs arbitrary: r)
  case (Cons h hs)
  from Cons.prems(1) obtain q where q: "call run h r = Inr q" "call_all run hs q = Inr r'" by (auto simp: bind_res_eq_Inr)
  have P: "P q" using q(1) Cons.prems(2,3) by (cases h) (auto simp: call_def)
  show ?case by (rule Cons.IH [OF q(2) P]) (rule Cons.prems(3), simp_all)
qed simp

lemma kept_quiet: "quiet lp lp' \<Longrightarrow> kept l (put_loop k lp s) (put_loop k lp' s)"
  by (rule kept_loop) (simp_all add: quiet_def)

lemma kept_dispatch:
  assumes "dispatch (sys_handler e t k) x (lp, s) = Inr r" "mid tid t k rem (lp, s)"
  shows "kept l (put_loop k lp s) (put_loop k (fst r) (snd r))"
proof -
  let ?lp = "lp\<lparr>m_current_active_channel := Some x\<rparr>"
  from assms(1) obtain ch r1 r2 where d: "lp_objects ?lp x = Some ch" "mark_object x True (?lp, s) = Inr r1"
    "call_all (sys_handler e t k) (due_handlers ch) r1 = Inr r2" "mark_object x False r2 = Inr r"
    by (auto simp: dispatch_def handleEvent_due Let_def object_def bind_res_eq_Inr split: option.splits)
  from mark_object_quiet [OF d(2)] obtain lp1 where l1: "r1 = (lp1, s)" "quiet ?lp lp1" by blast
  then have q: "quiet lp lp1" by (simp add: quiet_def)
  have "handlers_at lp x = Some (handlers_of ch)" using d(1) by (simp add: handlers_at_def)
  then have ok: "handler_ok s k x h" if "Some h \<in> set (due_handlers ch)" for h
    using mid_knows(5) [OF assms(2)] that set_due_handlers [of ch] unfolding loop_typed_def by auto
  let ?P = "\<lambda>q. mid tid t k rem q \<and> (\<forall>h. Some h \<in> set (due_handlers ch) \<longrightarrow> handler_ok (snd q) k x h) \<and>
    kept l (put_loop k lp s) (put_loop k (fst q) (snd q))"
  have "?P r2"
  proof (rule call_all_steps [OF d(3)])
    show "?P r1" using mid_to_mid [OF mid_quiet [OF assms(2) q]] ok kept_quiet [OF q] by (simp add: l1)
    show "?P q'" if h: "Some h \<in> set (due_handlers ch)" and P: "?P q" and run: "sys_handler e t k h q = Inr q'" for h q q'
    proof -
      obtain lq sq where p: "q = (lq, sq)" by fastforce
      have m: "mid tid t k rem (lq, sq)" "handler_ok sq k x h" "kept l (put_loop k lp s) (put_loop k lq sq)" using P h p by simp_all
      from mid_handler [OF m(1,2) run [unfolded p]] have to: "mid_to tid t k rem rem (lq, sq) q'" .
      have "handler_ok (snd q') k x g" if "Some g \<in> set (due_handlers ch)" for g
        using to P that p by (cases g) (auto simp: mid_to_def)
      with mid_to_mid [OF to] kept_trans [OF m(3) kept_handler [OF m(1,2) run [unfolded p]]] show ?thesis by blast
    qed
  qed
  then have 2: "kept l (put_loop k lp s) (put_loop k (fst r2) (snd r2))" by blast
  obtain lp2 s2 where r2: "r2 = (lp2, s2)" by fastforce
  from mark_object_quiet [OF d(4) [unfolded r2]] obtain lp3 where "r = (lp3, s2)" "quiet lp2 lp3" by blast
  with 2 kept_trans [OF _ kept_quiet] r2 show ?thesis by simp
qed

end
