(* ===== verification/TurnMoves.thy ===== *)
theory TurnMoves
  imports ServerThreads
begin

text \<open>
  A turn as ServerSystem has it, in one step and with the running loop taken out of the server, is a run of
  the moves of ServerThreads: the theorems about turns speak of runs of the threads.

  While a loop runs, the server's own entry for it is out of date. \<open>but_loop\<close> forgets that entry, and the
  lemmas show that no handler and no functor looks at it.
\<close>

subsection \<open>Operations of a connection in another world\<close>

definition in_world :: "'w \<Rightarrow> ('f, 'h, 'w) conn_state \<Rightarrow> ('f, 'h, 'w) conn_state" where
  "in_world v s = s\<lparr>cs_world := v\<rparr>"

lemma in_world_simps [simp]:
  "cs_loop (in_world v s) = cs_loop s" "cs_conn (in_world v s) = cs_conn s" "cs_in (in_world v s) = cs_in s"
  "cs_out (in_world v s) = cs_out s" "cs_sent (in_world v s) = cs_sent s" "cs_world (in_world v s) = v"
  "in_world v (in_world w s) = in_world v s" "in_world (cs_world s) s = s"
  by (simp_all add: in_world_def)

lemma in_world_update:
  "(in_world v s)\<lparr>cs_loop := lp\<rparr> = in_world v (s\<lparr>cs_loop := lp\<rparr>)" "(in_world v s)\<lparr>cs_conn := c\<rparr> = in_world v (s\<lparr>cs_conn := c\<rparr>)"
  "(in_world v s)\<lparr>cs_in := i\<rparr> = in_world v (s\<lparr>cs_in := i\<rparr>)" "(in_world v s)\<lparr>cs_out := out\<rparr> = in_world v (s\<lparr>cs_out := out\<rparr>)"
  "(in_world v s)\<lparr>cs_sent := x\<rparr> = in_world v (s\<lparr>cs_sent := x\<rparr>)" "(in_world v s)\<lparr>cs_world := w\<rparr> = in_world w s"
  by (simp_all add: in_world_def)

text \<open>Whatever the operation did in the world of \<open>s\<close>, it does the same in \<open>v\<close>.\<close>

definition carries ::
  "('f, 'w) conn_env \<Rightarrow> 'w \<Rightarrow> ('f, 'h, 'w) conn_state \<Rightarrow> ('f, 'h, 'w) conn_state res \<Rightarrow> ('f, 'h, 'w) conn_state res \<Rightarrow> bool" where
  "carries env v s r r' \<longleftrightarrow> (\<forall>u. r = Inr u \<longrightarrow> (\<exists>v'. r' = Inr (in_world v' u) \<and>
     (cs_world u = cs_world s \<and> v' = v \<or>
      (\<exists>c. e_close_callback env c (cs_world s) = Inr (cs_world u) \<and> e_close_callback env c v = Inr v'))))"

definition callable :: "('f, 'w) conn_env \<Rightarrow> 'w \<Rightarrow> 'w \<Rightarrow> bool" where
  "callable env w v \<longleftrightarrow> (\<forall>c w'. e_close_callback env c w = Inr w' \<longrightarrow> (\<exists>v'. e_close_callback env c v = Inr v'))"

lemma on_channel_world: "on_channel op env (in_world v s) = bind_res (on_channel op env s) (\<lambda>u. Inr (in_world v u))"
  by (cases "op (e_tid env) (e_kctl env) (m_channel (cs_conn s)) (cs_loop s)") (simp_all add: on_channel_def in_world_update)

lemma assert_loop_world: "assert_loop env (in_world v s) = bind_res (assert_loop env s) (\<lambda>u. Inr (in_world v u))"
  by (cases "assertInLoopThread (e_tid env) (cs_loop s)") (simp_all add: assert_loop_def)

lemma on_channel_same_world: "on_channel op env s = Inr u \<Longrightarrow> cs_world u = cs_world s"
  by (auto simp: on_channel_def bind_res_eq_Inr)

lemma carries_same: "cs_world u = cs_world s \<Longrightarrow> carries env v s (Inr u) (Inr (in_world v u))"
  by (auto simp: carries_def intro!: exI [of _ v])

lemma carries_fault: "carries env v s (Inl f) r"
  by (simp add: carries_def)

lemma on_channel_carries: "cs_world s' = cs_world s \<Longrightarrow> carries env v s (on_channel op env s') (on_channel op env (in_world v s'))"
  by (cases "on_channel op env s'") (auto simp: on_channel_world carries_fault dest: on_channel_same_world intro!: carries_same)

lemma handleClose_carries:
  assumes "callable env (cs_world s) v" "cs_world s' = cs_world s"
  shows "carries env v s (handleClose env s') (handleClose env (in_world v s'))"
  unfolding carries_def
proof (intro allI impI)
  fix u assume h: "handleClose env s' = Inr u"
  then obtain s0 where "assert_loop env s' = Inr s0" unfolding handleClose_def bind_res_eq_Inr by blast
  then have a: "assert_loop env s' = Inr s'" using assert_loop_same by metis
  show "\<exists>v'. handleClose env (in_world v s') = Inr (in_world v' u) \<and>
     (cs_world u = cs_world s \<and> v' = v \<or> (\<exists>c. e_close_callback env c (cs_world s) = Inr (cs_world u) \<and> e_close_callback env c v = Inr v'))"
  proof (cases "m_alive (cs_conn s') \<and> \<not> m_timeout (cs_conn s')")
    case True
    with h have u: "u = s'" by (simp add: handleClose_def a)
    have "handleClose env (in_world v s') = Inr (in_world v s')" using True by (simp add: handleClose_def a assert_loop_world)
    with u assms(2) show ?thesis by auto
  next
    case False
    have st: "\<not> (m_state (cs_conn s') \<noteq> kConnected \<and> m_state (cs_conn s') \<noteq> kDisconnecting)"
      using h False by (auto simp: handleClose_def a split: if_splits)
    then obtain q where q: "on_channel disableAll env (setState kDisconnected s') = Inr q"
      using h False by (cases "on_channel disableAll env (setState kDisconnected s')") (auto simp: handleClose_def a)
    define x where "x = (if \<not> m_alive (cs_conn q) then on_socket shutdownWrite q else q)"
    have x: "(if \<not> m_alive (cs_conn (in_world v q)) then on_socket shutdownWrite (in_world v q) else in_world v q) = in_world v x"
      "cs_world x = cs_world s" "setState kDisconnected (in_world v s') = in_world v (setState kDisconnected s')"
      using on_channel_same_world [OF q] assms(2) by (simp_all add: x_def on_socket_def in_world_update setState_def)
    have "bind_res (e_close_callback env (cs_conn x) (cs_world x)) (\<lambda>w. Inr (x\<lparr>cs_world := w\<rparr>)) = Inr u"
      using h False st by (simp add: handleClose_def a q x_def Let_def split: if_splits)
    then obtain w where w: "e_close_callback env (cs_conn x) (cs_world s) = Inr w" "u = x\<lparr>cs_world := w\<rparr>" by (auto simp: bind_res_eq_Inr x(2))
    with assms(1) obtain v' where v': "e_close_callback env (cs_conn x) v = Inr v'" by (auto simp: callable_def)
    have "handleClose env (in_world v s') =
      (let s1 = (if \<not> m_alive (cs_conn (in_world v q)) then on_socket shutdownWrite (in_world v q) else in_world v q) in
       bind_res (e_close_callback env (cs_conn s1) (cs_world s1)) (\<lambda>w. Inr (s1\<lparr>cs_world := w\<rparr>)))"
      using False st by (simp only: handleClose_def assert_loop_world a x(3) on_channel_world q bind_res_simps in_world_simps if_False)
    also have "\<dots> = Inr (in_world v' u)" unfolding x(1) using v' w(2) by (simp add: in_world_def)
    finally have "handleClose env (in_world v s') = Inr (in_world v' u)" .
    with w v' show ?thesis by auto
  qed
qed

lemma handleWrite_carries:
  assumes "callable env (cs_world s) v" "cs_world s' = cs_world s"
  shows "carries env v s (handleWrite env s') (handleWrite env (in_world v s'))"
proof (cases "writeToFd (cs_out s') (m_output_buffer (cs_conn s'))")
  case (Inl f)
  then show ?thesis by (simp add: carries_def handleWrite_def)
next
  case (Inr b)
  obtain bytes taken ob rest where b: "b = (bytes, taken, ob, rest)" by (cases b)
  obtain ctx ib where r: "reset (m_context (cs_conn s')) (m_input_buffer (cs_conn s')) = (ctx, ib)" by fastforce
  show ?thesis
    using assms Inr b r
    by (simp add: handleWrite_def handleError_def Let_def in_world_update handleClose_carries on_channel_carries split: prod.split)
qed

lemma handleRead_carries:
  assumes "callable env (cs_world s) v" "cs_world s' = cs_world s"
  shows "carries env v s (handleRead env s') (handleRead env (in_world v s'))"
proof (cases "readFromFd (cs_in s') (m_input_buffer (cs_conn s'))")
  case (Inl f)
  then show ?thesis by (simp add: carries_def handleRead_def)
next
  case (Inr b)
  obtain bytes ib rest where b: "b = (bytes, ib, rest)" by (cases b)
  let ?s = "s'\<lparr>cs_conn := (cs_conn s')\<lparr>m_input_buffer := ib\<rparr>, cs_in := rest\<rparr>"
  have w: "conn_handleHttpRequest env (in_world v ?s) = bind_res (conn_handleHttpRequest env ?s) (\<lambda>u. Inr (in_world v u))"
    by (cases "work (e_stamp env) (m_context (cs_conn ?s)) (m_input_buffer (cs_conn ?s)) (m_output_buffer (cs_conn ?s))")
       (auto simp: conn_handleHttpRequest_def Let_def in_world_update)
  have same: "cs_world u = cs_world s" if "conn_handleHttpRequest env ?s = Inr u" for u
    using that assms(2) by (auto simp: conn_handleHttpRequest_def bind_res_eq_Inr Let_def)
  show ?thesis
  proof (cases "0 < bytes")
    case False
    then show ?thesis using assms Inr b
      by (simp add: handleRead_def handleError_def Let_def in_world_update handleClose_carries)
  next
    case True
    show ?thesis
    proof (cases "conn_handleHttpRequest env ?s")
      case (Inl f)
      with True \<open>readFromFd _ _ = Inr b\<close> b show ?thesis by (simp add: carries_def handleRead_def Let_def)
    next
      case (Inr u)
      with True \<open>readFromFd _ _ = Inr b\<close> b same [OF Inr] show ?thesis
        by (simp add: handleRead_def Let_def in_world_update w handleWrite_carries [OF assms(1)])
    qed
  qed
qed

lemma conn_exec_carries:
  assumes "callable env (cs_world s) v"
  shows "carries env v s (conn_exec env ev s) (conn_exec env ev (in_world v s))"
proof (cases ev)
  case Ev_Timeout
  show ?thesis unfolding Ev_Timeout
    using handleClose_carries [OF assms, of "s\<lparr>cs_conn := (cs_conn s)\<lparr>m_timeout := True\<rparr>\<rparr>"]
    by (simp add: closeLongConnection_def in_world_update)
qed (use assms in \<open>simp_all add: handleError_def handleRead_carries handleWrite_carries handleClose_carries\<close>)


lemma connectEstablished_carries: "carries env v s (connectEstablished env s) (connectEstablished env (in_world v s))"
  using on_channel_carries [of "setState kConnected s" s env v enableReading]
  by (simp add: connectEstablished_def setState_def in_world_update)

lemma connectDestroyed_carries: "carries env v s (connectDestroyed env s) (connectDestroyed env (in_world v s))"
proof (cases "assert_loop env s")
  case (Inl f)
  then show ?thesis by (simp add: connectDestroyed_def carries_fault)
next
  case (Inr s0)
  then have a: "assert_loop env s = Inr s" using assert_loop_same by metis
  show ?thesis
  proof (cases "m_state (cs_conn s) = kConnected")
    case False
    then show ?thesis using on_channel_carries [of s s env v channel_remove] by (simp add: connectDestroyed_def assert_loop_world a)
  next
    case True
    have st: "setState kDisconnected (in_world v s) = in_world v (setState kDisconnected s)" by (simp add: setState_def in_world_update)
    show ?thesis
    proof (cases "on_channel disableAll env (setState kDisconnected s)")
      case (Inl f)
      with True show ?thesis by (simp add: connectDestroyed_def a carries_fault)
    next
      case (Inr q)
      then have "cs_world q = cs_world s" by (auto simp: setState_def dest: on_channel_same_world)
      with True Inr on_channel_carries [of q s env v channel_remove] show ?thesis
        by (simp add: connectDestroyed_def assert_loop_world a st on_channel_world)
    qed
  qed
qed

subsection \<open>A server with an entry out of date\<close>

definition stale :: "nat \<Rightarrow> system \<Rightarrow> system \<Rightarrow> bool" where
  "stale l s s' \<longleftrightarrow> s' = s\<lparr>sv_loops := sv_loops s'\<rparr> \<and> (\<forall>k. k \<noteq> l \<longrightarrow> sv_loops s' k = sv_loops s k)"

lemma stale_refl [simp]: "stale l s s"
  by (simp add: stale_def)

lemma staleE:
  assumes "stale l s s'"
  obtains L where "s' = s\<lparr>sv_loops := L\<rparr>" "\<forall>k. k \<noteq> l \<longrightarrow> L k = sv_loops s k"
  using assms by (auto simp: stale_def)

lemma stale_put: "stale l s s' \<Longrightarrow> put_loop l lp s' = put_loop l lp s"
proof (erule staleE)
  fix L assume L: "s' = s\<lparr>sv_loops := L\<rparr>" "\<forall>k. k \<noteq> l \<longrightarrow> L k = sv_loops s k"
  then have "L(l \<mapsto> lp) = (sv_loops s)(l \<mapsto> lp)" by (auto simp: fun_eq_iff)
  with L(1) show ?thesis by (simp add: put_loop_def)
qed

lemma stale_fields:
  assumes "stale l s s'"
  shows "sy_conns s' = sy_conns s" "sv_conns s' = sv_conns s" "m_main_loop s' = m_main_loop s" "m_acceptor s' = m_acceptor s"
    "sy_accepts s' = sy_accepts s" "sy_refused s' = sy_refused s" "sy_news s' = sy_news s" "k \<noteq> l \<Longrightarrow> sv_loops s' k = sv_loops s k"
    "stale l (s\<lparr>sy_news := ns\<rparr>) (s'\<lparr>sy_news := ns\<rparr>)" "stale l (s\<lparr>sy_conns := cs\<rparr>) (s'\<lparr>sy_conns := cs\<rparr>)"
    "stale l (s\<lparr>sy_accepts := as, sy_refused := fs\<rparr>) (s'\<lparr>sy_accepts := as, sy_refused := fs\<rparr>)"
    "k \<noteq> l \<Longrightarrow> stale l (put_loop k q s) (put_loop k q s')"
proof -
  obtain L where "s' = s\<lparr>sv_loops := L\<rparr>" "\<forall>k. k \<noteq> l \<longrightarrow> L k = sv_loops s k" using assms by (rule staleE)
  then show "sy_conns s' = sy_conns s" "sv_conns s' = sv_conns s" "m_main_loop s' = m_main_loop s" "m_acceptor s' = m_acceptor s"
    "sy_accepts s' = sy_accepts s" "sy_refused s' = sy_refused s" "sy_news s' = sy_news s" "k \<noteq> l \<Longrightarrow> sv_loops s' k = sv_loops s k"
    "stale l (s\<lparr>sy_news := ns\<rparr>) (s'\<lparr>sy_news := ns\<rparr>)" "stale l (s\<lparr>sy_conns := cs\<rparr>) (s'\<lparr>sy_conns := cs\<rparr>)"
    "stale l (s\<lparr>sy_accepts := as, sy_refused := fs\<rparr>) (s'\<lparr>sy_accepts := as, sy_refused := fs\<rparr>)"
    "k \<noteq> l \<Longrightarrow> stale l (put_loop k q s) (put_loop k q s')"
    by (simp_all add: stale_def put_loop_def)
qed

text \<open>Both states have the same running loop, and an operation does the same to both.\<close>

definition follows :: "nat \<Rightarrow> (io_loop \<times> system) res \<Rightarrow> (io_loop \<times> system) res \<Rightarrow> bool" where
  "follows l r r' \<longleftrightarrow> (\<forall>lp s. r = Inr (lp, s) \<longrightarrow> (\<exists>s'. r' = Inr (lp, s') \<and> stale l s s'))"

lemma follows_refl [simp]: "follows l r r"
  by (simp add: follows_def)

lemma on_server_follows: "stale l s s' \<Longrightarrow> on_server f l (lp, s') = on_server f l (lp, s)"
  by (simp add: on_server_def stale_put)

lemma on_conn_follows:
  assumes "mid tid t l rem (lp, s)" "knows s a l x" "stale l s s'"
    and F: "\<And>p. callable (env_for e t a) s s' \<Longrightarrow> carries (env_for e t a) s' (join_conn lp p s) (F (join_conn lp p s)) (F (in_world s' (join_conn lp p s)))"
  shows "follows l (on_conn F a (lp, s)) (on_conn F a (lp, s'))"
  unfolding follows_def
proof (intro allI impI)
  fix lp2 s2 assume "on_conn F a (lp, s) = Inr (lp2, s2)"
  then obtain p u where u: "sy_conns s a = Some p" "F (join_conn lp p s) = Inr u" "lp2 = cs_loop u"
    "s2 = (cs_world u)\<lparr>sy_conns := (sy_conns (cs_world u))(a \<mapsto> conn_part_of u)\<rparr>"
    by (auto simp: on_conn_def bind_res_eq_Inr split: option.splits)
  note P = mid_pool [OF assms(1,2)]
  from P(3) obtain lm where lm: "sv_loops s (m_main_loop s) = Some lm" "m_tid lm = tid" by blast
  let ?put = "put_loop (m_main_loop s) (queueInLoop t (Fn_removeConnectionInLoop a) lm)"
  have cb: "e_close_callback (env_for e t a) c s = Inr (?put s)" "e_close_callback (env_for e t a) c s' = Inr (?put s')" for c
    using lm P(1,2) stale_fields(3,8) [OF assms(3)]
    by (simp_all add: env_for_def removeConnection_def run_in_def isInLoopThread_def queue_in_def)
  then have "callable (env_for e t a) s s'" by (simp add: callable_def)
  from F [OF this, of p] u(2) obtain v' where v: "F (in_world s' (join_conn lp p s)) = Inr (in_world v' u)"
    "cs_world u = s \<and> v' = s' \<or> cs_world u = ?put s \<and> v' = ?put s'"
    unfolding carries_def by (auto simp: cb)
  have st: "stale l (cs_world u) v'" using v(2) assms(3) stale_fields(12) [OF assms(3) P(1) [symmetric]] by auto
  have j: "join_conn lp p s' = in_world s' (join_conn lp p s)" by (simp add: join_conn_def in_world_def)
  have "on_conn F a (lp, s') = Inr (lp2, v'\<lparr>sy_conns := (sy_conns v')(a \<mapsto> conn_part_of u)\<rparr>)"
    using u(1,3) v(1) stale_fields(1) [OF assms(3)] by (simp add: on_conn_def j) (simp add: conn_part_of_def)
  moreover have "stale l s2 (v'\<lparr>sy_conns := (sy_conns v')(a \<mapsto> conn_part_of u)\<rparr>)"
    unfolding u(4) stale_fields(1) [OF st] by (rule stale_fields(10) [OF st])
  ultimately show "\<exists>s''. on_conn F a (lp, s') = Inr (lp2, s'') \<and> stale l s2 s''" by blast
qed

lemma new_connection_follows: "stale l s s' \<Longrightarrow> new_connection e t l fd (lp, s') = new_connection e t l fd (lp, s)"
  by (simp add: new_connection_def stale_fields on_server_follows [OF stale_fields(9)] split: list.split)

lemma accept_loop_follows:
  assumes "stale l s s'" "accept_loop cb (new_connection e t l) as cl (lp, s) = Inr ((lp2, s2), x, y)"
  shows "\<exists>s2'. accept_loop cb (new_connection e t l) as cl (lp, s') = Inr ((lp2, s2'), x, y) \<and> stale l s2 s2'"
  using assms
proof (induction as arbitrary: cl)
  case (Cons ans as)
  from Cons.prems(2) obtain fd where fd: "accept_socket ans = Inr fd" by (auto simp: bind_res_eq_Inr)
  show ?case
  proof (cases "fd < 0 \<or> fd > MAXFD \<or> \<not> cb")
    case True
    with Cons fd show ?thesis by (auto split: if_splits)
  next
    case False
    with Cons.prems fd new_connection_follows [OF Cons.prems(1)] show ?thesis by auto
  qed
qed simp

lemma handler_follows:
  assumes "mid tid t l rem (lp, s)" "handler_ok s l x h" "stale l s s'"
  shows "follows l (sys_handler e t l h (lp, s)) (sys_handler e t l h (lp, s'))"
proof (cases h)
  case H_wakeup
  with assms(3) show ?thesis by (simp add: follows_def)
next
  case H_timer
  with assms(3) show ?thesis by (auto simp: follows_def bind_res_eq_Inr)
next
  case H_accept
  show ?thesis unfolding follows_def
  proof (intro allI impI)
    fix lp2 s2 assume "sys_handler e t l h (lp, s) = Inr (lp2, s2)"
    with H_accept obtain u refused rest where u: "assertInLoopThread t lp = Inr ()"
      "accept_loop (m_new_conn_callback (m_acceptor s)) (new_connection e t l) (sy_accepts s) [] (lp, s) = Inr ((lp2, u), refused, rest)"
      "s2 = u\<lparr>sy_accepts := rest, sy_refused := sy_refused u @ refused\<rparr>"
      by (auto simp: acceptor_handleRead_def bind_res_eq_Inr)
    from accept_loop_follows [OF assms(3) u(2)] obtain u' where
      u': "accept_loop (m_new_conn_callback (m_acceptor s)) (new_connection e t l) (sy_accepts s) [] (lp, s') = Inr ((lp2, u'), refused, rest)"
      "stale l u u'" by blast
    have "stale l s2 (u'\<lparr>sy_accepts := rest, sy_refused := sy_refused u' @ refused\<rparr>)"
      unfolding u(3) stale_fields(6) [OF u'(2)] by (rule stale_fields(11) [OF u'(2)])
    with u(1) u'(1) stale_fields(4,5) [OF assms(3)] H_accept
    show "\<exists>s''. sys_handler e t l h (lp, s') = Inr (lp2, s'') \<and> stale l s2 s''" by (simp add: acceptor_handleRead_def)
  qed
next
  case (H_conn a ev)
  have "follows l (on_conn (conn_exec (env_for e t a) ev) a (lp, s)) (on_conn (conn_exec (env_for e t a) ev) a (lp, s'))"
    by (rule on_conn_follows [where e = e, OF assms(1) _ assms(3)]) (use assms(2) H_conn in \<open>auto intro: conn_exec_carries\<close>)
  with H_conn show ?thesis by simp
qed


subsection \<open>Functors and channels\<close>

lemma expired_follows:
  assumes "mid tid t l rem (lp, s)" "f \<in> timer_cbs (m_timer_heap lp)" "stale l s s'"
  shows "follows l (sys_call e t l f (lp, s)) (sys_call e t l f (lp, s'))"
proof -
  have "timer_ok s l f" using mid_knows(5) [OF assms(1)] assms(2) by (auto simp: loop_typed_def)
  then obtain a x where k: "f = Fn_closeLongConnection a" "knows s a l x" by (cases f) auto
  have c: "closeLongConnection (env_for e t a) = conn_exec (env_for e t a) Ev_Timeout" by (simp add: fun_eq_iff)
  show ?thesis unfolding k(1) sys_call.simps c
    by (rule on_conn_follows [where e = e, OF assms(1) k(2) assms(3)], rule conn_exec_carries, simp)
qed

lemma timeouts_follow:
  assumes "run_timeouts_loop (sys_call e t l) now r = Some y" "r = (lp, s)" "mid tid t l rem (lp, s)" "stale l s s'" "y = Inr (lp2, s2)"
  shows "\<exists>s2'. run_timeouts_loop (sys_call e t l) now (lp, s') = Some (Inr (lp2, s2')) \<and> stale l s2 s2'"
proof -
  let ?P = "\<lambda>ex now r y. ex = sys_call e t l \<longrightarrow> (\<forall>lp s s'. r = (lp, s) \<longrightarrow> mid tid t l rem (lp, s) \<longrightarrow> stale l s s' \<longrightarrow> y = Inr (lp2, s2) \<longrightarrow>
    (\<exists>s2'. run_timeouts_loop ex now (lp, s') = Some (Inr (lp2, s2')) \<and> stale l s2 s2'))"
  have "?P (sys_call e t l) now r y"
  proof (rule run_timeouts_loop.raw_induct [OF _ assms(1), where P = ?P], intro impI allI)
    fix g :: "(functor_name \<Rightarrow> io_loop \<times> system \<Rightarrow> (io_loop \<times> system) res) \<Rightarrow> int \<Rightarrow> io_loop \<times> system \<Rightarrow> (io_loop \<times> system) res option"
      and ex now r y lp s s'
    assume IH: "\<And>ex now r y. g ex now r = Some y \<Longrightarrow> ?P ex now r y"
      and h: "r = (lp, s)" "mid tid t l rem (lp, s)" "stale l s s'" "y = Inr (lp2, s2)" and ex: "ex = sys_call e t l"
      and step: "(case m_min_heap (m_timer_heap (fst r)) of [] \<Rightarrow> Some (Inr r)
        | tm # ts \<Rightarrow> if m_expire_time tm > now then Some (Inr r)
          else (case ex (m_cb tm) r of Inl e \<Rightarrow> Some (Inl e)
             | Inr (lp, w) \<Rightarrow> g ex now (lp\<lparr>m_timer_heap := (m_timer_heap lp)\<lparr>m_min_heap := pop (m_min_heap (m_timer_heap lp))\<rparr>\<rparr>, w))) = Some y"
    show "\<exists>s2'. run_timeouts_loop ex now (lp, s') = Some (Inr (lp2, s2')) \<and> stale l s2 s2'"
    proof (cases "m_min_heap (m_timer_heap lp)")
      case Nil
      with step h show ?thesis by (subst run_timeouts_loop.simps) auto
    next
      case (Cons tm ts)
      show ?thesis
      proof (cases "m_expire_time tm > now")
        case True
        with step h Cons show ?thesis by (subst run_timeouts_loop.simps) auto
      next
        case False
        with step h Cons obtain lq w where c: "sys_call e t l (m_cb tm) (lp, s) = Inr (lq, w)"
          "g ex now (lq\<lparr>m_timer_heap := (m_timer_heap lq)\<lparr>m_min_heap := pop (m_min_heap (m_timer_heap lq))\<rparr>\<rparr>, w) = Some y"
          unfolding ex by (auto split: sum.splits)
        let ?lq = "lq\<lparr>m_timer_heap := (m_timer_heap lq)\<lparr>m_min_heap := pop (m_min_heap (m_timer_heap lq))\<rparr>\<rparr>"
        have cb: "m_cb tm \<in> timer_cbs (m_timer_heap lp)" using Cons by (auto simp: timer_cbs_def)
        from expired_follows [OF h(2) cb h(3), of e] c(1) obtain w' where
          w: "sys_call e t l (m_cb tm) (lp, s') = Inr (lq, w')" "stale l w w'" by (auto simp: follows_def)
        have "mid tid t l rem (?lq, w)" by (rule mid_to_mid [OF mid_pop [OF mid_to_mid [OF mid_expired [OF h(2) cb c(1)]]]])
        with IH [OF c(2)] ex w(2) h(4) have "\<exists>s2'. run_timeouts_loop ex now (?lq, w') = Some (Inr (lp2, s2')) \<and> stale l s2 s2'" by blast
        with Cons False w(1) show ?thesis unfolding ex by (subst run_timeouts_loop.simps) simp
      qed
    qed
  qed
  with assms(2-5) show ?thesis by blast
qed

lemma functor_follows:
  assumes "mid tid t l rem (lp, s)" "f \<in> set (rem l)" "stale l s s'"
  shows "follows l (sys_functor e t l f (lp, s)) (sys_functor e t l f (lp, s'))"
proof -
  note ok = mid_rest_typed [OF assms(1,2)]
  show ?thesis
  proof (cases f)
    case (Fn_connectEstablished a)
    with ok obtain x where k: "knows s a l x" by auto
    show ?thesis unfolding Fn_connectEstablished sys_functor_def
      using on_conn_follows [where e = e, OF assms(1) k assms(3) connectEstablished_carries] by simp
  next
    case (Fn_connectDestroyed a)
    with ok obtain x where k: "knows s a l x" by auto
    show ?thesis unfolding Fn_connectDestroyed sys_functor_def
      using on_conn_follows [where e = e, OF assms(1) k assms(3) connectDestroyed_carries] by simp
  next
    case (Fn_removeConnectionInLoop a)
    with on_server_follows [OF assms(3)] show ?thesis by (simp add: sys_functor_def)
  next
    case Fn_handleTimeoutEvents
    show ?thesis unfolding follows_def
    proof (intro allI impI)
      fix lp2 s2 assume "sys_functor e t l f (lp, s) = Inr (lp2, s2)"
      with Fn_handleTimeoutEvents have "run_timeouts_loop (sys_call e t l) (se_now e) (lp, s) = Some (Inr (lp2, s2))"
        by (auto simp: sys_functor_def run_timeouts_def split: option.splits)
      from timeouts_follow [OF this refl assms(1,3) refl] Fn_handleTimeoutEvents
      show "\<exists>s''. sys_functor e t l f (lp, s') = Inr (lp2, s'') \<and> stale l s2 s''" by (auto simp: sys_functor_def run_timeouts_def)
    qed
  qed (use ok in simp_all)
qed

lemma call_all_follows:
  assumes "call_all (sys_handler e t l) hs (lp, s) = Inr (lp2, s2)" "mid tid t l rem (lp, s)" "\<And>h. Some h \<in> set hs \<Longrightarrow> handler_ok s l x h"
    and "stale l s s'"
  shows "\<exists>s2'. call_all (sys_handler e t l) hs (lp, s') = Inr (lp2, s2') \<and> stale l s2 s2'"
  using assms
proof (induction hs arbitrary: lp s s')
  case (Cons h hs)
  from Cons.prems(1) obtain lq sq where q: "call (sys_handler e t l) h (lp, s) = Inr (lq, sq)" "call_all (sys_handler e t l) hs (lq, sq) = Inr (lp2, s2)"
    by (auto simp: bind_res_eq_Inr)
  have 1: "(\<exists>sq'. call (sys_handler e t l) h (lp, s') = Inr (lq, sq') \<and> stale l sq sq') \<and> mid_to tid t l rem rem (lp, s) (lq, sq)"
  proof (cases h)
    case None
    with q(1) Cons.prems(2,4) show ?thesis by (auto simp: call_def mid_to_def)
  next
    case (Some g)
    then have ok: "handler_ok s l x g" using Cons.prems(3) by simp
    have run: "sys_handler e t l g (lp, s) = Inr (lq, sq)" using q(1) Some by (simp add: call_def)
    from handler_follows [OF Cons.prems(2) ok Cons.prems(4), of e] mid_handler [OF Cons.prems(2) ok run] run Some
    show ?thesis by (simp add: follows_def call_def)
  qed
  then obtain sq' where sq': "call (sys_handler e t l) h (lp, s') = Inr (lq, sq')" "stale l sq sq'" by blast
  have "handler_ok sq l x g" if "Some g \<in> set hs" for g
    using Cons.prems(3) [of g] that 1 by (cases g) (auto simp: mid_to_def)
  from Cons.IH [OF q(2) _ this sq'(2)] 1 sq'(1) show ?case by (simp add: mid_to_def)
qed simp

lemma mark_follows: "mark_object x b (lp, s) = Inr (lp2, s2) \<Longrightarrow> s2 = s \<and> mark_object x b (lp, s') = Inr (lp2, s')"
  by (auto simp: mark_object_def bind_res_eq_Inr)

lemma dispatch_follows:
  assumes "dispatch (sys_handler e t l) x (lp, s) = Inr (lp2, s2)" "mid tid t l rem (lp, s)" "stale l s s'"
  shows "\<exists>s2'. dispatch (sys_handler e t l) x (lp, s') = Inr (lp2, s2') \<and> stale l s2 s2'"
proof -
  let ?lp = "lp\<lparr>m_current_active_channel := Some x\<rparr>"
  from assms(1) obtain ch lp1 s1 lp3 s3 where d: "lp_objects ?lp x = Some ch" "mark_object x True (?lp, s) = Inr (lp1, s1)"
    "call_all (sys_handler e t l) (due_handlers ch) (lp1, s1) = Inr (lp3, s3)" "mark_object x False (lp3, s3) = Inr (lp2, s2)"
    by (auto simp: dispatch_def handleEvent_due Let_def object_def bind_res_eq_Inr split: option.splits)
  from mark_object_quiet [OF d(2)] have l1: "s1 = s" "quiet ?lp lp1" by auto
  then have "quiet lp lp1" by (simp add: quiet_def)
  from mid_quiet [OF assms(2) this] have 1: "mid tid t l rem (lp1, s)" by (simp add: mid_to_def)
  have "handlers_at lp x = Some (handlers_of ch)" using d(1) by (simp add: handlers_at_def)
  then have "handler_ok s l x h" if "Some h \<in> set (due_handlers ch)" for h
    using mid_knows(5) [OF assms(2)] that set_due_handlers [of ch] unfolding loop_typed_def handlers_at_flags by auto
  from call_all_follows [OF d(3) [unfolded l1(1)] 1 this assms(3)] obtain s3' where
    s3: "call_all (sys_handler e t l) (due_handlers ch) (lp1, s') = Inr (lp3, s3')" "stale l s3 s3'" by blast
  from mark_follows [OF d(2), of s'] have m1: "mark_object x True (?lp, s') = Inr (lp1, s')" by blast
  from mark_follows [OF d(4), of s3'] have m2: "mark_object x False (lp3, s3') = Inr (lp2, s3')" "s2 = s3" by blast+
  have "dispatch (sys_handler e t l) x (lp, s') = Inr (lp2, s3')"
    using d(1) m1 s3(1) m2(1) by (simp add: dispatch_def Let_def object_def handleEvent_due)
  with s3(2) m2(2) show ?thesis by blast
qed


subsection \<open>Turns\<close>

lemma at_pc_simps [simp]: "th_sys (at_pc l pc r (lp, s)) = put_loop l lp s" "th_pc (at_pc l pc r (lp, s)) = (th_pc r)(l := pc)"
  by (simp_all add: at_pc_def)

lemma stale_own: "stale l s (put_loop l lp s)"
  by (simp add: stale_def put_loop_def)

text \<open>The channels, one after the other; \<open>s\<close> is the server with the entry that the turn does not look at.\<close>

lemma dispatches_move:
  assumes "dispatch_all (sys_handler e t l) xs (lp, s) = Inr (lp2, s2)" "mid tid t l (\<lambda>k. rest_of (th_pc r k)) (lp, s)"
    and "th_sys r = put_loop l lp s" "th_pc r l = In_Dispatch xs"
  shows "server_step\<^sup>*\<^sup>* r (at_pc l (In_Dispatch []) r (lp2, s2))"
  using assms
proof (induction xs arbitrary: r lp s)
  case Nil
  then have "at_pc l (In_Dispatch []) r (lp2, s2) = r" by (simp add: at_pc_def) (cases r; auto)
  then show ?case by simp
next
  case (Cons x xs)
  let ?rem = "\<lambda>k. rest_of (th_pc r k)"
  from Cons.prems(1) obtain lq sq where q: "dispatch (sys_handler e t l) x (lp, s) = Inr (lq, sq)" "dispatch_all (sys_handler e t l) xs (lq, sq) = Inr (lp2, s2)"
    by (auto simp: bind_res_eq_Inr)
  from dispatch_follows [OF q(1) Cons.prems(2) stale_own] obtain sq' where
    sq: "dispatch (sys_handler e t l) x (lp, put_loop l lp s) = Inr (lq, sq')" "stale l sq sq'" by blast
  have tid: "m_tid lp = t" using Cons.prems(2) by (simp add: mid_def)
  let ?r = "at_pc l (In_Dispatch xs) r (lq, sq')"
  have "loop_move e l (Wt_Events []) r = Inr ?r" using Cons.prems(3,4) sq(1) tid by (simp add: loop_move_def Let_def)
  then have 1: "server_step r ?r" by (rule loop_moves)
  have "(\<lambda>k. rest_of (((th_pc r)(l := In_Dispatch xs)) k)) = ?rem" using Cons.prems(4) by (auto simp: fun_eq_iff)
  then have 2: "mid tid t l (\<lambda>k. rest_of (th_pc ?r k)) (lq, sq)" using mid_to_mid [OF mid_dispatch [OF q(1) Cons.prems(2)]] by simp
  have "th_sys ?r = put_loop l lq sq" by (simp add: stale_put [OF sq(2)])
  from Cons.IH [OF q(2) 2 this] have "server_step\<^sup>*\<^sup>* ?r (at_pc l (In_Dispatch []) ?r (lp2, s2))" by simp
  moreover have "at_pc l (In_Dispatch []) ?r (lp2, s2) = at_pc l (In_Dispatch []) r (lp2, s2)" by (simp add: at_pc_def)
  ultimately show ?case using 1 by (metis converse_rtranclp_into_rtranclp)
qed

lemma calls_move:
  assumes "run_functors (sys_functor e t l) fs (lp, s) = Inr (lp2, s2)" "mid tid t l (\<lambda>k. rest_of (th_pc r k)) (lp, s)"
    and "th_sys r = put_loop l lp s" "th_pc r l = In_Calls fs"
  shows "server_step\<^sup>*\<^sup>* r (at_pc l (In_Calls []) r (lp2, s2))"
  using assms
proof (induction fs arbitrary: r lp s)
  case Nil
  then have "at_pc l (In_Calls []) r (lp2, s2) = r" by (simp add: at_pc_def) (cases r; auto)
  then show ?case by simp
next
  case (Cons f fs)
  let ?rem = "\<lambda>k. rest_of (th_pc r k)"
  from Cons.prems(1) obtain lq sq where q: "sys_functor e t l f (lp, s) = Inr (lq, sq)" "run_functors (sys_functor e t l) fs (lq, sq) = Inr (lp2, s2)"
    by (auto simp: bind_res_eq_Inr)
  have rem: "?rem l = f # fs" using Cons.prems(4) by simp
  then have "f \<in> set (?rem l)" by simp
  from functor_follows [OF Cons.prems(2) this stale_own, of e] q(1) obtain sq' where
    sq: "sys_functor e t l f (lp, put_loop l lp s) = Inr (lq, sq')" "stale l sq sq'" by (auto simp: follows_def)
  have tid: "m_tid lp = t" using Cons.prems(2) by (simp add: mid_def)
  let ?r = "at_pc l (In_Calls fs) r (lq, sq')"
  have "loop_move e l (Wt_Events []) r = Inr ?r" using Cons.prems(3,4) sq(1) tid by (simp add: loop_move_def Let_def)
  then have 1: "server_step r ?r" by (rule loop_moves)
  have "(\<lambda>k. rest_of (((th_pc r)(l := In_Calls fs)) k)) = ?rem(l := fs)" by (auto simp: fun_eq_iff)
  then have 2: "mid tid t l (\<lambda>k. rest_of (th_pc ?r k)) (lq, sq)"
    using mid_to_mid [OF mid_sys_functor [OF Cons.prems(2) rem q(1)]] by simp
  have "th_sys ?r = put_loop l lq sq" by (simp add: stale_put [OF sq(2)])
  from Cons.IH [OF q(2) 2 this] have "server_step\<^sup>*\<^sup>* ?r (at_pc l (In_Calls []) ?r (lp2, s2))" by simp
  moreover have "at_pc l (In_Calls []) ?r (lp2, s2) = at_pc l (In_Calls []) r (lp2, s2)" by (simp add: at_pc_def)
  ultimately show ?case using 1 by (metis converse_rtranclp_into_rtranclp)
qed

text \<open>A whole turn. The other loops may be anywhere in theirs.\<close>

lemma turn_moves:
  assumes "server_inv tid r" "th_pc r l = In_Poll" "sys_turn e l ans (th_sys r) = Inr s'"
  shows "server_step\<^sup>*\<^sup>* r (r\<lparr>th_sys := s'\<rparr>)"
proof -
  let ?s = "th_sys r" and ?rem = "\<lambda>k. rest_of (th_pc r k)"
  from assms(3) obtain lp where lp: "sv_loops ?s l = Some lp" by (auto simp: sys_turn_def the_loop_def bind_res_eq_Inr split: option.splits)
  let ?t = "m_tid lp"
  from assms(3) lp obtain act st ep lp2 s2 lp4 s4 where
    d: "poll ans (lp_objects lp) (m_epoll lp) [] = Inr (act, st, ep)"
      "dispatch_all (sys_handler e ?t l) act (lp\<lparr>m_active_channels := act, lp_objects := st, m_epoll := ep, m_loop_event_handling := True\<rparr>, ?s) = Inr (lp2, s2)"
    and p: "doPendingFunctors (sys_functor e ?t l) (lp2\<lparr>m_current_active_channel := None, m_loop_event_handling := False\<rparr>, s2) = Inr (lp4, s4)"
    and s': "s' = put_loop l lp4 s4"
    by (auto simp: sys_turn_def loop_turn_def Let_def bind_res_eq_Inr)
  let ?lp1 = "lp\<lparr>m_active_channels := act, lp_objects := st, m_epoll := ep, m_loop_event_handling := True\<rparr>"
  let ?lp3 = "lp2\<lparr>m_current_active_channel := None, m_loop_event_handling := False, m_calling_pending_functors := True, m_pending_functors := []\<rparr>"
  from p obtain lp5 where f: "run_functors (sys_functor e ?t l) (m_pending_functors lp2) (?lp3, s2) = Inr (lp5, s4)"
    "lp4 = lp5\<lparr>m_calling_pending_functors := False\<rparr>"
    by (auto simp: doPendingFunctors_def swap_functors_def bind_res_eq_Inr)
  let ?r1 = "at_pc l (In_Dispatch act) r (?lp1, ?s)"
  have "loop_move e l ans r = Inr ?r1" using lp assms(2) d(1) by (simp add: loop_move_def Let_def)
  then have 1: "server_step r ?r1" by (rule loop_moves)
  have "handlers_at ?lp1 = handlers_at lp" using poll_handlers [OF d(1)] by (simp add: handlers_at_def fun_eq_iff)
  then have "quiet lp ?lp1" by (simp add: quiet_def)
  from mid_to_mid [OF mid_quiet [OF mid_whole [OF assms(1) lp] this]] have m1: "mid tid ?t l ?rem (?lp1, ?s)" .
  have "(\<lambda>k. rest_of (th_pc ?r1 k)) = ?rem" using assms(2) by (auto simp: fun_eq_iff)
  with m1 have "mid tid ?t l (\<lambda>k. rest_of (th_pc ?r1 k)) (?lp1, ?s)" by metis
  from dispatches_move [OF d(2) this] have 2: "server_step\<^sup>*\<^sup>* ?r1 (at_pc l (In_Dispatch []) r (lp2, s2))" by (simp add: at_pc_def)
  note m2 = mid_to_mid [OF mid_dispatch_all [OF d(2) m1]]
  then have tid2: "m_tid lp2 = ?t" by (simp add: mid_def)
  let ?r2 = "at_pc l (In_Dispatch []) r (lp2, s2)" and ?r3 = "at_pc l (In_Calls (m_pending_functors lp2)) r (?lp3, s2)"
  have "loop_move e l ans ?r2 = Inr (at_pc l (In_Calls (m_pending_functors lp2)) ?r2 (?lp3, put_loop l lp2 s2))"
    by (simp add: loop_move_def Let_def swap_functors_def)
  moreover have "at_pc l (In_Calls (m_pending_functors lp2)) ?r2 (?lp3, put_loop l lp2 s2) = ?r3" by (simp add: at_pc_def)
  ultimately have 3: "server_step ?r2 ?r3" by (metis loop_moves)
  have "mid tid ?t l (?rem(l := m_pending_functors lp2)) (?lp3, s2)" by (rule mid_to_mid [OF mid_loop [OF m2]]) (simp_all add: assms(2))
  moreover have "(\<lambda>k. rest_of (((th_pc r)(l := In_Calls (m_pending_functors lp2))) k)) = ?rem(l := m_pending_functors lp2)" by (simp add: fun_eq_iff)
  ultimately have "mid tid ?t l (\<lambda>k. rest_of (th_pc ?r3 k)) (?lp3, s2)" by simp
  from calls_move [OF f(1) this] have 4: "server_step\<^sup>*\<^sup>* ?r3 (at_pc l (In_Calls []) r (lp5, s4))" by (simp add: at_pc_def)
  let ?r5 = "at_pc l (In_Calls []) r (lp5, s4)"
  have "loop_move e l ans ?r5 = Inr (at_pc l In_Poll ?r5 (lp4, put_loop l lp5 s4))" by (simp add: loop_move_def Let_def f(2))
  moreover have "at_pc l In_Poll ?r5 (lp4, put_loop l lp5 s4) = r\<lparr>th_sys := s'\<rparr>"
    using assms(2) by (simp add: at_pc_def s') (cases r; auto)
  ultimately have 5: "server_step ?r5 (r\<lparr>th_sys := s'\<rparr>)" by (metis loop_moves)
  from 1 2 3 4 5 show ?thesis by (meson converse_rtranclp_into_rtranclp rtranclp.rtrancl_into_rtrancl rtranclp_trans)
qed

end
