(* ===== verification/ServerSafety.thy ===== *)
theory ServerSafety
  imports TurnMoves
begin

text \<open>
  The states that the server can reach, from the start on, with any interleaving of its threads; what holds
  in all of them.
\<close>

subsection \<open>The start\<close>

text \<open>A loop as its constructor leaves it: nothing queued, no timers, only the handlers of the loop and the acceptor.\<close>

definition unused_loop :: "io_loop \<Rightarrow> bool" where
  "unused_loop lp \<longleftrightarrow> m_pending_functors lp = [] \<and> timer_cbs (m_timer_heap lp) = {} \<and>
     (\<forall>x hs h. handlers_at lp x = Some hs \<longrightarrow> Some h \<in> set hs \<longrightarrow> h \<in> {H_wakeup, H_timer, H_accept})"

definition server_begin :: "nat \<Rightarrow> threads \<Rightarrow> bool" where
  "server_begin tid r \<longleftrightarrow> server_ok tid (th_sys r) \<and> sv_conns (th_sys r) = Map.empty \<and> sy_conns (th_sys r) = Map.empty \<and>
     sy_news (th_sys r) = [] \<and> (\<forall>l. th_pc r l = In_Poll) \<and>
     (\<forall>l lp. sv_loops (th_sys r) l = Some lp \<longrightarrow>
        l \<in> insert (m_main_loop (th_sys r)) (set (m_loops (m_pool (th_sys r)))) \<and> unused_loop lp)"

lemma begin_inv: "server_begin tid r \<Longrightarrow> server_inv tid r"
proof -
  assume b: "server_begin tid r"
  let ?s = "th_sys r"
  have "whole r = ?s" using b by (simp add: whole_def server_begin_def)
  moreover have "\<not> knows ?s a l x" for a l x using b by (simp add: knows_def server_begin_def)
  moreover have "loop_typed ?s l lp" if "sv_loops ?s l = Some lp" for l lp
  proof -
    have "unused_loop lp" using b that by (auto simp: server_begin_def)
    moreover have "handler_ok ?s l x h" if "h \<in> {H_wakeup, H_timer, H_accept}" for x h using that by auto
    ultimately show ?thesis unfolding loop_typed_def unused_loop_def by auto
  qed
  ultimately show ?thesis using b
    by (auto simp: server_inv_def sound_def ledger_def well_typed_def fresh_news_def server_begin_def)
qed

interpretation server_runs: safety_machine "server_begin tid" server_step "server_inv tid" for tid
  by unfold_locales (auto intro: begin_inv dest: server_step_inv)

lemmas reachable_inv = server_runs.reach_inv

lemma reach_steps: "server_step\<^sup>*\<^sup>* r r' \<Longrightarrow> reach (server_begin tid) server_step r \<Longrightarrow> reach (server_begin tid) server_step r'"
  by (induction rule: rtranclp_induct) (auto intro: reach_step)

text \<open>Turns of waiting loops stay within the reachable states.\<close>

lemma reach_turn:
  assumes "reach (server_begin tid) server_step r" "th_pc r l = In_Poll" "sys_turn e l ans (th_sys r) = Inr s"
  shows "reach (server_begin tid) server_step (r\<lparr>th_sys := s\<rparr>)"
  by (rule reach_steps [OF turn_moves [OF reachable_inv [OF assms(1)] assms(2,3)] assms(1)])

lemma reach_turns:
  "sys_turns ts (th_sys r) = Inr s \<Longrightarrow> reach (server_begin tid) server_step r \<Longrightarrow> \<forall>l. th_pc r l = In_Poll \<Longrightarrow>
   reach (server_begin tid) server_step (r\<lparr>th_sys := s\<rparr>)"
proof (induction ts arbitrary: r)
  case Nil
  then have "r\<lparr>th_sys := s\<rparr> = r" by (cases r) simp
  then show ?case using Nil(2) by metis
next
  case (Cons t ts)
  obtain e l ans where t: "t = (e, l, ans)" by (cases t)
  with Cons.prems(1) obtain s1 where s1: "sys_turn e l ans (th_sys r) = Inr s1" "sys_turns ts s1 = Inr s" by (auto simp: bind_res_eq_Inr)
  from reach_turn [OF Cons.prems(2) _ s1(1)] Cons.prems(3) have "reach (server_begin tid) server_step (r\<lparr>th_sys := s1\<rparr>)" by simp
  from Cons.IH [of "r\<lparr>th_sys := s1\<rparr>", OF _ this] s1(2) Cons.prems(3) show ?case by simp
qed

lemma add_reader_quiet:
  assumes "add_reader u tid kctl (x, fd, h) lp = Inr lp'"
  shows "m_tid lp' = m_tid lp" "m_pending_functors lp' = m_pending_functors lp" "m_timer_heap lp' = m_timer_heap lp"
    "handlers_at lp' = (handlers_at lp)(x \<mapsto> [Some h, None, None, None])"
proof -
  have "quiet (store_object x (setReadHandler h (new_channel u x (lp_id lp) fd)) lp) lp'"
    using assms by (auto simp: add_reader_def enableReading_def intro: quiet_ops)
  then show "m_tid lp' = m_tid lp" "m_pending_functors lp' = m_pending_functors lp" "m_timer_heap lp' = m_timer_heap lp"
    "handlers_at lp' = (handlers_at lp)(x \<mapsto> [Some h, None, None, None])"
    by (simp_all add: quiet_def handlers_of_def new_channel_def) (simp_all add: store_object_def)
qed

lemma unused_add:
  assumes "add_reader u tid kctl (x, fd, h) lp = Inr lp'" "unused_loop lp" "h \<in> {H_wakeup, H_timer, H_accept}"
  shows "unused_loop lp'"
  using assms(2,3) add_reader_quiet [OF assms(1)] by (auto simp: unused_loop_def split: if_splits)

lemma unused_new_loop:
  assumes "new_loop u kctl lid tid None (ta, tfd, H_timer) (wa, wfd, H_wakeup) = Inr (lp :: io_loop)"
  shows "unused_loop lp"
proof -
  from assms obtain lp1 where l: "add_reader u tid kctl (ta, tfd, H_timer) (blank_loop lid tid) = Inr lp1"
    "add_reader u tid kctl (wa, wfd, H_wakeup) lp1 = Inr lp" by (auto simp: new_loop_def bind_res_eq_Inr)
  have "unused_loop (blank_loop lid tid)" by (simp add: unused_loop_def blank_loop_def handlers_at_def timer_cbs_def new_timer_heap_def)
  from unused_add [OF l(1) this] unused_add [OF l(2)] show ?thesis by simp
qed

lemma unused_listen:
  assumes "acceptor_listen tid kctl (acc, lp) = Inr (acc', lp')" "unused_loop lp"
  shows "unused_loop lp'"
proof -
  have "quiet lp lp'" using assms(1) by (auto simp: acceptor_listen_def bind_res_eq_Inr enableReading_def intro: quiet_ops)
  with assms(2) show ?thesis by (simp add: unused_loop_def quiet_def)
qed

lemma unused_store:
  "unused_loop lp \<Longrightarrow> unused_loop (store_object x ((new_channel u a i fd)\<lparr>m_read_handler := Some H_accept\<rparr>) lp)"
proof -
  assume "unused_loop lp"
  moreover have "m_pending_functors (store_object x ch lp) = m_pending_functors lp" "m_timer_heap (store_object x ch lp) = m_timer_heap lp" for ch
    by (simp_all add: store_object_def)
  ultimately show ?thesis by (auto simp: unused_loop_def handlers_of_def new_channel_def split: if_splits)
qed

lemma start_threads_loops:
  "sv_loops (start_threads new_loops i n s) k = Some lp \<Longrightarrow>
   sv_loops s k = Some lp \<or> (\<exists>j. i \<le> j \<and> j < i + n \<and> new_loops j = (k, lp))"
proof (induction new_loops i n s rule: start_threads.induct)
  case (2 new_loops i n s)
  obtain l q where l: "new_loops i = (l, q)" by fastforce
  from 2(1) [OF l [symmetric]] 2(2) l show ?case by (auto split: if_splits intro: exI [of _ i])
qed simp

text \<open>The started server.\<close>

lemma started_begin:
  assumes lp: "loop_ok tid (se_kctl e) lp" "rests lp" "reads lp (wk l) H_wakeup" "seen_at lp x = None" "\<not> fd_used lp fd"
    and pool: "pool_loops (se_kctl e) l tid wk new_loops"
    and unused: "unused_loop lp" "\<forall>j. unused_loop (snd (new_loops j))"
    and t: "sys_start e new_loops tid (new_system u l lp name fd x reuse_port accepts news) = Inr t"
  shows "server_begin tid \<lparr>th_sys = t\<lparr>sy_news := []\<rparr>, th_pc = \<lambda>_. In_Poll\<rparr>"
proof -
  from system_starts_law [OF lp pool, of u name reuse_port accepts news] t(1) have
    s: "sys_waits (se_kctl e) tid wk t" "m_main_loop t = l" "m_loops (m_pool t) = map (\<lambda>j. fst (new_loops j)) [0..<4]"
      "sv_conns t = Map.empty" "sy_conns t = Map.empty" by auto
  obtain acc lp1 where a: "new_acceptor u fd x H_accept reuse_port lp = (acc, lp1)" by fastforce
  have u1: "unused_loop lp1"
    using a unused_store [OF unused(1)] by (auto simp: new_acceptor_def)
  have tid: "m_tid lp1 = tid" using a lp(1) by (auto simp: new_acceptor_def store_object_def loop_ok_def)
  let ?S = "new_system u l lp name fd x reuse_port accepts news"
  let ?S1 = "?S\<lparr>m_started := True, m_pool := (m_pool ?S)\<lparr>m_pool_started := True\<rparr>\<rparr>"
  define s1 where "s1 = start_threads new_loops 0 4 ?S1"
  have S: "sv_loops ?S = [l \<mapsto> lp1]" "m_main_loop ?S = l" "m_thread_nums (m_pool ?S) = 4"
    using a by (simp_all add: new_system_def new_server_def new_pool_def DEFAUTL_THREAD_NUMS_def)
  have "\<forall>j k. fst (new_loops j) = fst (new_loops k) \<longrightarrow> j = k" using pool by (simp add: pool_loops_def)
  from start_threads_law [OF this, of 0 4 ?S1, folded s1_def] pool S
  have s1: "m_main_loop s1 = l" "sv_loops s1 l = Some lp1" by (auto simp: pool_loops_def eq_commute [of l])
  have "pool_start new_loops tid (?S\<lparr>m_started := True\<rparr>) = Inr s1"
    using S tid by (simp add: pool_start_def assert_in_def assertInLoopThread_def isInLoopThread_def the_loop_def s1_def)
  then have "run_at_main e tid Fn_listen s1 = Inr t"
    using t(1) s1 tid by (simp add: sys_start_def server_start_def run_in_def isInLoopThread_def)
  then obtain acc' lp2 where l2: "acceptor_listen tid (se_kctl e) (m_acceptor s1, lp1) = Inr (acc', lp2)"
    "t = put_loop l lp2 (s1\<lparr>m_acceptor := acc'\<rparr>)"
    using s1 by (auto simp: run_at_main_def sys_functor_def bind_res_eq_Inr)
  have "k \<in> insert l (set (m_loops (m_pool t))) \<and> unused_loop q" if "sv_loops t k = Some q" for k q
  proof (cases "k = l")
    case True
    with that l2(2) unused_listen [OF l2(1) u1] show ?thesis by simp
  next
    case False
    with that l2(2) have "sv_loops s1 k = Some q" by simp
    with False S obtain j where "j < 4" "new_loops j = (k, q)" using start_threads_loops [of new_loops 0 4 ?S1 k q] by (auto simp: s1_def)
    then have "k = fst (new_loops j)" "q = snd (new_loops j)" "j \<in> set [0..<4]" by simp_all
    with unused(2) show ?thesis unfolding s(3) set_map by blast
  qed
  then show ?thesis using s by (simp add: server_begin_def sys_waits_def)
qed

end
