(* ===== verification/ServerEvents.thy ===== *)
theory ServerEvents
  imports ServerKept ServerSafety
begin

text \<open>
  The events that a loop handles while the other threads go on. \<open>loop_move\<close> is undefined behaviour in one case
  only, \<open>stale_channel\<close>: the kernel reports, or the loop comes to handle, a pointer to a channel that is
  gone, or the kernel reports more events than it was asked for. Everything else that a handler, a functor or
  the poller uses is there, in every state that the steps of the server reach with clients that keep to the
  bounds of \<open>served\<close> (\<open>served_step\<close>). And a connection whose loop handles the events it took from the poller is
  destroyed by no step of any thread (\<open>dispatching_step\<close>).
\<close>

subsection \<open>Dispatch\<close>

lemma call_all_safe: "P r \<Longrightarrow> (\<And>h r. Some h \<in> set hs \<Longrightarrow> P r \<Longrightarrow> safe P (run h r)) \<Longrightarrow> safe P (call_all run hs r)"
proof (induction hs arbitrary: r)
  case (Cons h hs)
  have "safe P (call run h r)" using Cons.prems by (cases h) (auto simp: call_def)
  then show ?case unfolding call_all.simps by (rule safe_bind) (use Cons in auto)
qed simp

lemma mark_object_safe:
  assumes "lp_objects lp x \<noteq> None"
  shows "safe (\<lambda>r. \<exists>lp'. r = (lp', s) \<and> quiet lp lp') (mark_object x b (lp, s))"
  using mark_object_quiet [of x b lp s] assms by (cases "mark_object x b (lp, s)") (auto simp: mark_object_def object_def)

lemma served_quiet: "mid tid t k rem (lp, s) \<Longrightarrow> served s \<Longrightarrow> quiet lp lp' \<Longrightarrow> served_to tid t k rem rem (lp, s) (lp', s)"
  by (auto simp: served_to_def quiet_def intro: mid_quiet [unfolded quiet_def] kept_loop)

lemma quiet_object: "quiet lp lp' \<Longrightarrow> lp_objects lp' x = None \<longleftrightarrow> lp_objects lp x = None"
  by (metis handlers_at_def option.map_disc_iff quiet_def)

lemma dispatch_served:
  assumes "mid tid t k rem (lp, s)" "served s" "length (se_stamp e) \<le> stamp_max" "lp_objects lp x = Some ch"
  shows "safe (served_to tid t k rem rem (lp, s)) (dispatch (sys_handler e t k) x (lp, s))"
proof -
  let ?lp = "lp\<lparr>m_current_active_channel := Some x\<rparr>" and ?F = "served_to tid t k rem rem"
  have q: "quiet lp ?lp" by simp
  have ok: "handler_ok s k x h" if "Some h \<in> set (due_handlers ch)" for h
  proof -
    have "handlers_at lp x = Some (handlers_of ch)" using assms(4) by (simp add: handlers_at_def)
    then show ?thesis using mid_knows(5) [OF assms(1)] that set_due_handlers [of ch] by (auto simp: loop_typed_def)
  qed
  have run: "safe (?F (lp, s)) (sys_handler e t k h r)" if "Some h \<in> set (due_handlers ch)" "?F (lp, s) r" for h r
  proof -
    obtain lr sr where r: "r = (lr, sr)" by fastforce
    have m: "mid tid t k rem (lr, sr)" "served sr" using served_to_mid [OF that(2)] r by simp_all
    have "handler_ok sr k x h" using ok [OF that(1)] that(2) r by (cases h) (auto simp: served_to_def mid_to_def)
    from handler_served [OF m(1) this m(2) assms(3)] show ?thesis unfolding r
      by (rule safe_mono) (rule served_to_trans [OF that(2) [unfolded r]])
  qed
  have mark: "safe (?F (lp, s)) (mark_object x False r)" if "?F (lp, s) r" for r
  proof -
    obtain lr sr where r: "r = (lr, sr)" by fastforce
    have "kept k (put_loop k lp s) (put_loop k lr sr)" "handlers_at lp x = Some (handlers_of ch)"
      using that r assms(4) by (simp_all add: served_to_def handlers_at_def)
    with kept_handlers [OF this(1), of k lp x] have "lp_objects lr x \<noteq> None" by (auto simp: handlers_at_def)
    from mark_object_safe [OF this] show ?thesis unfolding r
      by (rule safe_mono) (use served_to_trans [OF that [unfolded r]] served_quiet served_to_mid [OF that [unfolded r]] in auto)
  qed
  have "safe (?F (lp, s)) (bind_res (mark_object x True (?lp, s)) (\<lambda>s1. bind_res (call_all (sys_handler e t k) (due_handlers ch) s1) (mark_object x False)))"
  proof (rule safe_bind [OF mark_object_safe])
    show "lp_objects ?lp x \<noteq> None" using assms(4) by simp
    fix r assume "\<exists>lp'. r = (lp', s) \<and> quiet ?lp lp'"
    then obtain lp' where "r = (lp', s)" "quiet lp lp'" using quiet_trans [OF q] by blast
    then have "?F (lp, s) r" using served_quiet [OF assms(1,2)] by simp
    then show "safe (?F (lp, s)) (bind_res (call_all (sys_handler e t k) (due_handlers ch) r) (mark_object x False))"
      by (intro safe_bind [OF call_all_safe [of "?F (lp, s)"]] run mark)
  qed
  then show ?thesis using assms(4) by (simp add: dispatch_def handleEvent_due object_def Let_def)
qed

subsection \<open>The poller\<close>

lemma fillActiveChannels_safe:
  "\<forall>(x, ev) \<in> set evs. st x \<noteq> None \<Longrightarrow> safe (\<lambda>_. True) (fillActiveChannels evs st act)"
proof (induction evs st act rule: fillActiveChannels.induct)
  case (2 p ev evs st act)
  then obtain ch where ch: "st p = Some ch" by auto
  have "\<forall>(x, ev) \<in> set evs. (st(p \<mapsto> ch\<lparr>m_revents := ev'\<rparr>)) x \<noteq> None" for ev' using 2(2) by auto
  from 2(1) [OF ch this] show ?case using ch by (auto simp del: fun_upd_apply)
qed simp

lemma fillActiveChannels_stale:
  "(x, ev) \<in> set evs \<Longrightarrow> st x = None \<Longrightarrow> fillActiveChannels evs st act = Inl Undefined_Behaviour"
proof (induction evs st act rule: fillActiveChannels.induct)
  case (2 p ev' evs st act)
  show ?case
  proof (cases "st p")
    case (Some ch)
    then have "(x, ev) \<in> set evs" "(st(p \<mapsto> ch\<lparr>m_revents := ev'\<rparr>)) x = None" using 2(2,3) by auto
    from 2(1) [OF Some this] Some show ?thesis by (simp del: fun_upd_apply)
  qed simp
qed simp

text \<open>A pointer to a channel that is not there: reported by the kernel, or next in the list of a loop.\<close>

fun stale_channel :: "sys_wait \<Rightarrow> io_loop \<Rightarrow> turn_pc \<Rightarrow> bool" where
  "stale_channel (Wt_Events evs) lp In_Poll =
     (m_events_size (m_epoll lp) < length evs \<or> (\<exists>(x, ev) \<in> set evs. lp_objects lp x = None))"
| "stale_channel ans lp (In_Dispatch (x # xs)) = (lp_objects lp x = None)"
| "stale_channel ans lp pc = False"

lemma poll_safe:
  assumes "\<not> stale_channel ans lp In_Poll"
  shows "safe (\<lambda>_. True) (poll ans (lp_objects lp) (m_epoll lp) [])"
proof (cases ans)
  case (Wt_Events evs)
  with assms have a: "\<not> m_events_size (m_epoll lp) < length evs" "\<forall>(x, ev) \<in> set evs. lp_objects lp x \<noteq> None" by auto
  from fillActiveChannels_safe [OF a(2), of "[]"] a(1) show ?thesis
    by (auto simp: Wt_Events poll_def Let_def elim!: safe_bind)
qed (simp add: poll_def)

lemma stale_move:
  assumes "sv_loops (th_sys r) l = Some lp" "stale_channel ans lp (th_pc r l)"
  shows "loop_move e l ans r = Inl Undefined_Behaviour"
  using assms
  by (cases "(ans, lp, th_pc r l)" rule: stale_channel.cases)
    (auto simp: loop_move_def poll_def Let_def dispatch_def object_def bind_res_def fillActiveChannels_stale split: sum.splits)

subsection \<open>Steps with modest clients\<close>

definition modest_news :: "new_object list \<Rightarrow> system \<Rightarrow> bool" where
  "modest_news news s \<longleftrightarrow> fresh_news (s\<lparr>sy_news := news\<rparr>) \<and> (\<forall>n \<in> set news. modest (no_reads n)) \<and>
     m_next_conn_id s + int (length news) < 2 ^ 31"

inductive served_step :: "threads \<Rightarrow> threads \<Rightarrow> bool" where
  served_moves: "length (se_stamp e) \<le> stamp_max \<Longrightarrow> loop_move e l ans r = Inr r' \<Longrightarrow> served_step r r'"
| served_answers: "modest_news news (th_sys r) \<Longrightarrow>
    served_step r (r\<lparr>th_sys := (th_sys r)\<lparr>sy_accepts := accepts, sy_news := news\<rparr>\<rparr>)"
| served_leaves: "unowned a (whole r) \<Longrightarrow> drop_conn a (th_sys r) = Inr (sock, s) \<Longrightarrow> served_step r (r\<lparr>th_sys := s\<rparr>)"

lemma served_step_server: "served_step r r' \<Longrightarrow> server_step r r'"
  by (induction rule: served_step.induct) (auto simp: modest_news_def intro: server_step.intros)

definition served_inv :: "nat \<Rightarrow> threads \<Rightarrow> bool" where
  "served_inv tid r \<longleftrightarrow> server_inv tid r \<and> served (th_sys r)"

lemma at_pc_served:
  assumes "sv_loops (th_sys r) l = Some lp" "served (snd q)"
    and "mid_to tid (m_tid lp) l (\<lambda>k. rest_of (th_pc r k)) ((\<lambda>k. rest_of (th_pc r k))(l := rest_of pc)) (lp, th_sys r) q"
  shows "served_inv tid (at_pc l pc r q)"
  using at_pc_inv [OF assms(3,1)] assms(2) by (cases q) (simp add: served_inv_def server_keeps_def at_pc_def)

lemma served_move_safe:
  assumes inv: "served_inv tid r" and lp: "sv_loops (th_sys r) l = Some lp" and st: "length (se_stamp e) \<le> stamp_max"
    and ok: "\<not> stale_channel ans lp (th_pc r l)"
  shows "safe (served_inv tid) (loop_move e l ans r)"
proof -
  let ?s = "th_sys r" and ?rem = "\<lambda>k. rest_of (th_pc r k)"
  have i: "server_inv tid r" "served ?s" using inv by (simp_all add: served_inv_def)
  note M = mid_whole [OF i(1) lp]
  have keep: "rest_of (th_pc r l) = [] \<Longrightarrow> ?rem(l := []) = ?rem" by auto
  note at = at_pc_served [OF lp]
  show ?thesis
  proof (cases "th_pc r l")
    case In_Poll
    have p: "safe (\<lambda>_. True) (poll ans (lp_objects lp) (m_epoll lp) [])" using poll_safe ok In_Poll by simp
    have "safe (served_inv tid) (bind_res (poll ans (lp_objects lp) (m_epoll lp) []) (\<lambda>(active, st, ep).
          Inr (at_pc l (In_Dispatch active) r
            (lp\<lparr>m_active_channels := active, lp_objects := st, m_epoll := ep, m_loop_event_handling := True\<rparr>, ?s))))"
    proof (rule safe_bind [OF p])
      fix y assume y: "poll ans (lp_objects lp) (m_epoll lp) [] = Inr y"
      obtain act st ep where yy: "y = (act, st, ep)" by (cases y)
      let ?lp = "lp\<lparr>m_active_channels := act, lp_objects := st, m_epoll := ep, m_loop_event_handling := True\<rparr>"
      have "handlers_at ?lp = handlers_at lp" using poll_handlers [OF y(1) [unfolded yy]] by (simp add: handlers_at_def fun_eq_iff)
      then have "quiet lp ?lp" by (simp add: quiet_def)
      from mid_quiet [OF M this] have "served_inv tid (at_pc l (In_Dispatch act) r (?lp, ?s))"
        using keep In_Poll i(2) by (intro at) simp_all
      then show "safe (served_inv tid) ((\<lambda>(active, st, ep). Inr (at_pc l (In_Dispatch active) r
            (lp\<lparr>m_active_channels := active, lp_objects := st, m_epoll := ep, m_loop_event_handling := True\<rparr>, ?s))) y)" by (simp add: yy)
    qed
    then show ?thesis using In_Poll lp by (simp add: loop_move_def)
  next
    case (In_Dispatch xs)
    show ?thesis
    proof (cases xs)
      case Nil
      let ?lp = "lp\<lparr>m_current_active_channel := None, m_loop_event_handling := False, m_calling_pending_functors := True, m_pending_functors := []\<rparr>"
      have "mid_to tid (m_tid lp) l ?rem (?rem(l := m_pending_functors lp)) (lp, ?s) (?lp, ?s)"
        by (rule mid_loop [OF M]) (simp_all add: In_Dispatch)
      then have "served_inv tid (at_pc l (In_Calls (m_pending_functors lp)) r (?lp, ?s))" using i(2) by (intro at) simp_all
      then show ?thesis using In_Dispatch Nil lp by (simp add: loop_move_def Let_def swap_functors_def)
    next
      case (Cons x ys)
      then obtain ch where "lp_objects lp x = Some ch" using ok In_Dispatch by (cases "lp_objects lp x") auto
      from dispatch_served [OF M i(2) st this]
      have "safe (served_inv tid) (bind_res (dispatch (sys_handler e (m_tid lp) l) x (lp, ?s)) (\<lambda>q. Inr (at_pc l (In_Dispatch ys) r q)))"
        unfolding safe_then by (rule safe_mono) (rule at, use keep In_Dispatch in \<open>auto simp: served_to_def\<close>)
      then show ?thesis using In_Dispatch Cons lp by (simp add: loop_move_def Let_def)
    qed
  next
    case (In_Calls fs)
    show ?thesis
    proof (cases fs)
      case Nil
      have "mid_to tid (m_tid lp) l ?rem ?rem (lp, ?s) (lp\<lparr>m_calling_pending_functors := False\<rparr>, ?s)"
        by (rule mid_loop_keep [OF M]) simp_all
      then have "served_inv tid (at_pc l In_Poll r (lp\<lparr>m_calling_pending_functors := False\<rparr>, ?s))"
        using keep In_Calls Nil i(2) by (intro at) simp_all
      then show ?thesis using In_Calls Nil lp by (simp add: loop_move_def Let_def)
    next
      case (Cons f gs)
      have "?rem l = f # gs" using In_Calls Cons by simp
      from functor_served [OF M this i(2) st]
      have "safe (served_inv tid) (bind_res (sys_functor e (m_tid lp) l f (lp, ?s)) (\<lambda>q. Inr (at_pc l (In_Calls gs) r q)))"
        unfolding safe_then by (rule safe_mono) (rule at, auto simp: served_to_def)
      then show ?thesis using In_Calls Cons lp by (simp add: loop_move_def Let_def)
    qed
  qed
qed

text \<open>A destructor takes one channel away: that of a destroyed connection, which no loop is about to handle.\<close>

lemma drop_conn_parts:
  assumes "drop_conn a s = Inr (sock, t)"
  obtains c p lp where "sv_conns s a = Some c" "sy_conns s a = Some p" "sv_loops s (cr_loop c) = Some lp"
    "sv_loops t = (sv_loops s)(cr_loop c \<mapsto> lp\<lparr>lp_objects := (lp_objects lp)(m_channel (cp_conn p) := None)\<rparr>)"
    "sv_conns t = (sv_conns s)(a := None)" "sy_conns t = (sy_conns s)(a := None)" "sy_news t = sy_news s" "m_next_conn_id t = m_next_conn_id s"
  using assms by (auto simp: drop_conn_def conn_dtor_def the_loop_def put_loop_def bind_res_eq_Inr split: option.splits if_splits)

interpretation served_runs: safety_machine "server_begin tid" served_step "served_inv tid" for tid
proof unfold_locales
  show "served_inv tid r" if "server_begin tid r" for r
    using that by (auto simp: served_inv_def served_def server_begin_def server_ok_def conns_ok_def intro: begin_inv)
  show "served_inv tid r'" if "served_step r r'" "served_inv tid r" for r r'
    using that(1)
  proof (cases rule: served_step.cases)
    case (served_moves e l ans)
    then obtain lp where lp: "sv_loops (th_sys r) l = Some lp"
      by (auto simp: loop_move_def the_loop_def Let_def bind_res_eq_Inr split: option.splits)
    have "\<not> stale_channel ans lp (th_pc r l)" using stale_move [OF lp] served_moves(2) by auto
    from served_move_safe [OF that(2) lp served_moves(1) this] served_moves(2) show ?thesis by simp
  next
    case (served_answers news accepts)
    have "server_inv tid r'" using that(2) server_step_inv [OF served_step_server [OF that(1)]] by (simp add: served_inv_def)
    moreover have "served (th_sys r')" using that(2) served_answers by (simp add: served_inv_def served_def modest_news_def)
    ultimately show ?thesis by (simp add: served_inv_def)
  next
    case (served_leaves a sock s)
    have "server_inv tid r'" using that(2) server_step_inv [OF served_step_server [OF that(1)]] by (simp add: served_inv_def)
    moreover have "served (th_sys r')"
      by (rule drop_conn_parts [OF served_leaves(3)]) (use that(2) served_leaves(1) in \<open>auto simp: served_inv_def served_def\<close>)
    ultimately show ?thesis by (simp add: served_inv_def)
  qed
qed

subsection \<open>While a loop handles events\<close>

lemma pending_whole: "sv_loops (th_sys r) l \<noteq> None \<Longrightarrow> pending (whole r) l = rest_of (th_pc r l) @ pending (th_sys r) l"
  by (auto simp: pending_def whole_def)

lemma knows_whole [simp]: "knows (whole r) = knows (th_sys r)"
  by (simp add: knows_def whole_def fun_eq_iff)

lemma inv_handlers:
  assumes "server_inv tid r" "knows (th_sys r) a l x"
  shows "\<exists>lp. sv_loops (th_sys r) l = Some lp \<and> handlers_at lp x = Some (conn_handlers_at a)"
proof -
  have "well_typed tid (whole r)" using assms(1) by (simp add: server_inv_def sound_def ledger_def)
  then obtain lp where "sv_loops (whole r) l = Some lp" "handlers_at lp x = Some (conn_handlers_at a)"
    using assms(2) unfolding well_typed_def knows_whole by blast
  then show ?thesis by (auto simp: whole_def)
qed

text \<open>A connection of a loop that has called all its functors is destroyed by no step of another thread, nor by the
  handlers that the loop runs.\<close>

lemma not_destroyed:
  assumes inv: "server_inv tid r" and keep: "kept l (th_sys r) (th_sys r')"
    and k: "knows (th_sys r) a l x" and rest: "rest_of (th_pc r l) = []" and d: "\<not> in_phase (whole r) a Destroyed"
  shows "\<not> in_phase (whole r') a Destroyed"
proof
  assume "in_phase (whole r') a Destroyed"
  then obtain c' p' where c': "sv_conns (th_sys r') a = Some c'" "tokens_of (whole r') a c' p' = phase_tokens Destroyed"
    by (auto simp: in_phase_def whole_def)
  from k obtain c where c: "sv_conns (th_sys r) a = Some c" "cr_loop c = l" by (auto simp: knows_def)
  with keep c'(1) have cc: "c' = c" by (auto simp: kept_def)
  from inv c obtain ph where ph: "in_phase (whole r) a ph" by (auto simp: server_inv_def sound_def ledger_def whole_def)
  then obtain p where T: "tokens_of (whole r) a c p = phase_tokens ph" using c(1) by (auto simp: in_phase_def whole_def)
  obtain lp where lp: "sv_loops (th_sys r) l = Some lp" "handlers_at lp x = Some (conn_handlers_at a)" using inv_handlers [OF inv k] by blast
  with keep obtain lp' where "sv_loops (th_sys r') l = Some lp'" unfolding kept_def by blast
  then have p': "set (pending (th_sys r') l) \<subseteq> set (pending (whole r') l)" by (subst pending_whole) auto
  have p: "set (pending (whole r) l) = set (pending (th_sys r) l)" using lp rest by (subst pending_whole) auto
  have sub: "set (pending (whole r) l) \<subseteq> set (pending (whole r') l)" using p p' keep by (auto simp: kept_def)
  have none: "Fn_connectEstablished a \<notin> set (pending (whole r') l)" "Fn_connectDestroyed a \<notin> set (pending (whole r') l)"
    "m_connections (th_sys r') (cr_name c) \<noteq> Some a"
    using c'(2) c(2) cc by (auto simp: tokens_of_def count_list_0_iff whole_def)
  have m: "m_connections (th_sys r) (cr_name c) \<noteq> Some a"
    using keep c none p' unfolding kept_def by blast
  have "ph \<noteq> Destroyed" using ph d by blast
  moreover have "count_list (pending (whole r) l) (Fn_connectEstablished a) = 0" "count_list (pending (whole r) l) (Fn_connectDestroyed a) = 0"
    using sub none(1,2) by (auto simp: count_list_0_iff)
  ultimately show False using T m c(2) by (cases ph) (auto simp: tokens_of_def whole_def)
qed

lemma knows_put_loop [simp]: "knows (put_loop k lp s) = knows s"
  by (simp add: knows_def fun_eq_iff)

lemma loop_move_kept:
  assumes "server_inv tid r" "loop_move e k ans r = Inr r'" "th_pc r l = In_Dispatch xs" "th_pc r' l = In_Dispatch ys"
  shows "kept l (th_sys r) (th_sys r') \<and> (knows (th_sys r) a m x \<longrightarrow> knows (th_sys r') a m x)"
proof -
  let ?s = "th_sys r" and ?rem = "\<lambda>k. rest_of (th_pc r k)"
  from assms(2) obtain lp where lp: "sv_loops ?s k = Some lp"
    by (auto simp: loop_move_def the_loop_def Let_def bind_res_eq_Inr split: option.splits)
  note M = mid_whole [OF assms(1) lp]
  have step: "kept l ?s (th_sys (at_pc k pc r q)) \<and> (knows ?s a m x \<longrightarrow> knows (th_sys (at_pc k pc r q)) a m x)"
    if "kept l (put_loop k lp ?s) (put_loop k (fst q) (snd q))" "knows ?s a m x \<longrightarrow> knows (snd q) a m x" for pc q
    using that lp by (cases q) (simp add: at_pc_def put_loop_same)
  show ?thesis
  proof (cases "th_pc r k")
    case In_Poll
    with assms(2) lp obtain act st ep where p: "poll ans (lp_objects lp) (m_epoll lp) [] = Inr (act, st, ep)"
      and r': "r' = at_pc k (In_Dispatch act) r (lp\<lparr>m_active_channels := act, lp_objects := st, m_epoll := ep, m_loop_event_handling := True\<rparr>, ?s)"
      by (auto simp: loop_move_def Let_def bind_res_eq_Inr)
    show ?thesis unfolding r' by (rule step) (use poll_handlers [OF p] in \<open>auto simp: handlers_at_def fun_eq_iff intro!: kept_loop\<close>)
  next
    case (In_Dispatch zs)
    show ?thesis
    proof (cases zs)
      case Nil
      let ?lp = "lp\<lparr>m_current_active_channel := None, m_loop_event_handling := False, m_calling_pending_functors := True, m_pending_functors := []\<rparr>"
      have r': "r' = at_pc k (In_Calls (m_pending_functors lp)) r (?lp, ?s)"
        using assms(2) lp In_Dispatch Nil by (simp add: loop_move_def Let_def swap_functors_def)
      then have "k \<noteq> l" using assms(4) by (auto simp: at_pc_def)
      then have "kept l (put_loop k lp ?s) (put_loop k ?lp ?s)" by (auto simp: kept_def pending_def split: if_splits)
      then show ?thesis unfolding r' by (intro step) simp_all
    next
      case (Cons y zs')
      with assms(2) lp In_Dispatch obtain q where q: "dispatch (sys_handler e (m_tid lp) k) y (lp, ?s) = Inr q"
        "r' = at_pc k (In_Dispatch zs') r q" by (auto simp: loop_move_def Let_def bind_res_eq_Inr)
      show ?thesis unfolding q(2)
        by (rule step [OF kept_dispatch [OF q(1) M]]) (use mid_dispatch [OF q(1) M] in \<open>simp add: mid_to_def\<close>)
    qed
  next
    case (In_Calls fs)
    show ?thesis
    proof (cases fs)
      case Nil
      then have "r' = at_pc k In_Poll r (lp\<lparr>m_calling_pending_functors := False\<rparr>, ?s)"
        using assms(2) lp In_Calls by (simp add: loop_move_def Let_def)
      then show ?thesis by (simp only:) (rule step, auto intro: kept_loop)
    next
      case (Cons f gs)
      with assms(2) lp In_Calls obtain q where q: "sys_functor e (m_tid lp) k f (lp, ?s) = Inr q"
        "r' = at_pc k (In_Calls gs) r q" by (auto simp: loop_move_def Let_def bind_res_eq_Inr)
      have rem: "?rem k = f # gs" using In_Calls Cons by simp
      show ?thesis unfolding q(2)
        by (rule step [OF kept_functor [OF M rem q(1)]]) (use mid_sys_functor [OF M rem q(1)] in \<open>simp add: mid_to_def\<close>)
    qed
  qed
qed

text \<open>A step of any thread at whose end the loop \<open>l\<close> handles events.\<close>

definition dispatching_step :: "nat \<Rightarrow> threads \<Rightarrow> threads \<Rightarrow> bool" where
  "dispatching_step l r r' \<longleftrightarrow> server_step r r' \<and> (\<exists>ys. th_pc r' l = In_Dispatch ys)"

lemma dispatching_step_keeps:
  assumes step: "dispatching_step l r r'" and inv: "server_inv tid r" and pc: "th_pc r l = In_Dispatch xs"
    and a: "knows (th_sys r) a l x" "in_phase (whole r) a ph" "ph \<noteq> Destroyed"
  shows "knows (th_sys r') a l x \<and> (\<exists>ph'. in_phase (whole r') a ph' \<and> ph \<le> ph' \<and> ph' \<noteq> Destroyed)"
proof -
  have d: "\<not> in_phase (whole r) a Destroyed" using a(2,3) phase_unique by blast
  from step obtain ys where s: "server_step r r'" "th_pc r' l = In_Dispatch ys" by (auto simp: dispatching_step_def)
  have on: "\<exists>ph'. in_phase (whole r') a ph' \<and> ph \<le> ph'" using server_step_inv [OF s(1) inv] a(2,3) by blast
  show ?thesis using s(1)
  proof (cases rule: server_step.cases)
    case (loop_moves e k ans)
    from loop_move_kept [OF inv loop_moves pc s(2)] a(1) have k: "kept l (th_sys r) (th_sys r')" "knows (th_sys r') a l x" by blast+
    have "rest_of (th_pc r l) = []" using pc by simp
    from not_destroyed [OF inv k(1) a(1) this d] on k(2) show ?thesis by blast
  next
    case (kernel_answers news accepts)
    then have "whole r' = (whole r)\<lparr>sy_accepts := accepts, sy_news := news\<rparr>" by (simp add: whole_def spread_def)
    then have "in_phase (whole r') = in_phase (whole r)" by (simp add: in_phase_def tokens_of_def pending_def fun_eq_iff)
    with kernel_answers(1) on d a(1) show ?thesis by (auto simp: knows_def)
  next
    case (last_owner_leaves b sock s)
    obtain c p where b: "sv_conns (th_sys r) b = Some c" "sy_conns (th_sys r) b = Some p"
      "sv_conns s = (sv_conns (th_sys r))(b := None)" "sy_conns s = (sy_conns (th_sys r))(b := None)"
      by (rule drop_conn_parts [OF last_owner_leaves(3)])
    have "sound tid (whole r)" using inv by (simp add: server_inv_def)
    from unowned_destroyed [OF this last_owner_leaves(2), of c p] b(1,2) have "in_phase (whole r) b Destroyed"
      by (auto simp: in_phase_def whole_def)
    with d have ne: "a \<noteq> b" by blast
    have "sv_conns (th_sys r) b \<noteq> None" using b(1) by simp
    from drop_conn_law [OF inv last_owner_leaves(2) this] last_owner_leaves(1,3) ne a(2) have "in_phase (whole r') a ph" by auto
    moreover have "knows (th_sys r') a l x" using a(1) b(3,4) ne last_owner_leaves(1) by (simp add: knows_def)
    ultimately show ?thesis using a(3) by blast
  qed
qed

lemma dispatching_steps_keep:
  assumes "(dispatching_step l)\<^sup>*\<^sup>* r r'" "server_inv tid r" "th_pc r l = In_Dispatch xs"
    and "knows (th_sys r) a l x" "in_phase (whole r) a ph" "ph \<noteq> Destroyed"
  shows "server_inv tid r' \<and> (\<exists>ys. th_pc r' l = In_Dispatch ys) \<and> knows (th_sys r') a l x \<and>
    (\<exists>ph'. in_phase (whole r') a ph' \<and> ph \<le> ph' \<and> ph' \<noteq> Destroyed)"
  using assms(1)
proof (induction rule: rtranclp_induct)
  case base
  with assms(2-6) show ?case by blast
next
  case (step y z)
  then obtain ys ph1 where y: "server_inv tid y" "th_pc y l = In_Dispatch ys" "knows (th_sys y) a l x"
    "in_phase (whole y) a ph1" "ph \<le> ph1" "ph1 \<noteq> Destroyed" by blast
  have "server_step y z" "\<exists>ys. th_pc z l = In_Dispatch ys" using step.hyps(2) by (simp_all add: dispatching_step_def)
  with dispatching_step_keeps [OF step.hyps(2) y(1-4,6)] server_step_inv [OF _ y(1), of z] y(5) show ?case by (blast intro: order_trans)
qed

end
