(* ===== verification/ServerOwnership.thy ===== *)
theory ServerOwnership
  imports ServerSafety ServerLife
begin

text \<open>
  What keeps a connection alive, for every reachable state of the server: nothing refers to a connection that is
  not there, each connection is in one phase of its life and never goes back, and the destructor that runs when
  the last \<open>shared_ptr\<close> goes finds nothing left to dangle.
\<close>

subsection \<open>References\<close>

text \<open>Whatever in the server holds the address of the connection \<open>a\<close>: its map, a functor or a timer of any loop,
  a handler of any channel.\<close>

definition refers :: "nat \<Rightarrow> system \<Rightarrow> bool" where
  "refers a s \<longleftrightarrow> a \<in> ran (m_connections s) \<or>
     (\<exists>l lp. sv_loops s l = Some lp \<and>
        (set (m_pending_functors lp) \<inter>
           {Fn_connectEstablished a, Fn_removeConnectionInLoop a, Fn_connectDestroyed a, Fn_closeLongConnection a} \<noteq> {} \<or>
         Fn_closeLongConnection a \<in> timer_cbs (m_timer_heap lp) \<or>
         (\<exists>x hs ev. handlers_at lp x = Some hs \<and> Some (H_conn a ev) \<in> set hs)))"

lemma well_typed_refers: "well_typed tid s \<Longrightarrow> refers a s \<Longrightarrow> sv_conns s a \<noteq> None"
proof -
  assume w: "well_typed tid s" and "refers a s"
  then consider "a \<in> ran (m_connections s)"
    | l lp f where "sv_loops s l = Some lp" "f \<in> set (m_pending_functors lp)"
        "f \<in> {Fn_connectEstablished a, Fn_removeConnectionInLoop a, Fn_connectDestroyed a, Fn_closeLongConnection a}"
    | l lp where "sv_loops s l = Some lp" "Fn_closeLongConnection a \<in> timer_cbs (m_timer_heap lp)"
    | l lp x hs ev where "sv_loops s l = Some lp" "handlers_at lp x = Some hs" "Some (H_conn a ev) \<in> set hs"
    unfolding refers_def by blast
  then show ?thesis
  proof cases
    case 1
    then obtain n where "m_connections s n = Some a" by (auto simp: ran_def)
    moreover have "conns_ok s" using w by (simp add: well_typed_def server_ok_def)
    ultimately obtain c where "sv_conns s a = Some c" unfolding conns_ok_def by blast
    then show ?thesis by simp
  next
    case 2
    have "loop_typed s l lp" using w 2(1) unfolding well_typed_def by blast
    with 2(2) have "functor_ok s l f" unfolding loop_typed_def by blast
    with 2(3) show ?thesis by (auto simp: knows_def)
  next
    case 3
    have "loop_typed s l lp" using w 3(1) unfolding well_typed_def by blast
    with 3(2) have "timer_ok s l (Fn_closeLongConnection a)" unfolding loop_typed_def by blast
    then show ?thesis by (auto simp: knows_def)
  next
    case 4
    have "loop_typed s l lp" using w 4(1) unfolding well_typed_def by blast
    with 4(2,3) have "handler_ok s l x (H_conn a ev)" unfolding loop_typed_def by blast
    then show ?thesis by (auto simp: knows_def)
  qed
qed

lemma reachable_types: "reach (server_begin tid) server_step r \<Longrightarrow> well_typed tid (whole r) \<and> fresh_news (whole r)"
  using reachable_inv [of tid r] by (simp add: server_inv_def sound_def ledger_def)

lemma whole_waiting: "\<forall>l. th_pc r l = In_Poll \<Longrightarrow> whole r = th_sys r"
  by (simp add: whole_def)

lemma whole_conns [simp]: "sv_conns (whole r) = sv_conns (th_sys r)" "sy_conns (whole r) = sy_conns (th_sys r)"
  "m_connections (whole r) = m_connections (th_sys r)" "m_main_loop (whole r) = m_main_loop (th_sys r)"
  by (simp_all add: whole_def)

lemma reachable_parts: "reach (server_begin tid) server_step r \<Longrightarrow> sv_conns (th_sys r) a = None \<longleftrightarrow> sy_conns (th_sys r) a = None"
  using reachable_types [of tid r] unfolding well_typed_def by simp

subsection \<open>A run to evaluate\<close>

text \<open>The started server of ServerStart, with one client at the door.\<close>

definition demo_answers :: "system \<Rightarrow> system" where
  "demo_answers s = s\<lparr>sy_accepts := [Ac_Fd 7, Ac_Err EAGAIN], sy_news := [demo_object 100]\<rparr>"

lemma demo_answers_waits: "sys_waits kctl tid wk (demo_answers s) = sys_waits kctl tid wk s"
  by (simp add: sys_waits_def demo_answers_def loop_waits_def)

lemma demo_answers_simps [simp]:
  "sv_loops (demo_answers s) = sv_loops s" "sv_conns (demo_answers s) = sv_conns s" "sy_conns (demo_answers s) = sy_conns s"
  "m_pool (demo_answers s) = m_pool s" "m_main_loop (demo_answers s) = m_main_loop s" "m_next_conn_id (demo_answers s) = m_next_conn_id s"
  "sy_accepts (demo_answers s) = [Ac_Fd 7, Ac_Err EAGAIN]" "sy_news (demo_answers s) = [demo_object 100]"
  "m_connections (demo_answers s) = m_connections s" "next_loop (demo_answers s) = next_loop s"
  by (simp_all add: demo_answers_def next_loop_def)

lemma demo_begins:
  "\<exists>r. server_begin 1 r \<and> sys_waits documented_kernel 1 (\<lambda>_. 11) (th_sys r) \<and> m_connections (th_sys r) = Map.empty \<and>
    m_next_conn_id (th_sys r) = 1 \<and>
    (\<forall>l lp. sv_loops (th_sys r) l = Some lp \<longrightarrow> seen_at lp 101 = None) \<and>
    (\<forall>l \<in> set (m_loops (m_pool (th_sys r))). \<forall>lp. sv_loops (th_sys r) l = Some lp \<longrightarrow>
      seen_at lp = [10 \<mapsto> (3, Some H_timer), 11 \<mapsto> (4, Some H_wakeup)])"
proof -
  obtain lp :: io_loop where lp: "new_loop True documented_kernel 1 1 None (10, 3, H_timer) (11, 4, H_wakeup) = Inr lp" using demo_built by blast
  have d: "(10 :: nat) \<noteq> 11" "(3 :: int) \<noteq> 4" by simp_all
  note B = built_loop [OF documented_kernel_ok(1) d lp]
  obtain new_loops where np: "demo_pool new_loops" using demo_pool_ex by blast
  have k: "se_kctl demo_sys_env = documented_kernel" by (simp add: demo_sys_env_def)
  have m: "seen_at lp 12 = None" "\<not> fd_used lp 5" using B(6,7) by simp_all
  have un: "unused_loop lp" "\<forall>j. unused_loop (snd (new_loops j))"
    using unused_new_loop [OF lp] np unused_new_loop unfolding demo_pool_def by blast+
  note P = demo_pool_loops(1) [OF np, folded k]
  let ?S = "new_system True 1 lp ''server'' 5 12 False [] []"
  from system_starts_law [where wk = "\<lambda>_. 11" and l = 1 and accepts = "[]" and news = "[]" and u = True and name = "''server''" and reuse_port = False,
      OF B(1) [folded k] B(3,4) m P]
  obtain t lp2 where s: "m_main_loop t = 1" "m_loops (m_pool t) = map (\<lambda>j. fst (new_loops j)) [0..<4]" "sv_loops t 1 = Some lp2"
    "seen_at lp2 = (seen_at lp)(12 \<mapsto> (5, Some H_accept))"
    "\<forall>j < 4. sv_loops t (fst (new_loops j)) = Some (snd (new_loops j))" "m_connections t = Map.empty" "m_next_conn_id t = 1" "sy_news t = []"
    and t: "sys_start demo_sys_env new_loops 1 ?S = Inr t" "sys_waits documented_kernel 1 (\<lambda>_. 11) t" unfolding k by blast
  have "t\<lparr>sy_news := []\<rparr> = t" using s(8) by (cases t) simp
  with started_begin [where wk = "\<lambda>_. 11", OF B(1) [folded k] B(3,4) m P un t(1)]
  have b: "server_begin 1 \<lparr>th_sys = t, th_pc = \<lambda>_. In_Poll\<rparr>" by simp
  have pool: "seen_at q = [10 \<mapsto> (3, Some H_timer), 11 \<mapsto> (4, Some H_wakeup)]" if "l \<in> set (m_loops (m_pool t))" "sv_loops t l = Some q" for l q
    using that s(2,5) demo_pool_loops(2) [OF np] by auto
  have "seen_at q 101 = None" if "sv_loops t l = Some q" for l q
  proof (cases "l \<in> set (m_loops (m_pool t))")
    case False
    with b that have "l = m_main_loop t" by (auto simp: server_begin_def)
    with s that B(6) show ?thesis by simp
  qed (use pool that in simp)
  with t b s pool show ?thesis by (intro exI [of _ "\<lparr>th_sys = t, th_pc = \<lambda>_. In_Poll\<rparr>"]) auto
qed

lemma seen_handlers: "seen_at lp x = None \<longleftrightarrow> handlers_at lp x = None"
  by (simp add: seen_at_def handlers_at_def)

lemma demo_client_waits:
  "\<exists>r. reach (server_begin 1) server_step r \<and> (\<forall>l. th_pc r l = In_Poll) \<and> sys_waits documented_kernel 1 (\<lambda>_. 11) (th_sys r) \<and>
    m_connections (th_sys r) = Map.empty \<and> m_next_conn_id (th_sys r) = 1 \<and>
    sy_accepts (th_sys r) = Ac_Fd 7 # Ac_Err EAGAIN # [] \<and> sy_news (th_sys r) = demo_object 100 # [] \<and> visitor (th_sys r) 7 (demo_object 100) \<and>
    (\<forall>l lp. sv_loops (th_sys r) l = Some lp \<longrightarrow> unused_loop lp)"
proof -
  obtain r where r: "server_begin 1 r" "sys_waits documented_kernel 1 (\<lambda>_. 11) (th_sys r)" "m_connections (th_sys r) = Map.empty"
    "m_next_conn_id (th_sys r) = 1" "\<forall>l lp. sv_loops (th_sys r) l = Some lp \<longrightarrow> seen_at lp 101 = None"
    "\<forall>l \<in> set (m_loops (m_pool (th_sys r))). \<forall>lp. sv_loops (th_sys r) l = Some lp \<longrightarrow>
      seen_at lp = [10 \<mapsto> (3, Some H_timer), 11 \<mapsto> (4, Some H_wakeup)]" using demo_begins by blast
  let ?r = "r\<lparr>th_sys := demo_answers (th_sys r)\<rparr>"
  have b: "sv_conns (th_sys r) = Map.empty" "sy_conns (th_sys r) = Map.empty" "\<forall>l. th_pc r l = In_Poll"
    "\<forall>l lp. sv_loops (th_sys r) l = Some lp \<longrightarrow> unused_loop lp" using r(1) by (auto simp: server_begin_def)
  have "fresh_news ((th_sys r)\<lparr>sy_news := [demo_object 100]\<rparr>)"
    using b(1) r(5) by (auto simp: fresh_news_def demo_object_def seen_handlers)
  from kernel_answers [OF this, of "[Ac_Fd 7, Ac_Err EAGAIN]"] have "server_step r ?r" by (simp add: demo_answers_def)
  with r(1) have "reach (server_begin 1) server_step ?r" by (blast intro: reach_init reach_step)
  moreover have "takes_visit documented_kernel (th_sys ?r) (demo_visit 100)" by (rule demo_takes) (use b r(6) in simp_all)
  with takes_visitor [of documented_kernel "th_sys ?r" "demo_visit 100"] r(2,4) have "visitor (th_sys ?r) 7 (demo_object 100)"
    by (auto simp: demo_visit_def demo_answers_waits)
  ultimately show ?thesis using b r(2-4) by (intro exI [of _ ?r]) (simp add: demo_answers_waits)
qed


text \<open>The client is accepted: its connection, at 100, waits for \<open>connectEstablished\<close>.\<close>

lemma demo_accepts:
  "\<exists>r l ans s p. reach (server_begin 1) server_step r \<and> (\<forall>l. th_pc r l = In_Poll) \<and> sys_turn demo_sys_env l ans (th_sys r) = Inr s \<and>
    refers 100 (whole (r\<lparr>th_sys := s\<rparr>)) \<and> sy_conns s 100 = Some p \<and> m_state (cp_conn p) = kConnecting"
proof -
  obtain r where r: "reach (server_begin 1) server_step r" "\<forall>l. th_pc r l = In_Poll" "sys_waits documented_kernel 1 (\<lambda>_. 11) (th_sys r)"
    "sy_accepts (th_sys r) = Ac_Fd 7 # Ac_Err EAGAIN # []" "sy_news (th_sys r) = demo_object 100 # []" "visitor (th_sys r) 7 (demo_object 100)"
    using demo_client_waits by blast
  let ?s = "th_sys r"
  have v: "fd_ok 7" "sv_conns ?s (no_conn (demo_object 100)) = None" "m_next_conn_id ?s + 1 < 2 ^ 31" using r(6) by (simp_all add: visitor_def)
  have ok: "loops_ok 1 ?s" using r(3) by (simp add: sys_waits_def server_ok_def)
  then obtain lp io where "sv_loops ?s (m_main_loop ?s) = Some lp" "sv_loops ?s (next_loop ?s) = Some io"
    using next_loop_in [OF ok] r(3) by (auto simp: sys_waits_def loop_waits_def)
  from accept_turn [OF r(3,4) v(1) r(5) v(2,3) this, of demo_sys_env] obtain s1 where
    s1: "sys_turn demo_sys_env (m_main_loop ?s) (Wt_Events [(m_accept_channel (m_acceptor ?s), EPOLLIN)]) ?s = Inr s1"
      "m_connections s1 = (m_connections ?s)(conn_name (m_name ?s) (m_next_conn_id ?s) \<mapsto> no_conn (demo_object 100))"
      "sy_conns s1 = (sy_conns ?s)(no_conn (demo_object 100) \<mapsto> part_of_new demo_sys_env (conn_name (m_name ?s) (m_next_conn_id ?s)) 7 (demo_object 100))"
    by blast
  have n: "no_conn (demo_object 100) = 100" by (simp add: demo_object_def)
  have "100 \<in> ran (m_connections s1)" using s1(2) n by (auto simp: ran_def)
  then have "refers 100 (whole (r\<lparr>th_sys := s1\<rparr>))" by (simp add: refers_def)
  moreover obtain p where "sy_conns s1 100 = Some p" "m_state (cp_conn p) = kConnecting" using s1(3) n by (simp add: part_of_new_def new_conn_def)
  ultimately show ?thesis using s1(1) r(1,2) by blast
qed

lemma demo_accepted:
  "\<exists>r p. reach (server_begin 1) server_step r \<and> refers 100 (whole r) \<and> sy_conns (th_sys r) 100 = Some p"
proof -
  obtain r l ans s p where r: "reach (server_begin 1) server_step r" "th_pc r l = In_Poll" "sys_turn demo_sys_env l ans (th_sys r) = Inr s"
    "refers 100 (whole (r\<lparr>th_sys := s\<rparr>))" "sy_conns s 100 = Some p" using demo_accepts by blast
  from reach_turn [OF r(1-3)] r(4,5) show ?thesis by (intro exI [of _ "r\<lparr>th_sys := s\<rparr>"] exI [of _ p]) simp
qed

text \<open>Its whole visit: at the end nobody owns the connection.\<close>

lemma drop_keeps:
  assumes "drop_conn a s = Inr (sock, t)"
  shows "m_connections t = m_connections s"
    "sv_loops s l = Some lp \<Longrightarrow> \<exists>lp'. sv_loops t l = Some lp' \<and> m_pending_functors lp' = m_pending_functors lp \<and> m_timer_heap lp' = m_timer_heap lp"
  using assms by (auto simp: drop_conn_def conn_dtor_def the_loop_def bind_res_eq_Inr split: option.splits if_splits)

lemma demo_destroyed:
  "\<exists>r. reach (server_begin 1) server_step r \<and> (\<forall>l. th_pc r l = In_Poll) \<and> unowned 100 (whole r) \<and> sv_conns (th_sys r) 100 \<noteq> None"
proof -
  let ?e = "\<lambda>_ :: nat. demo_sys_env"
  obtain r where r: "reach (server_begin 1) server_step r" "\<forall>l. th_pc r l = In_Poll" "sys_waits documented_kernel 1 (\<lambda>_. 11) (th_sys r)"
    "sy_accepts (th_sys r) = Ac_Fd 7 # Ac_Err EAGAIN # []" "sy_news (th_sys r) = demo_object 100 # []" "visitor (th_sys r) 7 (demo_object 100)"
    "m_connections (th_sys r) = Map.empty" "\<forall>l lp. sv_loops (th_sys r) l = Some lp \<longrightarrow> unused_loop lp"
    using demo_client_waits by blast
  let ?s = "th_sys r" and ?n = "demo_object 100"
  have k: "\<forall>i. se_kctl (?e i) = documented_kernel" "short_visit ?n (se_stamp (?e 2)) GET ''/hello'' HTTP_1_1 [''Host: a'']"
    using demo_short [of 100] by (simp_all add: demo_sys_env_def)
  have ok: "loops_ok 1 ?s" using r(3) by (simp add: sys_waits_def server_ok_def)
  then obtain lm io where l: "sv_loops ?s (m_main_loop ?s) = Some lm" "sv_loops ?s (next_loop ?s) = Some io"
    using next_loop_in [OF ok] r(3) by (auto simp: sys_waits_def loop_waits_def)
  from visit_law [OF r(3) k(1) r(4-6) k(2) l(2,1)] obtain s5 p s6 lm' L' sock where
    v: "sys_turns (visit_turns ?e (\<lambda>_. 11) ?s ?n) ?s = Inr s5" "sy_conns s5 (no_conn ?n) = Some p" "drop_conn (no_conn ?n) s5 = Inr (sock, s6)"
      "sv_loops s6 = (sv_loops ?s)(m_main_loop ?s \<mapsto> lm', next_loop ?s \<mapsto> L')" "alike lm lm'" "rests lm'" "rests L'"
      "m_timer_heap L' = m_timer_heap io" "m_connections s6 = m_connections ?s" by blast
  have n: "no_conn ?n = 100" by (simp add: demo_object_def)
  let ?r = "r\<lparr>th_sys := s5\<rparr>"
  have reach: "reach (server_begin 1) server_step ?r" using reach_turns [OF v(1) r(1,2)] .
  have un: "m_pending_functors lp = [] \<and> timer_cbs (m_timer_heap lp) = {}" if "sv_loops s6 l = Some lp" for l lp
    using that v(4-8) r(8) l alike_views(7) [OF v(5)] by (auto simp: unused_loop_def rests_def split: if_splits)
  have q: "m_pending_functors lp = [] \<and> timer_cbs (m_timer_heap lp) = {}" if "sv_loops s5 l = Some lp" for l lp
    using drop_keeps(2) [OF v(3) that] un by metis
  have m: "m_connections s5 = Map.empty" using drop_keeps(1) [OF v(3)] v(9) r(7) by simp
  have "unowned 100 (whole ?r)" using q m r(2) by (simp add: unowned_def whole_waiting)
  moreover have "sv_conns s5 100 \<noteq> None" using v(3) n by (auto simp: drop_conn_def split: option.splits)
  ultimately show ?thesis using reach r(2) by (intro exI [of _ ?r]) simp
qed

subsection \<open>Properties\<close>

text \<open>C4: no reference dangles. In every state the server can reach, whatever the clients and the kernel do and
  however its threads interleave, an address of a connection in the server's map, in a functor that some loop has
  queued or has taken to call, in a timer or in a handler of a channel is that of a connection that exists.\<close>

theorem no_reference_dangles:
  assumes "reach (server_begin tid) server_step r" "refers a (whole r)"
  shows "sv_conns (th_sys r) a \<noteq> None"
  using reachable_types [OF assms(1)] well_typed_refers [OF _ assms(2)] by auto

theorem no_reference_dangles_witness: "\<exists>r. refers 100 (whole r) \<and> sv_conns (th_sys r) 100 \<noteq> None"
proof -
  obtain r where "reach (server_begin 1) server_step r" "refers 100 (whole r)" using demo_accepted by blast
  with no_reference_dangles [OF this] show ?thesis by blast
qed

text \<open>C10: everything runs where it belongs. In every reachable state a loop only has functors, timers and channel
  handlers of connections that live on it (the main loop alone removes connections from the map), and the
  channel of a connection is on its loop with the four handlers of that connection; the map, the names and
  the loops stay coherent.\<close>

theorem reachable_well_typed:
  assumes "reach (server_begin tid) server_step r"
  shows "well_typed tid (whole r)"
  using reachable_types [OF assms] by blast

theorem reachable_well_typed_witness: "\<exists>r. well_typed 1 (whole r) \<and> sy_conns (th_sys r) 100 \<noteq> None"
proof -
  obtain r p where "reach (server_begin 1) server_step r" "sy_conns (th_sys r) 100 = Some p" using demo_accepted by blast
  with reachable_well_typed [OF this(1)] show ?thesis by blast
qed

text \<open>C8: a connection is in exactly one phase of its life, in every reachable state: just made, with its
  \<open>connectEstablished\<close> under way (Born); connected (Live); closed, with one \<open>removeConnectionInLoop\<close> under way
  (Closing); out of the map, with one \<open>connectDestroyed\<close> under way (Erased); or destroyed. So none is
  established, removed or destroyed twice.\<close>

theorem one_phase:
  assumes "reach (server_begin tid) server_step r" "sv_conns (th_sys r) a \<noteq> None"
  shows "\<exists>!ph. in_phase (whole r) a ph"
proof -
  from reachable_inv [OF assms(1)] have "\<exists>ph. in_phase (whole r) a ph" using assms(2) by (simp add: server_inv_def sound_def ledger_def)
  then show ?thesis by (blast intro: phase_unique)
qed

theorem one_phase_witness: "\<exists>r. (\<exists>!ph. in_phase (whole r) 100 ph) \<and> unowned 100 (whole r)"
proof -
  obtain r where "reach (server_begin 1) server_step r" "unowned 100 (whole r)" "sv_conns (th_sys r) 100 \<noteq> None" using demo_destroyed by blast
  with one_phase [OF this(1,3)] show ?thesis by blast
qed

text \<open>C7: a life goes one way. No step of any thread takes a connection back to an earlier phase (Born, Live, Closing,
  Erased, Destroyed in this order); it can only go away when it is destroyed and its last owner leaves.\<close>

theorem life_goes_forward:
  assumes "reach (server_begin tid) server_step r" "server_step r r'" "in_phase (whole r) a ph"
  shows "(\<exists>ph'. in_phase (whole r') a ph' \<and> ph \<le> ph') \<or> ph = Destroyed \<and> unowned a (whole r) \<and> sv_conns (th_sys r') a = None"
  using server_step_inv [OF assms(2) reachable_inv [OF assms(1)]] assms(3) by blast

theorem life_goes_forward_witness:
  "\<exists>r r'. server_step r r' \<and> sv_conns (th_sys r) 100 \<noteq> None \<and> ((\<exists>ph'. in_phase (whole r') 100 ph' \<and> Destroyed \<le> ph') \<or>
    Destroyed = Destroyed \<and> unowned 100 (whole r) \<and> sv_conns (th_sys r') 100 = None)"
proof -
  obtain r where r: "reach (server_begin 1) server_step r" "unowned 100 (whole r)" "sv_conns (th_sys r) 100 \<noteq> None" using demo_destroyed by blast
  note I = reachable_inv [OF r(1)]
  obtain sock s where d: "drop_conn 100 (th_sys r) = Inr (sock, s)" using drop_conn_law [OF I r(2,3)] by blast
  have S: "sound 1 (whole r)" using I by (simp add: server_inv_def)
  obtain c p where cp: "sv_conns (whole r) 100 = Some c" "sy_conns (whole r) 100 = Some p"
    using d by (auto simp: drop_conn_def split: option.splits)
  have ph: "in_phase (whole r) 100 Destroyed" using unowned_destroyed [OF S r(2) cp] cp by (simp add: in_phase_def)
  from life_goes_forward [OF r(1) last_owner_leaves [OF r(2) d] ph] last_owner_leaves [OF r(2) d] r(3) show ?thesis by blast
qed

text \<open>C9: the destructor is safe. When a connection of a reachable server has no owner left, it is past
  \<open>connectDestroyed\<close> and its destructor passes its assertion and closes its socket; after it nothing in the
  server's map and loops refers to it: no functor, timer or handler of any loop, not even the plain pointer of
  \<open>connectEstablished\<close>. The poller's own table of channels is not counted: it may keep the address of a channel
  that was removed while it was still watched (\<open>remove_while_watched\<close>).\<close>

theorem destructor_safe:
  assumes "reach (server_begin tid) server_step r" "unowned a (whole r)" "sy_conns (th_sys r) a = Some p"
  shows "in_phase (whole r) a Destroyed \<and>
    (\<exists>s. drop_conn a (th_sys r) = Inr (socket_dtor (m_socket (cp_conn p)), s) \<and> sv_conns s a = None \<and>
      \<not> refers a (whole (r\<lparr>th_sys := s\<rparr>)) \<and> reach (server_begin tid) server_step (r\<lparr>th_sys := s\<rparr>))"
proof -
  note I = reachable_inv [OF assms(1)]
  have S: "sound tid (whole r)" using I by (simp add: server_inv_def)
  have "sv_conns (th_sys r) a \<noteq> None" using reachable_parts [OF assms(1), of a] assms(3) by simp
  then obtain c where c: "sv_conns (th_sys r) a = Some c" by blast
  have ph: "in_phase (whole r) a Destroyed" using unowned_destroyed [OF S assms(2)] c assms(3) by (auto simp: in_phase_def)
  obtain sock s q where d: "drop_conn a (th_sys r) = Inr (sock, s)" "sv_conns s a = None" "server_inv tid (r\<lparr>th_sys := s\<rparr>)"
    "sy_conns (th_sys r) a = Some q" "sock = socket_dtor (m_socket (cp_conn q))"
    using drop_conn_law [OF I assms(2)] c by blast
  have u: "reach (server_begin tid) server_step (r\<lparr>th_sys := s\<rparr>)" using reach_step [OF assms(1) last_owner_leaves [OF assms(2) d(1)]] .
  have "\<not> refers a (whole (r\<lparr>th_sys := s\<rparr>))" using well_typed_refers [of tid "whole (r\<lparr>th_sys := s\<rparr>)" a] reachable_types [OF u] d(2) by auto
  with ph u d assms(3) show ?thesis by auto
qed

theorem destructor_safe_witness:
  "\<exists>r (p :: conn_part) s. in_phase (whole r) 100 Destroyed \<and> drop_conn 100 (th_sys r) = Inr (socket_dtor (m_socket (cp_conn p)), s) \<and>
    \<not> refers 100 (whole (r\<lparr>th_sys := s\<rparr>))"
proof -
  obtain r where r: "reach (server_begin 1) server_step r" "unowned 100 (whole r)" "sv_conns (th_sys r) 100 \<noteq> None" using demo_destroyed by blast
  then have "sy_conns (th_sys r) 100 \<noteq> None" using reachable_parts [OF r(1), of 100] by metis
  then obtain p where "sy_conns (th_sys r) 100 = Some p" by blast
  from destructor_safe [OF r(1,2) this] show ?thesis by blast
qed

end
