(* ===== verification/ServerDefined.thy ===== *)
theory ServerDefined
  imports ServerEvents ServerOwnership
begin

text \<open>
  Memory safety of the server: where its code can be undefined at all, and that no connection goes while its loop
  handles events. The properties of theory ServerEvents, with the runs to evaluate them on.
\<close>

subsection \<open>Runs to evaluate\<close>

lemma demo_modest: "modest (no_reads (demo_object 100))"
  by (simp add: demo_object_def modest_def response_max_def stamp_max_def render_request_def render_headers_def method_text_def version_text_def)

text \<open>The main loop of the server of ServerOwnership has taken the client's connection request from its poller.\<close>

lemma demo_dispatches:
  "\<exists>r l x (lp :: io_loop). reach (server_begin 1) served_step r \<and> th_pc r l = In_Dispatch [x] \<and> sv_loops (th_sys r) l = Some lp \<and>
    lp_objects lp x \<noteq> None"
proof -
  obtain r where r: "server_begin 1 r" "sys_waits documented_kernel 1 (\<lambda>_. 11) (th_sys r)" "m_next_conn_id (th_sys r) = 1"
    "\<forall>l lp. sv_loops (th_sys r) l = Some lp \<longrightarrow> seen_at lp 101 = None" using demo_begins by blast
  let ?s = "th_sys r" and ?r1 = "r\<lparr>th_sys := demo_answers (th_sys r)\<rparr>"
  let ?l = "m_main_loop ?s" and ?x = "m_accept_channel (m_acceptor ?s)"
  let ?ans = "Wt_Events [(?x, EPOLLIN)]"
  have b: "sv_conns ?s = Map.empty" "th_pc r ?l = In_Poll" using r(1) by (auto simp: server_begin_def)
  have "modest_news [demo_object 100] ?s"
    using b(1) r(3,4) demo_modest by (auto simp: modest_news_def fresh_news_def demo_object_def seen_handlers)
  from served_answers [OF this, of "[Ac_Fd 7, Ac_Err EAGAIN]"] have "served_step r ?r1" by (simp add: demo_answers_def)
  then have reach1: "reach (server_begin 1) served_step ?r1" using r(1) by (blast intro: reach_init reach_step)
  obtain lp where lp: "sv_loops ?s ?l = Some lp" "rests lp" "lp_objects lp ?x \<noteq> None"
    using r(2) by (auto simp: sys_waits_def loop_waits_def reads_def)
  then obtain ch where ch: "lp_objects lp ?x = Some ch" by blast
  have st: "length (se_stamp demo_sys_env) \<le> stamp_max" by (simp add: demo_sys_env_def stamp_max_def)
  obtain st' ep where p: "poll ?ans (lp_objects lp) (m_epoll lp) [] = Inr ([?x], st', ep)" "st' ?x \<noteq> None"
    using lp(2) ch by (auto simp: poll_def rests_def)
  let ?lp = "lp\<lparr>m_active_channels := [?x], lp_objects := st', m_epoll := ep, m_loop_event_handling := True\<rparr>"
  let ?r2 = "at_pc ?l (In_Dispatch [?x]) ?r1 (?lp, th_sys ?r1)"
  have "loop_move demo_sys_env ?l ?ans ?r1 = Inr ?r2" using lp(1) b(2) p by (simp add: loop_move_def Let_def)
  from reach_step [OF reach1 served_moves [OF st this]] have "reach (server_begin 1) served_step ?r2" .
  moreover have "th_pc ?r2 ?l = In_Dispatch [?x]" "sv_loops (th_sys ?r2) ?l = Some ?lp" "lp_objects ?lp ?x \<noteq> None"
    using p(2) by (simp_all add: at_pc_def)
  ultimately show ?thesis by blast
qed

text \<open>While the loop of the accepted client handles what its poller reported, the main loop goes to its poller and back.\<close>

lemma empty_poll:
  assumes "sv_loops (th_sys r) l = Some lp" "th_pc r l = In_Poll"
  obtains lp' where "loop_move e l (Wt_Events []) r = Inr (at_pc l (In_Dispatch []) r (lp', th_sys r))"
    "m_pending_functors lp' = m_pending_functors lp"
proof -
  obtain st ep act where p: "poll (Wt_Events []) (lp_objects lp) (m_epoll lp) [] = Inr (act, st, ep)" "act = []"
    by (auto simp: poll_def bind_res_def Let_def split: sum.splits)
  then show ?thesis
    using that [of "lp\<lparr>m_active_channels := [], lp_objects := st, m_epoll := ep, m_loop_event_handling := True\<rparr>"] assms
    by (simp add: loop_move_def Let_def)
qed

lemma demo_handles:
  "\<exists>r (r' :: threads) l x. reach (server_begin 1) server_step r \<and> th_pc r l = In_Dispatch [] \<and> knows (th_sys r) 100 l x \<and>
    in_phase (whole r) 100 Born \<and> (dispatching_step l)\<^sup>*\<^sup>* r r' \<and> (\<exists>k. k \<noteq> l \<and> th_pc r k = In_Poll \<and> th_pc r' k = In_Dispatch [])"
proof -
  obtain r0 l0 ans s p where r0: "reach (server_begin 1) server_step r0" "\<forall>l. th_pc r0 l = In_Poll"
    "sys_turn demo_sys_env l0 ans (th_sys r0) = Inr s" "sy_conns s 100 = Some p" "m_state (cp_conn p) = kConnecting"
    using demo_accepts by blast
  define r where "r = r0\<lparr>th_sys := s\<rparr>"
  have r: "reach (server_begin 1) server_step r" "\<forall>l. th_pc r l = In_Poll" "sy_conns (th_sys r) 100 = Some p"
    using reach_turn [OF r0(1) _ r0(3)] r0(2,4) by (simp_all add: r_def)
  note I = reachable_inv [OF r(1)]
  obtain c where c: "sv_conns (th_sys r) 100 = Some c" using reachable_parts [OF r(1), of 100] r(3) by auto
  define l where "l = cr_loop c"
  define x where "x = m_channel (cp_conn p)"
  have kn: "knows (th_sys r) 100 l x" using c r(3) by (simp add: knows_def l_def x_def)
  obtain ph where "in_phase (whole r) 100 ph" using I c by (auto simp: server_inv_def sound_def ledger_def whole_def)
  moreover from this r0(5) r(3) have "ph = Born" by (cases ph) (auto simp: in_phase_def tokens_of_def whole_def)
  ultimately have born: "in_phase (whole r) 100 Born" by simp
  obtain lp where lp: "sv_loops (th_sys r) l = Some lp" using inv_handlers [OF I kn] by blast
  note P = mid_pool [OF mid_whole [OF I lp] kn]
  obtain lm where lm: "sv_loops (th_sys r) (m_main_loop (th_sys r)) = Some lm" using P(3) by blast
  have pc: "th_pc r l = In_Poll" using r(2) by simp
  obtain lp1 where m1: "loop_move demo_sys_env l (Wt_Events []) r = Inr (at_pc l (In_Dispatch []) r (lp1, th_sys r))"
    "m_pending_functors lp1 = m_pending_functors lp" by (rule empty_poll [OF lp pc])
  let ?r1 = "at_pc l (In_Dispatch []) r (lp1, th_sys r)"
  have s1: "server_step r ?r1" using m1(1) by (rule loop_moves)
  have r1: "reach (server_begin 1) server_step ?r1" using reach_step [OF r(1) s1] .
  have "rest_of (th_pc ?r1 k) = rest_of (th_pc r k)" for k using r(2) by (simp add: at_pc_def)
  then have "pending (whole ?r1) = pending (whole r)"
    using m1(2) lp by (simp add: whole_def at_pc_def pending_def with_rest_def fun_eq_iff)
  moreover have "sv_conns (th_sys ?r1) = sv_conns (th_sys r)" "sy_conns (th_sys ?r1) = sy_conns (th_sys r)"
    "m_connections (th_sys ?r1) = m_connections (th_sys r)" "m_main_loop (th_sys ?r1) = m_main_loop (th_sys r)" by (simp_all add: at_pc_def)
  ultimately have "in_phase (whole ?r1) 100 Born" using born by (simp add: in_phase_def tokens_of_def)
  moreover have "sv_loops (th_sys ?r1) (m_main_loop (th_sys r)) = Some lm" "th_pc ?r1 (m_main_loop (th_sys r)) = In_Poll"
    using lm P(1) r(2) by (auto simp: at_pc_def)
  from empty_poll [OF this, of demo_sys_env] obtain lm1 where
    m2: "loop_move demo_sys_env (m_main_loop (th_sys r)) (Wt_Events []) ?r1 =
      Inr (at_pc (m_main_loop (th_sys r)) (In_Dispatch []) ?r1 (lm1, th_sys ?r1))" by blast
  let ?r2 = "at_pc (m_main_loop (th_sys r)) (In_Dispatch []) ?r1 (lm1, th_sys ?r1)"
  have "dispatching_step l ?r1 ?r2" using loop_moves [OF m2] P(1) by (auto simp: dispatching_step_def at_pc_def)
  moreover have "knows (th_sys ?r1) 100 l x" "th_pc ?r1 l = In_Dispatch []" using kn by (simp_all add: at_pc_def)
  moreover have "m_main_loop (th_sys r) \<noteq> l" "th_pc ?r1 (m_main_loop (th_sys r)) = In_Poll" "th_pc ?r2 (m_main_loop (th_sys r)) = In_Dispatch []"
    using P(1) r(2) by (auto simp: at_pc_def)
  ultimately show ?thesis using r1 by blast
qed

subsection \<open>Properties\<close>

text \<open>C5: what can be undefined in the server. In every state that it can reach, however its threads interleave and
  whatever \<open>epoll_wait\<close> reports, the next step of any loop is undefined behaviour exactly when the loop follows a
  pointer to a channel that is gone, which only the kernel can have given it, or when the kernel reports more events than
  the array for them has room for. Every other channel, connection, buffer and loop that a handler, a functor or the poller
  uses is there, no buffer is left and no counter overflows. The log statements of the code are left out, which may
  overrun buffers of the log (\<open>append_overruns\<close>); each client sends less than 2^31 - 1024 bytes in less
  than 6 million reads, and fewer than 2^31 connections are made (\<open>served_step\<close>).\<close>

theorem undefined_only_by_stale_channel:
  assumes "reach (server_begin tid) served_step r" "sv_loops (th_sys r) l = Some lp" "length (se_stamp e) \<le> stamp_max"
  shows "loop_move e l ans r = Inl Undefined_Behaviour \<longleftrightarrow> stale_channel ans lp (th_pc r l)"
proof
  show "loop_move e l ans r = Inl Undefined_Behaviour" if "stale_channel ans lp (th_pc r l)" using assms(2) that by (rule stale_move)
  show "stale_channel ans lp (th_pc r l)" if "loop_move e l ans r = Inl Undefined_Behaviour"
    using safe_defined [OF served_move_safe [OF served_runs.reach_inv [OF assms(1)] assms(2,3)]] that by blast
qed

theorem undefined_only_by_stale_channel_witness:
  "\<exists>r l x. th_pc r l = In_Dispatch [x] \<and> loop_move demo_sys_env l (Wt_Events []) r \<noteq> Inl Undefined_Behaviour"
proof -
  obtain r l x and lp :: io_loop where r: "reach (server_begin 1) served_step r" "th_pc r l = In_Dispatch [x]"
    "sv_loops (th_sys r) l = Some lp" "lp_objects lp x \<noteq> None" using demo_dispatches by blast
  have "length (se_stamp demo_sys_env) \<le> stamp_max" by (simp add: demo_sys_env_def stamp_max_def)
  from undefined_only_by_stale_channel [OF r(1,3) this, of "Wt_Events []"] r(2,4) show ?thesis by auto
qed

text \<open>C6: no connection goes while its loop handles events. Let a loop have channels to handle, and \<open>a\<close> be a connection of
  that loop that is not past \<open>connectDestroyed\<close>. Whatever the threads do next, with any answers of the kernel, as long as the loop is
  not through with its channels: handlers of this loop that close \<open>a\<close>, the main loop that takes it out of its map,
  new connections, destructors of others; \<open>a\<close> is not destroyed, its channel is where it was with the handlers of \<open>a\<close>,
  and a phase of \<open>a\<close> never comes back.\<close>

theorem dispatch_keeps_connections:
  assumes "reach (server_begin tid) server_step r" "th_pc r l = In_Dispatch xs" "(dispatching_step l)\<^sup>*\<^sup>* r r'"
    and "knows (th_sys r) a l x" "in_phase (whole r) a ph" "ph \<noteq> Destroyed"
  shows "knows (th_sys r') a l x \<and> (\<exists>ph'. in_phase (whole r') a ph' \<and> ph \<le> ph' \<and> ph' \<noteq> Destroyed) \<and>
    (\<exists>lp ch. sv_loops (th_sys r') l = Some lp \<and> lp_objects lp x = Some ch \<and> handlers_of ch = conn_handlers_at a)"
proof -
  note D = dispatching_steps_keep [OF assms(3) reachable_inv [OF assms(1)] assms(2,4-6)]
  then have "server_inv tid r'" "knows (th_sys r') a l x" by blast+
  from inv_handlers [OF this] D show ?thesis by (fastforce simp: handlers_at_def)
qed

theorem dispatch_keeps_connections_witness:
  "\<exists>(r :: threads) (r' :: threads) k l x. k \<noteq> l \<and> th_pc r k = In_Poll \<and> th_pc r' k = In_Dispatch [] \<and> knows (th_sys r') 100 l x"
proof -
  obtain r r' k l x where r: "reach (server_begin 1) server_step r" "th_pc r l = In_Dispatch []" "knows (th_sys r) 100 l x"
    "in_phase (whole r) 100 Born" "(dispatching_step l)\<^sup>*\<^sup>* r r'" "k \<noteq> l" "th_pc r k = In_Poll" "th_pc r' k = In_Dispatch []"
    using demo_handles by blast
  from dispatch_keeps_connections [OF r(1,2,5,3,4)] r(6-8) show ?thesis by blast
qed

end
