(* ===== verification/ServerKeepAlive.thy ===== *)
theory ServerKeepAlive
  imports ServerLife ServerOwnership
begin

text \<open>
  The life of a kept-alive connection in the whole server: any number of requests, each answered in a turn of its
  loop, then the timer that the first of them armed, which closes it.
\<close>

subsection \<open>Requests\<close>

text \<open>A request and what the socket does about it: the pieces in which it comes, what comes behind it, and the
  writes that take the response.\<close>

record request =
  rq_env :: sys_env
  rq_pieces :: "sys_read list"
  rq_method :: METHOD
  rq_uri :: string
  rq_version :: HTTP_VERSION
  rq_headers :: "string list"
  rq_extra :: string
  rq_writes :: "sys_write list"
  rq_stop :: sys_write

definition rq_response :: "request \<Rightarrow> string" where
  "rq_response q = response_to (se_stamp (rq_env q)) (rq_uri q) (rq_version q)"

definition rq_fits :: "ctl_kernel \<Rightarrow> request \<Rightarrow> bool" where
  "rq_fits kctl q \<longleftrightarrow> se_kctl (rq_env q) = kctl \<and> (\<forall>a \<in> set (rq_pieces q). rd_goes_on a) \<and>
     rd_data (rq_pieces q) = render_request (rq_method q) (rq_uri q) (rq_version q) (rq_headers q) @ rq_extra q \<and>
     is_word (rq_uri q) \<and> rq_uri q \<noteq> [] \<and> (\<forall>h \<in> set (rq_headers q). accepted_header h) \<and>
     (\<forall>w \<in> set (rq_writes q). wr_goes_on w) \<and> wr_stops (rq_stop q) \<and> wr_sum (rq_writes q) = length (rq_response q)"

text \<open>Buffers grow to at most the sum of what goes through them.\<close>

definition rq_in :: "request \<Rightarrow> nat" where
  "rq_in q = length (rd_data (rq_pieces q))"

definition rq_out :: "request \<Rightarrow> nat" where
  "rq_out q = 250 + length (se_stamp (rq_env q))"

definition rq_reads :: "request list \<Rightarrow> sys_read list" where
  "rq_reads qs = concat (map (\<lambda>q. rq_pieces q @ [Rd_Err EAGAIN]) qs)"

definition rq_outs :: "request list \<Rightarrow> sys_write list" where
  "rq_outs qs = concat (map (\<lambda>q. rq_writes q @ [rq_stop q]) qs)"

definition rq_turns :: "nat \<Rightarrow> nat \<Rightarrow> request list \<Rightarrow> (sys_env \<times> nat \<times> sys_wait) list" where
  "rq_turns l x qs = map (\<lambda>q. (rq_env q, l, Wt_Events [(x, EPOLLIN)])) qs"

text \<open>The connection \<open>a\<close> on the loop \<open>L\<close> waits, and the socket will do as the requests \<open>qs\<close> say.\<close>

definition serves :: "ctl_kernel \<Rightarrow> nat \<Rightarrow> nat \<Rightarrow> int \<Rightarrow> request list \<Rightarrow> io_loop \<Rightarrow> conn_part \<Rightarrow> bool" where
  "serves kctl a x fd qs L p \<longleftrightarrow> (\<forall>e w. se_kctl e = kctl \<longrightarrow> ready (env_for e (m_tid L) a) (join_conn L p w)) \<and> rests L \<and>
     seen_at L x = Some (fd, Some (H_conn a Ev_Read)) \<and> m_channel (cp_conn p) = x \<and>
     cp_in p = rq_reads qs \<and> cp_out p = rq_outs qs \<and> (\<forall>q \<in> set qs. rq_fits kctl q) \<and>
     buffer_room (sum_list (map rq_in qs)) (m_input_buffer (cp_conn p)) \<and>
     buffer_room (sum_list (map rq_out qs)) (m_output_buffer (cp_conn p))"

lemma env_for_more [simp]:
  "e_now (env_for e tid a) = se_now e" "e_close_long (env_for e tid a) = Fn_closeLongConnection a"
  by (simp_all add: env_for_def)

lemma keep_turn:
  assumes S: "serves kctl a x fd (q # qs) L p" and l: "sv_loops s l = Some L" "sy_conns s a = Some p"
    and alive: "m_alive (cp_conn p) \<or> asks_keep_alive (m_context (cp_conn p)) (rq_headers q)"
  shows "\<exists>L' p'. sys_turn (rq_env q) l (Wt_Events [(x, EPOLLIN)]) s = Inr (put_loop l L' (s\<lparr>sy_conns := (sy_conns s)(a \<mapsto> p')\<rparr>)) \<and>
    serves kctl a x fd qs L' p' \<and> m_alive (cp_conn p') \<and> cp_sent p' = cp_sent p @ rq_response q \<and>
    m_socket (cp_conn p') = m_socket (cp_conn p) \<and> m_tid L' = m_tid L \<and> seen_at L' = seen_at L \<and>
    (watched L')(x := None) = (watched L)(x := None) \<and>
    m_timer_heap L' = (if m_alive (cp_conn p) then m_timer_heap L
      else addTimerInLoop (se_now (rq_env q)) (Fn_closeLongConnection a) 300 (m_timer_heap L))"
proof -
  let ?e = "rq_env q" and ?r = "rq_response q"
  let ?env = "env_for ?e (m_tid L) a"
  have f: "rq_fits kctl q" "\<forall>q \<in> set qs. rq_fits kctl q" using S by (simp_all add: serves_def)
  have k: "se_kctl ?e = kctl" using f(1) by (simp add: rq_fits_def)
  have v: "rests L" "seen_at L x = Some (fd, Some (H_conn a Ev_Read))" "m_channel (cp_conn p) = x" using S by (simp_all add: serves_def)
  have rx: "reads L x (H_conn a Ev_Read)" using v(2) by (auto simp: seen_at_views)
  let ?heap = "if m_alive (cp_conn p) then m_timer_heap L else addTimerInLoop (se_now ?e) (Fn_closeLongConnection a) 300 (m_timer_heap L)"
  let ?P = "\<lambda>t. \<exists>lp3. alike L lp3 \<and> ready ?env t \<and> m_alive (cs_conn t) \<and> cs_sent t = cp_sent p @ ?r \<and>
    others_watched t = others_watched (join_conn lp3 p s) \<and>
    cs_world t = s \<and> m_timer_heap (cs_loop t) = ?heap \<and> cs_in t = rq_reads qs \<and> cs_out t = rq_outs qs \<and>
    buffer_room (sum_list (map rq_in qs)) (m_input_buffer (cs_conn t)) \<and> buffer_room (sum_list (map rq_out qs)) (m_output_buffer (cs_conn t)) \<and>
    m_socket (cs_conn t) = m_socket (cp_conn p) \<and> m_channel (cs_conn t) = x \<and>
    same_rest (lp3\<lparr>m_timer_heap := m_timer_heap (cs_loop t)\<rparr>) (cs_loop t)"
  have run: "\<exists>t. conn_exec ?env Ev_Read (join_conn lp3 p s) = Inr t \<and> ?P t \<and> owned (cs_loop t) x \<and> m_pending_functors (cs_loop t) = []"
    if l3: "alike L lp3" "m_pending_functors lp3 = []" for lp3
  proof -
    let ?j = "join_conn lp3 p s"
    have "ready ?env (join_conn L p s)" using S k unfolding serves_def by blast
    then have rd: "ready ?env ?j" by (rule ready_alike [OF l3(1)])
    have i: "cs_in ?j = rq_pieces q @ Rd_Err EAGAIN # rq_reads qs" "cs_out ?j = rq_writes q @ rq_stop q # rq_outs qs"
      using S by (simp_all add: serves_def rq_reads_def rq_outs_def)
    have room: "buffer_room (length (rd_data (rq_pieces q)) + sum_list (map rq_in qs)) (m_input_buffer (cs_conn ?j))"
      "buffer_room (250 + length (e_stamp ?env) + sum_list (map rq_out qs)) (m_output_buffer (cs_conn ?j))"
      using S by (simp_all add: serves_def rq_in_def rq_out_def add.assoc)
    have room0: "buffer_room (250 + length (e_stamp ?env)) (m_output_buffer (cs_conn ?j))" by (rule buffer_room_mono [OF room(2)]) simp
    have ra: "request_arrives ?env ?j (rq_pieces q) (rq_method q) (rq_uri q) (rq_version q) (rq_headers q) (rq_extra q) (sum_list (map rq_in qs))"
      unfolding request_arrives_def using i(1) f(1) room(1) room0 by (simp only: rq_fits_def) blast
    have al: "m_alive (cs_conn ?j) \<or> asks_keep_alive (m_context (cs_conn ?j)) (rq_headers q)" using alive by simp
    have w: "\<forall>w \<in> set (rq_writes q). wr_goes_on w" "wr_stops (rq_stop q)"
      "wr_sum (rq_writes q) = length (response_to (e_stamp ?env) (rq_uri q) (rq_version q))" using f(1) by (simp_all add: rq_fits_def rq_response_def)
    from keep_alive_law [OF rd ra i(1) al i(2) w room(2), unfolded env_for_simps env_for_more join_conn_simps v(3), folded rq_response_def]
    obtain t where
      t: "handleRead ?env ?j = Inr t" "cs_sent t = cp_sent p @ ?r" "ready ?env t" "m_alive (cs_conn t)" "others_watched t = others_watched ?j"
        "cs_world t = s" "m_timer_heap (cs_loop t) = (if m_alive (cp_conn p) then m_timer_heap lp3
          else addTimerInLoop (se_now ?e) (Fn_closeLongConnection a) 300 (m_timer_heap lp3))" "cs_in t = rq_reads qs" "cs_out t = rq_outs qs"
        "buffer_room (sum_list (map rq_in qs)) (m_input_buffer (cs_conn t))" "buffer_room (sum_list (map rq_out qs)) (m_output_buffer (cs_conn t))"
        "m_socket (cs_conn t) = m_socket (cp_conn p)" "m_channel (cs_conn t) = x"
        "same_rest (lp3\<lparr>m_timer_heap := m_timer_heap (cs_loop t)\<rparr>) (cs_loop t)"
      by blast
    have "m_timer_heap (cs_loop t) = ?heap" unfolding t(7) alike_views(7) [OF l3(1)] ..
    with l3(1) t(2-6,8-14) have "?P t" by blast
    moreover have "conn_exec ?env Ev_Read ?j = Inr t" using t(1) by simp
    moreover have "owned (cs_loop t) x" using t(3,13) by (simp add: ready_def settled_def)
    moreover have "m_pending_functors (cs_loop t) = []" using same_rest_simps(2) [OF t(14)] l3(2) by simp
    ultimately show ?thesis by blast
  qed
  from event_conn_turn [where P = ?P and e = ?e, OF l(1) rx v(1) l(2) run] obtain t lp4 lp3 where
    t: "sys_turn ?e l (Wt_Events [(x, EPOLLIN)]) s = Inr (after_conn l a lp4 t)" "alike (cs_loop t) lp4" "idle lp4" "m_pending_functors lp4 = []"
      "alike L lp3" "ready ?env t" "m_alive (cs_conn t)" "cs_sent t = cp_sent p @ ?r" "others_watched t = others_watched (join_conn lp3 p s)"
      "cs_world t = s" "m_timer_heap (cs_loop t) = ?heap" "cs_in t = rq_reads qs" "cs_out t = rq_outs qs"
      "buffer_room (sum_list (map rq_in qs)) (m_input_buffer (cs_conn t))" "buffer_room (sum_list (map rq_out qs)) (m_output_buffer (cs_conn t))"
      "m_socket (cs_conn t) = m_socket (cp_conn p)" "m_channel (cs_conn t) = x" "same_rest (lp3\<lparr>m_timer_heap := m_timer_heap (cs_loop t)\<rparr>) (cs_loop t)" by blast
  have tid: "m_tid lp4 = m_tid L" using alike_views(4) [OF t(2)] same_rest_simps(3) [OF t(18)] alike_views(4) [OF t(5)] by simp
  have rd: "ready (env_for e (m_tid lp4) a) (join_conn lp4 (conn_part_of t) w)" if "se_kctl e = kctl" for e w
    by (rule ready_alike [OF t(2)], rule ready_env [OF t(6)]) (use that k tid in simp_all)
  have rest: "rests lp4"
    using t(3,4) v(1) alike_views(5) [OF t(2)] same_rest_simps(7) [OF t(18)] alike_views(5) [OF t(5)] by (simp add: rests_def)
  have seen: "seen_at lp4 = seen_at L" using seen_at_alike [OF t(2)] seen_at_same_rest [OF t(18)] seen_at_alike [OF t(5)]
    by (simp add: seen_at_def fun_eq_iff)
  have "(watched (cs_loop t))(x := None) = (watched lp3)(x := None)" using t(9,17) v(3) by (simp add: others_watched_def)
  then have wd: "(watched lp4)(x := None) = (watched L)(x := None)" using alike_views(1) [OF t(2)] alike_views(1) [OF t(5)] by simp
  have serve: "serves kctl a x fd qs lp4 (conn_part_of t)"
    using rd rest seen v(2) t(12-15,17) f(2) by (simp add: serves_def)
  have th: "m_timer_heap lp4 = ?heap" using alike_views(7) [OF t(2)] t(11) by simp
  have "after_conn l a lp4 t = put_loop l lp4 (s\<lparr>sy_conns := (sy_conns s)(a \<mapsto> conn_part_of t)\<rparr>)" using t(10) by (simp add: after_conn_def)
  then show ?thesis using t(1,7,8,16) serve seen wd th tid
    by (intro exI [of _ lp4] exI [of _ "conn_part_of t"]) simp
qed

text \<open>All of them, on a connection that is kept alive already.\<close>

lemma put_loop_again [simp]:
  "put_loop l L' ((put_loop l L s)\<lparr>sy_conns := x\<rparr>) = put_loop l L' (s\<lparr>sy_conns := x\<rparr>)"
  by (simp add: put_loop_def fun_upd_upd)

lemma put_loop_none: "sv_loops s l = Some L \<Longrightarrow> sy_conns s a = Some p \<Longrightarrow> put_loop l L (s\<lparr>sy_conns := (sy_conns s)(a \<mapsto> p)\<rparr>) = s"
  by (cases s) (simp add: put_loop_def fun_upd_idem)

lemma keep_turns:
  assumes "serves kctl a x fd qs L p" "sv_loops s l = Some L" "sy_conns s a = Some p" "m_alive (cp_conn p)"
  shows "\<exists>L' p'. sys_turns (rq_turns l x qs) s = Inr (put_loop l L' (s\<lparr>sy_conns := (sy_conns s)(a \<mapsto> p')\<rparr>)) \<and>
    serves kctl a x fd [] L' p' \<and> m_alive (cp_conn p') \<and> cp_sent p' = cp_sent p @ concat (map rq_response qs) \<and>
    m_socket (cp_conn p') = m_socket (cp_conn p) \<and> m_tid L' = m_tid L \<and> seen_at L' = seen_at L \<and>
    (watched L')(x := None) = (watched L)(x := None) \<and> m_timer_heap L' = m_timer_heap L"
  using assms
proof (induction qs arbitrary: L p s)
  case Nil
  have "sys_turns (rq_turns l x []) s = Inr (put_loop l L (s\<lparr>sy_conns := (sy_conns s)(a \<mapsto> p)\<rparr>))"
    unfolding put_loop_none [OF Nil(2,3)] by (simp add: rq_turns_def)
  with Nil show ?case by (intro exI [of _ L] exI [of _ p]) (simp del: fun_upd_apply)
next
  case (Cons q qs)
  from keep_turn [OF Cons.prems(1-3)] Cons.prems(4) obtain L1 p1 where
    t: "sys_turn (rq_env q) l (Wt_Events [(x, EPOLLIN)]) s = Inr (put_loop l L1 (s\<lparr>sy_conns := (sy_conns s)(a \<mapsto> p1)\<rparr>))"
      "serves kctl a x fd qs L1 p1" "m_alive (cp_conn p1)" "cp_sent p1 = cp_sent p @ rq_response q"
      "m_socket (cp_conn p1) = m_socket (cp_conn p)" "m_tid L1 = m_tid L" "seen_at L1 = seen_at L"
      "(watched L1)(x := None) = (watched L)(x := None)" "m_timer_heap L1 = m_timer_heap L" by auto
  let ?s1 = "put_loop l L1 (s\<lparr>sy_conns := (sy_conns s)(a \<mapsto> p1)\<rparr>)"
  have "sv_loops ?s1 l = Some L1" "sy_conns ?s1 a = Some p1" by simp_all
  from Cons.IH [OF t(2) this t(3)] obtain L' p' where
    r: "sys_turns (rq_turns l x qs) ?s1 = Inr (put_loop l L' (?s1\<lparr>sy_conns := (sy_conns ?s1)(a \<mapsto> p')\<rparr>))"
      "serves kctl a x fd [] L' p'" "m_alive (cp_conn p')" "cp_sent p' = cp_sent p1 @ concat (map rq_response qs)"
      "m_socket (cp_conn p') = m_socket (cp_conn p1)" "m_tid L' = m_tid L1" "seen_at L' = seen_at L1"
      "(watched L')(x := None) = (watched L1)(x := None)" "m_timer_heap L' = m_timer_heap L1" by blast
  have "put_loop l L' (?s1\<lparr>sy_conns := (sy_conns ?s1)(a \<mapsto> p')\<rparr>) = put_loop l L' (s\<lparr>sy_conns := (sy_conns s)(a \<mapsto> p')\<rparr>)"
    by (simp add: fun_upd_upd)
  with r(1) t(1) have "sys_turns (rq_turns l x (q # qs)) s = Inr (put_loop l L' (s\<lparr>sy_conns := (sy_conns s)(a \<mapsto> p')\<rparr>))"
    by (simp add: rq_turns_def)
  with r(2-9) t(4-9) show ?case by (intro exI [of _ L'] exI [of _ p']) (simp del: fun_upd_apply)
qed

subsection \<open>The timer\<close>

text \<open>The functor that the timer's channel queues, when one timer is due and it closes the connection.\<close>

lemma timeout_functor:
  assumes "ready env (join_conn lp p s)" "env = env_for e (m_tid L) a" "sy_conns s a = Some p"
    and "m_min_heap (m_timer_heap lp) = [t]" "m_cb t = Fn_closeLongConnection a" "m_expire_time t \<le> se_now e"
    and "sv_loops s (m_main_loop s) = Some lm" "m_tid lm \<noteq> m_tid L"
  defines "w \<equiv> put_loop (m_main_loop s) (queueInLoop (m_tid L) (Fn_removeConnectionInLoop a) lm) s"
  shows "\<exists>c. sys_functor e (m_tid L) l Fn_handleTimeoutEvents (lp, s) =
      Inr ((cs_loop c)\<lparr>m_timer_heap := (m_timer_heap lp)\<lparr>m_min_heap := []\<rparr>\<rparr>, w\<lparr>sy_conns := (sy_conns w)(a \<mapsto> conn_part_of c)\<rparr>) \<and>
    goes_down env (join_conn lp p s) c \<and> cs_sent c = cp_sent p \<and>
    m_socket (cs_conn c) = (if m_alive (cp_conn p) then m_socket (cp_conn p) else shutdownWrite (m_socket (cp_conn p)))"
proof -
  let ?j = "(join_conn lp p s)\<lparr>cs_conn := (cp_conn p)\<lparr>m_timeout := True\<rparr>\<rparr>"
  have j: "settled env ?j" "\<not> kept_alive (cs_conn ?j)" "m_state (cs_conn ?j) = kConnected" "cs_watched ?j \<noteq> None"
    using assms(1) by (simp_all add: ready_def kept_alive_def settled_def cs_watched_def)
  have cb: "e_close_callback env (closed_conn (cs_conn ?j)) (cs_world ?j) = Inr w"
    using removeConnection_queues [OF assms(7,8)] by (simp add: assms(2) env_for_def w_def)
  from handleClose_law [OF j cb] obtain lp1 where
    c: "handleClose env ?j = Inr (closed lp1 w ?j)" "settled env (closed lp1 w ?j)" "cs_watched (closed lp1 w ?j) = None"
      "others_watched (closed lp1 w ?j) = others_watched ?j" "same_rest lp lp1" by auto
  let ?c = "closed lp1 w ?j"
  from handleClose_switches_off [OF j(1,2,4) c(1)] have off: "off lp1 (m_channel (cp_conn p))" by (simp add: off_def)
  have down: "goes_down env (join_conn lp p s) ?c"
    using c(2-5) off by (simp add: goes_down_def others_watched_def)
  have f: "sys_call e (m_tid L) l (Fn_closeLongConnection a) (lp, s) = Inr (lp1, w\<lparr>sy_conns := (sy_conns w)(a \<mapsto> conn_part_of ?c)\<rparr>)"
    using c(1) assms(3) by (simp add: on_conn_def closeLongConnection_def assms(2) [symmetric])
  have h: "m_timer_heap lp1 = m_timer_heap lp" by (rule same_rest_simps(1) [OF c(5)])
  have due: "\<not> se_now e < m_expire_time t" using assms(6) by simp
  have pop: "pop [t] = []" by (simp add: pop_def swap_def percolateDown.simps)
  have "run_timeouts_loop (sys_call e (m_tid L) l) (se_now e) (lp, s) =
      Some (Inr (lp1\<lparr>m_timer_heap := (m_timer_heap lp)\<lparr>m_min_heap := []\<rparr>\<rparr>, w\<lparr>sy_conns := (sy_conns w)(a \<mapsto> conn_part_of ?c)\<rparr>))"
    by (subst run_timeouts_loop.simps) (simp add: assms(4,5) due f h pop run_timeouts_loop.simps del: sys_call.simps)
  then have "sys_functor e (m_tid L) l Fn_handleTimeoutEvents (lp, s) =
      Inr ((cs_loop ?c)\<lparr>m_timer_heap := (m_timer_heap lp)\<lparr>m_min_heap := []\<rparr>\<rparr>, w\<lparr>sy_conns := (sy_conns w)(a \<mapsto> conn_part_of ?c)\<rparr>)"
    by (simp add: sys_functor_def run_timeouts_def)
  moreover have "cs_sent ?c = cp_sent p" "m_socket (cs_conn ?c) = (if m_alive (cp_conn p) then m_socket (cp_conn p) else shutdownWrite (m_socket (cp_conn p)))"
    by (simp_all add: closed_conn_def)
  ultimately show ?thesis using down by blast
qed

text \<open>The turn in which the timer fires.\<close>

lemma timer_turn:
  assumes l: "sv_loops s l = Some L" "rests L" "reads L ta H_timer" and p: "sy_conns s a = Some p" "m_channel (cp_conn p) = x"
    and r: "ready (env_for e (m_tid L) a) (join_conn L p s)" and k: "se_kctl e = kctl"
    and t: "m_min_heap (m_timer_heap L) = [t]" "m_cb t = Fn_closeLongConnection a" "m_expire_time t \<le> se_now e"
    and main: "sv_loops s (m_main_loop s) = Some lm" "m_tid lm \<noteq> m_tid L"
  defines "w \<equiv> put_loop (m_main_loop s) (queueInLoop (m_tid L) (Fn_removeConnectionInLoop a) lm) s"
  shows "\<exists>L' p'. sys_turn e l (Wt_Events [(ta, EPOLLIN)]) s = Inr (put_loop l L' (w\<lparr>sy_conns := (sy_conns w)(a \<mapsto> p')\<rparr>)) \<and>
    m_state (cp_conn p') = kDisconnected \<and> m_channel (cp_conn p') = x \<and> cp_sent p' = cp_sent p \<and>
    m_socket (cp_conn p') = (if m_alive (cp_conn p) then m_socket (cp_conn p) else shutdownWrite (m_socket (cp_conn p))) \<and>
    loop_ok (m_tid L) kctl L' \<and> rests L' \<and> off L' x \<and> watched L' = (watched L)(x := None) \<and> seen_at L' = seen_at L \<and>
    m_timer_heap L' = (m_timer_heap L)\<lparr>m_min_heap := []\<rparr>"
proof -
  let ?env = "env_for e (m_tid L) a" and ?exec = "sys_functor e (m_tid L) l" and ?run = "sys_handler e (m_tid L) l"
  let ?lp2 = "queueInLoop (m_tid L) Fn_handleTimeoutEvents (reporting ta L)"
  have tid: "m_tid (reporting ta L) = m_tid L" using alike_views(4) [OF reporting_simps(1), of ta L] .
  have h: "?run H_timer (reporting ta L, s) = Inr (?lp2, s)"
    by (simp add: timer_handleRead_def assertInLoopThread_def isInLoopThread_def tid)
  have a2: "alike L ?lp2" by (rule alike_trans [OF reporting_simps(1) queueInLoop_alike])
  have o: "owned ?lp2 ta" using l(3) alike_views(2) [OF a2] by (auto simp: reads_def owned_def)
  let ?lp3 = "(reported ta ?lp2)\<lparr>m_calling_pending_functors := True, m_pending_functors := []\<rparr>"
  have al: "alike L ?lp3" using alike_trans [OF a2 reported_simps(1)] by simp
  have q: "m_pending_functors (reported ta ?lp2) = [Fn_handleTimeoutEvents]" using l(2) by (simp add: rests_def)
  have id: "idle ?lp3" using reported_simps(3) [OF o] by (simp add: idle_def)
  have th: "m_timer_heap ?lp3 = m_timer_heap L" using alike_views(7) [OF al] .
  have rd: "ready ?env (join_conn ?lp3 p s)" by (rule ready_alike [OF al r])
  have hp: "m_min_heap (m_timer_heap ?lp3) = [t]" unfolding th by (rule t(1))
  from timeout_functor [OF rd refl p(1) hp t(2,3) main] obtain c where
    c: "?exec Fn_handleTimeoutEvents (?lp3, s) =
        Inr ((cs_loop c)\<lparr>m_timer_heap := (m_timer_heap L)\<lparr>m_min_heap := []\<rparr>\<rparr>, w\<lparr>sy_conns := (sy_conns w)(a \<mapsto> conn_part_of c)\<rparr>)"
      "goes_down ?env (join_conn ?lp3 p s) c" "cs_sent c = cp_sent p"
      "m_socket (cs_conn c) = (if m_alive (cp_conn p) then m_socket (cp_conn p) else shutdownWrite (m_socket (cp_conn p)))"
    unfolding th w_def [symmetric] by blast
  let ?L' = "(cs_loop c)\<lparr>m_timer_heap := (m_timer_heap L)\<lparr>m_min_heap := []\<rparr>, m_calling_pending_functors := False\<rparr>"
  have ev: "1 < m_events_size (m_epoll L)" using l(2) by (simp add: rests_def)
  have "loop_turn ?run ?exec (Wt_Events [(ta, EPOLLIN)]) (L, s) = Inr (?L', w\<lparr>sy_conns := (sy_conns w)(a \<mapsto> conn_part_of c)\<rparr>)"
    using readable_turn [where run = ?run and exec = ?exec, OF l(3) ev h o] doPendingFunctors_one [OF q, of ?exec s] c(1) by simp
  then have run: "sys_turn e l (Wt_Events [(ta, EPOLLIN)]) s = Inr (put_loop l ?L' (w\<lparr>sy_conns := (sy_conns w)(a \<mapsto> conn_part_of c)\<rparr>))"
    using l(1) by (simp add: sys_turn_def)
  have d: "m_state (cs_conn c) = kDisconnected" "m_channel (cs_conn c) = x" "settled ?env c" "cs_watched c = None" "off (cs_loop c) x"
    "others_watched c = others_watched (join_conn ?lp3 p s)" "same_rest ?lp3 (cs_loop c)" using c(2) p(2) by (auto simp: goes_down_def)
  have "loop_ok (m_tid L) kctl (cs_loop c)" using d(3) k by (simp add: settled_def)
  then have ok: "loop_ok (m_tid L) kctl ?L'" by (auto simp: loop_ok_def)
  have view: "watched ?L' = watched (cs_loop c)" "seen_at ?L' = seen_at (cs_loop c)" "off ?L' x = off (cs_loop c) x"
    by (simp_all add: watched_def seen_at_def off_def fun_eq_iff split: option.split)
  have "(watched (cs_loop c))(x := None) = (watched L)(x := None)"
    using d(2,6) p(2) alike_views(1) [OF al] by (simp add: others_watched_def)
  moreover have "watched (cs_loop c) x = None" using d(2,4) by (simp add: cs_watched_def)
  ultimately have "watched ?L' = (watched L)(x := None)" unfolding view(1) by (metis fun_upd_triv)
  moreover have "seen_at ?L' = seen_at L" unfolding view(2) using seen_at_same_rest [OF d(7)] seen_at_alike [OF al] by simp
  moreover have "rests ?L'"
    using same_rest_simps(2,4,7) [OF d(7)] id alike_views(5) [OF al] l(2) by (simp add: rests_def idle_def)
  moreover have "off ?L' x" using d(5) view(3) by simp
  ultimately show ?thesis using run ok c(3,4) d(1,2) by (intro exI [of _ ?L'] exI [of _ "conn_part_of c"]) (simp del: fun_upd_apply)
qed

subsection \<open>The whole life\<close>

text \<open>What the kernel will deliver to the connection that \<open>n\<close> becomes, when it makes the requests \<open>qs\<close>.\<close>

definition long_visit :: "ctl_kernel \<Rightarrow> new_object \<Rightarrow> request list \<Rightarrow> bool" where
  "long_visit kctl n qs \<longleftrightarrow> no_reads n = rq_reads qs \<and> no_writes n = rq_outs qs \<and> (\<forall>q \<in> set qs. rq_fits kctl q) \<and>
     int (sum_list (map rq_in qs)) < 2 ^ 30 \<and> int (sum_list (map rq_out qs)) < 2 ^ 30"

definition asks_to_stay :: "request \<Rightarrow> bool" where
  "asks_to_stay q \<longleftrightarrow> (\<exists>h \<in> set (rq_headers q). is_connection h)"

text \<open>The turns: accept and establish, one for each request, the timer, remove, destroy.\<close>

definition long_visit_turns ::
  "(nat \<Rightarrow> sys_env) \<Rightarrow> (nat \<Rightarrow> nat) \<Rightarrow> nat \<Rightarrow> system \<Rightarrow> new_object \<Rightarrow> request list \<Rightarrow> (sys_env \<times> nat \<times> sys_wait) list" where
  "long_visit_turns e wk ta s n qs =
     (let m = m_main_loop s; l = next_loop s in
      [(e 0, m, Wt_Events [(m_accept_channel (m_acceptor s), EPOLLIN)]), (e 1, l, Wt_Events [(wk l, EPOLLIN)])] @
      rq_turns l (no_channel n) qs @
      [(e 2, l, Wt_Events [(ta, EPOLLIN)]), (e 3, m, Wt_Events [(wk m, EPOLLIN)]), (e 4, l, Wt_Events [(wk l, EPOLLIN)])])"

lemma sys_turns_append: "sys_turns (ts @ us) s = bind_res (sys_turns ts s) (sys_turns us)"
  by (induction ts arbitrary: s) (auto simp: bind_res_def split: sum.splits)

lemma new_serves:
  assumes "long_visit kctl n qs" "p = (part_of_new e0 name fd n)\<lparr>cp_conn := (cp_conn (part_of_new e0 name fd n))\<lparr>m_state := kConnected\<rparr>\<rparr>"
    and "\<forall>e w. se_kctl e = kctl \<longrightarrow> ready (env_for e (m_tid L) (no_conn n)) (join_conn L p w)" "rests L"
    and "seen_at L (no_channel n) = Some (fd, Some (H_conn (no_conn n) Ev_Read))"
  shows "serves kctl (no_conn n) (no_channel n) fd qs L p" "\<not> m_alive (cp_conn p)" "cp_sent p = []" "m_socket (cp_conn p) = client_socket fd False"
    "\<exists>h \<in> set hs. is_connection h \<Longrightarrow> asks_keep_alive (m_context (cp_conn p)) hs"
proof -
  have "buffer_room (sum_list (map rq_in qs)) new_buffer" "buffer_room (sum_list (map rq_out qs)) new_buffer"
    using assms(1) by (auto intro!: new_buffer_room simp: long_visit_def)
  with assms(1,3-5) show "serves kctl (no_conn n) (no_channel n) fd qs L p"
    by (simp add: serves_def assms(2) long_visit_def)
  show "\<not> m_alive (cp_conn p)" "cp_sent p = []" "m_socket (cp_conn p) = client_socket fd False"
    "\<exists>h \<in> set hs. is_connection h \<Longrightarrow> asks_keep_alive (m_context (cp_conn p)) hs"
    by (simp_all add: assms(2) asks_keep_alive_def)
qed

text \<open>The requests: all are answered, the timer of the first is set.\<close>

lemma requests_served:
  assumes S: "serves kctl a x fd (q # qs) L p" and l: "sv_loops s l = Some L" "sy_conns s a = Some p" "\<not> m_alive (cp_conn p)"
    and q: "asks_keep_alive (m_context (cp_conn p)) (rq_headers q)" "m_min_heap (m_timer_heap L) = []"
  shows "\<exists>L' p'. sys_turns (rq_turns l x (q # qs)) s = Inr (put_loop l L' (s\<lparr>sy_conns := (sy_conns s)(a \<mapsto> p')\<rparr>)) \<and>
    serves kctl a x fd [] L' p' \<and> m_alive (cp_conn p') \<and> cp_sent p' = cp_sent p @ concat (map rq_response (q # qs)) \<and>
    m_socket (cp_conn p') = m_socket (cp_conn p) \<and> m_tid L' = m_tid L \<and> seen_at L' = seen_at L \<and>
    (watched L')(x := None) = (watched L)(x := None) \<and>
    m_min_heap (m_timer_heap L') = [Timer (se_now (rq_env q) + 300) (Fn_closeLongConnection a)]"
proof -
  from keep_turn [OF S l(1,2)] q(1) l(3) obtain L1 p1 where
    t: "sys_turn (rq_env q) l (Wt_Events [(x, EPOLLIN)]) s = Inr (put_loop l L1 (s\<lparr>sy_conns := (sy_conns s)(a \<mapsto> p1)\<rparr>))"
      "serves kctl a x fd qs L1 p1" "m_alive (cp_conn p1)" "cp_sent p1 = cp_sent p @ rq_response q"
      "m_socket (cp_conn p1) = m_socket (cp_conn p)" "m_tid L1 = m_tid L" "seen_at L1 = seen_at L"
      "(watched L1)(x := None) = (watched L)(x := None)"
      "m_timer_heap L1 = addTimerInLoop (se_now (rq_env q)) (Fn_closeLongConnection a) 300 (m_timer_heap L)" by auto
  let ?s1 = "put_loop l L1 (s\<lparr>sy_conns := (sy_conns s)(a \<mapsto> p1)\<rparr>)"
  have "sv_loops ?s1 l = Some L1" "sy_conns ?s1 a = Some p1" by simp_all
  from keep_turns [OF t(2) this t(3)] obtain L' p' where
    r: "sys_turns (rq_turns l x qs) ?s1 = Inr (put_loop l L' (?s1\<lparr>sy_conns := (sy_conns ?s1)(a \<mapsto> p')\<rparr>))"
      "serves kctl a x fd [] L' p'" "m_alive (cp_conn p')" "cp_sent p' = cp_sent p1 @ concat (map rq_response qs)"
      "m_socket (cp_conn p') = m_socket (cp_conn p1)" "m_tid L' = m_tid L1" "seen_at L' = seen_at L1"
      "(watched L')(x := None) = (watched L1)(x := None)" "m_timer_heap L' = m_timer_heap L1" by blast
  have "put_loop l L' (?s1\<lparr>sy_conns := (sy_conns ?s1)(a \<mapsto> p')\<rparr>) = put_loop l L' (s\<lparr>sy_conns := (sy_conns s)(a \<mapsto> p')\<rparr>)"
    by (simp add: fun_upd_upd)
  with r(1) t(1) have "sys_turns (rq_turns l x (q # qs)) s = Inr (put_loop l L' (s\<lparr>sy_conns := (sy_conns s)(a \<mapsto> p')\<rparr>))"
    by (simp add: rq_turns_def)
  moreover have "m_min_heap (m_timer_heap L') = [Timer (se_now (rq_env q) + 300) (Fn_closeLongConnection a)]"
    using r(9) t(9) q(2) by (simp add: addTimerInLoop_def Let_def setTimer_def push_def new_timer_def percolateUp.simps)
  ultimately show ?thesis using r(2-8) t(4-8) by (intro exI [of _ L'] exI [of _ p']) (simp del: fun_upd_apply)
qed

text \<open>From the last request on: the timer, removal, destruction.\<close>

lemma timer_ends_life:
  assumes s: "server_ok tid s" "sv_loops s (m_main_loop s) = Some lm" "rests lm" "reads lm (wk (m_main_loop s)) H_wakeup" "m_tid lm = tid"
    and c: "sv_conns s a = Some c" "cr_loop c = l" and l: "sv_loops s l = Some L" "reads L ta H_timer" "reads L (wk l) H_wakeup" "m_tid L \<noteq> tid"
    and p: "sy_conns s a = Some p" "serves kctl a x fd [] L p" "m_alive (cp_conn p)" "seen_at L x = Some (fd, Some (H_conn a Ev_Read))"
    and h: "m_min_heap (m_timer_heap L) = [Timer due (Fn_closeLongConnection a)]" "due \<le> se_now (e 2)"
    and k: "\<forall>i. se_kctl (e i) = kctl"
  shows "\<exists>s5 p' s6 lm' L'. sys_turns [(e 2, l, Wt_Events [(ta, EPOLLIN)]), (e 3, m_main_loop s, Wt_Events [(wk (m_main_loop s), EPOLLIN)]),
      (e 4, l, Wt_Events [(wk l, EPOLLIN)])] s = Inr s5 \<and> sy_conns s5 a = Some p' \<and> cp_sent p' = cp_sent p \<and>
    drop_conn a s5 = Inr (socket_dtor (m_socket (cp_conn p)), s6) \<and> alike lm lm' \<and> rests lm' \<and>
    sv_loops s6 = (sv_loops s)(m_main_loop s \<mapsto> lm', l \<mapsto> L') \<and> sv_conns s6 = (sv_conns s)(a := None) \<and>
    sy_conns s6 = (sy_conns s)(a := None) \<and> m_connections s6 = (m_connections s)(cr_name c := None) \<and> same_frame s s6 \<and>
    sy_accepts s6 = sy_accepts s \<and> sy_news s6 = sy_news s \<and> m_next_conn_id s6 = m_next_conn_id s \<and> loops_ok tid s6 \<and>
    loop_ok (m_tid L) kctl L' \<and> rests L' \<and> watched L' = (watched L)(x := None) \<and> seen_at L' = (seen_at L)(x := None) \<and>
    m_min_heap (m_timer_heap L') = []"
proof -
  let ?m = "m_main_loop s"
  have ne: "l \<noteq> ?m" using s(1) c pool_not_main unfolding server_ok_def conns_ok_def by blast
  have sv: "rests L" "m_channel (cp_conn p) = x" "ready (env_for (e 2) (m_tid L) a) (join_conn L p s)"
    using p(2) k by (simp_all add: serves_def)
  let ?w = "put_loop ?m (queueInLoop (m_tid L) (Fn_removeConnectionInLoop a) lm) s"
  have tne: "m_tid lm \<noteq> m_tid L" using s(5) l(4) by simp
  have due: "m_cb (Timer due (Fn_closeLongConnection a)) = Fn_closeLongConnection a" "m_expire_time (Timer due (Fn_closeLongConnection a)) \<le> se_now (e 2)"
    using h(2) by simp_all
  from timer_turn [OF l(1) sv(1) l(2) p(1) sv(2,3) k [rule_format, of 2] h(1) due s(2) tne] p(3) obtain L1 p1 where
    t: "sys_turn (e 2) l (Wt_Events [(ta, EPOLLIN)]) s = Inr (put_loop l L1 (?w\<lparr>sy_conns := (sy_conns ?w)(a \<mapsto> p1)\<rparr>))"
      "m_state (cp_conn p1) = kDisconnected" "m_channel (cp_conn p1) = x" "cp_sent p1 = cp_sent p" "m_socket (cp_conn p1) = m_socket (cp_conn p)"
      "loop_ok (m_tid L) kctl L1" "rests L1" "off L1 x" "watched L1 = (watched L)(x := None)" "seen_at L1 = seen_at L"
      "m_timer_heap L1 = (m_timer_heap L)\<lparr>m_min_heap := []\<rparr>" by auto
  define s1 where "s1 = put_loop l L1 (?w\<lparr>sy_conns := (sy_conns ?w)(a \<mapsto> p1)\<rparr>)"
  have tid1: "m_tid L1 = m_tid L" using t(6) by (simp add: loop_ok_def)
  have sel: "sv_loops s1 = (sv_loops s)(?m \<mapsto> queueInLoop (m_tid L) (Fn_removeConnectionInLoop a) lm, l \<mapsto> L1)" "sv_conns s1 = sv_conns s"
    "sy_conns s1 = (sy_conns s)(a \<mapsto> p1)" "m_connections s1 = m_connections s" "m_main_loop s1 = ?m" "sy_accepts s1 = sy_accepts s"
    "sy_news s1 = sy_news s" "m_next_conn_id s1 = m_next_conn_id s" "same_frame s s1"
    by (simp_all add: s1_def same_frame_def)
  have "server_ok tid ?w" using put_loop_ok(3) [OF s(2)] s(1) by simp
  then have "server_ok tid (?w\<lparr>sy_conns := (sy_conns ?w)(a \<mapsto> p1)\<rparr>)" by (simp del: system_fields_simps)
  moreover have wl: "sv_loops (?w\<lparr>sy_conns := (sy_conns ?w)(a \<mapsto> p1)\<rparr>) l = Some L" using l(1) ne by simp
  ultimately have ok1: "server_ok tid s1" unfolding s1_def put_loop_ok(3) [OF wl tid1] by blast
  have main1: "sv_loops s1 (m_main_loop s1) = Some (queueInLoop (m_tid L) (Fn_removeConnectionInLoop a) lm)"
    "reads lm (wk (m_main_loop s1)) H_wakeup" "sv_conns s1 a = Some c" "sy_conns s1 a = Some p1" "sv_loops s1 (cr_loop c) = Some L1"
    using sel ne s(4) c by simp_all
  have rd1: "reads L1 (wk l) H_wakeup" using l(3) t(10) by (simp add: seen_at_views)
  have k4: "se_kctl (e 4) = kctl" using k by simp
  have okL: "loop_ok (m_tid L1) kctl L1" "watched L1 x = None" using t(6,9) tid1 by simp_all
  from visit_ends [OF ok1 main1(1) s(3) main1(2) s(5) main1(3,5) t(7) rd1 k4 main1(4) t(2,3) okL t(8), of "e 3"] obtain s4 s5 s6 lm' L' where
    e: "sys_turn (e 3) (m_main_loop s1) (Wt_Events [(wk (m_main_loop s1), EPOLLIN)]) s1 = Inr s4"
      "sys_turn (e 4) (cr_loop c) (Wt_Events [(wk l, EPOLLIN)]) s4 = Inr s5" "sy_conns s5 a = Some p1"
      "drop_conn a s5 = Inr (socket_dtor (m_socket (cp_conn p1)), s6)" "alike lm lm'" "rests lm'"
      "sv_loops s6 = (sv_loops s1)(m_main_loop s1 \<mapsto> lm', cr_loop c \<mapsto> L')" "sv_conns s6 = (sv_conns s1)(a := None)"
      "sy_conns s6 = (sy_conns s1)(a := None)" "m_connections s6 = (m_connections s1)(cr_name c := None)" "same_frame s1 s6"
      "sy_accepts s6 = sy_accepts s1" "sy_news s6 = sy_news s1" "m_next_conn_id s6 = m_next_conn_id s1" "loops_ok tid s6"
      "loop_ok (m_tid L1) kctl L'" "rests L'" "watched L' = watched L1" "seen_at L' = (seen_at L1)(x := None)" "m_timer_heap L' = m_timer_heap L1"
    by blast
  have run: "sys_turns [(e 2, l, Wt_Events [(ta, EPOLLIN)]), (e 3, ?m, Wt_Events [(wk ?m, EPOLLIN)]), (e 4, l, Wt_Events [(wk l, EPOLLIN)])] s = Inr s5"
    using t(1) [folded s1_def] e(1,2) sel(5) c(2) by simp
  have loops: "sv_loops s6 = (sv_loops s)(?m \<mapsto> lm', l \<mapsto> L')" using e(7) sel(1,5) ne c(2) by (auto simp: fun_eq_iff)
  have "same_frame s s6" by (rule same_frame_trans [OF sel(9) e(11)])
  moreover have "sv_conns s6 = (sv_conns s)(a := None)" "sy_conns s6 = (sy_conns s)(a := None)" "m_connections s6 = (m_connections s)(cr_name c := None)"
    "sy_accepts s6 = sy_accepts s" "sy_news s6 = sy_news s" "m_next_conn_id s6 = m_next_conn_id s"
    using e(8-10,12-14) sel by simp_all
  moreover have "loop_ok (m_tid L) kctl L'" "watched L' = (watched L)(x := None)" "seen_at L' = (seen_at L)(x := None)" "m_min_heap (m_timer_heap L') = []"
    using e(16,18-20) t(9-11) tid1 by simp_all
  ultimately show ?thesis using run e(3-6,15,17) t(4,5) loops
    by (intro exI [of _ s5] exI [of _ p1] exI [of _ s6] exI [of _ lm'] exI [of _ L']) (simp only: simp_thms)
qed

text \<open>Up to the last request.\<close>

lemma long_visit_served:
  assumes W: "sys_waits kctl tid wk s" and k: "\<forall>i. se_kctl (e i) = kctl"
    and A: "sy_accepts s = Ac_Fd fd # Ac_Err EAGAIN # as" "sy_news s = n # news"
    and V: "visitor s fd n" "long_visit kctl n (q # qs)" "asks_to_stay q"
    and lm: "sv_loops s (m_main_loop s) = Some lm" and io: "sv_loops s (next_loop s) = Some io" "m_min_heap (m_timer_heap io) = []"
  defines "name \<equiv> conn_name (m_name s) (m_next_conn_id s)" and "l \<equiv> next_loop s" and "a \<equiv> no_conn n" and "x \<equiv> no_channel n"
  shows "\<exists>s3 lm1 L p. sys_turns ([(e 0, m_main_loop s, Wt_Events [(m_accept_channel (m_acceptor s), EPOLLIN)]), (e 1, l, Wt_Events [(wk l, EPOLLIN)])] @
      rq_turns l x (q # qs)) s = Inr s3 \<and> server_ok tid s3 \<and> same_frame s s3 \<and> alike lm lm1 \<and> rests lm1 \<and>
    sv_loops s3 = (sv_loops s)(m_main_loop s \<mapsto> lm1, l \<mapsto> L) \<and>
    sv_conns s3 = (sv_conns s)(a \<mapsto> \<lparr>cr_name = name, cr_loop = l, cr_fd = fd\<rparr>) \<and> m_connections s3 = (m_connections s)(name \<mapsto> a) \<and>
    sy_conns s3 = (sy_conns s)(a \<mapsto> p) \<and> sy_accepts s3 = as \<and> sy_news s3 = news \<and> m_next_conn_id s3 = m_next_conn_id s + 1 \<and>
    serves kctl a x fd [] L p \<and> m_alive (cp_conn p) \<and> cp_sent p = concat (map rq_response (q # qs)) \<and>
    m_socket (cp_conn p) = client_socket fd False \<and> m_tid L = m_tid io \<and> seen_at L = (seen_at io)(x \<mapsto> (fd, Some (H_conn a Ev_Read))) \<and>
    (watched L)(x := None) = watched io \<and> m_min_heap (m_timer_heap L) = [Timer (se_now (rq_env q) + 300) (Fn_closeLongConnection a)]"
proof -
  let ?m = "m_main_loop s"
  obtain s1 s2 lm1 L p where b: "sys_turn (e 0) ?m (Wt_Events [(m_accept_channel (m_acceptor s), EPOLLIN)]) s = Inr s1"
    "sys_turn (e 1) l (Wt_Events [(wk l, EPOLLIN)]) s1 = Inr s2" "alike lm lm1" "rests lm1" "server_ok tid s2" "same_frame s s2"
    "sv_loops s2 = (sv_loops s)(?m \<mapsto> lm1, l \<mapsto> L)"
    "sv_conns s2 = (sv_conns s)(a \<mapsto> \<lparr>cr_name = name, cr_loop = l, cr_fd = fd\<rparr>)"
    "m_connections s2 = (m_connections s)(name \<mapsto> a)" "sy_conns s2 = (sy_conns s)(a \<mapsto> p)"
    "sy_accepts s2 = as" "sy_news s2 = news" "m_next_conn_id s2 = m_next_conn_id s + 1"
    "p = (part_of_new (e 0) name fd n)\<lparr>cp_conn := (cp_conn (part_of_new (e 0) name fd n))\<lparr>m_state := kConnected\<rparr>\<rparr>"
    "rests L" "m_tid L = m_tid io" "\<forall>e w. se_kctl e = kctl \<longrightarrow> ready (env_for e (m_tid io) a) (join_conn L p w)"
    "(watched L)(x := None) = watched io" "seen_at L = (seen_at io)(x \<mapsto> (fd, Some (H_conn a Ev_Read)))"
    "m_timer_heap L = m_timer_heap io"
    using visit_begins [OF W k [rule_format, of 0] k [rule_format, of 1] A V(1) lm io(1)] unfolding name_def l_def a_def x_def by blast
  have look: "seen_at L x = Some (fd, Some (H_conn a Ev_Read))" using b(19) by simp
  have r: "\<forall>e w. se_kctl e = kctl \<longrightarrow> ready (env_for e (m_tid L) a) (join_conn L p w)" using b(16,17) by simp
  note N = new_serves [OF V(2) b(14) r [unfolded a_def] b(15) look [unfolded a_def x_def], folded a_def x_def]
  have l2: "sv_loops s2 l = Some L" "sy_conns s2 a = Some p" "m_min_heap (m_timer_heap L) = []" using b(7,10,20) io(2) by simp_all
  have stay: "asks_keep_alive (m_context (cp_conn p)) (rq_headers q)" using V(3) by (intro N(5)) (simp add: asks_to_stay_def)
  from requests_served [OF N(1) l2(1,2) N(2) stay l2(3)] obtain L1 p1 where
    t: "sys_turns (rq_turns l x (q # qs)) s2 = Inr (put_loop l L1 (s2\<lparr>sy_conns := (sy_conns s2)(a \<mapsto> p1)\<rparr>))"
      "serves kctl a x fd [] L1 p1" "m_alive (cp_conn p1)" "cp_sent p1 = concat (map rq_response (q # qs))"
      "m_socket (cp_conn p1) = client_socket fd False" "m_tid L1 = m_tid io" "seen_at L1 = seen_at L"
      "(watched L1)(x := None) = watched io" "m_min_heap (m_timer_heap L1) = [Timer (se_now (rq_env q) + 300) (Fn_closeLongConnection a)]"
    unfolding N(3,4) b(16,18) append_Nil by blast
  define s3 where "s3 = put_loop l L1 (s2\<lparr>sy_conns := (sy_conns s2)(a \<mapsto> p1)\<rparr>)"
  have sel: "sv_loops s3 = (sv_loops s)(?m \<mapsto> lm1, l \<mapsto> L1)" "sv_conns s3 = (sv_conns s)(a \<mapsto> \<lparr>cr_name = name, cr_loop = l, cr_fd = fd\<rparr>)"
    "m_connections s3 = (m_connections s)(name \<mapsto> a)" "sy_conns s3 = (sy_conns s)(a \<mapsto> p1)" "same_frame s s3" "sy_accepts s3 = as" "sy_news s3 = news"
    "m_next_conn_id s3 = m_next_conn_id s + 1"
    using b(6-13) by (simp_all add: s3_def same_frame_def)
  have "server_ok tid (s2\<lparr>sy_conns := (sy_conns s2)(a \<mapsto> p1)\<rparr>)" using b(5) by simp
  moreover have "sv_loops (s2\<lparr>sy_conns := (sy_conns s2)(a \<mapsto> p1)\<rparr>) l = Some L" "m_tid L1 = m_tid L" using l2(1) t(6) b(16) by simp_all
  ultimately have ok3: "server_ok tid s3" unfolding s3_def using put_loop_ok(3) by blast
  have "sys_turns ([(e 0, ?m, Wt_Events [(m_accept_channel (m_acceptor s), EPOLLIN)]), (e 1, l, Wt_Events [(wk l, EPOLLIN)])] @ rq_turns l x (q # qs)) s = Inr s3"
    using b(1,2) t(1) [folded s3_def] unfolding sys_turns_append by simp
  with ok3 sel b(3,4,19) t(2-9) show ?thesis by (intro exI [of _ s3] exI [of _ lm1] exI [of _ L1] exI [of _ p1]) (simp only: simp_thms)
qed

lemma long_life_law:
  assumes W: "sys_waits kctl tid wk s" and k: "\<forall>i. se_kctl (e i) = kctl"
    and A: "sy_accepts s = Ac_Fd fd # Ac_Err EAGAIN # as" "sy_news s = n # news"
    and V: "visitor s fd n" "long_visit kctl n (q # qs)" "asks_to_stay q" "se_now (rq_env q) + 300 \<le> se_now (e 2)"
    and T: "\<forall>lp. sv_loops s (next_loop s) = Some lp \<longrightarrow> reads lp ta H_timer \<and> m_min_heap (m_timer_heap lp) = []"
  shows "\<exists>s5 p sock s6. sys_turns (long_visit_turns e wk ta s n (q # qs)) s = Inr s5 \<and> sy_conns s5 (no_conn n) = Some p \<and>
    cp_sent p = concat (map rq_response (q # qs)) \<and> drop_conn (no_conn n) s5 = Inr (sock, s6) \<and>
    sock_calls sock = [Sc_nonblock fd, Sc_tcp_nodelay fd True, Sc_close fd] \<and>
    sys_waits kctl tid wk s6 \<and> same_server s s6 \<and> sy_accepts s6 = as \<and> sy_news s6 = news \<and> m_next_conn_id s6 = m_next_conn_id s + 1"
proof -
  let ?m = "m_main_loop s" and ?l = "next_loop s" and ?a = "no_conn n" and ?x = "no_channel n"
  let ?name = "conn_name (m_name s) (m_next_conn_id s)"
  have ok: "server_ok tid s" using W by (simp add: sys_waits_def)
  then have lin: "?l \<in> set (m_loops (m_pool s))" using next_loop_in [of tid s] by (simp add: server_ok_def)
  then have ne: "?l \<noteq> ?m" using ok pool_not_main [of tid s ?l] by (simp add: server_ok_def)
  obtain lm io where lm: "sv_loops s ?m = Some lm" "loop_ok (m_tid lm) kctl lm" "reads lm (wk ?m) H_wakeup"
    and io: "sv_loops s ?l = Some io" "reads io (wk ?l) H_wakeup" using W lin by (auto simp: sys_waits_def loop_waits_def)
  have ti: "reads io ta H_timer" "m_min_heap (m_timer_heap io) = []" using T io(1) by simp_all
  have tid: "m_tid lm = tid" "m_tid io \<noteq> tid" using ok lm(1) io(1) lin by (auto simp: server_ok_def loops_ok_def)
  have fresh: "sv_conns s ?a = None" "sy_conns s ?a = None" "seen_at io ?x = None" "m_next_conn_id s + 1 < 2 ^ 31"
    using V(1) io(1) by (auto simp: visitor_def seen_at_views(3) [symmetric])
  have name: "(m_connections s)(?name := None) = m_connections s" using with_conn_ok(2) [OF ok fresh(1,4)] by (simp add: fun_upd_idem)
  obtain s3 lm1 L p where b: "sys_turns ([(e 0, ?m, Wt_Events [(m_accept_channel (m_acceptor s), EPOLLIN)]), (e 1, ?l, Wt_Events [(wk ?l, EPOLLIN)])] @
      rq_turns ?l ?x (q # qs)) s = Inr s3" "server_ok tid s3" "same_frame s s3" "alike lm lm1" "rests lm1"
    "sv_loops s3 = (sv_loops s)(?m \<mapsto> lm1, ?l \<mapsto> L)" "sv_conns s3 = (sv_conns s)(?a \<mapsto> \<lparr>cr_name = ?name, cr_loop = ?l, cr_fd = fd\<rparr>)"
    "m_connections s3 = (m_connections s)(?name \<mapsto> ?a)" "sy_conns s3 = (sy_conns s)(?a \<mapsto> p)" "sy_accepts s3 = as" "sy_news s3 = news"
    "m_next_conn_id s3 = m_next_conn_id s + 1" "serves kctl ?a ?x fd [] L p" "m_alive (cp_conn p)" "cp_sent p = concat (map rq_response (q # qs))"
    "m_socket (cp_conn p) = client_socket fd False" "m_tid L = m_tid io" "seen_at L = (seen_at io)(?x \<mapsto> (fd, Some (H_conn ?a Ev_Read)))"
    "(watched L)(?x := None) = watched io" "m_min_heap (m_timer_heap L) = [Timer (se_now (rq_env q) + 300) (Fn_closeLongConnection ?a)]"
    using long_visit_served [where wk = wk, OF W k A V(1-3) lm(1) io(1) ti(2)] by blast
  have main3: "m_main_loop s3 = ?m" using b(3) by (simp add: same_frame_def)
  have wx: "wk ?l \<noteq> ?x" "ta \<noteq> ?x" using fresh(3) io(2) ti(1) by (auto simp: seen_at_views)
  have m3: "sv_loops s3 (m_main_loop s3) = Some lm1" "reads lm1 (wk (m_main_loop s3)) H_wakeup" "m_tid lm1 = tid"
    using main3 b(6) ne lm(3) alike_reads [OF b(4)] alike_views(4) [OF b(4)] tid(1) by simp_all
  have c3: "sv_conns s3 ?a = Some \<lparr>cr_name = ?name, cr_loop = ?l, cr_fd = fd\<rparr>" "sy_conns s3 ?a = Some p" using b(7,9) by simp_all
  have l3: "sv_loops s3 ?l = Some L" "reads L ta H_timer" "reads L (wk ?l) H_wakeup" "m_tid L \<noteq> tid" "seen_at L ?x = Some (fd, Some (H_conn ?a Ev_Read))"
    using b(6,17,18) ti(1) io(2) wx tid(2) by (simp_all add: seen_at_views)
  from timer_ends_life [OF b(2) m3(1) b(5) m3(2,3) c3(1) _ l3(1-4) c3(2) b(13,14) l3(5) b(20) V(4) k] obtain s5 p' s6 lm' L' where
    x: "sys_turns [(e 2, ?l, Wt_Events [(ta, EPOLLIN)]), (e 3, ?m, Wt_Events [(wk ?m, EPOLLIN)]), (e 4, ?l, Wt_Events [(wk ?l, EPOLLIN)])] s3 = Inr s5"
      "sy_conns s5 ?a = Some p'" "cp_sent p' = cp_sent p" "drop_conn ?a s5 = Inr (socket_dtor (m_socket (cp_conn p)), s6)" "alike lm1 lm'" "rests lm'"
      "sv_loops s6 = (sv_loops s3)(?m \<mapsto> lm', ?l \<mapsto> L')" "sv_conns s6 = (sv_conns s3)(?a := None)" "sy_conns s6 = (sy_conns s3)(?a := None)"
      "m_connections s6 = (m_connections s3)(?name := None)" "same_frame s3 s6" "sy_accepts s6 = sy_accepts s3" "sy_news s6 = sy_news s3"
      "m_next_conn_id s6 = m_next_conn_id s3" "loops_ok tid s6" "loop_ok (m_tid L) kctl L'" "rests L'" "watched L' = (watched L)(?x := None)"
      "seen_at L' = (seen_at L)(?x := None)" unfolding main3 by auto
  have run: "sys_turns (long_visit_turns e wk ta s n (q # qs)) s = Inr s5"
    using b(1) x(1) unfolding long_visit_turns_def Let_def append_assoc [symmetric] sys_turns_append by (simp add: bind_res_def)
  have loops: "sv_loops s6 = (sv_loops s)(?m \<mapsto> lm', ?l \<mapsto> L')" using x(7) b(6) ne by (auto simp: fun_eq_iff)
  have L': "loop_ok (m_tid io) kctl L'" "watched L' = watched io" "seen_at L' = seen_at io"
    using x(16,18,19) b(17-19) fresh(3) by (simp_all add: fun_upd_idem)
  have same: "m_connections s6 = m_connections s" "sv_conns s6 = sv_conns s" "sy_conns s6 = sy_conns s"
    using x(8-10) b(7-9) fresh(1,2) name by (simp_all add: fun_upd_idem)
  have i: "m_next_conn_id s6 = m_next_conn_id s + 1" using x(14) b(12) by simp
  note D = visit_done [OF W fresh(4) i io(1) lm(1,2) loops alike_trans [OF b(4) x(5)] x(6) L'(1) x(17) L'(2,3) x(15)
      same_frame_trans [OF b(3) x(11)] same]
  have "sock_calls (socket_dtor (m_socket (cp_conn p))) = [Sc_nonblock fd, Sc_tcp_nodelay fd True, Sc_close fd]"
    unfolding b(16) by (simp add: socket_dtor_def client_socket_def setTcpNoDelay_def setNonBlock_def sock_do_def)
  then show ?thesis using run x(2-4,12,13) b(10,11,15) D i
    by (intro exI [of _ s5] exI [of _ p'] exI [of _ "socket_dtor (m_socket (cp_conn p))"] exI [of _ s6]) simp
qed

text \<open>C11: a kept-alive connection in the whole server. A client connects and makes any number of requests, the
  first with keep-alive, each in any pieces of one readiness event, on a loop without other timers; then its
  300 seconds are over. Every turn runs without a fault: each
  request is answered on the same connection, exactly and in order (but what comes behind a request in the same
  reads, its \<open>rq_extra\<close>, is thrown away), nothing but the timer of the first request closes it, and the server takes it out of its map, destroys it and closes its descriptor once (without a
  shutdown). In the end the server waits as before the connection came.\<close>

theorem keep_alive_life:
  assumes "sys_waits kctl tid wk s" "\<forall>i. se_kctl (e i) = kctl"
    and "sy_accepts s = Ac_Fd fd # Ac_Err EAGAIN # as" "sy_news s = n # news"
    and "visitor s fd n" "long_visit kctl n (q # qs)" "asks_to_stay q" "se_now (rq_env q) + 300 \<le> se_now (e 2)"
    and "\<forall>lp. sv_loops s (next_loop s) = Some lp \<longrightarrow> reads lp ta H_timer \<and> m_min_heap (m_timer_heap lp) = []"
  shows "\<exists>s5 p sock s6. sys_turns (long_visit_turns e wk ta s n (q # qs)) s = Inr s5 \<and> sy_conns s5 (no_conn n) = Some p \<and>
    cp_sent p = concat (map rq_response (q # qs)) \<and> drop_conn (no_conn n) s5 = Inr (sock, s6) \<and>
    sock_calls sock = [Sc_nonblock fd, Sc_tcp_nodelay fd True, Sc_close fd] \<and>
    sys_waits kctl tid wk s6 \<and> same_server s s6 \<and> sy_accepts s6 = as \<and> sy_news s6 = news \<and> m_next_conn_id s6 = m_next_conn_id s + 1"
  by (rule long_life_law [OF assms])

definition demo_stay :: request where
  "demo_stay = \<lparr>rq_env = demo_sys_env, rq_pieces = [Rd_Bytes (render_request GET ''/hello'' HTTP_1_1 [''connection:  keep-alive''])],
     rq_method = GET, rq_uri = ''/hello'', rq_version = HTTP_1_1, rq_headers = [''connection:  keep-alive''], rq_extra = [],
     rq_writes = [Wr_Bytes (length (response_to ''now'' ''/hello'' HTTP_1_1))], rq_stop = Wr_Err EAGAIN\<rparr>"

definition demo_stayer :: "request list \<Rightarrow> new_object" where
  "demo_stayer qs = \<lparr>no_conn = 100, no_channel = 101, no_reads = rq_reads qs, no_writes = rq_outs qs\<rparr>"

lemma demo_stay_fits: "rq_fits documented_kernel demo_stay" "asks_to_stay demo_stay" "rq_in demo_stay < 10000" "rq_out demo_stay < 10000"
proof -
  have r: "rq_response demo_stay = response_to ''now'' ''/hello'' HTTP_1_1" by (simp add: rq_response_def demo_stay_def demo_sys_env_def)
  have "render_request GET ''/hello'' HTTP_1_1 [''connection:  keep-alive''] \<noteq> []"
    using rendered_nonempty [of GET "''/hello''" HTTP_1_1 "[''connection:  keep-alive'']" "[]"] by simp
  with r response_nonempty [of "''now''" "''/hello''" HTTP_1_1] example_headers show "rq_fits documented_kernel demo_stay" "asks_to_stay demo_stay"
    by (simp_all add: rq_fits_def asks_to_stay_def) (simp_all add: demo_stay_def demo_sys_env_def is_word_def wr_stops_def)
  show "rq_in demo_stay < 10000" "rq_out demo_stay < 10000"
    by (simp_all add: rq_in_def rq_out_def demo_stay_def demo_sys_env_def render_request_def render_headers_def method_text_def version_text_def)
qed

theorem keep_alive_life_witness:
  "\<exists>s s5 p. sys_turns (long_visit_turns (\<lambda>_. demo_sys_env\<lparr>se_now := 1300\<rparr>) (\<lambda>_. 11) 10 s (demo_stayer [demo_stay, demo_stay]) [demo_stay, demo_stay]) s = Inr s5 \<and>
    sy_conns s5 100 = Some p \<and> cp_sent p = response_to ''now'' ''/hello'' HTTP_1_1 @ response_to ''now'' ''/hello'' HTTP_1_1"
proof -
  let ?qs = "[demo_stay, demo_stay]" and ?n = "demo_stayer [demo_stay, demo_stay]" and ?e = "\<lambda>_ :: nat. demo_sys_env\<lparr>se_now := 1300\<rparr>"
  obtain r where r: "server_begin 1 r" "sys_waits documented_kernel 1 (\<lambda>_. 11) (th_sys r)" "m_next_conn_id (th_sys r) = 1"
    "\<forall>l \<in> set (m_loops (m_pool (th_sys r))). \<forall>lp. sv_loops (th_sys r) l = Some lp \<longrightarrow>
      seen_at lp = [10 \<mapsto> (3, Some H_timer), 11 \<mapsto> (4, Some H_wakeup)]" using demo_begins by blast
  let ?s = "(th_sys r)\<lparr>sy_accepts := Ac_Fd 7 # Ac_Err EAGAIN # [], sy_news := ?n # []\<rparr>"
  have W: "sys_waits documented_kernel 1 (\<lambda>_. 11) ?s" using r(2) by (simp add: sys_waits_def loop_waits_def)
  have nl: "next_loop ?s = next_loop (th_sys r)" "next_loop (th_sys r) \<in> set (m_loops (m_pool (th_sys r)))"
    using next_loop_in [of 1 "th_sys r"] r(2) by (simp_all add: next_loop_def sys_waits_def server_ok_def)
  have seen: "seen_at lp = [10 \<mapsto> (3, Some H_timer), 11 \<mapsto> (4, Some H_wakeup)] \<and> unused_loop lp" if "sv_loops ?s (next_loop ?s) = Some lp" for lp
    using that nl r(1,4) by (auto simp: server_begin_def)
  have T: "\<forall>lp. sv_loops ?s (next_loop ?s) = Some lp \<longrightarrow> reads lp 10 H_timer \<and> m_min_heap (m_timer_heap lp) = []"
    using seen by (auto simp: seen_at_views unused_loop_def timer_cbs_def)
  have V: "visitor ?s 7 ?n"
    using seen r(1,3) by (auto simp: visitor_def server_begin_def demo_stayer_def fd_ok_def MAXFD_def seen_at_views split: if_splits)
  have L: "long_visit documented_kernel ?n ?qs" using demo_stay_fits by (simp add: long_visit_def demo_stayer_def)
  have n: "no_conn ?n = 100" "concat (map rq_response ?qs) = response_to ''now'' ''/hello'' HTTP_1_1 @ response_to ''now'' ''/hello'' HTTP_1_1"
    by (simp_all add: demo_stayer_def rq_response_def demo_stay_def demo_sys_env_def)
  have k: "\<forall>i. se_kctl (?e i) = documented_kernel" "se_now (rq_env demo_stay) + 300 \<le> se_now (?e 2)" by (simp_all add: demo_sys_env_def demo_stay_def)
  have A: "sy_accepts ?s = Ac_Fd 7 # Ac_Err EAGAIN # []" "sy_news ?s = ?n # []" by simp_all
  show ?thesis using keep_alive_life [OF W k(1) A V L demo_stay_fits(2) k(2) T] unfolding n by blast
qed

end
