(* ===== verification/Spec2Isabelle.thy ===== *)
theory Spec2Isabelle
  imports Buffer HttpContext HttpSpec TimerHeap Channel Epoll EventLoop LoopRegistry LoopFunctors CountFd Acceptor
    TcpConnection TcpSpec TcpServer LogStream Logging LogFile AsyncLog GlobalLog Threads Monitor
    LoopTurns ServerSystem ServerTurns ServerStart ServerLife
    ConnEffects ConnMemory ServerLedger ServerSteps ServerRuns ServerThreads ServerMemory ServerKept TurnMoves ServerSafety ServerEvents
    ServerOwnership ServerDefined ServerKeepAlive
begin

text \<open>
  A model of wserver, an epoll-based HTTP server in C++, and the theorems that make it correct.

  \<^bold>\<open>The program.\<close> \<open>main\<close> builds an \<open>EventLoop\<close> and a \<open>TcpServer\<close> and runs the loop. The server's
  \<open>Acceptor\<close> listens in the main loop; each accepted descriptor becomes a \<open>TcpConnection\<close>, which the server
  enters in its map and hands to one of the loops of its \<open>EventLoopThreadPool\<close>, each of which runs in a thread
  of its own. A loop waits in its \<open>Epoll\<close>, calls the handlers of the \<open>Channel\<close>s that are ready, and then the
  functors that were queued for it, from its own or other threads (which wake it through an eventfd).
  Timers live in a \<open>TimerHeap\<close> behind one timerfd. A connection reads into a \<open>Buffer\<close>, lets its
  \<open>HttpContext\<close> parse the request and write the response into another \<open>Buffer\<close>, and sends that. All parts
  write log lines through \<open>Logger\<close> and \<open>LogStream\<close>; \<open>AsyncLog\<close> hands them to a thread that writes them with
  \<open>LogFile\<close> and \<open>AppendFile\<close>.

  \<^bold>\<open>How it is modelled.\<close> A class is a record of its members, an enum a datatype, a method a function from
  the state to \<open>fault + state\<close> (theory Prelude): every \<open>LOG_FATAL\<close> and failed assertion is \<open>Process_Abort\<close>,
  every use of memory or of an object that is not there \<open>Undefined_Behaviour\<close>, a loop of the code that
  never ends \<open>Endless_Loop\<close>. Objects that are reached through pointers (channels, connections, loops)
  live in maps from addresses (numbers). The kernel is not modelled but asked: \<open>read\<close>, \<open>write\<close>, \<open>accept\<close>,
  \<open>epoll_wait\<close>, \<open>fwrite\<close> take their answers from a list, a script, in the order of the calls, and the
  theorems hold for every script (or say for which); a script that ends before the code stops asking gives
  \<open>Script_Exhausted\<close>, which no theorem takes for a return. What the kernel does with \<open>epoll_ctl\<close> is a
  parameter \<open>kctl\<close>; \<open>kernel_obeys\<close> states what its manual page promises, and \<open>documented_kernel\<close> is
  an instance. \<open>int\<close> and \<open>size_t\<close> are integers with their conversions written out (\<open>int32\<close>, \<open>size64\<close>), event
  masks are 32-bit words. Call backs and functors are values; the function that runs them is an argument, and
  the theory that knows them instantiates it: \<open>conn_exec\<close> for one connection, \<open>sys_handler\<close> and \<open>sys_functor\<close> for the
  whole server.

  \<^bold>\<open>The theories, from the bottom.\<close>

  \<^item> Prelude: faults and the result type, integer conversions, byte arrays, C strings, the
    kernel's answers; \<open>safe P r\<close> (the result \<open>r\<close> is not undefined behaviour, and a state it returns satisfies
    \<open>P\<close>) with a rule per control structure; the locales \<open>safety_machine\<close> (an invariant of a step relation) and
    \<open>byte_sink\<close> (what an append operation promises).
  \<^item> Buffer (Buffer.h, Buffer.cpp): the vector with its two indices. \<open>content\<close>, the queue of unread bytes,
    is the abstraction; \<open>buffer_room\<close> the room below 2^31 bytes. Each operation is shown to act on the
    queue within bounds; \<open>readFromFd\<close> and \<open>writeToFd\<close> under every script (\<open>Wr_Bytes n\<close>: the socket takes what it
    is given, up to \<open>n\<close> bytes). Its \<open>byte_sink\<close> is \<open>buf\<close>.
  \<^item> HttpContext (HttpContext.h, HttpContext.cpp): the parser's state machine, the response and \<open>work\<close>.
    HttpSpec: what they compute over plain text (\<open>handle_text\<close>), that parsing inverts rendering, in one or
    many pieces, the exact condition under which the parser never returns, what each end state implies.
  \<^item> TimerHeap (Timer.h, TimerHeap.h, TimerHeap.cpp): the binary heap, its invariant, the exact set of
    timers that run, and when the one timerfd is armed.
  \<^item> Channel (Channel.h, Channel.cpp), Epoll (Epoll.h, Epoll.cpp): masks, dispatch, the poller's map and its
    \<open>epoll_ctl\<close> calls, with the invariant that ties channels, map and kernel together (\<open>epoll_inv\<close>).
  \<^item> EventLoop (EventLoop.h, EventLoop.cpp, the rest of Channel.cpp and TimerHeap.cpp): the loop's members, its
    registry, queue, timers, one turn and the loop itself. LoopRegistry: \<open>loop_ok\<close> and \<open>watched\<close>, the mask the
    kernel watches, and the locale \<open>event_registry\<close>, the contract with the owners of channels, interpreted
    on the model's operations. LoopFunctors: the wake-up protocol between threads as a step relation.
    CountFd: the same protocol read by read and write by write of the eventfd, over the kernel's counter
    (\<open>counter_obeys\<close>), and that the reading loops of EventLoop and TimerHeap end.
  \<^item> Acceptor (Socket.h, Socket.cpp, Acceptor.h, Acceptor.cpp): the socket calls, the classification of the
    errors of \<open>accept\<close>, the accept loop, the acceptor's life.
  \<^item> TcpConnection (TcpConnection.h, TcpConnection.cpp): life cycle and handlers over
    the loop, the connection, the scripts of its descriptor and the rest of the world. TcpSpec: a law per
    operation, the life cycle as a step relation, whole exchanges with a client, and what goes wrong.
  \<^item> TcpServer (TcpServer.h, TcpServer.cpp, EventLoopThreadPool.h, EventLoopThreadPool.cpp): the connection
    map and the pool; \<open>server_ok\<close> is its invariant.
  \<^item> LoopTurns, ServerSystem, ServerTurns, ServerStart, ServerLife: the server as a whole. \<open>system\<close> extends the
    record of the server by the acceptor, the connections and what kernel and allocator will answer; \<open>sys_turn\<close> is
    one turn of one loop, with every handler and functor that the code binds. LoopTurns has the turns of a loop
    that handles one event or one functor, ServerTurns the turns a connection goes through, ServerStart how
    the server comes up, ServerLife the whole life of a connection, once and again.
  \<^item> ConnEffects to ServerOwnership: the server under every interleaving of its threads and every answer of the
    kernel. ServerThreads has the steps: \<open>loop_move\<close> is \<open>EventLoop::loop\<close> with \<open>doPendingFunctors\<close>, cut where another
    thread can come between (one handled channel or one called functor is a step); \<open>server_step\<close> adds the
    answers of the kernel and the destructor that runs when the last owner of a connection leaves. ServerLedger
    states the invariant: \<open>well_typed\<close> (who may refer to what) and the five phases of a connection; ConnEffects,
    ServerSteps and ServerRuns show that each handler, functor and loop of the code keeps it, ServerThreads that
    each step does, TurnMoves that a turn of ServerSystem is a run of such steps, ServerSafety that the
    started server satisfies it (the locale \<open>safety_machine\<close> on \<open>server_step\<close>). ServerOwnership has what follows: no
    reference dangles, a connection's life goes one way, the destructor is safe. ServerKeepAlive has the life of a
    kept-alive connection, up to the timer that closes it.
  \<^item> ConnMemory, ServerMemory, ServerKept, ServerEvents, ServerDefined: memory safety of the server under the same
    interleavings. ConnMemory shows it of each handler of a connection that is \<open>fed\<close> (its buffers have room for what
    is still to come), ServerMemory of each handler, functor, timer and removal in every state of the
    invariant. ServerKept states what each of them leaves alone, for the channels that other loops are still
    handling. ServerEvents has the steps with clients that keep to the bounds (\<open>served_step\<close>; \<open>epoll_wait\<close> may report
    anything) and their invariant, and the steps of all threads while one loop handles events
    (\<open>dispatching_step\<close>). ServerDefined has the properties: the next step of a loop is undefined exactly when it follows
    a pointer to a channel that is gone (\<open>stale_channel\<close>), and no connection goes while its loop handles events.
  \<^item> LogStream (base/LogStream.h, base/LogStream.cpp), Logging (base/Logging.h, base/Logging.cpp,
    base/timeUtils.cpp, base/CurrentThread.cpp), LogFile (base/FileUtil.cpp, base/LogFile.cpp), AsyncLog
    (base/AsyncLog.h, base/AsyncLog.cpp): the log from the statement to the file; the buffers and the file are
    \<open>byte_sink\<close>s (\<open>fbuf\<close>, \<open>alog\<close>, \<open>logf\<close>), the two threads of AsyncLog a step relation with its invariant.
    GlobalLog: the one log that a process makes with its first line, and all its log statements.
  \<^item> Threads (base/CountDownLatch.cpp, base/Condition.h, Thread.cpp, EventLoopThread.cpp): the
    handshake by which \<open>startLoop\<close> gets the loop of the new thread, in every interleaving. Monitor (base/Mutex.h,
    base/Condition.h): the latch lock by lock, and that its critical sections are the single steps of Threads.
  \<^item> This theory: \<open>main\<close> (main.cpp), which starts the whole server.

  \<^bold>\<open>Bounds and fuel.\<close> There is no fuel: loops over a script recurse on the script, all other loops
  on a measure or as \<open>partial_function (option)\<close>, where not ending is a value. Buffers are taken to stay below
  2^31 bytes (\<open>buffer_room\<close>, \<open>log_room\<close>), for the code keeps their sizes in an \<open>int\<close>; descriptors are below 2^31
  and fewer than 2^31 connections are accepted, beyond which the code's counter overflows. \<open>served_step\<close> takes each client
  to send fewer than 2^31 - 1024 bytes, in fewer than six million pieces (\<open>modest\<close>: the output buffer must hold a
  response of at most 350 bytes for each), and the time stamp of a response to have at most 100 characters;
  \<open>demo_dispatches\<close> is a run of such steps. What \<open>epoll_wait\<close> reports is not bounded. A visit in ServerLife has
  one event per turn, a request below 2^29 bytes, and a connection loop that is not the main loop. The demo
  states of the witnesses are small instances of these bounds.

  \<^bold>\<open>Where the code does not do what it means to\<close>, the model follows the code and a theorem states the
  consequence, for example \<open>peer_reset_aborts\<close>, \<open>blocked_keep_alive_hangs\<close>, \<open>remove_while_watched\<close>,
  \<open>append_overruns\<close>, \<open>fatal_line_lost\<close>, \<open>log_start_failure_hangs\<close>, \<open>timerfd_starves\<close>.

  \<^bold>\<open>Not modelled.\<close> The client, the test drivers and webbench (a benchmark in C, not part of the
  server); the marker class noncopyable; failures of the pthread calls
  inside \<open>MutexLock\<close> and \<open>Condition\<close>; the order of unprotected memory accesses (outside of Monitor, a critical section
  is one step of the relation that uses it); \<open>setOutputFunc\<close> and \<open>setFlushFunc\<close>, which nothing calls; exceptions out of a thread function,
  which only abort; \<open>getSocketError\<close> and \<open>strerror_r\<close>, which feed log lines; \<open>setLinger\<close>, which is
  empty. Log statements in the middle of other code (the \<open>LOG_ERROR\<close>s of TcpConnection, Buffer, Epoll and Socket among them) are left out
  of its model except where they abort: what they do is the subject of GlobalLog, and that one of them can be
  undefined behaviour inside of the log is \<open>append_overruns\<close>. The
  number of owners of a connection is not counted: its destructor is run where the last of them goes, which \<open>unowned\<close>
  tells from what the server holds. The interleavings have handlers and functors as single steps, and so is the destructor of a connection. It takes the
  channel away but not what the poller's table or the kernel may still say of it: \<open>remove_while_watched\<close> shows how a
  pointer can be left in the kernel when a watched channel is removed, and \<open>undefined_only_by_stale_channel\<close> what comes
  of it when it is reported.
\<close>

subsection \<open>The main function\<close>

text \<open>The log of the process, after the first statement of \<open>main\<close>.\<close>

definition main_log :: log_process where
  "main_log = setLogLevel ERROR new_process"

text \<open>
  Everything of \<open>main\<close> (main.cpp) before it enters its loop. The main loop has the address 1; \<open>timer_ch\<close>,
  \<open>wakeup_ch\<close> and \<open>listen_ch\<close> are the addresses and descriptors of its channels, \<open>accepts\<close> and \<open>news\<close> what the
  kernel and the allocator will answer to the running server.
\<close>

definition main_program ::
  "bool \<Rightarrow> sys_env \<Rightarrow> nat \<Rightarrow> nat \<times> int \<Rightarrow> nat \<times> int \<Rightarrow> nat \<times> int \<Rightarrow> (nat \<Rightarrow> nat \<times> io_loop) \<Rightarrow>
    sys_accept list \<Rightarrow> new_object list \<Rightarrow> system res" where
  "main_program u e tid timer_ch wakeup_ch listen_ch new_loops accepts news =
     bind_res (new_loop u (se_kctl e) 1 tid None (fst timer_ch, snd timer_ch, H_timer) (fst wakeup_ch, snd wakeup_ch, H_wakeup)) (\<lambda>lp.
     sys_start e new_loops tid (new_system u 1 lp ''myserver'' (snd listen_ch) (fst listen_ch) True accepts news))"

text \<open>C39: \<open>main\<close> comes up. Its loop is built and, with the loops that the threads of the pool built for
  themselves, the server starts: it waits, ready for visits, has four loops and no connection, its main
  loop watches the timer, the wake-up and the listening descriptor and nothing else, and of the log
  statements only those of ERROR and FATAL print. It is a start in the sense of the theory ServerSafety, so
  whatever its threads do from then on, no reference dangles and each connection lives its life once.\<close>

theorem main_comes_up:
  assumes "kernel_obeys (se_kctl e)" "distinct [ta, wa, la]" "distinct [tfd, wfd, lfd]" "wk 1 = wa"
    and "pool_loops (se_kctl e) 1 tid wk new_loops" "\<forall>j. unused_loop (snd (new_loops j))"
  shows "\<exists>t lp. main_program u e tid (ta, tfd) (wa, wfd) (la, lfd) new_loops accepts news = Inr t \<and>
    sys_waits (se_kctl e) tid wk t \<and> m_started t \<and> m_loops (m_pool t) = map (\<lambda>j. fst (new_loops j)) [0..<4] \<and>
    sv_loops t 1 = Some lp \<and> watched lp = [ta \<mapsto> kReadEvent, wa \<mapsto> kReadEvent, la \<mapsto> kReadEvent] \<and>
    m_listenning (m_acceptor t) \<and> sy_conns t = Map.empty \<and> m_connections t = Map.empty \<and>
    (\<forall>level. log_enabled (g_loglevel main_log) level = (ERROR \<le> level)) \<and>
    server_begin tid \<lparr>th_sys = t\<lparr>sy_news := []\<rparr>, th_pc = \<lambda>_. In_Poll\<rparr>"
proof -
  have d: "ta \<noteq> wa" "tfd \<noteq> wfd" using assms(2,3) by simp_all
  obtain lp :: io_loop where lp: "new_loop u (se_kctl e) 1 tid None (ta, tfd, H_timer) (wa, wfd, H_wakeup) = Inr lp"
    using new_loop_round_trip [OF assms(1) d, of u 1 tid H_timer H_wakeup] by blast
  note B = built_loop [OF assms(1) d lp]
  have m: "reads lp (wk 1) H_wakeup" "seen_at lp la = None" "\<not> fd_used lp lfd" using B(4,6,7) assms(2-4) by auto
  have levels: "log_enabled (g_loglevel main_log) level = (ERROR \<le> level)" for level
    by (cases level) (simp_all add: log_enabled_def main_log_def setLogLevel_def less_eq_log_level_def)
  from system_starts_law [OF B(1,3) m assms(5), of u "''myserver''" True accepts news] obtain t lp2 where
    t: "sys_start e new_loops tid (new_system u 1 lp ''myserver'' lfd la True accepts news) = Inr t" "sys_waits (se_kctl e) tid wk t"
      "m_started t" "m_loops (m_pool t) = map (\<lambda>j. fst (new_loops j)) [0..<4]" "sv_loops t 1 = Some lp2"
      "watched lp2 = (watched lp)(la \<mapsto> kReadEvent)" "m_listenning (m_acceptor t)" "sy_conns t = Map.empty" "m_connections t = Map.empty" by blast
  have "main_program u e tid (ta, tfd) (wa, wfd) (la, lfd) new_loops accepts news = Inr t" using lp t(1) by (simp add: main_program_def)
  moreover have "watched lp2 = [ta \<mapsto> kReadEvent, wa \<mapsto> kReadEvent, la \<mapsto> kReadEvent]" using t(6) B(5) by simp
  moreover have "server_begin tid \<lparr>th_sys = t\<lparr>sy_news := []\<rparr>, th_pc = \<lambda>_. In_Poll\<rparr>"
    by (rule started_begin [OF B(1,3) m assms(5) unused_new_loop [OF lp] assms(6) t(1)])
  ultimately show ?thesis using t(2-9) levels by blast
qed

theorem main_comes_up_witness:
  "\<exists>new_loops t. main_program True demo_sys_env 1 (10, 3) (11, 4) (12, 5) new_loops [] [] = Inr t \<and>
    sys_waits documented_kernel 1 (\<lambda>_. 11) t \<and> server_begin 1 \<lparr>th_sys = t\<lparr>sy_news := []\<rparr>, th_pc = \<lambda>_. In_Poll\<rparr>"
proof -
  obtain new_loops where p: "demo_pool new_loops" using demo_pool_ex by blast
  have k: "se_kctl demo_sys_env = documented_kernel" by (simp add: demo_sys_env_def)
  have d: "kernel_obeys (se_kctl demo_sys_env)" "distinct [10 :: nat, 11, 12]" "distinct [3 :: int, 4, 5]" "(\<lambda>_ :: nat. 11 :: nat) 1 = 11"
    "pool_loops (se_kctl demo_sys_env) 1 1 (\<lambda>_. 11) new_loops" using demo_pool_loops(1) [OF p] by (simp_all add: k)
  have un: "\<forall>j. unused_loop (snd (new_loops j))" using p unused_new_loop unfolding demo_pool_def by blast
  show ?thesis using main_comes_up [OF d un, of True "[]" "[]"] unfolding k by blast
qed

end
